(* ===== verification/Gargantua_Prelude.thy ===== *)
theory Gargantua_Prelude
  imports Main "HOL-Library.Word"
begin

text \<open>
  Shared vocabulary of the Gargantua development: the C types the sources use
  (\<open>size_t\<close> as a 64-bit word, \<open>char\<close> arrays as \<open>char list\<close>), the part of the C library
  the sources call on strings (\<open>strlen\<close>/\<open>strchr\<close>/\<open>strncasecmp\<close>/\<open>isspace\<close>), and the
  generic facts on lists, options and words that the component theories use.
\<close>

unbundle bit_operations_syntax

named_theorems result_iff \<open>inversion of successful results of the model's operations\<close>
named_theorems step_defs \<open>definitions of single steps, for the preservation proofs\<close>

section \<open>Results that may fail\<close>

text \<open>Sequencing of operations that return an error or a value.\<close>

fun ebind :: "'e + 'a \<Rightarrow> ('a \<Rightarrow> 'e + 'b) \<Rightarrow> 'e + 'b" where
  "ebind (Inl e) f = Inl e"
| "ebind (Inr x) f = f x"

lemma ebind_Inr_iff [result_iff]: "ebind m f = Inr y \<longleftrightarrow> (\<exists>x. m = Inr x \<and> f x = Inr y)"
  by (cases m) auto

lemma ebind_Inl_iff: "ebind m f = Inl e \<longleftrightarrow> m = Inl e \<or> (\<exists>x. m = Inr x \<and> f x = Inl e)"
  by (cases m) auto

section \<open>Machine words\<close>

type_synonym size_t = "64 word"

abbreviation SIZE_MAX :: size_t where
  "SIZE_MAX \<equiv> - 1"

abbreviation INT_MAX :: nat where
  "INT_MAX \<equiv> 2147483647"

lemma unat_add_no_wrap:
  fixes a b :: size_t
  assumes "unat a + unat b < 2 ^ 64"
  shows "unat (a + b) = unat a + unat b"
  using assms by (simp add: unat_word_ariths)

lemma unat_sub_no_wrap:
  fixes a b :: size_t
  assumes "b \<le> a"
  shows "unat (a - b) = unat a - unat b"
  using assms by (rule unat_sub)

lemma unat_double_no_wrap:
  fixes a m :: size_t
  assumes "a \<le> m div 2"
  shows "unat (a * 2) = 2 * unat a" and "a * 2 \<le> m"
proof -
  have le: "unat a \<le> unat m div 2"
    using assms by (simp add: word_le_nat_alt unat_div)
  have "unat m < 2 ^ 64"
    using unsigned_less [of m, where 'a = nat] by simp
  with le show eq: "unat (a * 2) = 2 * unat a"
    by (simp add: unat_word_ariths)
  from le have "2 * unat a \<le> unat m" by linarith
  with eq show "a * 2 \<le> m"
    by (simp add: word_le_nat_alt)
qed

lemma doubling_progress:
  fixes newcap need mx :: size_t
  assumes "newcap < need" "\<not> mx div 2 < newcap" "newcap \<noteq> 0"
  shows "unat need - unat (newcap * 2) < unat need - unat newcap"
proof -
  from assms(2) have "unat (newcap * 2) = 2 * unat newcap"
    by (intro unat_double_no_wrap [of _ mx]) simp
  moreover from assms(1) have "unat newcap < unat need"
    by (simp add: word_less_nat_alt)
  moreover from assms(3) have "0 < unat newcap"
    by (simp add: unat_gt_0)
  ultimately show ?thesis by linarith
qed

lemma and_not_15: "(x :: size_t) AND NOT 15 = push_bit 4 (drop_bit 4 x)"
proof -
  have m: "(15 :: size_t) = mask 4" by (simp add: mask_eq_exp_minus_1)
  show ?thesis
    unfolding m by (rule bit_word_eqI) (auto simp: bit_simps)
qed

lemma unat_and_not_15: "unat ((x :: size_t) AND NOT 15) = unat x div 16 * 16"
proof -
  have "unat x < 2 ^ 64"
    using unsigned_less [of x, where 'a = nat] by simp
  then have "unat x div 16 * 16 < 2 ^ 64" by linarith
  then show ?thesis
    unfolding and_not_15
    by (simp add: push_bit_eq_mult drop_bit_eq_div unat_word_ariths unat_div)
qed

section \<open>Bytes and C strings\<close>

abbreviation NUL :: char where "NUL \<equiv> CHR 0x00"
abbreviation TAB :: char where "TAB \<equiv> CHR 0x09"
abbreviation LF :: char where "LF \<equiv> CHR 0x0A"
abbreviation CR :: char where "CR \<equiv> CHR 0x0D"
abbreviation SPC :: char where "SPC \<equiv> CHR 0x20"
abbreviation DQUOTE :: char where "DQUOTE \<equiv> CHR 0x22"
abbreviation BSLASH :: char where "BSLASH \<equiv> CHR 0x5C"

text \<open>The value of a byte, \<open>(unsigned char)c\<close>.\<close>

definition byte :: "char \<Rightarrow> nat" where
  "byte c = of_char c"

lemma byte_less [simp]: "byte c < 256"
  by (simp add: byte_def)

lemma byte_inj [simp]: "byte c = byte d \<longleftrightarrow> c = d"
  by (simp add: byte_def)

text \<open>The C string held by a char array: what precedes the first NUL.\<close>

definition cstr :: "string \<Rightarrow> string" where
  "cstr s = takeWhile (\<lambda>c. c \<noteq> NUL) s"

lemma NUL_notin_cstr [simp]: "NUL \<notin> set (cstr s)"
  by (auto simp: cstr_def dest: set_takeWhileD)

lemma cstr_id: "NUL \<notin> set s \<Longrightarrow> cstr s = s"
  by (auto simp: cstr_def takeWhile_eq_all_conv)

lemma cstr_cstr [simp]: "cstr (cstr s) = cstr s"
  by (simp add: cstr_id)

lemma length_cstr_le: "length (cstr s) \<le> length s"
  by (simp add: cstr_def length_takeWhile_le)

lemma set_cstr: "set (cstr s) \<subseteq> set s"
  by (auto simp: cstr_def dest: set_takeWhileD)

text \<open>Character classes of the C locale.\<close>

definition is_digit :: "char \<Rightarrow> bool" where
  "is_digit c \<longleftrightarrow> 48 \<le> byte c \<and> byte c \<le> 57"

definition is_upper :: "char \<Rightarrow> bool" where
  "is_upper c \<longleftrightarrow> 65 \<le> byte c \<and> byte c \<le> 90"

definition is_lower :: "char \<Rightarrow> bool" where
  "is_lower c \<longleftrightarrow> 97 \<le> byte c \<and> byte c \<le> 122"

definition isspace :: "char \<Rightarrow> bool" where
  "isspace c \<longleftrightarrow> byte c = 32 \<or> (9 \<le> byte c \<and> byte c \<le> 13)"

definition digit_val :: "char \<Rightarrow> nat" where
  "digit_val c = byte c - 48"

lemma digit_val_less: "is_digit c \<Longrightarrow> digit_val c < 10"
  by (auto simp: is_digit_def digit_val_def)

definition tolower :: "char \<Rightarrow> char" where
  "tolower c = (if is_upper c then char_of (byte c + 32) else c)"

definition toupper :: "char \<Rightarrow> char" where
  "toupper c = (if is_lower c then char_of (byte c - 32) else c)"

text \<open>\<open>strncasecmp(a, b, n) == 0\<close> for two slices of \<open>n\<close> bytes.\<close>

definition ci_eq :: "string \<Rightarrow> string \<Rightarrow> bool" where
  "ci_eq a b \<longleftrightarrow> map tolower a = map tolower b"

lemma ci_eq_refl [simp]: "ci_eq a a"
  by (simp add: ci_eq_def)

lemma ci_eq_sym: "ci_eq a b \<Longrightarrow> ci_eq b a"
  by (simp add: ci_eq_def)

lemma ci_eq_trans: "ci_eq a b \<Longrightarrow> ci_eq b c \<Longrightarrow> ci_eq a c"
  by (simp add: ci_eq_def)

lemma ci_eq_length: "ci_eq a b \<Longrightarrow> length a = length b"
  unfolding ci_eq_def by (metis length_map)

text \<open>The blanks HTTP lists skip: space and tab.\<close>

definition is_blank :: "char \<Rightarrow> bool" where
  "is_blank c \<longleftrightarrow> c = SPC \<or> c = TAB"

text \<open>Removing trailing characters, the \<open>while (len > 0 && p(s[len-1])) len--\<close> loops.\<close>

definition rstrip :: "('a \<Rightarrow> bool) \<Rightarrow> 'a list \<Rightarrow> 'a list" where
  "rstrip p s = rev (dropWhile p (rev s))"

lemma rstrip_Nil [simp]: "rstrip p [] = []"
  by (simp add: rstrip_def)

lemma rstrip_last: "rstrip p s \<noteq> [] \<Longrightarrow> \<not> p (last (rstrip p s))"
  by (metis hd_dropWhile last_rev rev_is_Nil_conv rev_rev_ident rstrip_def)

lemma rstrip_prefix: "\<exists>t. rstrip p s @ t = s \<and> (\<forall>c \<in> set t. p c)"
proof -
  have "rev s = takeWhile p (rev s) @ dropWhile p (rev s)" by simp
  then have "rstrip p s @ rev (takeWhile p (rev s)) = s"
    by (metis rev_append rev_rev_ident rstrip_def)
  then show ?thesis
    by (metis set_rev set_takeWhileD)
qed

lemma rstrip_id: "s = [] \<or> \<not> p (last s) \<Longrightarrow> rstrip p s = s"
  by (cases s rule: rev_cases) (auto simp: rstrip_def)

lemma rstrip_snoc [simp]: "p x \<Longrightarrow> rstrip p (s @ [x]) = rstrip p s"
  by (simp add: rstrip_def)

lemma set_rstrip: "set (rstrip p s) \<subseteq> set s"
  by (metis rstrip_def set_dropWhileD set_rev subsetI)

lemma length_rstrip_le: "length (rstrip p s) \<le> length s"
  unfolding rstrip_def by (metis length_dropWhile_le length_rev)

section \<open>Lists\<close>

text \<open>\<open>strchr\<close> and friends: the list split at the first element satisfying \<open>p\<close>.\<close>

definition split_at :: "('a \<Rightarrow> bool) \<Rightarrow> 'a list \<Rightarrow> 'a list \<times> 'a list option" where
  "split_at p s =
     (case dropWhile (\<lambda>c. \<not> p c) s of
        [] \<Rightarrow> (s, None)
      | _ # r \<Rightarrow> (takeWhile (\<lambda>c. \<not> p c) s, Some r))"

lemma split_at_Nil [simp]: "split_at p [] = ([], None)"
  by (simp add: split_at_def)

lemma split_at_Cons:
  "split_at p (x # xs) =
     (if p x then ([], Some xs) else (case split_at p xs of (a, r) \<Rightarrow> (x # a, r)))"
  by (auto simp: split_at_def simp del: dropWhile_eq_Nil_conv split: list.splits)

lemma fst_split_at: "fst (split_at p s) = takeWhile (\<lambda>c. \<not> p c) s"
  by (induction s) (auto simp: split_at_Cons split: prod.splits)

lemma split_at_None: "split_at p s = (a, None) \<Longrightarrow> a = s \<and> (\<forall>c \<in> set s. \<not> p c)"
  by (auto simp: split_at_def split: list.splits)

lemma split_at_none: "\<forall>c \<in> set s. \<not> p c \<Longrightarrow> split_at p s = (s, None)"
  by (induction s) (simp_all add: split_at_Cons)

lemma split_at_Some:
  assumes "split_at p s = (a, Some r)"
  shows "\<exists>c. s = a @ c # r \<and> p c \<and> (\<forall>x \<in> set a. \<not> p x)"
proof -
  from assms obtain c where d: "dropWhile (\<lambda>c. \<not> p c) s = c # r"
    and a: "a = takeWhile (\<lambda>c. \<not> p c) s"
    by (auto simp: split_at_def split: list.splits)
  from d have "p c"
    by (metis hd_dropWhile list.distinct(1) list.sel(1))
  moreover have "s = a @ c # r"
    using d a by (metis takeWhile_dropWhile_id)
  moreover have "\<forall>x \<in> set a. \<not> p x"
    using a by (auto dest: set_takeWhileD)
  ultimately show ?thesis by blast
qed

lemma split_at_shorter: "split_at p s = (a, Some r) \<Longrightarrow> length r < length s"
  using split_at_Some by fastforce

lemma split_at_append:
  assumes "\<forall>x \<in> set a. \<not> p x" and "p c"
  shows "split_at p (a @ c # r) = (a, Some r)"
  using assms by (induction a) (simp_all add: split_at_Cons)

lemma take_2_iff: "take 2 p = [a, b] \<longleftrightarrow> (\<exists>q. p = a # b # q)"
proof (cases p)
  case (Cons x p')
  then show ?thesis by (cases p') auto
qed simp

lemma sum_list_ge_member: "(x::nat) \<in> set xs \<Longrightarrow> x \<le> sum_list xs"
  by (simp add: member_le_sum_list)

text \<open>Decimal value of a digit string, as \<open>strtol\<close> and the \<open>* 10 + digit\<close> loops read it.\<close>

definition dec_val :: "string \<Rightarrow> nat" where
  "dec_val s = foldl (\<lambda>v c. v * 10 + digit_val c) 0 s"

lemma foldl_dec_mono: "v \<le> foldl (\<lambda>v c. v * 10 + digit_val c) v s"
proof (induction s arbitrary: v)
  case Nil
  then show ?case by simp
next
  case (Cons c s)
  have "v \<le> v * 10 + digit_val c" by simp
  also have "\<dots> \<le> foldl (\<lambda>v c. v * 10 + digit_val c) (v * 10 + digit_val c) s"
    by (rule Cons.IH)
  finally show ?case by simp
qed

section \<open>Stores with keys\<close>

text \<open>The contract of the program's small key/value tables: a successful store is what a lookup of
  an equivalent key finds, and no other key is affected. \<open>same\<close> is the equality of keys the table
  uses (\<open>strcmp\<close> or \<open>strcasecmp\<close>).\<close>

fun store_all :: "('k \<Rightarrow> 'v \<Rightarrow> 's \<Rightarrow> 's option) \<Rightarrow> ('k \<times> 'v) list \<Rightarrow> 's \<Rightarrow> 's option" where
  "store_all store [] s = Some s"
| "store_all store ((k, v) # kvs) s = (case store k v s of None \<Rightarrow> None | Some s' \<Rightarrow> store_all store kvs s')"

locale keyed_map =
  fixes same :: "'k \<Rightarrow> 'k \<Rightarrow> bool" and store :: "'k \<Rightarrow> 'v \<Rightarrow> 's \<Rightarrow> 's option" and find :: "'s \<Rightarrow> 'k \<Rightarrow> 'v option"
  assumes find_stored: "store k v s = Some s' \<Longrightarrow> same k k' \<Longrightarrow> find s' k' = Some v"
    and find_other: "store k v s = Some s' \<Longrightarrow> \<not> same k k' \<Longrightarrow> find s' k' = find s k'"
begin

lemma find_untouched:
  "store_all store kvs s = Some s' \<Longrightarrow> \<forall>(k, v) \<in> set kvs. \<not> same k k' \<Longrightarrow> find s' k' = find s k'"
  by (induction kvs arbitrary: s) (auto split: option.splits prod.splits simp: find_other)

lemma find_last:
  assumes "store_all store (kvs @ (k, v) # kvs') s = Some s'" "\<forall>(j, w) \<in> set kvs'. \<not> same j k'" "same k k'"
  shows "find s' k' = Some v"
  using assms
proof (induction kvs arbitrary: s)
  case Nil
  then obtain s1 where "store k v s = Some s1" "store_all store kvs' s1 = Some s'" by (auto split: option.splits)
  then show ?case using find_untouched [of kvs' s1 s' k'] find_stored Nil by simp
qed (auto split: option.splits)

end

end
