(* ===== verification/Dyn_Buf.thy ===== *)
theory Dyn_Buf
  imports Gargantua_Prelude
begin

text \<open>
  The growable request buffer of \<open>src/core/dynbuf.c\<close>. A buffer is the C struct \<open>DynBuf\<close>;
  its \<open>data\<close> pointer is either \<open>NULL\<close> or a block that remembers whether it came from the
  heap or from \<open>mmap\<close>, so that releasing a block with the wrong call, or reading past its
  end, is an error value of the model. The allocator is a parameter (\<open>alloc_env\<close>): it
  decides which requests succeed and what the bytes of a fresh heap block are.
  The theorems show that from a well-formed buffer no operation makes such an error, that
  the stored bytes survive growth, and what each operation does to them.
\<close>

section \<open>Memory blocks\<close>

datatype heap_block = Heap (block_bytes: string) | Mapping (block_bytes: string)

datatype mem_error = Assert_failed | Bad_free | Bad_munmap | Bad_realloc | Out_of_bounds | Diverges

record alloc_env =
  mmap_ok :: "size_t \<Rightarrow> bool"
  realloc_ok :: "size_t \<Rightarrow> bool"
  fresh_byte :: "nat \<Rightarrow> char"

fun free_block :: "heap_block \<Rightarrow> mem_error + unit" where
  "free_block (Heap xs) = Inr ()"
| "free_block (Mapping xs) = Inl Bad_free"

fun munmap_block :: "heap_block \<Rightarrow> size_t \<Rightarrow> mem_error + unit" where
  "munmap_block (Heap xs) n = Inl Bad_munmap"
| "munmap_block (Mapping xs) n = (if length xs = unat n then Inr () else Inl Bad_munmap)"

fun realloc_block :: "alloc_env \<Rightarrow> heap_block option \<Rightarrow> size_t \<Rightarrow> mem_error + heap_block" where
  "realloc_block env None n = Inr (Heap (map (fresh_byte env) [0..<unat n]))"
| "realloc_block env (Some (Heap xs)) n =
     Inr (Heap (take (unat n) xs @ map (fresh_byte env) [length xs..<unat n]))"
| "realloc_block env (Some (Mapping xs)) n = Inl Bad_realloc"

fun set_block_bytes :: "heap_block \<Rightarrow> string \<Rightarrow> heap_block" where
  "set_block_bytes (Heap xs) ys = Heap ys"
| "set_block_bytes (Mapping xs) ys = Mapping ys"

definition secure_zero :: "string \<Rightarrow> size_t \<Rightarrow> mem_error + string" where
  "secure_zero xs n =
     (if unat n \<le> length xs then Inr (replicate (unat n) NUL @ drop (unat n) xs)
      else Inl Out_of_bounds)"

section \<open>The buffer\<close>

abbreviation DYNBUF_MIN_CHUNK :: size_t where "DYNBUF_MIN_CHUNK \<equiv> 8192"
abbreviation DYNBUF_MMAP_MIN :: size_t where "DYNBUF_MMAP_MIN \<equiv> 256 * 1024"

record DynBuf =
  db_data :: "heap_block option"
  db_len :: size_t
  db_cap :: size_t
  db_max :: size_t
  db_bytes :: size_t
  db_mapped :: bool
  db_truncated :: bool

definition dynbuf_init :: "DynBuf \<Rightarrow> size_t \<Rightarrow> int \<times> DynBuf" where
  "dynbuf_init b mx =
     (if mx = 0 then (-1, b)
      else (0, b\<lparr>db_data := None, db_len := 0, db_cap := 0, db_max := mx, db_bytes := 0,
                db_mapped := False, db_truncated := False\<rparr>))"

text \<open>
  The doubling loop of \<open>dynbuf_reserve\<close>. Doubling zero makes no progress, so the loop would
  run forever from 0; that case is \<open>None\<close>.
\<close>

function grow_cap :: "size_t \<Rightarrow> size_t \<Rightarrow> size_t \<Rightarrow> size_t option" where
  "grow_cap newcap need mx =
     (if newcap < need then
        (if mx div 2 < newcap then Some mx
         else if newcap = 0 then None
         else grow_cap (newcap * 2) need mx)
      else Some newcap)"
  by pat_completeness auto
termination
  by (relation "measure (\<lambda>(newcap, need, mx). unat need - unat newcap)")
    (auto intro: doubling_progress)

declare grow_cap.simps [simp del]

definition release_data :: "DynBuf \<Rightarrow> heap_block \<Rightarrow> mem_error + unit" where
  "release_data b blk =
     (if db_mapped b then munmap_block blk (db_bytes b) else free_block blk)"

definition reserve_mmap :: "alloc_env \<Rightarrow> size_t \<Rightarrow> DynBuf \<Rightarrow> mem_error + (int \<times> DynBuf)" where
  "reserve_mmap env newcap b =
     (if \<not> mmap_ok env newcap then Inr (-1, b)
      else
        let m = replicate (unat newcap) NUL in
        ebind
          (if db_len b > 0 then
             (case db_data b of
                None \<Rightarrow> Inl Out_of_bounds
              | Some blk \<Rightarrow>
                  if unat (db_len b) \<le> length (block_bytes blk) \<and> db_len b \<le> newcap
                  then Inr (take (unat (db_len b)) (block_bytes blk) @ drop (unat (db_len b)) m)
                  else Inl Out_of_bounds)
           else Inr m)
          (\<lambda>m'. ebind
             (case db_data b of
                None \<Rightarrow> Inr ()
              | Some blk \<Rightarrow>
                  ebind (secure_zero (block_bytes blk) (db_len b)) (\<lambda>_. release_data b blk))
             (\<lambda>_. Inr (0, b\<lparr>db_data := Some (Mapping m'), db_cap := newcap, db_bytes := newcap,
                            db_mapped := True\<rparr>))))"

definition reserve_realloc :: "alloc_env \<Rightarrow> size_t \<Rightarrow> DynBuf \<Rightarrow> mem_error + (int \<times> DynBuf)" where
  "reserve_realloc env newcap b =
     ebind (realloc_block env (db_data b) newcap)
       (\<lambda>p. if \<not> realloc_ok env newcap then Inr (-1, b)
            else Inr (0, b\<lparr>db_data := Some p, db_cap := newcap, db_bytes := newcap,
                          db_mapped := False\<rparr>))"

definition dynbuf_reserve :: "alloc_env \<Rightarrow> DynBuf \<Rightarrow> size_t \<Rightarrow> mem_error + (int \<times> DynBuf)" where
  "dynbuf_reserve env b need =
     (if need > db_max b then Inr (-1, b\<lparr>db_truncated := True\<rparr>)
      else if need \<le> db_cap b then Inr (0, b)
      else
        (case grow_cap (if db_cap b \<noteq> 0 then db_cap b else DYNBUF_MIN_CHUNK) need (db_max b) of
           None \<Rightarrow> Inl Diverges
         | Some c \<Rightarrow>
             let newcap = (if c < need then need else c) in
             if newcap \<ge> DYNBUF_MMAP_MIN then reserve_mmap env newcap b
             else reserve_realloc env newcap b))"

definition dynbuf_consume :: "DynBuf \<Rightarrow> size_t \<Rightarrow> mem_error + DynBuf" where
  "dynbuf_consume b n =
     (if \<not> n \<le> db_len b then Inl Assert_failed
      else
        let left = db_len b - n in
        if left > 0 then
          (case db_data b of
             None \<Rightarrow> Inl Out_of_bounds
           | Some blk \<Rightarrow>
               let xs = block_bytes blk in
               if unat n + unat left \<le> length xs then
                 Inr (b\<lparr>db_data := Some (set_block_bytes blk
                          (take (unat left) (drop (unat n) xs) @ drop (unat left) xs)),
                        db_len := left\<rparr>)
               else Inl Out_of_bounds)
        else Inr (b\<lparr>db_len := left\<rparr>))"

definition dynbuf_release :: "DynBuf \<Rightarrow> mem_error + DynBuf" where
  "dynbuf_release b =
     ebind
       (case db_data b of
          None \<Rightarrow> Inr ()
        | Some blk \<Rightarrow>
            ebind (secure_zero (block_bytes blk) (db_cap b)) (\<lambda>_. release_data b blk))
       (\<lambda>_. Inr (b\<lparr>db_data := None, db_len := 0, db_cap := 0, db_bytes := 0,
                     db_mapped := False, db_truncated := False\<rparr>))"

definition dynbuf_free :: "DynBuf \<Rightarrow> mem_error + DynBuf" where
  "dynbuf_free b = dynbuf_release b"

section \<open>Well-formed buffers and their contents\<close>

fun block_matches :: "heap_block option \<Rightarrow> size_t \<Rightarrow> bool \<Rightarrow> bool" where
  "block_matches None c m \<longleftrightarrow> c = 0 \<and> \<not> m"
| "block_matches (Some (Heap xs)) c m \<longleftrightarrow>
     \<not> m \<and> length xs = unat c \<and> 0 < c \<and> c < DYNBUF_MMAP_MIN"
| "block_matches (Some (Mapping xs)) c m \<longleftrightarrow>
     m \<and> length xs = unat c \<and> DYNBUF_MMAP_MIN \<le> c"

definition dynbuf_inv :: "DynBuf \<Rightarrow> bool" where
  "dynbuf_inv b \<longleftrightarrow>
     0 < db_max b \<and> db_len b \<le> db_cap b \<and> db_bytes b = db_cap b \<and>
     (db_cap b \<le> db_max b \<or> db_cap b \<le> DYNBUF_MIN_CHUNK) \<and>
     block_matches (db_data b) (db_cap b) (db_mapped b)"

definition contents :: "DynBuf \<Rightarrow> string" where
  "contents b =
     (case db_data b of None \<Rightarrow> [] | Some blk \<Rightarrow> take (unat (db_len b)) (block_bytes blk))"

lemma block_matches_length:
  "block_matches d c m \<Longrightarrow> d = Some blk \<Longrightarrow> length (block_bytes blk) = unat c"
  by (cases blk) auto

lemma block_matches_release:
  assumes "block_matches (db_data b) (db_cap b) (db_mapped b)" "db_data b = Some blk"
    and "db_bytes b = db_cap b"
  shows "release_data b blk = Inr ()"
  using assms by (cases blk) (auto simp: release_data_def)

lemma length_contents:
  assumes "dynbuf_inv b"
  shows "length (contents b) = unat (db_len b)"
proof (cases "db_data b")
  case None
  with assms show ?thesis
    by (auto simp: dynbuf_inv_def contents_def)
next
  case (Some blk)
  with assms have "length (block_bytes blk) = unat (db_cap b)"
    by (auto simp: dynbuf_inv_def intro: block_matches_length)
  with assms Some show ?thesis
    by (simp add: dynbuf_inv_def contents_def word_le_nat_alt)
qed

lemma grow_cap_bounds:
  assumes "newcap \<noteq> 0" "need \<le> mx"
  shows "\<exists>c. grow_cap newcap need mx = Some c \<and> need \<le> c \<and> newcap \<le> c \<and>
           (c \<le> mx \<or> c = newcap) \<and> (newcap < need \<longrightarrow> newcap * 2 \<le> c \<or> c = mx)"
  using assms
proof (induction newcap need mx rule: grow_cap.induct)
  case (1 newcap need mx)
  show ?case
  proof (cases "newcap < need \<and> \<not> mx div 2 < newcap")
    case False
    then show ?thesis
      using "1.prems" by (auto simp: grow_cap.simps [of newcap])
  next
    case True
    then have half: "newcap \<le> mx div 2" and lt: "newcap < need" by auto
    note dbl = unat_double_no_wrap [OF half]
    have nz: "newcap * 2 \<noteq> 0"
      using dbl(1) "1.prems"(1) by (metis mult_eq_0_iff unat_eq_zero zero_neq_numeral)
    have ge: "newcap \<le> newcap * 2"
      using dbl(1) by (simp add: word_le_nat_alt)
    from "1.IH" [OF lt _ "1.prems"(1) nz "1.prems"(2)] True
    obtain c where c: "grow_cap (newcap * 2) need mx = Some c" "need \<le> c" "newcap * 2 \<le> c"
        "c \<le> mx \<or> c = newcap * 2"
      by auto
    have "grow_cap newcap need mx = Some c"
      using True "1.prems"(1) c(1) by (simp add: grow_cap.simps [of newcap])
    moreover have "c \<le> mx" using c(4) dbl(2) by auto
    ultimately show ?thesis using c(2,3) ge by fastforce
  qed
qed

definition grown :: "DynBuf \<Rightarrow> DynBuf \<Rightarrow> bool" where
  "grown b b' \<longleftrightarrow> dynbuf_inv b' \<and> contents b' = contents b \<and> db_len b' = db_len b \<and>
     db_max b' = db_max b"

lemma grown_refl: "dynbuf_inv b \<Longrightarrow> grown b b"
  by (simp add: grown_def)

lemma reserve_mmap_correct:
  assumes inv: "dynbuf_inv b" and big: "DYNBUF_MMAP_MIN \<le> newcap" and gt: "db_cap b < newcap"
    and lim: "newcap \<le> db_max b" and ok: "mmap_ok env newcap"
  shows "\<exists>b'. reserve_mmap env newcap b = Inr (0, b') \<and> grown b b' \<and> db_cap b' = newcap \<and>
    db_truncated b' = db_truncated b"
proof -
  have len: "db_len b \<le> newcap" and len': "unat (db_len b) \<le> unat (db_cap b)"
    using inv gt by (auto simp: dynbuf_inv_def word_le_nat_alt word_less_nat_alt)
  have lenn: "unat (db_len b) \<le> unat newcap"
    using len by (simp add: word_le_nat_alt)
  show ?thesis
  proof (cases "db_data b")
    case None
    then have "db_len b = 0"
      using inv by (auto simp: dynbuf_inv_def)
    with None big lim ok inv show ?thesis
      by (auto simp: reserve_mmap_def grown_def dynbuf_inv_def contents_def)
  next
    case (Some blk)
    have lb: "length (block_bytes blk) = unat (db_cap b)"
      using inv Some by (auto simp: dynbuf_inv_def intro: block_matches_length)
    have rel: "release_data b blk = Inr ()"
      using inv Some by (auto simp: dynbuf_inv_def intro!: block_matches_release)
    have "secure_zero (block_bytes blk) (db_len b) \<noteq> Inl e" for e
      using lb len' by (simp add: secure_zero_def)
    then obtain z where z: "secure_zero (block_bytes blk) (db_len b) = Inr z"
      using lb len' by (simp add: secure_zero_def)
    let ?m = "take (unat (db_len b)) (block_bytes blk)
              @ drop (unat (db_len b)) (replicate (unat newcap) NUL)"
    let ?b = "b\<lparr>db_data := Some (Mapping ?m), db_cap := newcap, db_bytes := newcap,
                 db_mapped := True\<rparr>"
    have "reserve_mmap env newcap b = Inr (0, ?b)"
      using ok Some lb len len' rel z
      by (cases "db_len b = 0") (simp_all add: reserve_mmap_def Let_def word_neq_0_conv)
    moreover have "grown b ?b"
      using inv Some lb len len' lenn big lim
      by (simp add: grown_def dynbuf_inv_def contents_def)
    ultimately show ?thesis by simp
  qed
qed

lemma reserve_realloc_correct:
  assumes inv: "dynbuf_inv b" and small: "newcap < DYNBUF_MMAP_MIN" and gt: "db_cap b < newcap"
    and lim: "newcap \<le> db_max b \<or> newcap \<le> DYNBUF_MIN_CHUNK" and ok: "realloc_ok env newcap"
  shows "\<exists>b'. reserve_realloc env newcap b = Inr (0, b') \<and> grown b b' \<and> db_cap b' = newcap \<and>
    db_truncated b' = db_truncated b"
proof -
  have lenn: "unat (db_len b) \<le> unat (db_cap b)" "unat (db_cap b) < unat newcap"
    using inv gt by (auto simp: dynbuf_inv_def word_le_nat_alt word_less_nat_alt)
  have len: "db_len b \<le> newcap" "0 < newcap"
    using lenn by (auto simp: word_le_nat_alt word_less_nat_alt)
  show ?thesis
  proof (cases "db_data b")
    case None
    then have "db_len b = 0"
      using inv by (auto simp: dynbuf_inv_def)
    with None small lim ok inv len show ?thesis
      by (auto simp: reserve_realloc_def grown_def dynbuf_inv_def contents_def)
  next
    case (Some blk)
    show ?thesis
    proof (cases blk)
      case (Heap xs)
      with Some inv have "length xs = unat (db_cap b)"
        by (auto simp: dynbuf_inv_def)
      with Some Heap small lim ok inv len lenn show ?thesis
        by (auto simp: reserve_realloc_def grown_def dynbuf_inv_def contents_def)
    next
      case (Mapping xs)
      with Some inv have "DYNBUF_MMAP_MIN \<le> db_cap b"
        by (auto simp: dynbuf_inv_def)
      with small gt show ?thesis by (auto dest: order.strict_trans)
    qed
  qed
qed

lemma reserve_realloc_failed:
  assumes "dynbuf_inv b" "newcap < DYNBUF_MMAP_MIN" "db_cap b < newcap" "\<not> realloc_ok env newcap"
  shows "reserve_realloc env newcap b = Inr (-1, b)"
proof (cases "db_data b")
  case None
  with assms(4) show ?thesis by (simp add: reserve_realloc_def)
next
  case (Some blk)
  with assms show ?thesis
    by (cases blk) (auto simp: reserve_realloc_def dynbuf_inv_def)
qed

definition grants :: "alloc_env \<Rightarrow> size_t \<Rightarrow> bool" where
  "grants env n \<longleftrightarrow> (if DYNBUF_MMAP_MIN \<le> n then mmap_ok env n else realloc_ok env n)"

lemma dynbuf_reserve_grow:
  assumes inv: "dynbuf_inv b" and fits: "need \<le> db_max b" and more: "db_cap b < need"
  shows "\<exists>newcap. need \<le> newcap \<and> (newcap \<le> db_max b \<or> newcap \<le> DYNBUF_MIN_CHUNK) \<and>
     (db_cap b * 2 \<le> newcap \<or> newcap = db_max b) \<and>
     dynbuf_reserve env b need =
       (if DYNBUF_MMAP_MIN \<le> newcap then reserve_mmap env newcap b
        else reserve_realloc env newcap b)"
proof -
  let ?start = "if db_cap b \<noteq> 0 then db_cap b else DYNBUF_MIN_CHUNK"
  have nz: "?start \<noteq> 0" by simp
  obtain c where c: "grow_cap ?start need (db_max b) = Some c" "need \<le> c"
      "c \<le> db_max b \<or> c = ?start" "?start < need \<longrightarrow> ?start * 2 \<le> c \<or> c = db_max b"
    using grow_cap_bounds [OF nz fits] by blast
  have "db_cap b * 2 \<le> c \<or> c = db_max b"
    using c(4) more by (cases "db_cap b = 0") auto
  moreover have "c \<le> db_max b \<or> c \<le> DYNBUF_MIN_CHUNK"
    using c(2,3) more by (auto split: if_splits)
  moreover have "\<not> db_max b < need" "\<not> need \<le> db_cap b" "\<not> c < need"
    using c(2) fits more by auto
  then have "dynbuf_reserve env b need =
       (if DYNBUF_MMAP_MIN \<le> c then reserve_mmap env c b else reserve_realloc env c b)"
    unfolding dynbuf_reserve_def c(1) by (simp add: Let_def)
  ultimately show ?thesis using c(2) by blast
qed

lemma dynbuf_reserve_cases:
  assumes inv: "dynbuf_inv b"
  obtains (too_big) "db_max b < need" "dynbuf_reserve env b need = Inr (-1, b\<lparr>db_truncated := True\<rparr>)"
  | (enough) "need \<le> db_max b" "need \<le> db_cap b" "dynbuf_reserve env b need = Inr (0, b)"
  | (refused) newcap where "need \<le> db_max b" "db_cap b < need" "need \<le> newcap" "\<not> grants env newcap"
      "dynbuf_reserve env b need = Inr (-1, b)"
  | (grew) b' where "need \<le> db_max b" "db_cap b < need" "dynbuf_reserve env b need = Inr (0, b')"
      "grown b b'" "need \<le> db_cap b'" "db_truncated b' = db_truncated b"
      "db_cap b * 2 \<le> db_cap b' \<or> db_cap b' = db_max b"
proof -
  consider "db_max b < need" | "need \<le> db_max b" "need \<le> db_cap b"
    | "need \<le> db_max b" "db_cap b < need" by fastforce
  then show thesis
  proof cases
    case 1
    then show thesis by (intro too_big) (auto simp: dynbuf_reserve_def)
  next
    case 2
    then show thesis by (intro enough) (auto simp: dynbuf_reserve_def)
  next
    case 3
    then obtain c where c: "need \<le> c" "c \<le> db_max b \<or> c \<le> DYNBUF_MIN_CHUNK"
        "db_cap b * 2 \<le> c \<or> c = db_max b"
        "dynbuf_reserve env b need =
           (if DYNBUF_MMAP_MIN \<le> c then reserve_mmap env c b else reserve_realloc env c b)"
      using dynbuf_reserve_grow [OF inv] by blast
    have gt: "db_cap b < c" using c(1) 3 by auto
    show thesis
    proof (cases "DYNBUF_MMAP_MIN \<le> c")
      case big: True
      then have lim: "c \<le> db_max b" using c(2) by (auto dest: order_trans)
      show thesis
      proof (cases "mmap_ok env c")
        case True
        then obtain b' where "reserve_mmap env c b = Inr (0, b')" "grown b b'" "db_cap b' = c"
            "db_truncated b' = db_truncated b"
          using reserve_mmap_correct [OF inv big gt lim] by blast
        then show thesis
          using c big by (intro grew [OF 3, of b']) auto
      next
        case False
        then show thesis
          using refused [OF 3 c(1)] c(4) big by (simp add: reserve_mmap_def grants_def)
      qed
    next
      case small: False
      then have lt: "c < DYNBUF_MMAP_MIN" by simp
      show thesis
      proof (cases "realloc_ok env c")
        case True
        then obtain b' where "reserve_realloc env c b = Inr (0, b')" "grown b b'" "db_cap b' = c"
            "db_truncated b' = db_truncated b"
          using reserve_realloc_correct [OF inv lt gt c(2)] by blast
        then show thesis
          using c small by (intro grew [OF 3, of b']) auto
      next
        case False
        then show thesis
          using refused [OF 3 c(1)] c(4) small reserve_realloc_failed [OF inv lt gt]
          by (simp add: grants_def)
      qed
    qed
  qed
qed

section \<open>What the operations do\<close>

text \<open>From a well-formed buffer \<open>dynbuf_reserve\<close> returns without a memory error (no wrong
  release call, no out-of-range copy, no endless loop), keeps the buffer well-formed and its
  bytes unchanged; on success the capacity covers the request, and it fails only when the
  request exceeds the buffer's maximum (then \<open>truncated\<close> is set) or the allocator refused.\<close>

theorem dynbuf_reserve_correct:
  assumes "dynbuf_inv b"
  shows "\<exists>rc b'. dynbuf_reserve env b need = Inr (rc, b') \<and>
    dynbuf_inv b' \<and> contents b' = contents b \<and> db_max b' = db_max b \<and>
    db_truncated b' = (db_truncated b \<or> db_max b < need) \<and>
    (rc = 0 \<and> need \<le> db_cap b' \<and>
       (b' = b \<or> db_cap b * 2 \<le> db_cap b' \<or> db_cap b' = db_max b)
     \<or> rc = -1 \<and> db_cap b' = db_cap b \<and>
       (db_max b < need \<or> (\<exists>n\<ge>need. \<not> grants env n)))"
proof (rule dynbuf_reserve_cases [OF assms, of need env], goal_cases too_big enough refused grew)
  case too_big
  have "dynbuf_inv (b\<lparr>db_truncated := True\<rparr>)" "contents (b\<lparr>db_truncated := True\<rparr>) = contents b"
    using assms by (simp_all add: dynbuf_inv_def contents_def split: option.splits)
  with too_big show ?thesis by simp
next
  case enough
  with assms show ?thesis by auto
next
  case refused
  with assms show ?thesis by auto
next
  case grew
  then show ?thesis by (auto simp: grown_def)
qed

definition env_all :: alloc_env where
  "env_all = \<lparr>mmap_ok = (\<lambda>_. True), realloc_ok = (\<lambda>_. True), fresh_byte = (\<lambda>_. NUL)\<rparr>"

definition buf_new :: "size_t \<Rightarrow> DynBuf" where
  "buf_new mx = \<lparr>db_data = None, db_len = 0, db_cap = 0, db_max = mx, db_bytes = 0,
                 db_mapped = False, db_truncated = False\<rparr>"

lemma buf_new_inv: "0 < mx \<Longrightarrow> dynbuf_inv (buf_new mx)"
  by (simp add: dynbuf_inv_def buf_new_def)

theorem dynbuf_reserve_correct_witness:
  "dynbuf_inv (buf_new 100000) \<and>
   (\<exists>rc b'. dynbuf_reserve env_all (buf_new 100000) 9000 = Inr (rc, b') \<and> dynbuf_inv b' \<and>
      rc = 0 \<and> 9000 \<le> db_cap b')"
proof -
  have inv: "dynbuf_inv (buf_new 100000)" by (rule buf_new_inv) simp
  have "\<not> (\<exists>n\<ge>9000. \<not> grants env_all n)" by (simp add: grants_def env_all_def)
  then show ?thesis
    using inv dynbuf_reserve_correct [OF inv, of env_all 9000] by (auto simp: buf_new_def)
qed

lemma set_block_bytes_simps [simp]:
  "block_bytes (set_block_bytes blk ys) = ys"
  "block_matches (Some (set_block_bytes blk ys)) c m \<longleftrightarrow>
     length ys = unat c \<and> block_matches (Some (set_block_bytes blk (replicate (unat c) NUL))) c m"
  by (cases blk; auto)+

lemma dynbuf_consume_ok:
  assumes inv: "dynbuf_inv b" and n: "unat n \<le> length (contents b)"
  shows "\<exists>b'. dynbuf_consume b n = Inr b' \<and> dynbuf_inv b' \<and>
    contents b' = drop (unat n) (contents b) \<and> db_cap b' = db_cap b \<and> db_max b' = db_max b"
proof -
  have le: "n \<le> db_len b"
    using n length_contents [OF inv] by (simp add: word_le_nat_alt)
  have left: "unat (db_len b - n) = unat (db_len b) - unat n"
    using le by (rule unat_sub_no_wrap)
  show ?thesis
  proof (cases "db_len b - n = 0")
    case True
    then have "db_len b = n" by simp
    then show ?thesis
      using inv length_contents [OF inv]
      by (auto simp: dynbuf_consume_def dynbuf_inv_def contents_def split: option.splits)
  next
    case False
    then have pos: "0 < db_len b - n"
      unfolding word_gt_0 by simp
    from False obtain blk where blk: "db_data b = Some blk"
      using inv le by (cases "db_data b") (auto simp: dynbuf_inv_def)
    have lb: "length (block_bytes blk) = unat (db_cap b)"
      using inv blk by (auto simp: dynbuf_inv_def intro: block_matches_length)
    have caps: "unat (db_len b) \<le> unat (db_cap b)" "unat n \<le> unat (db_len b)"
      using inv le by (auto simp: dynbuf_inv_def word_le_nat_alt)
    let ?xs = "take (unat (db_len b - n)) (drop (unat n) (block_bytes blk))
               @ drop (unat (db_len b - n)) (block_bytes blk)"
    let ?b = "b\<lparr>db_data := Some (set_block_bytes blk ?xs), db_len := db_len b - n\<rparr>"
    have "dynbuf_consume b n = Inr ?b"
      using le pos blk lb caps left by (simp add: dynbuf_consume_def Let_def)
    moreover have "db_len b - n \<le> db_cap b"
      using left caps by (simp add: word_le_nat_alt)
    then have "dynbuf_inv ?b"
      using inv blk lb caps left
      by (cases blk) (auto simp: dynbuf_inv_def)
    moreover have "contents ?b = drop (unat n) (contents b)"
      using blk lb caps left by (simp add: contents_def take_drop)
    ultimately show ?thesis by simp
  qed
qed

lemma dynbuf_release_ok:
  assumes inv: "dynbuf_inv b"
  shows "dynbuf_release b = Inr (buf_new (db_max b))"
proof (cases "db_data b")
  case None
  then show ?thesis by (simp add: dynbuf_release_def buf_new_def)
next
  case (Some blk)
  have "length (block_bytes blk) = unat (db_cap b)"
    using inv Some by (auto simp: dynbuf_inv_def intro: block_matches_length)
  moreover have "release_data b blk = Inr ()"
    using inv Some by (auto simp: dynbuf_inv_def intro!: block_matches_release)
  ultimately show ?thesis
    using Some by (simp add: dynbuf_release_def secure_zero_def buf_new_def)
qed

section \<open>The buffer as seen by the connection handler\<close>

text \<open>
  What the server relies on: a store of pending bytes from the front of which whole messages
  are dropped, and which can be emptied. The client lemmas say that dropping the messages of
  a connection one after the other leaves exactly the bytes that follow them.
\<close>

locale byte_store =
  fixes invar :: "'b \<Rightarrow> bool" and bytes :: "'b \<Rightarrow> string"
    and consume :: "'b \<Rightarrow> size_t \<Rightarrow> 'e + 'b" and release :: "'b \<Rightarrow> 'e + 'b"
  assumes bytes_bound: "invar b \<Longrightarrow> length (bytes b) < 2 ^ 64"
    and consume_spec: "invar b \<Longrightarrow> unat n \<le> length (bytes b) \<Longrightarrow>
      \<exists>b'. consume b n = Inr b' \<and> invar b' \<and> bytes b' = drop (unat n) (bytes b)"
    and release_spec: "invar b \<Longrightarrow> \<exists>b'. release b = Inr b' \<and> invar b' \<and> bytes b' = []"
begin

lemma consume_message:
  assumes "invar b" "bytes b = m @ r"
  shows "\<exists>b'. consume b (of_nat (length m)) = Inr b' \<and> invar b' \<and> bytes b' = r"
proof -
  have "length m < 2 ^ 64"
    using bytes_bound [OF assms(1)] assms(2) by simp
  then have "unat (of_nat (length m) :: size_t) = length m"
    by (simp add: unat_of_nat)
  then show ?thesis
    using consume_spec [OF assms(1), of "of_nat (length m)"] assms(2) by simp
qed

lemma consume_messages:
  assumes "invar b" "bytes b = concat ms @ r"
  shows "\<exists>b'. foldl (\<lambda>s m. ebind s (\<lambda>b. consume b (of_nat (length m)))) (Inr b) ms = Inr b' \<and>
    invar b' \<and> bytes b' = r"
  using assms
proof (induction ms arbitrary: b)
  case Nil
  then show ?case by simp
next
  case (Cons m ms)
  then obtain b1 where "consume b (of_nat (length m)) = Inr b1" "invar b1"
      "bytes b1 = concat ms @ r"
    using consume_message [of b m "concat ms @ r"] by auto
  then show ?case using Cons.IH [of b1] by simp
qed

end

lemma contents_bound: "dynbuf_inv b \<Longrightarrow> length (contents b) < 2 ^ 64"
  using unsigned_less [of "db_len b", where 'a = nat] by (simp add: length_contents)

interpretation req_buf: byte_store dynbuf_inv contents dynbuf_consume dynbuf_release
proof unfold_locales
  show "\<exists>b'. dynbuf_release b = Inr b' \<and> dynbuf_inv b' \<and> contents b' = []"
    if "dynbuf_inv b" for b
    using that dynbuf_release_ok [OF that] buf_new_inv [of "db_max b"]
    by (auto simp: dynbuf_inv_def contents_def buf_new_def)
qed (use contents_bound dynbuf_consume_ok in blast)+

text \<open>Consuming the messages of a connection one after the other, each by its length, never
  trips the assertion or reads out of range, and leaves exactly the bytes after them.\<close>

theorem dynbuf_consume_pipeline:
  assumes "dynbuf_inv b" "contents b = concat ms @ r"
  shows "\<exists>b'. foldl (\<lambda>s m. ebind s (\<lambda>b. dynbuf_consume b (of_nat (length m)))) (Inr b) ms = Inr b' \<and>
    dynbuf_inv b' \<and> contents b' = r"
  using assms by (rule req_buf.consume_messages)

definition buf_of :: "string \<Rightarrow> DynBuf" where
  "buf_of s = \<lparr>db_data = Some (Heap (s @ replicate (8192 - length s) NUL)),
               db_len = of_nat (length s), db_cap = 8192, db_max = 65536, db_bytes = 8192,
               db_mapped = False, db_truncated = False\<rparr>"

lemma buf_of_inv:
  assumes "length s \<le> 8192"
  shows "dynbuf_inv (buf_of s)" "contents (buf_of s) = s"
proof -
  have "unat (of_nat (length s) :: size_t) = length s"
    using assms by (simp add: unat_of_nat)
  then show "dynbuf_inv (buf_of s)" "contents (buf_of s) = s"
    using assms by (simp_all add: dynbuf_inv_def buf_of_def contents_def word_le_nat_alt)
qed

theorem dynbuf_consume_pipeline_witness:
  "\<exists>b'. foldl (\<lambda>s m. ebind s (\<lambda>b. dynbuf_consume b (of_nat (length m))))
           (Inr (buf_of ''abcde'')) [''ab'', ''c''] = Inr b' \<and> dynbuf_inv b' \<and> contents b' = ''de''"
  by (rule dynbuf_consume_pipeline) (simp_all add: buf_of_inv)

end
