(* ===== verification/Arena.thy ===== *)
theory Arena
  imports Gargantua_Prelude "HOL-Library.Multiset"
begin

text \<open>
  The per-request bump allocator of \<open>src/core/arena.c\<close>. Chunks carry their address, so a
  pointer handed out by \<open>arena_alloc\<close> is a number and two blocks can be compared; the bytes
  of a chunk are its payload followed by the 16 canary bytes. The layout constants are those
  of an LP64 target with a 16-byte \<open>long double\<close>: \<open>sizeof(ArenaChunk) = 48\<close> and
  \<open>ARENA_ALIGN = 16\<close>. The system allocator is a parameter (\<open>chunk_env\<close>).
  The step relation \<open>arena_run\<close> interleaves allocations, client writes and resets; in every
  reachable state the live blocks are aligned, disjoint and inside their chunk, and the
  canaries are intact.
\<close>

section \<open>Chunks\<close>

abbreviation ARENA_CANARY_SIZE :: nat where "ARENA_CANARY_SIZE \<equiv> 16"
abbreviation ARENA_MIN_SIZE :: size_t where "ARENA_MIN_SIZE \<equiv> 4096"
abbreviation ARENA_KEEP_MAX :: size_t where "ARENA_KEEP_MAX \<equiv> 64 * 1024"
abbreviation ARENA_MMAP_MIN :: size_t where "ARENA_MMAP_MIN \<equiv> 256 * 1024"
abbreviation CHUNK_HEADER :: size_t where "CHUNK_HEADER \<equiv> 48"

definition CANARY :: string where
  "CANARY = concat (replicate 4 [CHR 0xA5, CHR 0x5A, CHR 0xC3, CHR 0x3C])"

lemma length_CANARY [simp]: "length CANARY = ARENA_CANARY_SIZE"
  by (simp add: CANARY_def numeral_eq_Suc)

record chunk_env =
  mmap_at :: "size_t \<Rightarrow> nat option"
  malloc_at :: "size_t \<Rightarrow> nat option"
  heap_junk :: "nat \<Rightarrow> char"

record ArenaChunk =
  ch_addr :: nat
  ch_cap :: size_t
  ch_used :: size_t
  ch_bytes :: size_t
  ch_mapped :: bool
  ch_mem :: string

definition chunk_base :: "ArenaChunk \<Rightarrow> nat" where
  "chunk_base c = ch_addr c + unat CHUNK_HEADER"

definition chunk_new :: "chunk_env \<Rightarrow> size_t \<Rightarrow> ArenaChunk option" where
  "chunk_new env cap =
     (let total = CHUNK_HEADER + cap + of_nat ARENA_CANARY_SIZE in
      if total < cap then None
      else if total \<ge> ARENA_MMAP_MIN then
        (case mmap_at env total of
           None \<Rightarrow> None
         | Some m \<Rightarrow> Some \<lparr>ch_addr = m, ch_cap = cap, ch_used = 0, ch_bytes = total, ch_mapped = True,
                           ch_mem = replicate (unat cap) NUL @ CANARY\<rparr>)
      else
        (case malloc_at env total of
           None \<Rightarrow> None
         | Some m \<Rightarrow> Some \<lparr>ch_addr = m, ch_cap = cap, ch_used = 0, ch_bytes = total, ch_mapped = False,
                           ch_mem = map (heap_junk env) [0..<unat cap] @ CANARY\<rparr>))"

datatype release_call = Munmap nat size_t | Free nat

definition chunk_release :: "ArenaChunk \<Rightarrow> release_call" where
  "chunk_release c = (if ch_mapped c then Munmap (ch_addr c) (ch_bytes c) else Free (ch_addr c))"

definition chunk_ok :: "ArenaChunk \<Rightarrow> bool" where
  "chunk_ok c \<longleftrightarrow> take ARENA_CANARY_SIZE (drop (unat (ch_cap c)) (ch_mem c)) = CANARY"

section \<open>The arena\<close>

record Arena =
  ar_head :: "ArenaChunk list"
  ar_spare :: "ArenaChunk option"
  ar_used :: size_t
  ar_max :: size_t
  ar_peak :: size_t
  ar_refusals :: "64 word"

definition arena_init :: "Arena \<Rightarrow> size_t \<Rightarrow> int \<times> Arena" where
  "arena_init a mx =
     (if mx < ARENA_MIN_SIZE then (-1, a)
      else (0, a\<lparr>ar_head := [], ar_spare := None, ar_used := 0, ar_max := mx, ar_peak := 0,
                 ar_refusals := 0\<rparr>))"

text \<open>The loop that picks the size of a new chunk; doubling zero would not end.\<close>

function chunk_cap :: "size_t \<Rightarrow> size_t \<Rightarrow> size_t \<Rightarrow> size_t option" where
  "chunk_cap cap want mx =
     (if cap < want then
        (if mx div 2 < cap then Some want
         else if cap = 0 then None
         else chunk_cap (cap * 2) want mx)
      else Some cap)"
  by pat_completeness auto
termination
  by (relation "measure (\<lambda>(cap, want, mx). unat want - unat cap)") (auto intro: doubling_progress)

declare chunk_cap.simps [simp del]

definition arena_refuse :: "Arena \<Rightarrow> Arena" where
  "arena_refuse a = a\<lparr>ar_refusals := ar_refusals a + 1\<rparr>"

definition arena_bump :: "Arena \<Rightarrow> size_t \<Rightarrow> Arena" where
  "arena_bump a want =
     (let used = ar_used a + want in
      a\<lparr>ar_used := used, ar_peak := (if used > ar_peak a then used else ar_peak a)\<rparr>)"

definition take_from :: "Arena \<Rightarrow> ArenaChunk \<Rightarrow> ArenaChunk list \<Rightarrow> size_t \<Rightarrow> nat option \<times> Arena" where
  "take_from a c cs want =
     (Some (chunk_base c + unat (ch_used c)),
      arena_bump (a\<lparr>ar_head := c\<lparr>ch_used := ch_used c + want\<rparr> # cs\<rparr>) want)"

definition arena_fresh_chunk :: "chunk_env \<Rightarrow> Arena \<Rightarrow> size_t \<Rightarrow> nat option \<times> Arena" where
  "arena_fresh_chunk env a want =
     (case Option.bind (chunk_cap ARENA_MIN_SIZE want (ar_max a))
             (\<lambda>cap. chunk_new env (if cap < want then want else cap)) of
        None \<Rightarrow> (None, arena_refuse a)
      | Some c \<Rightarrow> take_from a c (ar_head a) want)"

definition arena_next_chunk :: "chunk_env \<Rightarrow> Arena \<Rightarrow> size_t \<Rightarrow> nat option \<times> Arena" where
  "arena_next_chunk env a want =
     (case ar_spare a of
        Some c \<Rightarrow>
          if ch_cap c \<ge> want then
            take_from (a\<lparr>ar_spare := None\<rparr>) (c\<lparr>ch_used := 0\<rparr>) (ar_head a) want
          else arena_fresh_chunk env a want
      | None \<Rightarrow> arena_fresh_chunk env a want)"

definition round_up :: "size_t \<Rightarrow> size_t" where
  "round_up n = (n + 15) AND NOT 15"

definition arena_alloc :: "chunk_env \<Rightarrow> Arena \<Rightarrow> size_t \<Rightarrow> nat option \<times> Arena" where
  "arena_alloc env a n =
     (if n = 0 \<or> ar_max a = 0 then (None, a)
      else if n > SIZE_MAX - 15 then (None, arena_refuse a)
      else
        let want = round_up n in
        if want > ar_max a - ar_used a then (None, arena_refuse a)
        else
          (case ar_head a of
             c # cs \<Rightarrow>
               if want \<le> ch_cap c - ch_used c then take_from a c cs want
               else arena_next_chunk env a want
           | [] \<Rightarrow> arena_next_chunk env a want))"

definition zero_used :: "ArenaChunk \<Rightarrow> ArenaChunk" where
  "zero_used c =
     (if ch_used c > 0 then
        c\<lparr>ch_mem := replicate (unat (ch_used c)) NUL @ drop (unat (ch_used c)) (ch_mem c)\<rparr>
      else c)"

fun reset_loop :: "ArenaChunk list \<Rightarrow> ArenaChunk option \<Rightarrow> bool \<times> ArenaChunk option \<times> release_call list" where
  "reset_loop [] spare = (True, spare, [])"
| "reset_loop (c # cs) spare =
     (let c' = zero_used c in
      if spare = None \<and> ch_cap c \<le> ARENA_KEEP_MAX then
        (case reset_loop cs (Some (c'\<lparr>ch_used := 0\<rparr>)) of
           (ok, sp, calls) \<Rightarrow> (chunk_ok c \<and> ok, sp, calls))
      else
        (case reset_loop cs spare of
           (ok, sp, calls) \<Rightarrow> (chunk_ok c \<and> ok, sp, chunk_release c' # calls)))"

definition arena_reset :: "Arena \<Rightarrow> int \<times> Arena \<times> release_call list" where
  "arena_reset a =
     (case reset_loop (ar_head a) (ar_spare a) of
        (intact, spare, calls) \<Rightarrow>
          (if intact then 0 else -1, a\<lparr>ar_head := [], ar_spare := spare, ar_used := 0\<rparr>, calls))"

definition arena_free :: "Arena \<Rightarrow> Arena \<times> release_call list" where
  "arena_free a =
     (case arena_reset a of
        (_, a', calls) \<Rightarrow>
          (case ar_spare a' of
             None \<Rightarrow> (a'\<lparr>ar_max := 0\<rparr>, calls)
           | Some c \<Rightarrow> (a'\<lparr>ar_spare := None, ar_max := 0\<rparr>, calls @ [chunk_release c])))"

definition arena_available :: "Arena \<Rightarrow> size_t option" where
  "arena_available a = (if ar_max a \<ge> ar_used a then Some (ar_max a - ar_used a) else None)"

section \<open>Well-formed arenas\<close>

definition chunk_wf :: "ArenaChunk \<Rightarrow> bool" where
  "chunk_wf c \<longleftrightarrow> ch_used c \<le> ch_cap c \<and> length (ch_mem c) = unat (ch_cap c) + ARENA_CANARY_SIZE \<and>
     unat (ch_bytes c) = unat (ch_cap c) + 64 \<and> ch_mapped c = (ARENA_MMAP_MIN \<le> ch_bytes c) \<and>
     16 dvd unat (ch_used c) \<and> 16 dvd ch_addr c"

definition chunks_apart :: "ArenaChunk \<Rightarrow> ArenaChunk \<Rightarrow> bool" where
  "chunks_apart c d \<longleftrightarrow>
     ch_addr c + unat (ch_bytes c) \<le> ch_addr d \<or> ch_addr d + unat (ch_bytes d) \<le> ch_addr c"

definition chunks :: "Arena \<Rightarrow> ArenaChunk list" where
  "chunks a = ar_head a @ (case ar_spare a of None \<Rightarrow> [] | Some c \<Rightarrow> [c])"

definition arena_inv :: "Arena \<Rightarrow> bool" where
  "arena_inv a \<longleftrightarrow>
     (\<forall>c \<in> set (chunks a). chunk_wf c \<and> chunk_ok c) \<and> sorted_wrt chunks_apart (chunks a) \<and>
     unat (ar_used a) = sum_list (map (\<lambda>c. unat (ch_used c)) (ar_head a)) \<and>
     ar_used a \<le> ar_max a \<and> ar_used a \<le> ar_peak a \<and>
     (\<forall>c. ar_spare a = Some c \<longrightarrow> ch_used c = 0 \<and> ch_cap c \<le> ARENA_KEEP_MAX)"

text \<open>What the code relies on from \<open>malloc\<close> and \<open>mmap\<close>: aligned regions that do not overlap
  the chunks in use.\<close>

definition env_fresh :: "chunk_env \<Rightarrow> Arena \<Rightarrow> bool" where
  "env_fresh env a \<longleftrightarrow>
     (\<forall>n m. mmap_at env n = Some m \<or> malloc_at env n = Some m \<longrightarrow>
        16 dvd m \<and> (\<forall>c \<in> set (chunks a).
          m + unat n \<le> ch_addr c \<or> ch_addr c + unat (ch_bytes c) \<le> m))"

lemma chunks_apart_sym: "chunks_apart c d \<Longrightarrow> chunks_apart d c"
  by (auto simp: chunks_apart_def)

lemma round_up_spec:
  assumes "n \<noteq> 0" "\<not> n > SIZE_MAX - 15"
  shows "16 dvd unat (round_up n)" "unat n \<le> unat (round_up n)" "unat (round_up n) < unat n + 16"
    "0 < round_up n"
proof -
  have "unat (SIZE_MAX - 15) = 2 ^ 64 - 16" by simp
  with assms(2) have "unat n + 15 < 2 ^ 64"
    by (auto simp: word_less_nat_alt)
  then have eq: "unat (round_up n) = (unat n + 15) div 16 * 16"
    unfolding round_up_def unat_and_not_15 by (simp add: unat_add_no_wrap)
  have pos: "0 < unat n" using assms(1) by (simp add: unat_gt_0)
  from eq show "16 dvd unat (round_up n)" by simp
  from eq show ge: "unat n \<le> unat (round_up n)" by presburger
  from eq show "unat (round_up n) < unat n + 16" by presburger
  from ge pos show "0 < round_up n" by (simp add: word_less_nat_alt)
qed

lemma chunk_cap_ge:
  assumes "cap \<noteq> 0"
  shows "\<exists>c. chunk_cap cap want mx = Some c \<and> want \<le> c"
  using assms
proof (induction cap want mx rule: chunk_cap.induct)
  case (1 cap want mx)
  show ?case
  proof (cases "cap < want \<and> \<not> mx div 2 < cap")
    case True
    then have half: "cap \<le> mx div 2" by auto
    have "cap * 2 \<noteq> 0"
      using unat_double_no_wrap(1) [OF half] "1.prems"
      by (metis mult_eq_0_iff unat_eq_zero zero_neq_numeral)
    then show ?thesis
      using "1.IH" True "1.prems" by (simp add: chunk_cap.simps [of cap])
  qed (use "1.prems" in \<open>auto simp: chunk_cap.simps [of cap]\<close>)
qed

lemma chunk_new_wf:
  assumes "chunk_new env cap = Some c"
  shows "ch_cap c = cap" "ch_used c = 0" "16 dvd ch_addr c \<Longrightarrow> chunk_wf c" "chunk_ok c"
    "mmap_at env (ch_bytes c) = Some (ch_addr c) \<or> malloc_at env (ch_bytes c) = Some (ch_addr c)"
proof -
  let ?total = "CHUNK_HEADER + cap + of_nat ARENA_CANARY_SIZE :: size_t"
  have ok: "\<not> ?total < cap"
    using assms by (auto simp: chunk_new_def Let_def)
  have tot: "unat ?total = unat cap + 64"
  proof (rule ccontr)
    assume ne: "unat ?total \<noteq> unat cap + 64"
    have e: "?total = cap + 64" by simp
    have "unat cap + 64 \<ge> 2 ^ 64"
      using ne unat_add_no_wrap [of cap 64] unfolding e by (rule_tac ccontr) simp
    moreover have "unat cap < 2 ^ 64" using unsigned_less [of cap, where 'a = nat] by simp
    ultimately have "(unat cap + 64) mod 2 ^ 64 < unat cap"
      by (simp add: le_mod_geq)
    then have "?total < cap"
      unfolding e word_less_nat_alt by (simp add: unat_word_ariths)
    with ok show False by simp
  qed
  show "ch_cap c = cap" "ch_used c = 0" "chunk_ok c"
    "mmap_at env (ch_bytes c) = Some (ch_addr c) \<or> malloc_at env (ch_bytes c) = Some (ch_addr c)"
    using assms by (auto simp: chunk_new_def Let_def chunk_ok_def split: if_splits option.splits)
  show "chunk_wf c" if "16 dvd ch_addr c"
    using assms that tot by (auto simp: chunk_new_def Let_def chunk_wf_def split: if_splits option.splits)
qed

lemma sorted_wrt_move_last:
  assumes "sorted_wrt P (xs @ [y])" "\<And>a b. P a b \<Longrightarrow> P b a"
  shows "sorted_wrt P (y # xs)"
  using assms by (auto simp: sorted_wrt_append)

lemma arena_inv_spare_to_head:
  assumes "arena_inv a" "ar_spare a = Some c"
  shows "arena_inv (a\<lparr>ar_spare := None, ar_head := c\<lparr>ch_used := 0\<rparr> # ar_head a\<rparr>)"
proof -
  have eq: "c\<lparr>ch_used := 0\<rparr> = c" using assms by (simp add: arena_inv_def)
  have "sorted_wrt chunks_apart (c # ar_head a)"
    using assms by (intro sorted_wrt_move_last) (auto simp: arena_inv_def chunks_def chunks_apart_sym)
  then show ?thesis
    unfolding eq using assms by (auto simp: arena_inv_def chunks_def)
qed

lemma arena_inv_new_head:
  assumes inv: "arena_inv a" and fresh: "env_fresh env a" and new: "chunk_new env cap = Some c"
  shows "arena_inv (a\<lparr>ar_head := c # ar_head a\<rparr>)"
proof -
  note c = chunk_new_wf [OF new]
  have al: "16 dvd ch_addr c"
    and ap: "\<forall>d \<in> set (chunks a). chunks_apart c d"
    using fresh c(5) by (auto simp: env_fresh_def chunks_apart_def)
  have "chunks (a\<lparr>ar_head := c # ar_head a\<rparr>) = c # chunks a"
    by (simp add: chunks_def)
  then show ?thesis
    using inv c(2) c(3) [OF al] c(4) ap by (simp add: arena_inv_def)
qed

text \<open>Bumping the head chunk: the shared step of the three ways to serve a request.\<close>

lemma take_from_inv:
  assumes inv: "arena_inv (a\<lparr>ar_head := c # cs\<rparr>)"
    and room: "want \<le> ch_cap c - ch_used c" and lim: "want \<le> ar_max a - ar_used a"
    and al: "16 dvd unat want"
  shows "arena_inv (snd (take_from a c cs want))"
proof -
  have cs: "ch_used c \<le> ch_cap c" "ar_used a \<le> ar_max a"
    using inv by (auto simp: arena_inv_def chunks_def chunk_wf_def)
  have room': "unat want \<le> unat (ch_cap c) - unat (ch_used c)"
    and lim': "unat want \<le> unat (ar_max a) - unat (ar_used a)"
    using room lim cs by (simp_all add: word_le_nat_alt unat_sub_no_wrap)
  have cs': "unat (ch_used c) \<le> unat (ch_cap c)" "unat (ar_used a) \<le> unat (ar_max a)"
    using cs by (simp_all add: word_le_nat_alt)
  have u1: "unat (ch_used c + want) = unat (ch_used c) + unat want"
    using room' cs' unsigned_less [of "ch_cap c", where 'a = nat]
    by (intro unat_add_no_wrap) simp
  have u2: "unat (ar_used a + want) = unat (ar_used a) + unat want"
    using lim' cs' unsigned_less [of "ar_max a", where 'a = nat]
    by (intro unat_add_no_wrap) simp
  let ?c = "c\<lparr>ch_used := ch_used c + want\<rparr>"
  have "chunk_wf ?c" "chunk_ok ?c"
    using inv u1 room' cs' al
    by (auto simp: arena_inv_def chunks_def chunk_wf_def chunk_ok_def word_le_nat_alt)
  moreover have "\<And>d. chunks_apart ?c d = chunks_apart c d"
    by (simp add: chunks_apart_def)
  moreover have "ar_used a + want \<le> ar_max a"
    using u2 lim' cs' by (simp add: word_le_nat_alt)
  ultimately show ?thesis
    using inv u1 u2
    by (auto simp: arena_inv_def chunks_def take_from_def arena_bump_def Let_def)
qed

lemma arena_refuse_inv [simp]: "arena_inv (arena_refuse a) = arena_inv a"
  by (simp add: arena_inv_def arena_refuse_def chunks_def)

lemma arena_alloc_cases:
  assumes inv: "arena_inv a" and fresh: "env_fresh env a"
  obtains (nothing) "n = 0 \<or> ar_max a = 0" "arena_alloc env a n = (None, a)"
  | (refused) "n \<noteq> 0" "arena_alloc env a n = (None, arena_refuse a)"
  | (served) a1 c cs where "n \<noteq> 0" "\<not> n > SIZE_MAX - 15" "ar_max a \<noteq> 0"
      "arena_alloc env a n = take_from a1 c cs (round_up n)"
      "arena_inv (a1\<lparr>ar_head := c # cs\<rparr>)" "ar_head a = c # cs \<or> ar_head a = cs"
      "ar_used a1 = ar_used a" "ar_max a1 = ar_max a"
      "round_up n \<le> ch_cap c - ch_used c" "round_up n \<le> ar_max a - ar_used a"
proof -
  let ?want = "round_up n"
  consider "n = 0 \<or> ar_max a = 0"
    | "n \<noteq> 0" "ar_max a \<noteq> 0" "n > SIZE_MAX - 15 \<or> ?want > ar_max a - ar_used a"
    | "n \<noteq> 0" "ar_max a \<noteq> 0" "\<not> n > SIZE_MAX - 15" "?want \<le> ar_max a - ar_used a"
    by fastforce
  then show thesis
  proof cases
    case 1
    then have "arena_alloc env a n = (None, a)" by (auto simp: arena_alloc_def)
    with 1 show thesis by (rule nothing)
  next
    case 2
    then show thesis by (intro refused) (auto simp: arena_alloc_def Let_def)
  next
    case 3
    then have alloc: "arena_alloc env a n =
        (case ar_head a of c # cs \<Rightarrow> if ?want \<le> ch_cap c - ch_used c then take_from a c cs ?want
           else arena_next_chunk env a ?want | [] \<Rightarrow> arena_next_chunk env a ?want)"
      by (auto simp: arena_alloc_def Let_def not_less)
    have fresh_chunk: thesis if e: "arena_alloc env a n = arena_fresh_chunk env a ?want"
    proof (cases "Option.bind (chunk_cap ARENA_MIN_SIZE ?want (ar_max a))
                    (\<lambda>cap. chunk_new env (if cap < ?want then ?want else cap))")
      case None
      with e 3(1) show thesis by (intro refused) (auto simp: arena_fresh_chunk_def)
    next
      case (Some c)
      obtain k where k: "chunk_cap ARENA_MIN_SIZE ?want (ar_max a) = Some k" "?want \<le> k"
        using chunk_cap_ge [of ARENA_MIN_SIZE ?want "ar_max a"] by auto
      with Some have new: "chunk_new env k = Some c" by (simp add: leD)
      then have "?want \<le> ch_cap c - ch_used c"
        using k(2) chunk_new_wf(1,2) [OF new] by simp
      then show thesis
        using e Some 3 arena_inv_new_head [OF inv fresh new]
        by (intro served [of a c "ar_head a"]) (auto simp: arena_fresh_chunk_def)
    qed
    have next_chunk: thesis if e: "arena_alloc env a n = arena_next_chunk env a ?want"
    proof (cases "\<exists>c. ar_spare a = Some c \<and> ?want \<le> ch_cap c")
      case True
      then obtain c where c: "ar_spare a = Some c" "?want \<le> ch_cap c" by blast
      show thesis
        using e c 3 arena_inv_spare_to_head [OF inv c(1)]
        by (intro served [of "a\<lparr>ar_spare := None\<rparr>" "c\<lparr>ch_used := 0\<rparr>" "ar_head a"])
          (auto simp: arena_next_chunk_def)
    next
      case False
      then have "arena_next_chunk env a ?want = arena_fresh_chunk env a ?want"
        by (auto simp: arena_next_chunk_def split: option.splits)
      with e show thesis by (intro fresh_chunk) simp
    qed
    show thesis
    proof (cases "\<exists>c cs. ar_head a = c # cs \<and> ?want \<le> ch_cap c - ch_used c")
      case True
      then obtain c cs where c: "ar_head a = c # cs" "?want \<le> ch_cap c - ch_used c" by blast
      have "a\<lparr>ar_head := c # cs\<rparr> = a" using c(1) by simp
      with inv have "arena_inv (a\<lparr>ar_head := c # cs\<rparr>)" by (simp only:)
      then show thesis
        using alloc c 3 by (intro served [of a c cs]) auto
    next
      case False
      then show thesis
        using alloc by (intro next_chunk) (auto split: list.splits)
    qed
  qed
qed

lemma arena_alloc_inv:
  assumes "arena_inv a" "env_fresh env a"
  shows "arena_inv (snd (arena_alloc env a n))"
proof (rule arena_alloc_cases [OF assms, of n], goal_cases nothing refused served)
  case nothing
  with assms show ?case by simp
next
  case refused
  with assms show ?case by simp
next
  case (served a1 c cs)
  then show ?case
    using take_from_inv [OF served(5), of "round_up n"] round_up_spec(1) [OF served(1,2)] by simp
qed

section \<open>Resetting\<close>

lemma zero_used_simps [simp]:
  "ch_addr (zero_used c) = ch_addr c" "ch_cap (zero_used c) = ch_cap c"
  "ch_used (zero_used c) = ch_used c" "ch_bytes (zero_used c) = ch_bytes c"
  "ch_mapped (zero_used c) = ch_mapped c"
  by (simp_all add: zero_used_def)

lemma zero_used_wf:
  assumes "chunk_wf c"
  shows "chunk_wf (zero_used c)" "chunk_ok (zero_used c) = chunk_ok c"
proof -
  have le: "unat (ch_used c) \<le> unat (ch_cap c)"
    using assms by (simp add: chunk_wf_def word_le_nat_alt)
  show "chunk_wf (zero_used c)"
    using assms le by (simp add: chunk_wf_def zero_used_def)
  show "chunk_ok (zero_used c) = chunk_ok c"
    using assms le by (simp add: chunk_ok_def zero_used_def chunk_wf_def)
qed

definition kept :: "ArenaChunk option \<Rightarrow> ArenaChunk list" where
  "kept sp = (case sp of None \<Rightarrow> [] | Some c \<Rightarrow> [c])"

text \<open>Every chunk is either kept as the spare or released, once, by the call that matches how
  it was obtained.\<close>

lemma reset_loop_spec:
  assumes "\<forall>c \<in> set cs. chunk_wf c" "\<forall>c. spare = Some c \<longrightarrow> chunk_wf c \<and> chunk_ok c \<and> ch_used c = 0 \<and> ch_cap c \<le> ARENA_KEEP_MAX"
    and "reset_loop cs spare = (ok, sp, calls)"
  shows "ok = (\<forall>c \<in> set cs. chunk_ok c) \<and>
    mset calls + mset (map chunk_release (kept sp)) = mset (map chunk_release (kept spare @ cs)) \<and>
    (\<forall>c. sp = Some c \<longrightarrow> chunk_wf c \<and> (ok \<longrightarrow> chunk_ok c) \<and> ch_used c = 0 \<and> ch_cap c \<le> ARENA_KEEP_MAX)"
  using assms
proof (induction cs spare arbitrary: ok calls rule: reset_loop.induct)
  case (1 spare)
  then show ?case by auto
next
  case (2 c cs spare)
  have wf: "chunk_wf (zero_used c\<lparr>ch_used := 0\<rparr>)" "chunk_ok (zero_used c\<lparr>ch_used := 0\<rparr>) = chunk_ok c"
    using zero_used_wf [of c] "2.prems"(1) by (auto simp: chunk_wf_def chunk_ok_def)
  have rel: "chunk_release (zero_used c\<lparr>ch_used := 0\<rparr>) = chunk_release c"
      "chunk_release (zero_used c) = chunk_release c"
    by (simp_all add: chunk_release_def)
  show ?case
  proof (cases "spare = None \<and> ch_cap c \<le> ARENA_KEEP_MAX")
    case True
    obtain ok' where r: "reset_loop cs (Some (zero_used c\<lparr>ch_used := 0\<rparr>)) = (ok', sp, calls)"
        "ok = (chunk_ok c \<and> ok')"
      using "2.prems"(3) True by (auto simp: Let_def split: prod.splits)
    show ?thesis
    proof (cases "chunk_ok c")
      case ok_c: True
      show ?thesis
        using "2.IH"(1) [OF refl _ _ _ r(1)] True r "2.prems"(1) wf rel ok_c
        by (auto simp: kept_def)
    next
      case False
      have "sp = Some (zero_used c\<lparr>ch_used := 0\<rparr>) \<and> calls = map chunk_release cs"
        using r(1) by (induction cs arbitrary: ok' calls)
          (auto simp: Let_def chunk_release_def split: prod.splits)
      then show ?thesis
        using False True r wf rel by (auto simp: kept_def)
    qed
  next
    case False
    obtain ok' calls' where r: "reset_loop cs spare = (ok', sp, calls')"
        "ok = (chunk_ok c \<and> ok')" "calls = chunk_release (zero_used c) # calls'"
      using "2.prems"(3) False by (auto simp: Let_def split: prod.splits if_splits)
    show ?thesis
      using "2.IH"(2) [OF refl False _ "2.prems"(2) r(1)] r "2.prems"(1) rel by auto
  qed
qed

lemma arena_reset_spec:
  assumes inv: "arena_inv a" and r: "arena_reset a = (rc, a', calls)"
  shows "rc = 0 \<and> arena_inv a' \<and> ar_head a' = [] \<and> ar_used a' = 0 \<and> ar_max a' = ar_max a \<and>
    mset calls + mset (map chunk_release (kept (ar_spare a'))) = mset (map chunk_release (chunks a))"
proof -
  obtain ok sp where l: "reset_loop (ar_head a) (ar_spare a) = (ok, sp, calls)"
      "rc = (if ok then 0 else -1)" "a' = a\<lparr>ar_head := [], ar_spare := sp, ar_used := 0\<rparr>"
    using r by (auto simp: arena_reset_def split: prod.splits)
  have ch: "\<forall>c \<in> set (ar_head a). chunk_wf c \<and> chunk_ok c"
      "\<forall>c. ar_spare a = Some c \<longrightarrow> chunk_wf c \<and> chunk_ok c \<and> ch_used c = 0 \<and> ch_cap c \<le> ARENA_KEEP_MAX"
    using inv by (auto simp: arena_inv_def chunks_def)
  note spec = reset_loop_spec [OF _ ch(2) l(1)]
  have ok: ok using spec ch by blast
  have "sorted_wrt chunks_apart (kept sp)" by (simp add: kept_def split: option.splits)
  then have "arena_inv a'"
    using spec ch ok l(3)
    by (auto simp: arena_inv_def chunks_def kept_def split: option.splits)
  moreover have "mset (map chunk_release (chunks a)) = mset (map chunk_release (kept (ar_spare a) @ ar_head a))"
    by (simp add: chunks_def kept_def)
  ultimately show ?thesis
    using spec ch ok l(2,3) by simp
qed

section \<open>Live blocks\<close>

type_synonym block = "nat \<times> nat"

fun blocks_apart :: "block \<Rightarrow> block \<Rightarrow> bool" where
  "blocks_apart (p, m) (q, n) \<longleftrightarrow> p + m \<le> q \<or> q + n \<le> p"

definition in_chunk :: "block \<Rightarrow> ArenaChunk \<Rightarrow> bool" where
  "in_chunk b c \<longleftrightarrow> chunk_base c \<le> fst b \<and> fst b + snd b \<le> chunk_base c + unat (ch_used c)"

definition blocks_inv :: "Arena \<Rightarrow> block list \<Rightarrow> bool" where
  "blocks_inv a bs \<longleftrightarrow>
     (\<forall>b \<in> set bs. 16 dvd fst b \<and> (\<exists>c \<in> set (ar_head a). in_chunk b c)) \<and> sorted_wrt blocks_apart bs"

text \<open>A client writing into memory: the bytes of the chunk that holds the address change.\<close>

definition write_chunk :: "nat \<Rightarrow> string \<Rightarrow> ArenaChunk \<Rightarrow> ArenaChunk" where
  "write_chunk p vs c =
     (if chunk_base c \<le> p \<and> p < chunk_base c + length (ch_mem c) then
        let o' = p - chunk_base c in
        c\<lparr>ch_mem := take o' (ch_mem c) @ vs @ drop (o' + length vs) (ch_mem c)\<rparr>
      else c)"

definition arena_write :: "Arena \<Rightarrow> nat \<Rightarrow> string \<Rightarrow> Arena" where
  "arena_write a p vs = a\<lparr>ar_head := map (write_chunk p vs) (ar_head a)\<rparr>"

inductive arena_run :: "Arena \<Rightarrow> block list \<Rightarrow> bool" where
  run_init: "arena_init a0 mx = (0, a) \<Longrightarrow> arena_run a []"
| run_alloc: "arena_run a bs \<Longrightarrow> env_fresh env a \<Longrightarrow> arena_alloc env a n = (Some p, a') \<Longrightarrow>
    arena_run a' ((p, unat n) # bs)"
| run_refused: "arena_run a bs \<Longrightarrow> env_fresh env a \<Longrightarrow> arena_alloc env a n = (None, a') \<Longrightarrow>
    arena_run a' bs"
| run_write: "arena_run a bs \<Longrightarrow> (p, k) \<in> set bs \<Longrightarrow> i + length vs \<le> k \<Longrightarrow>
    arena_run (arena_write a (p + i) vs) bs"
| run_reset: "arena_run a bs \<Longrightarrow> arena_reset a = (rc, a', calls) \<Longrightarrow> arena_run a' []"

lemma chunk_span:
  assumes "chunk_wf c"
  shows "chunk_base c = ch_addr c + 48"
    "chunk_base c + unat (ch_used c) + 16 \<le> ch_addr c + unat (ch_bytes c)"
  using assms by (simp_all add: chunk_base_def chunk_wf_def word_le_nat_alt)

lemma in_other_chunk_apart:
  assumes "chunk_wf c" "chunk_wf d" "chunks_apart c d" "in_chunk b d"
    "chunk_base c \<le> p" "p + k \<le> chunk_base c + unat (ch_cap c)"
  shows "blocks_apart (p, k) b"
  using assms by (cases b) (auto simp: in_chunk_def chunks_apart_def chunk_base_def chunk_wf_def word_le_nat_alt)

lemma take_from_blocks:
  assumes inv: "arena_inv (a\<lparr>ar_head := c # cs\<rparr>)" and bl: "blocks_inv (a\<lparr>ar_head := c # cs\<rparr>) bs"
    and room: "want \<le> ch_cap c - ch_used c" and k: "k \<le> unat want" and k0: "0 < k"
    and t: "take_from a c cs want = (Some p, a')"
  shows "blocks_inv a' ((p, k) # bs)"
proof -
  have wf: "chunk_wf c" "\<forall>d \<in> set cs. chunk_wf d \<and> chunks_apart c d"
    using inv by (auto simp: arena_inv_def chunks_def)
  have le: "unat (ch_used c) \<le> unat (ch_cap c)"
    using wf by (simp add: chunk_wf_def word_le_nat_alt)
  have rm: "unat want \<le> unat (ch_cap c) - unat (ch_used c)"
    using room wf by (simp add: chunk_wf_def word_le_nat_alt unat_sub_no_wrap)
  have u: "unat (ch_used c + want) = unat (ch_used c) + unat want"
    using rm le unsigned_less [of "ch_cap c", where 'a = nat] by (intro unat_add_no_wrap) simp
  let ?c = "c\<lparr>ch_used := ch_used c + want\<rparr>"
  have p: "p = chunk_base c + unat (ch_used c)" and hd: "ar_head a' = ?c # cs"
    using t by (auto simp: take_from_def arena_bump_def Let_def)
  have new: "in_chunk (p, k) ?c" "16 dvd p"
    using p u k wf(1) by (auto simp: in_chunk_def chunk_base_def chunk_wf_def)
  have old: "\<exists>d \<in> set (?c # cs). in_chunk b d" if "\<exists>d \<in> set (c # cs). in_chunk b d" for b
    using that u by (auto simp: in_chunk_def chunk_base_def)
  have "blocks_apart (p, k) b" if b: "b \<in> set bs" for b
  proof -
    obtain d where d: "d \<in> set (c # cs)" "in_chunk b d"
      using bl b by (auto simp: blocks_inv_def)
    show ?thesis
    proof (cases "d \<in> set cs")
      case True
      then show ?thesis
        using in_other_chunk_apart [OF wf(1) _ _ d(2), of p k] wf(2) p rm le k by auto
    next
      case False
      then show ?thesis
        using d p by (cases b) (auto simp: in_chunk_def)
    qed
  qed
  then show ?thesis
    using bl new old hd by (auto simp: blocks_inv_def)
qed

lemma write_chunk_simps [simp]:
  "ch_addr (write_chunk p vs c) = ch_addr c" "ch_cap (write_chunk p vs c) = ch_cap c"
  "ch_used (write_chunk p vs c) = ch_used c" "ch_bytes (write_chunk p vs c) = ch_bytes c"
  "ch_mapped (write_chunk p vs c) = ch_mapped c" "chunk_base (write_chunk p vs c) = chunk_base c"
  by (simp_all add: write_chunk_def chunk_base_def Let_def)

lemma chunks_apart_write [simp]:
  "chunks_apart (write_chunk p vs c) d = chunks_apart c d"
  "chunks_apart c (write_chunk p vs d) = chunks_apart c d"
  by (simp_all add: chunks_apart_def)

lemma blocks_inv_mono:
  "blocks_inv a bs \<Longrightarrow> set (ar_head a) \<subseteq> set (ar_head a') \<Longrightarrow> blocks_inv a' bs"
  unfolding blocks_inv_def by blast

lemma sorted_wrt_members:
  "sorted_wrt P xs \<Longrightarrow> c \<in> set xs \<Longrightarrow> d \<in> set xs \<Longrightarrow> c = d \<or> P c d \<or> P d c"
  by (induction xs) auto

lemma write_chunk_ok:
  assumes wf: "chunk_wf c" "chunk_ok c"
    and inside: "chunk_base c \<le> p \<Longrightarrow> p < chunk_base c + length (ch_mem c) \<Longrightarrow>
      p + length vs \<le> chunk_base c + unat (ch_cap c)"
  shows "chunk_wf (write_chunk p vs c)" "chunk_ok (write_chunk p vs c)"
proof -
  have "chunk_wf (write_chunk p vs c) \<and> chunk_ok (write_chunk p vs c)"
  proof (cases "chunk_base c \<le> p \<and> p < chunk_base c + length (ch_mem c)")
    case False
    then have "write_chunk p vs c = c" by (auto simp: write_chunk_def)
    with wf show ?thesis by simp
  next
    case True
    then have le: "p - chunk_base c + length vs \<le> unat (ch_cap c)"
      using inside by auto
    moreover have "length (ch_mem c) = unat (ch_cap c) + ARENA_CANARY_SIZE"
      using wf by (simp add: chunk_wf_def)
    ultimately show ?thesis
      using wf True by (auto simp: write_chunk_def Let_def chunk_wf_def chunk_ok_def)
  qed
  then show "chunk_wf (write_chunk p vs c)" "chunk_ok (write_chunk p vs c)" by auto
qed

lemma arena_write_inv:
  assumes inv: "arena_inv a" and bl: "blocks_inv a bs" and m: "(p, k) \<in> set bs"
    and len: "i + length vs \<le> k"
  shows "arena_inv (arena_write a (p + i) vs)" "blocks_inv (arena_write a (p + i) vs) bs"
proof -
  have hd: "\<forall>c \<in> set (ar_head a). chunk_wf c \<and> chunk_ok c" "sorted_wrt chunks_apart (ar_head a)"
    using inv by (auto simp: arena_inv_def chunks_def sorted_wrt_append)
  obtain d where d: "d \<in> set (ar_head a)" "in_chunk (p, k) d"
    using bl m by (force simp: blocks_inv_def)
  have "chunk_wf (write_chunk (p + i) vs c) \<and> chunk_ok (write_chunk (p + i) vs c)"
    if c: "c \<in> set (ar_head a)" for c
  proof -
    have "p + i + length vs \<le> chunk_base c + unat (ch_cap c)"
      if r: "chunk_base c \<le> p + i" "p + i < chunk_base c + length (ch_mem c)"
    proof -
      have "\<not> chunks_apart c d \<and> \<not> chunks_apart d c"
        using r d len hd(1) c
        by (auto simp: chunks_apart_def in_chunk_def chunk_base_def chunk_wf_def word_le_nat_alt)
      then have "c = d" using sorted_wrt_members [OF hd(2) c d(1)] by blast
      then show ?thesis
        using d hd(1) len by (auto simp: in_chunk_def chunk_wf_def word_le_nat_alt)
    qed
    then show ?thesis using write_chunk_ok [of c "p + i" vs] hd(1) c by blast
  qed
  moreover have "sorted_wrt chunks_apart (map (write_chunk (p + i) vs) (ar_head a) @
      (case ar_spare a of None \<Rightarrow> [] | Some c \<Rightarrow> [c]))"
    using inv by (auto simp: arena_inv_def chunks_def sorted_wrt_append sorted_wrt_map)
  ultimately show "arena_inv (arena_write a (p + i) vs)"
    using inv by (auto simp: arena_inv_def chunks_def arena_write_def comp_def)
  show "blocks_inv (arena_write a (p + i) vs) bs"
    using bl by (auto simp: blocks_inv_def arena_write_def in_chunk_def)
qed

lemma arena_run_inv: "arena_run a bs \<Longrightarrow> arena_inv a \<and> blocks_inv a bs"
proof (induction rule: arena_run.induct)
  case (run_init a0 mx a)
  then show ?case
    by (auto simp: arena_init_def arena_inv_def chunks_def blocks_inv_def split: if_splits)
next
  case (run_alloc a bs env n p a')
  then have "arena_inv a'" using arena_alloc_inv [of a env n] by simp
  moreover have "blocks_inv a' ((p, unat n) # bs)"
  proof (rule arena_alloc_cases [of a env n], goal_cases inv fresh nothing refused served)
    case (served a1 c cs)
    then have "blocks_inv (a1\<lparr>ar_head := c # cs\<rparr>) bs"
      using run_alloc.IH by (auto intro: blocks_inv_mono)
    then show ?case
      using take_from_blocks [OF served(5) _ served(9), of bs "unat n" p a'] served(1,4)
        run_alloc.hyps(3) round_up_spec [OF served(1,2)] by (simp add: unat_gt_0)
  qed (use run_alloc in auto)
  ultimately show ?case by blast
next
  case (run_refused a bs env n a')
  have "ar_head a' = ar_head a"
    by (rule arena_alloc_cases [of a env n])
      (use run_refused in \<open>auto simp: arena_refuse_def take_from_def\<close>)
  then show ?case
    using run_refused arena_alloc_inv [of a env n] by (auto simp: blocks_inv_def)
next
  case (run_write a bs p k i vs)
  then show ?case using arena_write_inv by blast
next
  case (run_reset a bs rc a' calls)
  then show ?case using arena_reset_spec [of a rc a' calls] by (auto simp: blocks_inv_def)
qed

lemma take_from_used:
  assumes "want \<le> ar_max a - ar_used a" "ar_used a \<le> ar_max a"
  shows "unat (ar_used (snd (take_from a c cs want))) = unat (ar_used a) + unat want"
proof -
  have "unat want \<le> unat (ar_max a) - unat (ar_used a)" "unat (ar_used a) \<le> unat (ar_max a)"
    using assms by (simp_all add: word_le_nat_alt unat_sub_no_wrap)
  then have "unat (ar_used a + want) = unat (ar_used a) + unat want"
    using unsigned_less [of "ar_max a", where 'a = nat] by (intro unat_add_no_wrap) simp
  then show ?thesis by (simp add: take_from_def arena_bump_def Let_def)
qed

lemma arena_alloc_served:
  assumes inv: "arena_inv a" and fresh: "env_fresh env a" and s: "arena_alloc env a n = (Some p, a')"
  shows "n \<noteq> 0" "unat (ar_used a') = unat (ar_used a) + unat (round_up n)" "ar_max a' = ar_max a"
    "unat n \<le> unat (round_up n)" "unat (round_up n) < unat n + 16"
proof -
  obtain a1 c cs where r: "n \<noteq> 0" "\<not> n > SIZE_MAX - 15"
      "arena_alloc env a n = take_from a1 c cs (round_up n)"
      "ar_used a1 = ar_used a" "ar_max a1 = ar_max a" "round_up n \<le> ar_max a - ar_used a"
    by (rule arena_alloc_cases [OF inv fresh, of n]) (use s in auto)
  have "ar_used a1 \<le> ar_max a1" using inv r by (simp add: arena_inv_def)
  then show "n \<noteq> 0" "unat (ar_used a') = unat (ar_used a) + unat (round_up n)" "ar_max a' = ar_max a"
    "unat n \<le> unat (round_up n)" "unat (round_up n) < unat n + 16"
    using take_from_used [of "round_up n" a1 c cs] r s round_up_spec [OF r(1,2)]
    by (auto simp: take_from_def arena_bump_def Let_def)
qed

lemma arena_refused_used: "arena_alloc env a n = (None, a') \<Longrightarrow> ar_used a' = ar_used a \<and> ar_max a' = ar_max a"
  by (auto simp: arena_alloc_def Let_def arena_refuse_def take_from_def arena_next_chunk_def
      arena_fresh_chunk_def split: if_splits list.splits option.splits)

lemma arena_run_used: "arena_run a bs \<Longrightarrow> sum_list (map snd bs) \<le> unat (ar_used a)"
proof (induction rule: arena_run.induct)
  case (run_alloc a bs env n p a')
  then show ?case
    using arena_alloc_served [of a env n p a'] arena_run_inv [of a bs] by simp
next
  case (run_refused a bs env n a')
  then show ?case using arena_refused_used by simp
qed (simp_all add: arena_write_def)

section \<open>Properties of the arena\<close>


definition arena_blank :: Arena where
  "arena_blank = \<lparr>ar_head = [], ar_spare = None, ar_used = 0, ar_max = 4096, ar_peak = 0, ar_refusals = 0\<rparr>"

definition env_at :: "nat \<Rightarrow> chunk_env" where
  "env_at m = \<lparr>mmap_at = (\<lambda>_. Some m), malloc_at = (\<lambda>_. Some m), heap_junk = (\<lambda>_. NUL)\<rparr>"

lemma arena_run_example:
  "arena_alloc (env_at 64) arena_blank 20 = (Some 112, snd (arena_alloc (env_at 64) arena_blank 20))"
  "arena_run (snd (arena_alloc (env_at 64) arena_blank 20)) [(112, 20)]"
proof -
  have r: "round_up 20 = 32" by (simp add: round_up_def)
  have c: "chunk_cap 4096 32 4096 = Some 4096" by (simp add: chunk_cap.simps)
  show al: "arena_alloc (env_at 64) arena_blank 20 = (Some 112, snd (arena_alloc (env_at 64) arena_blank 20))"
    by (simp add: arena_alloc_def arena_blank_def r c Let_def arena_next_chunk_def arena_fresh_chunk_def
        chunk_new_def env_at_def take_from_def chunk_base_def)
  have "arena_run arena_blank []"
    by (rule run_init [of arena_blank 4096]) (simp add: arena_init_def arena_blank_def)
  from run_alloc [OF this _ al] show "arena_run (snd (arena_alloc (env_at 64) arena_blank 20)) [(112, 20)]"
    by (simp add: env_fresh_def env_at_def arena_blank_def chunks_def)
qed


text \<open>Which requests are refused.\<close>

definition env_grants :: "chunk_env \<Rightarrow> bool" where
  "env_grants env \<longleftrightarrow> (\<forall>n. mmap_at env n \<noteq> None \<and> malloc_at env n \<noteq> None)"

lemma chunk_cap_le:
  assumes "chunk_cap cap want mx = Some c" "cap \<le> 2 ^ 63" "want \<le> 2 ^ 63" "mx < 2 ^ 63"
  shows "c \<le> 2 ^ 63"
  using assms
proof (induction cap want mx rule: chunk_cap.induct)
  case (1 cap want mx)
  show ?case
  proof (cases "cap < want \<and> \<not> mx div 2 < cap \<and> cap \<noteq> 0")
    case True
    then have "cap * 2 \<le> mx" by (intro unat_double_no_wrap(2)) auto
    with "1.prems" have "cap * 2 \<le> 2 ^ 63" by simp
    then show ?thesis
      using True "1.IH" "1.prems" by (auto simp: chunk_cap.simps [of cap])
  qed (use "1.prems" in \<open>auto simp: chunk_cap.simps [of cap] split: if_splits\<close>)
qed

lemma arena_fresh_chunk_served:
  assumes "env_grants env" "ar_max a < 2 ^ 63" "want \<le> ar_max a"
  shows "fst (arena_fresh_chunk env a want) \<noteq> None"
proof -
  obtain k where k: "chunk_cap ARENA_MIN_SIZE want (ar_max a) = Some k" "want \<le> k"
    using chunk_cap_ge [of ARENA_MIN_SIZE want "ar_max a"] by auto
  have "k \<le> 2 ^ 63"
    using assms by (intro chunk_cap_le [OF k(1)]) auto
  then have "unat k \<le> 2 ^ 63" by (simp add: word_le_nat_alt)
  then have "unat (k + 64) = unat k + 64" by (simp add: unat_add_no_wrap)
  then have "k \<le> k + 64" by (simp add: word_le_nat_alt)
  moreover have "mmap_at env (k + 64) \<noteq> None" "malloc_at env (k + 64) \<noteq> None"
    using assms(1) by (simp_all add: env_grants_def)
  ultimately have "chunk_new env k \<noteq> None"
    by (auto simp: chunk_new_def Let_def add.commute leD)
  then obtain c where "chunk_new env k = Some c" by blast
  then show ?thesis
    using k by (simp add: arena_fresh_chunk_def leD take_from_def)
qed

lemma arena_alloc_iff:
  assumes "arena_inv a" "env_fresh env a" "env_grants env" "0 < ar_max a" "ar_max a < 2 ^ 63"
  shows "fst (arena_alloc env a n) \<noteq> None \<longleftrightarrow>
    0 < n \<and> n \<le> SIZE_MAX - 15 \<and> unat (round_up n) \<le> unat (ar_max a) - unat (ar_used a)"
proof -
  have av: "round_up n \<le> ar_max a - ar_used a \<longleftrightarrow> unat (round_up n) \<le> unat (ar_max a) - unat (ar_used a)"
    using assms(1) by (simp add: arena_inv_def word_le_nat_alt unat_sub_no_wrap)
  have next_ok: "fst (arena_next_chunk env a want) \<noteq> None" if "want \<le> ar_max a" for want
    using arena_fresh_chunk_served [OF assms(3,5) that]
    by (auto simp: arena_next_chunk_def take_from_def split: option.splits)
  have "ar_max a - ar_used a \<le> ar_max a"
    using assms(1) by (simp add: arena_inv_def word_le_nat_alt unat_sub_no_wrap)
  then have serve: "fst (arena_alloc env a n) \<noteq> None"
    if "n \<noteq> 0" "\<not> n > SIZE_MAX - 15" "round_up n \<le> ar_max a - ar_used a"
    using that assms(4) next_ok [of "round_up n"]
    by (auto simp: arena_alloc_def Let_def take_from_def leD split: list.splits)
  have "0 < n \<longleftrightarrow> n \<noteq> 0" by (auto simp: word_gt_0)
  then show ?thesis
    using av serve by (auto simp: arena_alloc_def Let_def not_less not_le split: if_splits)
qed

text \<open>With a system allocator that grants every request, \<open>arena_alloc\<close> serves exactly the
  requests whose size, rounded up to 16 bytes, fits the bytes still available.\<close>

theorem arena_alloc_exact:
  assumes "arena_inv a" "env_fresh env a" "env_grants env" "0 < ar_max a" "ar_max a < 2 ^ 63"
  shows "fst (arena_alloc env a n) \<noteq> None \<longleftrightarrow>
    0 < n \<and> n \<le> SIZE_MAX - 15 \<and> unat (round_up n) \<le> unat (ar_max a) - unat (ar_used a)"
  using assms by (rule arena_alloc_iff)

theorem arena_alloc_exact_witness:
  "fst (arena_alloc (env_at 64) arena_blank 4000) \<noteq> None \<and> fst (arena_alloc (env_at 64) arena_blank 4097) = None"
proof -
  have h: "arena_inv arena_blank" "env_fresh (env_at 64) arena_blank" "env_grants (env_at 64)"
      "0 < ar_max arena_blank" "ar_max arena_blank < 2 ^ 63"
    by (simp_all add: arena_inv_def arena_blank_def chunks_def env_fresh_def env_at_def env_grants_def)
  have "round_up 4000 = 4000" "round_up 4097 = 4112" by (simp_all add: round_up_def)
  then show ?thesis
    using arena_alloc_exact [OF h, of 4000] arena_alloc_exact [OF h, of 4097]
    by (simp add: arena_blank_def)
qed

section \<open>The arena as the request allocator\<close>

text \<open>
  What the code that builds a response relies on: requests within the remaining budget are
  served, each costs at most 15 bytes more than asked, and a reset gives the whole budget
  back. The client lemma is about a whole handler: a list of requests that fits is served.
\<close>

locale bump_allocator =
  fixes invar :: "'a \<Rightarrow> bool" and alloc :: "'a \<Rightarrow> size_t \<Rightarrow> nat option \<times> 'a"
    and reset :: "'a \<Rightarrow> int \<times> 'a \<times> 'c" and avail :: "'a \<Rightarrow> nat" and budget :: "'a \<Rightarrow> nat"
  assumes alloc_served: "invar a \<Longrightarrow> 0 < n \<Longrightarrow> unat n + 15 \<le> avail a \<Longrightarrow>
      \<exists>p a'. alloc a n = (Some p, a') \<and> invar a' \<and> avail a - (unat n + 15) \<le> avail a' \<and>
        budget a' = budget a"
    and reset_restores: "invar a \<Longrightarrow>
      \<exists>a' c. reset a = (0, a', c) \<and> invar a' \<and> avail a' = budget a \<and> budget a' = budget a"
begin

primrec alloc_all :: "'a \<Rightarrow> size_t list \<Rightarrow> nat option list \<times> 'a" where
  "alloc_all a [] = ([], a)"
| "alloc_all a (n # ns) =
     (case alloc a n of (p, a') \<Rightarrow> (case alloc_all a' ns of (ps, a'') \<Rightarrow> (p # ps, a'')))"

lemma alloc_all_served:
  assumes "invar a" "\<forall>n \<in> set ns. 0 < n" "sum_list (map (\<lambda>n. unat n + 15) ns) \<le> avail a"
  shows "None \<notin> set (fst (alloc_all a ns)) \<and> invar (snd (alloc_all a ns)) \<and>
    budget (snd (alloc_all a ns)) = budget a"
  using assms
proof (induction ns arbitrary: a)
  case Nil
  then show ?case by simp
next
  case (Cons n ns)
  then obtain p a' where a': "alloc a n = (Some p, a')" "invar a'"
      "avail a - (unat n + 15) \<le> avail a'" "budget a' = budget a"
    using alloc_served [of a n] by auto
  then have "sum_list (map (\<lambda>n. unat n + 15) ns) \<le> avail a'"
    using Cons.prems(3) by simp
  then show ?case
    using Cons.IH [OF a'(2)] Cons.prems(2) a' by (auto split: prod.splits)
qed

lemma handler_then_reset:
  assumes "invar a" "\<forall>n \<in> set ns. 0 < n" "sum_list (map (\<lambda>n. unat n + 15) ns) \<le> avail a"
  shows "\<exists>a' c. reset (snd (alloc_all a ns)) = (0, a', c) \<and> avail a' = budget a"
  using alloc_all_served [OF assms] reset_restores [of "snd (alloc_all a ns)"] by auto

end

text \<open>The system allocator, as the arena needs it: each state of the arena is answered with
  fresh, aligned memory.\<close>

locale system_allocator =
  fixes env :: "Arena \<Rightarrow> chunk_env"
  assumes fresh: "env_fresh (env a) a" and grants: "env_grants (env a)"

definition small_arena :: "Arena \<Rightarrow> bool" where
  "small_arena a \<longleftrightarrow> arena_inv a \<and> 0 < ar_max a \<and> ar_max a < 2 ^ 63"

definition arena_left :: "Arena \<Rightarrow> nat" where
  "arena_left a = unat (ar_max a) - unat (ar_used a)"

sublocale system_allocator \<subseteq> sys: bump_allocator small_arena "\<lambda>a. arena_alloc (env a) a" arena_reset
  arena_left "\<lambda>a. unat (ar_max a)"
proof unfold_locales
  fix a :: Arena and n :: size_t
  assume a: "small_arena a" and n: "0 < n" "unat n + 15 \<le> arena_left a"
  then have inv: "arena_inv a" "0 < ar_max a" "ar_max a < 2 ^ 63" by (auto simp: small_arena_def)
  have "unat (ar_max a) < 2 ^ 63" using inv(3) by (simp add: word_less_nat_alt)
  then have lim: "n \<le> SIZE_MAX - 15"
    using n(2) by (simp add: arena_left_def word_le_nat_alt)
  then have "unat (round_up n) < unat n + 16"
    using n(1) by (intro round_up_spec) (auto simp: word_gt_0)
  then obtain p a' where s: "arena_alloc (env a) a n = (Some p, a')"
    using arena_alloc_iff [OF inv(1) fresh grants inv(2,3), of n] n lim
    by (cases "arena_alloc (env a) a n") (auto simp: arena_left_def)
  note sv = arena_alloc_served [OF inv(1) fresh s]
  have "arena_inv a'" using arena_alloc_inv [OF inv(1) fresh, of n] s by simp
  then show "\<exists>p a'. arena_alloc (env a) a n = (Some p, a') \<and> small_arena a' \<and>
      arena_left a - (unat n + 15) \<le> arena_left a' \<and> unat (ar_max a') = unat (ar_max a)"
    using s sv inv by (auto simp: small_arena_def arena_left_def)
next
  fix a :: Arena
  assume "small_arena a"
  then show "\<exists>a' c. arena_reset a = (0, a', c) \<and> small_arena a' \<and> arena_left a' = unat (ar_max a) \<and>
      unat (ar_max a') = unat (ar_max a)"
    using arena_reset_spec [of a] by (cases "arena_reset a") (auto simp: small_arena_def arena_left_def)
qed

definition frontier :: "Arena \<Rightarrow> nat" where
  "frontier a = 16 * sum_list (map (\<lambda>c. ch_addr c + unat (ch_bytes c)) (chunks a))"

definition env_top :: "Arena \<Rightarrow> chunk_env" where
  "env_top a = env_at (frontier a)"

interpretation top_alloc: system_allocator env_top
proof
  fix a :: Arena
  have "ch_addr c + unat (ch_bytes c) \<le> frontier a" if "c \<in> set (chunks a)" for c
  proof -
    have "ch_addr c + unat (ch_bytes c) \<le> sum_list (map (\<lambda>c. ch_addr c + unat (ch_bytes c)) (chunks a))"
      using that by (intro sum_list_ge_member) (auto intro: image_eqI)
    then show ?thesis by (simp add: frontier_def)
  qed
  then show "env_fresh (env_top a) a"
    by (auto simp: env_fresh_def env_top_def env_at_def frontier_def)
  show "env_grants (env_top a)"
    by (simp add: env_grants_def env_top_def env_at_def)
qed

text \<open>\<open>arena_free\<close> hands every chunk of the arena, in use or spare, back to the system exactly
  once and by the call that matches how it was obtained, and leaves an arena that refuses all
  further requests; before that, \<open>arena_reset\<close> releases all chunks but the one it keeps.\<close>

theorem arena_free_releases_all:
  assumes "arena_inv a"
  shows "mset (snd (arena_free a)) = mset (map chunk_release (chunks a)) \<and>
    chunks (fst (arena_free a)) = [] \<and> fst (arena_alloc env (fst (arena_free a)) n) = None \<and>
    mset (snd (snd (arena_reset a))) + mset (map chunk_release (chunks (fst (snd (arena_reset a)))))
      = mset (map chunk_release (chunks a))"
proof -
  obtain rc a' calls where r: "arena_reset a = (rc, a', calls)" by (cases "arena_reset a")
  note spec = arena_reset_spec [OF assms r]
  have "chunks a' = kept (ar_spare a')"
    using spec by (simp add: chunks_def kept_def)
  then show ?thesis
    using r spec
    by (cases "ar_spare a'") (auto simp: arena_free_def chunks_def kept_def arena_alloc_def)
qed

theorem arena_free_releases_all_witness:
  "mset (snd (arena_free (snd (arena_alloc (env_at 64) arena_blank 20)))) =
     mset (map chunk_release (chunks (snd (arena_alloc (env_at 64) arena_blank 20))))"
proof -
  have "arena_inv (snd (arena_alloc (env_at 64) arena_blank 20))"
    using arena_run_example(2) arena_run_inv by blast
  from arena_free_releases_all [OF this, of "env_at 64" 1] show ?thesis by blast
qed

text \<open>A handler whose requests, at up to 15 bytes of rounding each, fit the budget left gets
  memory for every one of them, and the reset after it gives the whole budget back.\<close>

theorem arena_serves_handler:
  assumes "small_arena a" "\<forall>n \<in> set ns. 0 < n" "sum_list (map (\<lambda>n. unat n + 15) ns) \<le> arena_left a"
  shows "\<exists>ps a'. top_alloc.sys.alloc_all a ns = (ps, a') \<and> None \<notin> set ps \<and>
    (\<exists>a'' calls. arena_reset a' = (0, a'', calls) \<and> arena_left a'' = unat (ar_max a))"
proof -
  obtain ps a' where r: "top_alloc.sys.alloc_all a ns = (ps, a')"
    by (cases "top_alloc.sys.alloc_all a ns")
  from top_alloc.sys.alloc_all_served [OF assms] r have "None \<notin> set ps" by simp
  moreover from top_alloc.sys.handler_then_reset [OF assms] r
  have "\<exists>a'' calls. arena_reset a' = (0, a'', calls) \<and> arena_left a'' = unat (ar_max a)" by simp
  ultimately show ?thesis using r by blast
qed

theorem arena_serves_handler_witness:
  "\<exists>ps a'. top_alloc.sys.alloc_all arena_blank [100, 7, 2000] = (ps, a') \<and> None \<notin> set ps \<and>
    (\<exists>a'' calls. arena_reset a' = (0, a'', calls) \<and> arena_left a'' = unat (ar_max arena_blank))"
  by (rule arena_serves_handler)
    (simp_all add: small_arena_def arena_inv_def arena_blank_def chunks_def arena_left_def)

end
