(* ===== verification/Http.thy ===== *)
theory Http
  imports Gargantua_Prelude
begin

text \<open>
  The HTTP/1.x request parser of \<open>src/http/http.c\<close>. The cursor \<open>*p\<close> of the C functions is the
  suffix of the buffer that starts there (the end pointer is the end of that list), so a
  function that advances the cursor returns the new suffix; \<open>None\<close> is the C result -1.
  Header names and values, pointer and length pairs in C, are the slices themselves.
  Group by group: tokens and the request line, header lines, the whole request; then the
  facts about the bytes each parser consumes, which give the framing theorems.
\<close>

section \<open>The parser\<close>

abbreviation HTTP_MAX_HEADERS :: nat where "HTTP_MAX_HEADERS \<equiv> 64"
abbreviation HTTP_MAX_METHOD :: nat where "HTTP_MAX_METHOD \<equiv> 16"
abbreviation HTTP_MAX_PATH :: nat where "HTTP_MAX_PATH \<equiv> 512"
abbreviation HTTP_MAX_HEADER_BYTES :: nat where "HTTP_MAX_HEADER_BYTES \<equiv> 32 * 1024"
abbreviation LONG_MAX :: "64 word" where "LONG_MAX \<equiv> 2 ^ 63 - 1"

datatype HttpParseResult = HTTP_PARSE_OK | HTTP_PARSE_NEED_MORE | HTTP_PARSE_ERROR

record HttpHeader =
  h_name :: string
  h_value :: string

record HttpRequest =
  rq_method :: string
  rq_path :: string
  rq_minor :: int
  rq_headers :: "HttpHeader list"
  rq_body :: "nat option"
  rq_body_len :: nat
  rq_content_length :: int
  rq_header_len :: nat
  rq_message_len :: nat

text \<open>\<open>strchr(set, c) != NULL\<close>: the terminating NUL counts as part of the string.\<close>

definition strchr_found :: "string \<Rightarrow> char \<Rightarrow> bool" where
  "strchr_found s c \<longleftrightarrow> c \<in> set s \<or> c = NUL"

definition token_punct :: string where
  "token_punct = ''!#$%&'' @ [CHR 0x27] @ ''*+-.^_'' @ [CHR 0x60] @ ''|~''"

definition is_token_char :: "char \<Rightarrow> bool" where
  "is_token_char c \<longleftrightarrow> is_digit c \<or> is_upper c \<or> is_lower c \<or> strchr_found token_punct c"

fun expect_crlf :: "string \<Rightarrow> string option" where
  "expect_crlf (a # b # p) = (if a = CR \<and> b = LF then Some p else None)"
| "expect_crlf p = None"

fun read_token_loop :: "nat \<Rightarrow> string \<Rightarrow> string \<Rightarrow> string option \<times> string" where
  "read_token_loop cap out [] = (Some [], out)"
| "read_token_loop cap out (c # p) =
     (if is_token_char c then
        (if length out + 1 \<ge> cap then (None, out) else read_token_loop cap (out @ [c]) p)
      else (Some (c # p), out))"

definition read_token :: "nat \<Rightarrow> string \<Rightarrow> string option \<times> string" where
  "read_token cap p =
     (case read_token_loop cap [] p of
        (None, out) \<Rightarrow> (None, out)
      | (Some p', out) \<Rightarrow> if out = [] then (None, out) else (Some p', out))"

definition target_char :: "char \<Rightarrow> bool" where
  "target_char c \<longleftrightarrow> \<not> (byte c \<le> 0x20 \<or> byte c = 0x7f \<or> c = CHR ''#'')"

fun request_target :: "nat \<Rightarrow> string \<Rightarrow> (string \<times> string) option" where
  "request_target n [] = Some ([], [])"
| "request_target n (c # p) =
     (if c = SPC then Some ([], c # p)
      else if \<not> target_char c then None
      else if Suc n \<ge> HTTP_MAX_PATH then None
      else (case request_target (Suc n) p of None \<Rightarrow> None | Some (t, p') \<Rightarrow> Some (c # t, p')))"

definition http_version :: "string \<Rightarrow> (int \<times> string) option" where
  "http_version p =
     (if length p < 8 \<or> take 7 p \<noteq> ''HTTP/1.'' \<or> (p ! 7 \<noteq> CHR ''0'' \<and> p ! 7 \<noteq> CHR ''1'') then None
      else map_option (\<lambda>r. (int (byte (p ! 7)) - 48, r)) (expect_crlf (drop 8 p)))"

definition parse_request_line :: "string \<Rightarrow> HttpRequest \<Rightarrow> string option \<times> HttpRequest" where
  "parse_request_line p req =
     (case read_token HTTP_MAX_METHOD p of
        (None, m) \<Rightarrow> (None, req\<lparr>rq_method := m\<rparr>)
      | (Some p1, m) \<Rightarrow>
          let req1 = req\<lparr>rq_method := m\<rparr> in
          (case p1 of
             [] \<Rightarrow> (None, req1)
           | c # p2 \<Rightarrow>
               if c \<noteq> SPC then (None, req1)
               else
                 (case request_target 0 p2 of
                    None \<Rightarrow> (None, req1)
                  | Some (t, p3) \<Rightarrow>
                      if t = [] \<or> p3 = [] \<or> (hd t \<noteq> CHR ''/'' \<and> t \<noteq> ''*'') then (None, req1)
                      else
                        let req2 = req1\<lparr>rq_path := t\<rparr> in
                        (case http_version (tl p3) of
                           None \<Rightarrow> (None, req2)
                         | Some (v, p4) \<Rightarrow> (Some p4, req2\<lparr>rq_minor := v\<rparr>)))))"

fun content_length_loop :: "64 word \<Rightarrow> string \<Rightarrow> 64 word option" where
  "content_length_loop v [] = Some v"
| "content_length_loop v (c # s) =
     (if \<not> is_digit c then None
      else
        let digit = of_nat (digit_val c) in
        if v > (LONG_MAX - digit) div 10 then None
        else content_length_loop (v * 10 + digit) s)"

definition parse_content_length :: "string \<Rightarrow> int option" where
  "parse_content_length s = (if s = [] then None else map_option sint (content_length_loop 0 s))"

definition header_name_is :: "HttpHeader \<Rightarrow> string \<Rightarrow> bool" where
  "header_name_is h name \<longleftrightarrow> length (h_name h) = length name \<and> ci_eq (h_name h) name"

record HeaderCounts =
  seen_host :: nat
  seen_content_length :: nat
  seen_transfer_encoding :: nat
  seen_authorization :: nat
  seen_content_type :: nat
  seen_expect :: nat

fun header_name_loop :: "string \<Rightarrow> (string \<times> string) option" where
  "header_name_loop [] = Some ([], [])"
| "header_name_loop (c # p) =
     (if c = CHR '':'' then Some ([], c # p)
      else if \<not> is_token_char c then None
      else (case header_name_loop p of None \<Rightarrow> None | Some (n, p') \<Rightarrow> Some (c # n, p')))"

definition parse_header_name :: "string \<Rightarrow> (string \<times> string) option" where
  "parse_header_name p =
     (case header_name_loop p of
        None \<Rightarrow> None
      | Some (n, p') \<Rightarrow>
          if n = [] \<or> p' = [] then None else Some (n, dropWhile is_blank (tl p')))"

definition value_char :: "char \<Rightarrow> bool" where
  "value_char c \<longleftrightarrow> \<not> (byte c < 0x20 \<and> c \<noteq> TAB \<or> byte c = 0x7f)"

fun header_value_loop :: "string \<Rightarrow> (string \<times> string) option" where
  "header_value_loop [] = Some ([], [])"
| "header_value_loop (c # p) =
     (if c = CR \<or> c = LF then Some ([], c # p)
      else if \<not> value_char c then None
      else (case header_value_loop p of None \<Rightarrow> None | Some (v, p') \<Rightarrow> Some (c # v, p')))"

definition parse_header_value :: "string \<Rightarrow> (string \<times> string) option" where
  "parse_header_value p = map_option (\<lambda>(v, p'). (rstrip is_blank v, p')) (header_value_loop p)"

definition host_value_valid :: "string \<Rightarrow> bool" where
  "host_value_valid v \<longleftrightarrow> v \<noteq> [] \<and> (\<forall>c \<in> set v. c \<noteq> SPC \<and> c \<noteq> TAB \<and> c \<noteq> CHR '','')"

definition count_known_header ::
  "HttpHeader \<Rightarrow> HeaderCounts \<Rightarrow> HttpRequest \<Rightarrow> bool \<times> HeaderCounts \<times> HttpRequest" where
  "count_known_header h seen req =
     (if header_name_is h ''Host'' then
        let seen' = seen\<lparr>seen_host := seen_host seen + 1\<rparr> in
        (\<not> (seen_host seen' > 1 \<or> \<not> host_value_valid (h_value h)), seen', req)
      else if header_name_is h ''Content-Length'' then
        let seen' = seen\<lparr>seen_content_length := seen_content_length seen + 1\<rparr> in
        if seen_content_length seen' > 1 then (False, seen', req)
        else
          (case parse_content_length (h_value h) of
             None \<Rightarrow> (False, seen', req)
           | Some n \<Rightarrow> (True, seen', req\<lparr>rq_content_length := n\<rparr>))
      else if header_name_is h ''Transfer-Encoding'' then
        (True, seen\<lparr>seen_transfer_encoding := seen_transfer_encoding seen + 1\<rparr>, req)
      else if header_name_is h ''Authorization'' then
        let seen' = seen\<lparr>seen_authorization := seen_authorization seen + 1\<rparr> in
        (\<not> seen_authorization seen' > 1, seen', req)
      else if header_name_is h ''Content-Type'' then
        let seen' = seen\<lparr>seen_content_type := seen_content_type seen + 1\<rparr> in
        (\<not> seen_content_type seen' > 1, seen', req)
      else if header_name_is h ''Expect'' then
        let seen' = seen\<lparr>seen_expect := seen_expect seen + 1\<rparr> in
        (\<not> seen_expect seen' > 1, seen', req)
      else (True, seen, req))"

text \<open>One header line, up to and including its CRLF.\<close>

definition parse_header_line :: "string \<Rightarrow> (HttpHeader \<times> string) option" where
  "parse_header_line p =
     (case parse_header_name p of
        None \<Rightarrow> None
      | Some (n, p1) \<Rightarrow>
          (case parse_header_value p1 of
             None \<Rightarrow> None
           | Some (v, p2) \<Rightarrow>
               (case expect_crlf p2 of
                  None \<Rightarrow> None
                | Some p3 \<Rightarrow> Some (\<lparr>h_name = n, h_value = v\<rparr>, p3))))"

section \<open>What the line parsers consume\<close>

lemma expect_crlf_Some [result_iff]: "expect_crlf p = Some r \<longleftrightarrow> p = CR # LF # r"
  by (cases p rule: expect_crlf.cases) auto

lemma header_name_loop_Some:
  "header_name_loop p = Some (n, p') \<Longrightarrow>
     p = n @ p' \<and> (\<forall>c \<in> set n. is_token_char c \<and> c \<noteq> CHR '':'') \<and> (p' = [] \<or> hd p' = CHR '':'')"
  by (induction p arbitrary: n) (auto split: if_splits option.splits)

lemma header_value_loop_Some:
  "header_value_loop p = Some (v, p') \<Longrightarrow>
     p = v @ p' \<and> (\<forall>c \<in> set v. value_char c) \<and>
     (p' = [] \<or> hd p' = CR \<or> hd p' = LF)"
  by (induction p arbitrary: v) (auto split: if_splits option.splits)

lemma parse_header_line_Some:
  assumes "parse_header_line p = Some (h, r)"
  shows "\<exists>ws1 ws2. p = h_name h @ CHR '':'' # ws1 @ h_value h @ ws2 @ CR # LF # r \<and>
    (\<forall>c \<in> set ws1 \<union> set ws2. is_blank c) \<and> h_name h \<noteq> [] \<and>
    (\<forall>c \<in> set (h_name h). is_token_char c) \<and>
    (\<forall>c \<in> set (h_value h). value_char c)"
proof -
  obtain n p0 p1 v p2 where n: "header_name_loop p = Some (n, p0)" "n \<noteq> []" "p0 \<noteq> []"
      "p1 = dropWhile is_blank (tl p0)"
    and v: "header_value_loop p1 = Some (v, p2)" and r: "p2 = CR # LF # r"
    and h: "h = \<lparr>h_name = n, h_value = rstrip is_blank v\<rparr>"
    using assms
    by (auto simp: parse_header_line_def parse_header_name_def parse_header_value_def result_iff
        split: option.splits if_splits)
  let ?ws1 = "takeWhile is_blank (tl p0)"
  obtain ws2 where ws2: "rstrip is_blank v @ ws2 = v" "\<forall>c \<in> set ws2. is_blank c"
    using rstrip_prefix [of is_blank v] by blast
  have "p0 = CHR '':'' # tl p0"
    using header_name_loop_Some [OF n(1)] n(3) by (cases p0) auto
  then have "p = n @ CHR '':'' # ?ws1 @ p1"
    using header_name_loop_Some [OF n(1)] unfolding n(4) takeWhile_dropWhile_id by metis
  moreover have "p1 = rstrip is_blank v @ ws2 @ CR # LF # r"
    using header_value_loop_Some [OF v] ws2(1) unfolding r by (metis append.assoc)
  ultimately have "p = h_name h @ CHR '':'' # ?ws1 @ h_value h @ ws2 @ CR # LF # r"
    unfolding h by simp
  moreover have "\<forall>c \<in> set ?ws1 \<union> set ws2. is_blank c"
    using ws2(2) by (auto dest: set_takeWhileD)
  moreover have "h_name h \<noteq> []" "\<forall>c \<in> set (h_name h). is_token_char c"
    using h n(2) header_name_loop_Some [OF n(1)] by auto
  moreover have "\<forall>c \<in> set (h_value h). value_char c"
    using h header_value_loop_Some [OF v] set_rstrip [of is_blank v] by auto
  ultimately show ?thesis by metis
qed

lemma parse_header_line_suffix:
  assumes "parse_header_line p = Some (h, r)"
  shows "\<exists>m. p = m @ r"
proof -
  obtain ws1 ws2 where "p = (h_name h @ CHR '':'' # ws1 @ h_value h @ ws2 @ [CR, LF]) @ r"
    using parse_header_line_Some [OF assms] by auto
  then show ?thesis by (rule exI)
qed

lemma parse_header_line_shorter: "parse_header_line p = Some (h, r) \<Longrightarrow> length r < length p"
  by (drule parse_header_line_Some) auto

section \<open>Header block and request\<close>

function parse_headers ::
  "string \<Rightarrow> HeaderCounts \<Rightarrow> HttpRequest \<Rightarrow> string option \<times> HttpRequest" where
  "parse_headers p seen req =
     (if p = [] then (None, req)
      else if take 2 p = [CR, LF] then
        (if rq_minor req = 1 \<and> seen_host seen \<noteq> 1 then (None, req)
         else if seen_transfer_encoding seen = 0 \<and> seen_content_length seen \<le> 1 then (Some (drop 2 p), req)
         else (None, req))
      else if length (rq_headers req) \<ge> HTTP_MAX_HEADERS then (None, req)
      else
        (case parse_header_line p of
           None \<Rightarrow> (None, req)
         | Some (h, p') \<Rightarrow>
             (case count_known_header h seen (req\<lparr>rq_headers := rq_headers req @ [h]\<rparr>) of
                (ok, seen', req') \<Rightarrow> if ok then parse_headers p' seen' req' else (None, req'))))"
  by pat_completeness auto
termination
  by (relation "measure (\<lambda>(p, seen, req). length p)") (auto dest: parse_header_line_shorter)

declare parse_headers.simps [simp del]

text \<open>\<open>header_end\<close>: the position just after the first empty line.\<close>

fun header_end :: "string \<Rightarrow> nat option" where
  "header_end (a # b # c # d # s) =
     (if a = CR \<and> b = LF \<and> c = CR \<and> d = LF then Some 4
      else map_option Suc (header_end (b # c # d # s)))"
| "header_end s = None"

definition http_request_zero :: HttpRequest where
  "http_request_zero = \<lparr>rq_method = [], rq_path = [], rq_minor = 0, rq_headers = [], rq_body = None,
     rq_body_len = 0, rq_content_length = 0, rq_header_len = 0, rq_message_len = 0\<rparr>"

definition no_headers_seen :: HeaderCounts where
  "no_headers_seen = \<lparr>seen_host = 0, seen_content_length = 0, seen_transfer_encoding = 0,
     seen_authorization = 0, seen_content_type = 0, seen_expect = 0\<rparr>"

definition http_frame :: "string \<Rightarrow> string \<Rightarrow> HttpRequest \<Rightarrow> HttpParseResult \<times> HttpRequest" where
  "http_frame buf p req =
     (let req1 = req\<lparr>rq_header_len := length buf - length p, rq_body := Some (length buf - length p)\<rparr> in
      if rq_content_length req1 \<ge> 0 \<and> rq_content_length req1 > 2 ^ 64 - 1 then (HTTP_PARSE_ERROR, req1)
      else
        let req2 = req1\<lparr>rq_body_len :=
                     (if rq_content_length req1 \<ge> 0 then nat (rq_content_length req1) else 0)\<rparr> in
        if rq_body_len req2 > length p then (HTTP_PARSE_NEED_MORE, req2)
        else (HTTP_PARSE_OK, req2\<lparr>rq_message_len := rq_header_len req2 + rq_body_len req2\<rparr>))"

definition http_parse_request :: "string \<Rightarrow> HttpParseResult \<times> HttpRequest" where
  "http_parse_request buf =
     (let req = http_request_zero\<lparr>rq_content_length := - 1\<rparr> in
      if buf = [] then (HTTP_PARSE_NEED_MORE, req)
      else
        (case header_end buf of
           None \<Rightarrow>
             (if length buf > HTTP_MAX_HEADER_BYTES then HTTP_PARSE_ERROR else HTTP_PARSE_NEED_MORE, req)
         | Some headers \<Rightarrow>
             if headers > HTTP_MAX_HEADER_BYTES then (HTTP_PARSE_ERROR, req)
             else
               (case parse_request_line buf req of
                  (None, req1) \<Rightarrow> (HTTP_PARSE_ERROR, req1)
                | (Some p1, req1) \<Rightarrow>
                    (case parse_headers p1 no_headers_seen req1 of
                       (None, req2) \<Rightarrow> (HTTP_PARSE_ERROR, req2)
                     | (Some p2, req2) \<Rightarrow> http_frame buf p2 req2))))"

fun http_find_header :: "HttpHeader list \<Rightarrow> string \<Rightarrow> string option" where
  "http_find_header [] name = None"
| "http_find_header (h # hs) name =
     (if header_name_is h name then Some (h_value h) else http_find_header hs name)"

section \<open>Where the header block ends\<close>

lemma is_token_char_not_CR: "\<not> is_token_char CR" "\<not> is_token_char LF" "\<not> is_token_char SPC"
  by (simp_all add: is_token_char_def is_digit_def is_upper_def is_lower_def byte_def strchr_found_def
      token_punct_def)

lemma target_char_not_CR: "\<not> target_char CR" "\<not> target_char LF" "\<not> target_char SPC" "\<not> target_char NUL"
  by (simp_all add: target_char_def byte_def)

lemma header_end_Cons: "a \<noteq> CR \<Longrightarrow> header_end (a # s) = map_option Suc (header_end s)"
  by (cases "a # s" rule: header_end.cases) auto

lemma header_end_skip:
  "CR \<notin> set xs \<Longrightarrow> header_end (xs @ ys) = map_option ((+) (length xs)) (header_end ys)"
  by (induction xs; cases "header_end ys") (auto simp: header_end_Cons)

lemma header_end_crlf: "header_end (CR # LF # CR # LF # s) = Some 4"
  by simp

lemma header_end_line:
  assumes "CR \<notin> set xs" "xs \<noteq> []"
  shows "header_end (CR # LF # xs @ ys) = map_option ((+) (length xs + 2)) (header_end ys)"
proof -
  obtain x xs' where x: "xs = x # xs'" "x \<noteq> CR" using assms by (cases xs) auto
  have "header_end (CR # LF # xs @ ys) = map_option Suc (header_end (LF # xs @ ys))"
    using x by (cases "CR # LF # xs @ ys" rule: header_end.cases) (auto split: if_splits)
  also have "\<dots> = map_option ((+) (length xs + 2)) (header_end ys)"
    using header_end_skip [of "LF # xs" ys] assms(1) by (cases "header_end ys") simp_all
  finally show ?thesis .
qed

lemma header_end_bound: "header_end s = Some h \<Longrightarrow> 4 \<le> h \<and> h \<le> length s"
  by (induction s arbitrary: h rule: header_end.induct) (auto split: if_splits)

lemma header_end_append: "header_end s = Some h \<Longrightarrow> header_end (s @ t) = Some h"
  by (induction s arbitrary: h rule: header_end.induct) (auto split: if_splits)

lemma is_blank_not_CR: "is_blank c \<Longrightarrow> c \<noteq> CR"
  by (auto simp: is_blank_def)

lemma value_char_not_CR: "\<not> value_char CR" "\<not> value_char LF" "\<not> value_char NUL"
  by (simp_all add: value_char_def byte_def)

lemma header_line_header_end:
  assumes "parse_header_line p = Some (h, r)"
  shows "header_end (CR # LF # p) = map_option ((+) (length p - length r)) (header_end (CR # LF # r))"
proof -
  obtain ws1 ws2 where p: "p = h_name h @ CHR '':'' # ws1 @ h_value h @ ws2 @ CR # LF # r"
      "\<forall>c \<in> set ws1 \<union> set ws2. is_blank c" "\<forall>c \<in> set (h_name h). is_token_char c"
      "\<forall>c \<in> set (h_value h). value_char c"
    using parse_header_line_Some [OF assms] by metis
  let ?xs = "h_name h @ CHR '':'' # ws1 @ h_value h @ ws2"
  have "CR \<notin> set ?xs"
    using p(2-4) is_token_char_not_CR(1) is_blank_not_CR value_char_not_CR by auto
  from header_end_line [OF this, of "CR # LF # r"] show ?thesis
    unfolding p(1) by (cases "header_end (CR # LF # r)") simp_all
qed

lemma parse_headers_frame:
  assumes "parse_headers p seen req = (Some r, req')"
  shows "\<exists>k. header_end (CR # LF # p) = Some (k + 2) \<and> k \<le> length p \<and> r = drop k p"
  using assms
proof (induction p seen req rule: parse_headers.induct)
  case (1 p seen req)
  show ?case
  proof (cases "p \<noteq> [] \<and> take 2 p = [CR, LF]")
    case True
    then obtain q where "p = CR # LF # q" by (auto simp: take_2_iff)
    moreover have "r = drop 2 p"
      using "1.prems" True by (auto simp: parse_headers.simps [of p] split: if_splits)
    ultimately show ?thesis by (intro exI [of _ 2]) simp
  next
    case False
    then obtain h p' seen' req1 where st: "parse_header_line p = Some (h, p')"
        "count_known_header h seen (req\<lparr>rq_headers := rq_headers req @ [h]\<rparr>) = (True, seen', req1)"
        "parse_headers p' seen' req1 = (Some r, req')" "p \<noteq> []" "length (rq_headers req) < HTTP_MAX_HEADERS"
      using "1.prems" by (auto simp: parse_headers.simps [of p] split: if_splits option.splits prod.splits)
    obtain k where k: "header_end (CR # LF # p') = Some (k + 2)" "k \<le> length p'" "r = drop k p'"
      using "1.IH" [OF st(4) _ _ st(1) refl st(2) [symmetric] refl _ st(3)] False st(4,5) by auto
    obtain m where "p = m @ p'" using parse_header_line_suffix [OF st(1)] by blast
    then show ?thesis
      using k header_line_header_end [OF st(1)] by (intro exI [of _ "length m + k"]) auto
  qed
qed

section \<open>The request line\<close>

lemma read_token_loop_Some:
  "read_token_loop cap out p = (Some p', out') \<Longrightarrow>
     \<exists>m. out' = out @ m \<and> p = m @ p' \<and> (\<forall>c \<in> set m. is_token_char c) \<and>
       (m = [] \<or> length out' < cap) \<and> (p' = [] \<or> \<not> is_token_char (hd p'))"
proof (induction cap out p rule: read_token_loop.induct)
  case (2 cap out c p)
  show ?case
  proof (cases "is_token_char c \<and> length out + 1 < cap")
    case True
    then obtain m where "out' = (out @ [c]) @ m" "p = m @ p'" "\<forall>c \<in> set m. is_token_char c"
        "m = [] \<or> length out' < cap" "p' = [] \<or> \<not> is_token_char (hd p')"
      using 2 by auto
    then show ?thesis using True by (intro exI [of _ "c # m"]) auto
  qed (use 2 in \<open>auto split: if_splits\<close>)
qed auto

lemma read_token_Some:
  assumes "read_token cap p = (Some p', m)"
  shows "p = m @ p' \<and> m \<noteq> [] \<and> length m < cap \<and> (\<forall>c \<in> set m. is_token_char c)"
  using assms read_token_loop_Some [of cap "[]" p]
  by (auto simp: read_token_def split: prod.splits option.splits if_splits)

lemma request_target_Some:
  "request_target n p = Some (t, p') \<Longrightarrow>
     p = t @ p' \<and> (\<forall>c \<in> set t. target_char c) \<and>
     (t = [] \<or> n + length t < HTTP_MAX_PATH) \<and> (p' = [] \<or> hd p' = SPC)"
  by (induction n p arbitrary: t rule: request_target.induct)
    (auto split: if_splits option.splits)

lemma http_version_Some:
  assumes "http_version p = Some (v, r)"
  shows "\<exists>d. p = ''HTTP/1.'' @ d # CR # LF # r \<and> (d = CHR ''0'' \<and> v = 0 \<or> d = CHR ''1'' \<and> v = 1)"
proof -
  have h: "8 \<le> length p" "take 7 p = ''HTTP/1.''" "p ! 7 = CHR ''0'' \<or> p ! 7 = CHR ''1''"
      "drop 8 p = CR # LF # r" "v = int (byte (p ! 7)) - 48"
    using assms by (auto simp: http_version_def result_iff split: if_splits)
  have "p = take 7 p @ p ! 7 # drop 8 p"
    using h(1) id_take_nth_drop [of 7 p] by simp
  then have "p = ''HTTP/1.'' @ p ! 7 # CR # LF # r" using h(2,4) by simp
  moreover have "p ! 7 = CHR ''0'' \<and> v = 0 \<or> p ! 7 = CHR ''1'' \<and> v = 1"
    using h(3,5) by (auto simp: byte_def)
  ultimately show ?thesis by blast
qed

lemma parse_request_line_Some:
  assumes "parse_request_line p req = (Some r, req')"
  obtains m t d v where "p = m @ SPC # t @ SPC # ''HTTP/1.'' @ d # CR # LF # r"
    "d = CHR ''0'' \<and> v = 0 \<or> d = CHR ''1'' \<and> v = 1"
    "req' = req\<lparr>rq_method := m, rq_path := t, rq_minor := v\<rparr>"
    "m \<noteq> []" "length m < HTTP_MAX_METHOD" "\<forall>c \<in> set m. is_token_char c"
    "t \<noteq> []" "length t < HTTP_MAX_PATH" "hd t = CHR ''/'' \<or> t = ''*''"
    "\<forall>c \<in> set t. target_char c"
proof -
  obtain m c p2 t p3 v where st: "read_token HTTP_MAX_METHOD p = (Some (SPC # p2), m)"
      "request_target 0 p2 = Some (t, p3)" "t \<noteq> []" "p3 \<noteq> []" "hd t = CHR ''/'' \<or> t = ''*''"
      "http_version (tl p3) = Some (v, r)"
      "req' = req\<lparr>rq_method := m, rq_path := t, rq_minor := v\<rparr>"
    using assms
    by (auto simp: parse_request_line_def Let_def split: prod.splits option.splits list.splits if_splits)
  note m = read_token_Some [OF st(1)] and t = request_target_Some [OF st(2)]
  have "p3 = SPC # tl p3" using t st(4) by (cases p3) auto
  moreover obtain d where d: "tl p3 = ''HTTP/1.'' @ d # CR # LF # r"
      "d = CHR ''0'' \<and> v = 0 \<or> d = CHR ''1'' \<and> v = 1"
    using http_version_Some [OF st(6)] by blast
  ultimately have "p = m @ SPC # t @ SPC # ''HTTP/1.'' @ d # CR # LF # r"
    using m t by metis
  moreover have "m \<noteq> []" "length m < HTTP_MAX_METHOD" "\<forall>c \<in> set m. is_token_char c"
    using m by blast+
  moreover have "length t < HTTP_MAX_PATH"
      "\<forall>c \<in> set t. target_char c"
    using t st(3) by auto
  ultimately show thesis
    using d(2) st(3,5,7) by (intro that [of m t d v])
qed

lemma request_line_header_end:
  assumes "parse_request_line p req = (Some r, req')"
  shows "header_end p = map_option (\<lambda>h. length p - length r - 2 + h) (header_end (CR # LF # r))"
    "\<exists>m. p = m @ r"
proof -
  obtain m t d v where p: "p = m @ SPC # t @ SPC # ''HTTP/1.'' @ d # CR # LF # r"
      "d = CHR ''0'' \<and> v = (0::int) \<or> d = CHR ''1'' \<and> v = 1" "\<forall>c \<in> set m. is_token_char c"
      "\<forall>c \<in> set t. target_char c"
    by (rule parse_request_line_Some [OF assms]) blast
  let ?xs = "m @ SPC # t @ SPC # ''HTTP/1.'' @ [d]"
  have "CR \<notin> set m" "CR \<notin> set t"
    using p(3,4) is_token_char_not_CR(1) target_char_not_CR by blast+
  then have "CR \<notin> set ?xs" using p(2) by auto
  from header_end_skip [OF this, of "CR # LF # r"]
  show "header_end p = map_option (\<lambda>h. length p - length r - 2 + h) (header_end (CR # LF # r))"
    unfolding p(1) by (cases "header_end (CR # LF # r)") simp_all
  show "\<exists>m. p = m @ r"
    unfolding p(1) by (intro exI [of _ "?xs @ [CR, LF]"]) simp
qed

section \<open>What the header counters guarantee\<close>

definition header_wf :: "HttpHeader \<Rightarrow> bool" where
  "header_wf h \<longleftrightarrow> h_name h \<noteq> [] \<and> (\<forall>c \<in> set (h_name h). is_token_char c) \<and>
     (\<forall>c \<in> set (h_value h). value_char c)"

definition count_name :: "string \<Rightarrow> HttpHeader list \<Rightarrow> nat" where
  "count_name name hs = length (filter (\<lambda>h. header_name_is h name) hs)"

lemma count_name_snoc [simp]:
  "count_name name (hs @ [h]) = count_name name hs + (if header_name_is h name then 1 else 0)"
  by (simp add: count_name_def)

definition counts_match :: "HeaderCounts \<Rightarrow> HttpHeader list \<Rightarrow> bool" where
  "counts_match seen hs \<longleftrightarrow>
     seen_host seen = count_name ''Host'' hs \<and> seen_host seen \<le> 1 \<and>
     seen_content_length seen = count_name ''Content-Length'' hs \<and> seen_content_length seen \<le> 1 \<and>
     seen_transfer_encoding seen = count_name ''Transfer-Encoding'' hs \<and>
     seen_authorization seen = count_name ''Authorization'' hs \<and> seen_authorization seen \<le> 1 \<and>
     seen_content_type seen = count_name ''Content-Type'' hs \<and> seen_content_type seen \<le> 1 \<and>
     seen_expect seen = count_name ''Expect'' hs \<and> seen_expect seen \<le> 1"

definition length_matches :: "HttpRequest \<Rightarrow> bool" where
  "length_matches req \<longleftrightarrow>
     (if count_name ''Content-Length'' (rq_headers req) = 0 then rq_content_length req = - 1
      else \<exists>h \<in> set (rq_headers req). header_name_is h ''Content-Length'' \<and>
        parse_content_length (h_value h) = Some (rq_content_length req))"

definition headers_inv :: "HeaderCounts \<Rightarrow> HttpRequest \<Rightarrow> bool" where
  "headers_inv seen req \<longleftrightarrow> length (rq_headers req) \<le> HTTP_MAX_HEADERS \<and>
     (\<forall>h \<in> set (rq_headers req). header_wf h) \<and> counts_match seen (rq_headers req) \<and> length_matches req"

lemma header_name_is_excl:
  "header_name_is h a \<Longrightarrow> \<not> ci_eq a b \<Longrightarrow> \<not> header_name_is h b"
  unfolding header_name_is_def by (metis ci_eq_sym ci_eq_trans)

lemma known_names_distinct:
  "\<not> ci_eq ''Host'' ''Content-Length''" "\<not> ci_eq ''Host'' ''Transfer-Encoding''"
  "\<not> ci_eq ''Host'' ''Authorization''" "\<not> ci_eq ''Host'' ''Content-Type''" "\<not> ci_eq ''Host'' ''Expect''"
  "\<not> ci_eq ''Content-Length'' ''Transfer-Encoding''" "\<not> ci_eq ''Content-Length'' ''Authorization''"
  "\<not> ci_eq ''Content-Length'' ''Content-Type''" "\<not> ci_eq ''Content-Length'' ''Expect''"
  "\<not> ci_eq ''Transfer-Encoding'' ''Authorization''" "\<not> ci_eq ''Transfer-Encoding'' ''Content-Type''"
  "\<not> ci_eq ''Transfer-Encoding'' ''Expect''" "\<not> ci_eq ''Authorization'' ''Content-Type''"
  "\<not> ci_eq ''Authorization'' ''Expect''" "\<not> ci_eq ''Content-Type'' ''Expect''"
  by (simp_all add: ci_eq_def tolower_def is_upper_def byte_def)

lemma count_known_header_counts:
  assumes "count_known_header h seen req = (True, seen', req')" "counts_match seen hs"
  shows "counts_match seen' (hs @ [h])"
  using assms known_names_distinct [THEN header_name_is_excl [rotated], of h]
  by (auto simp: count_known_header_def counts_match_def Let_def split: if_splits option.splits)

lemma count_known_header_req:
  assumes "count_known_header h seen req = (True, seen', req')"
  shows "(header_name_is h ''Content-Length'' \<and> (\<exists>n. parse_content_length (h_value h) = Some n \<and>
      req' = req\<lparr>rq_content_length := n\<rparr>)) \<or> (\<not> header_name_is h ''Content-Length'' \<and> req' = req)"
  using assms known_names_distinct(1) [THEN header_name_is_excl [rotated], of h]
  by (auto simp: count_known_header_def Let_def split: if_splits option.splits)

lemma count_known_header_only_length:
  assumes "count_known_header h seen req = (True, seen', req')"
  shows "\<exists>n. req' = req\<lparr>rq_content_length := n\<rparr>"
  using count_known_header_req [OF assms] by (auto intro: exI [of _ "rq_content_length req"])

lemma count_known_header_length:
  assumes c: "count_known_header h seen (req\<lparr>rq_headers := rq_headers req @ [h]\<rparr>) = (True, seen', req')"
    and m: "length_matches req"
  shows "length_matches req'" "rq_headers req' = rq_headers req @ [h]" "rq_method req' = rq_method req"
    "rq_path req' = rq_path req" "rq_minor req' = rq_minor req"
  using count_known_header_req [OF c] m by (auto simp: length_matches_def split: if_splits)

lemma parse_headers_inv:
  assumes "parse_headers p seen req = (Some r, req')" "headers_inv seen req"
  shows "\<exists>seen'. headers_inv seen' req' \<and> rq_method req' = rq_method req \<and> rq_path req' = rq_path req \<and>
    rq_minor req' = rq_minor req \<and> seen_transfer_encoding seen' = 0 \<and>
    (rq_minor req = 1 \<longrightarrow> seen_host seen' = 1)"
  using assms
proof (induction p seen req rule: parse_headers.induct)
  case (1 p seen req)
  show ?case
  proof (cases "p \<noteq> [] \<and> take 2 p = [CR, LF]")
    case True
    then show ?thesis
      using "1.prems" by (auto simp: parse_headers.simps [of p] split: if_splits)
  next
    case False
    then obtain h p' seen' req1 where st: "parse_header_line p = Some (h, p')"
        "count_known_header h seen (req\<lparr>rq_headers := rq_headers req @ [h]\<rparr>) = (True, seen', req1)"
        "parse_headers p' seen' req1 = (Some r, req')" "p \<noteq> []" "length (rq_headers req) < HTTP_MAX_HEADERS"
      using "1.prems" by (auto simp: parse_headers.simps [of p] split: if_splits option.splits prod.splits)
    have inv: "counts_match seen (rq_headers req)" "length_matches req" "\<forall>h \<in> set (rq_headers req). header_wf h"
      using "1.prems"(2) by (auto simp: headers_inv_def)
    have "header_wf h" using parse_header_line_Some [OF st(1)] unfolding header_wf_def by blast
    moreover note len = count_known_header_length [OF st(2) inv(2)]
    ultimately have "headers_inv seen' req1"
      using count_known_header_counts [OF st(2) inv(1)] st(5) inv(3)
      unfolding headers_inv_def by auto
    then show ?thesis
      using "1.IH" [OF st(4) _ _ st(1) refl st(2) [symmetric] refl _ st(3)] False st(4,5) len by auto
  qed
qed

section \<open>Content-Length\<close>

abbreviation dec_from :: "nat \<Rightarrow> string \<Rightarrow> nat" where
  "dec_from \<equiv> foldl (\<lambda>v c. v * 10 + digit_val c)"

lemma content_length_guard:
  fixes v :: "64 word"
  assumes "is_digit c"
  shows "v > (LONG_MAX - of_nat (digit_val c)) div 10 \<longleftrightarrow> unat v * 10 + digit_val c > 2 ^ 63 - 1"
    and "\<not> v > (LONG_MAX - of_nat (digit_val c)) div 10 \<Longrightarrow>
      unat (v * 10 + of_nat (digit_val c)) = unat v * 10 + digit_val c"
proof -
  have d: "digit_val c < 10" using assms by (rule digit_val_less)
  have ud: "unat (of_nat (digit_val c) :: 64 word) = digit_val c"
    using d by (simp add: unat_of_nat)
  have "unat (LONG_MAX - of_nat (digit_val c)) = 2 ^ 63 - 1 - digit_val c"
    using d ud by (subst unat_sub) (simp_all add: word_le_nat_alt)
  then have "unat ((LONG_MAX - of_nat (digit_val c)) div 10) = (2 ^ 63 - 1 - digit_val c) div 10"
    by (simp add: unat_div)
  then show guard: "v > (LONG_MAX - of_nat (digit_val c)) div 10 \<longleftrightarrow> unat v * 10 + digit_val c > 2 ^ 63 - 1"
    using d by (simp add: word_less_nat_alt) linarith
  show "unat (v * 10 + of_nat (digit_val c)) = unat v * 10 + digit_val c"
    if "\<not> v > (LONG_MAX - of_nat (digit_val c)) div 10"
  proof -
    have "unat v * 10 + digit_val c \<le> 2 ^ 63 - 1" using that guard by simp
    then show ?thesis using ud by (simp add: unat_word_ariths)
  qed
qed

lemma content_length_loop_exact:
  assumes "unat v \<le> 2 ^ 63 - 1"
  shows "content_length_loop v s =
    (if (\<forall>c \<in> set s. is_digit c) \<and> dec_from (unat v) s \<le> 2 ^ 63 - 1
     then Some (of_nat (dec_from (unat v) s)) else None)"
  using assms
proof (induction s arbitrary: v)
  case Nil
  then show ?case by simp
next
  case (Cons c s)
  show ?case
  proof (cases "is_digit c")
    case False
    then show ?thesis by simp
  next
    case True
    note g = content_length_guard [OF True, of v]
    show ?thesis
    proof (cases "v > (LONG_MAX - of_nat (digit_val c)) div 10")
      case gt: True
      then have "dec_from (unat v) (c # s) > 2 ^ 63 - 1"
        using g(1) foldl_dec_mono [of "unat v * 10 + digit_val c" s] by simp
      with gt True show ?thesis by (simp add: Let_def)
    next
      case le: False
      then have "unat (v * 10 + of_nat (digit_val c)) = unat v * 10 + digit_val c"
          "unat v * 10 + digit_val c \<le> 2 ^ 63 - 1"
        using g by auto
      with Cons.IH [of "v * 10 + of_nat (digit_val c)"] le True show ?thesis
        by (simp add: Let_def)
    qed
  qed
qed

lemma sint_of_nat_small: "n \<le> 2 ^ 63 - 1 \<Longrightarrow> sint (of_nat n :: 64 word) = int n"
  by (simp add: signed_of_nat signed_take_bit_int_eq_self)

lemma parse_content_length_range:
  assumes "parse_content_length s = Some n"
  shows "0 \<le> n" "n \<le> 2 ^ 63 - 1"
  using assms content_length_loop_exact [of 0 s]
  by (auto simp: parse_content_length_def sint_of_nat_small split: if_splits)

text \<open>\<open>parse_content_length\<close> accepts exactly the non-empty digit strings whose value fits a
  \<open>long\<close>, and returns that value: its 64-bit arithmetic never wraps around.\<close>

theorem parse_content_length_exact:
  "parse_content_length s =
     (if s \<noteq> [] \<and> (\<forall>c \<in> set s. is_digit c) \<and> dec_val s \<le> 2 ^ 63 - 1 then Some (int (dec_val s)) else None)"
  using content_length_loop_exact [of 0 s]
  by (simp add: parse_content_length_def dec_val_def sint_of_nat_small)

theorem parse_content_length_exact_witness:
  "parse_content_length ''120'' = Some 120 \<and> parse_content_length ''9223372036854775808'' = None"
  by (simp add: parse_content_length_exact dec_val_def digit_val_def is_digit_def byte_def)

section \<open>Framing\<close>

lemma http_parse_OK:
  assumes "http_parse_request buf = (HTTP_PARSE_OK, req)"
  obtains p1 req1 p2 req2 h where "header_end buf = Some h" "h \<le> HTTP_MAX_HEADER_BYTES"
    "parse_request_line buf (http_request_zero\<lparr>rq_content_length := - 1\<rparr>) = (Some p1, req1)"
    "parse_headers p1 no_headers_seen req1 = (Some p2, req2)" "http_frame buf p2 req2 = (HTTP_PARSE_OK, req)"
  using assms
  by (auto simp: http_parse_request_def Let_def split: if_splits option.splits prod.splits)

lemma http_header_position:
  assumes "parse_request_line buf req0 = (Some p1, req1)" "parse_headers p1 seen req1 = (Some p2, req2)"
  shows "\<exists>h. header_end buf = Some h \<and> h \<le> length buf \<and> p2 = drop h buf \<and> length buf - length p2 = h"
proof -
  obtain k where k: "header_end (CR # LF # p1) = Some (k + 2)" "k \<le> length p1" "p2 = drop k p1"
    using parse_headers_frame [OF assms(2)] by blast
  obtain m where m: "buf = m @ p1" using request_line_header_end(2) [OF assms(1)] by blast
  have "length p1 + 2 \<le> length buf" by (rule parse_request_line_Some [OF assms(1)]) simp
  then have "2 \<le> length m" using m by simp
  then have "header_end buf = Some (length m + k)"
    using request_line_header_end(1) [OF assms(1)] k(1) m by simp
  then show ?thesis using k m by auto
qed

lemma http_frame_OK:
  assumes "http_frame buf p req = (HTTP_PARSE_OK, req')"
  shows "req' = req\<lparr>rq_header_len := length buf - length p, rq_body := Some (length buf - length p),
       rq_body_len := nat (max 0 (rq_content_length req)),
       rq_message_len := length buf - length p + nat (max 0 (rq_content_length req))\<rparr>"
    "nat (max 0 (rq_content_length req)) \<le> length p"
  using assms by (auto simp: http_frame_def Let_def max_def split: if_splits)

lemma headers_inv_start:
  assumes "parse_request_line p (http_request_zero\<lparr>rq_content_length := - 1\<rparr>) = (Some r, req)"
  shows "headers_inv no_headers_seen req"
  by (rule parse_request_line_Some [OF assms])
    (simp add: headers_inv_def counts_match_def length_matches_def count_name_def no_headers_seen_def
      http_request_zero_def)

lemma accepted_request_framed:
  assumes "http_parse_request buf = (HTTP_PARSE_OK, req)"
  shows "header_end buf = Some (rq_header_len req) \<and> rq_header_len req \<le> HTTP_MAX_HEADER_BYTES \<and>
    rq_message_len req = rq_header_len req + rq_body_len req \<and> rq_message_len req \<le> length buf \<and>
    rq_body req = Some (rq_header_len req) \<and>
    length (rq_headers req) \<le> HTTP_MAX_HEADERS \<and> (\<forall>h \<in> set (rq_headers req). header_wf h) \<and>
    count_name ''Transfer-Encoding'' (rq_headers req) = 0 \<and>
    count_name ''Content-Length'' (rq_headers req) \<le> 1 \<and> length_matches req \<and>
    rq_body_len req = (if count_name ''Content-Length'' (rq_headers req) = 0 then 0
                       else nat (rq_content_length req)) \<and>
    (rq_minor req = 1 \<longrightarrow> count_name ''Host'' (rq_headers req) = 1) \<and>
    0 < length (rq_method req) \<and> length (rq_method req) < HTTP_MAX_METHOD \<and>
    0 < length (rq_path req) \<and> length (rq_path req) < HTTP_MAX_PATH \<and>
    (\<forall>c \<in> set (rq_path req). target_char c)"
proof -
  obtain p1 req1 p2 req2 h where st: "header_end buf = Some h" "h \<le> HTTP_MAX_HEADER_BYTES"
      "parse_request_line buf (http_request_zero\<lparr>rq_content_length := - 1\<rparr>) = (Some p1, req1)"
      "parse_headers p1 no_headers_seen req1 = (Some p2, req2)"
      "http_frame buf p2 req2 = (HTTP_PARSE_OK, req)"
    by (rule http_parse_OK [OF assms])
  have pos: "length buf - length p2 = h" "h \<le> length buf" "length p2 = length buf - h"
    using http_header_position [OF st(3,4)] st(1) by auto
  obtain seen where hs: "headers_inv seen req2" "rq_method req2 = rq_method req1"
      "rq_path req2 = rq_path req1" "rq_minor req2 = rq_minor req1" "seen_transfer_encoding seen = 0"
      "rq_minor req1 = 1 \<longrightarrow> seen_host seen = 1"
    using parse_headers_inv [OF st(4) headers_inv_start [OF st(3)]] by blast
  have line: "0 < length (rq_method req1) \<and> length (rq_method req1) < HTTP_MAX_METHOD \<and>
      0 < length (rq_path req1) \<and> length (rq_path req1) < HTTP_MAX_PATH \<and>
      (\<forall>c \<in> set (rq_path req1). target_char c)"
    by (rule parse_request_line_Some [OF st(3)]) simp
  have len: "nat (max 0 (rq_content_length req2)) =
      (if count_name ''Content-Length'' (rq_headers req2) = 0 then 0 else nat (rq_content_length req2))"
    using hs(1) parse_content_length_range(1)
    by (auto simp: headers_inv_def length_matches_def split: if_splits)
  note fr = http_frame_OK [OF st(5)]
  have cm: "count_name ''Transfer-Encoding'' (rq_headers req2) = 0"
      "count_name ''Content-Length'' (rq_headers req2) \<le> 1"
      "rq_minor req2 = 1 \<longrightarrow> count_name ''Host'' (rq_headers req2) = 1" "length_matches req2"
      "length (rq_headers req2) \<le> HTTP_MAX_HEADERS" "\<forall>h \<in> set (rq_headers req2). header_wf h"
    using hs unfolding headers_inv_def counts_match_def by simp_all
  have lm: "length_matches req = length_matches req2"
    unfolding fr(1) length_matches_def by simp
  show ?thesis
    using st(1,2) pos line cm len fr(2) hs(2-4) unfolding lm
    by (cases "count_name ''Content-Length'' (rq_headers req2) = 0") (simp_all add: fr(1))
qed



section \<open>More input never changes a verdict\<close>

abbreviation extend_rest :: "string \<Rightarrow> string option \<times> 'a \<Rightarrow> string option \<times> 'a" where
  "extend_rest q r \<equiv> (map_option (\<lambda>p. p @ q) (fst r), snd r)"

lemma header_end_CR: "header_end p \<noteq> None \<Longrightarrow> CR \<in> set p"
  by (induction p rule: header_end.induct) (auto split: if_splits)

lemma header_end_suffix: "header_end (xs @ ys) \<noteq> None \<Longrightarrow> CR \<notin> set xs \<Longrightarrow> header_end ys \<noteq> None"
  by (simp add: header_end_skip)

lemma read_token_loop_extend:
  "\<exists>c \<in> set p. \<not> is_token_char c \<Longrightarrow>
     read_token_loop cap out (p @ q) = extend_rest q (read_token_loop cap out p)"
  by (induction cap out p rule: read_token_loop.induct) auto

lemma read_token_extend:
  "\<exists>c \<in> set p. \<not> is_token_char c \<Longrightarrow> read_token cap (p @ q) = extend_rest q (read_token cap p)"
  by (simp add: read_token_def read_token_loop_extend split: prod.splits option.splits)

lemma request_target_extend:
  "\<exists>c \<in> set p. \<not> target_char c \<Longrightarrow>
     request_target n (p @ q) = map_option (\<lambda>(t, r). (t, r @ q)) (request_target n p)"
  by (induction n p rule: request_target.induct) (auto split: option.splits)

lemma http_version_extend:
  assumes "header_end p \<noteq> None"
  shows "http_version (p @ q) = map_option (\<lambda>(v, r). (v, r @ q)) (http_version p)"
proof (cases "length p < 10")
  case False
  then have "2 \<le> length (drop 8 p)" by simp
  then obtain a b r where "drop 8 p = a # b # r"
    by (cases "drop 8 p" rule: expect_crlf.cases) auto
  with False show ?thesis by (simp add: http_version_def nth_append)
next
  case True
  obtain h where h: "header_end p = Some h" using assms by blast
  have shape: "\<exists>i. i + 4 \<le> length p \<and> p ! i = CR" if "header_end p = Some h" for p h
    using that
  proof (induction p arbitrary: h rule: header_end.induct)
    case (1 a b c d s)
    show ?case
    proof (cases "a = CR \<and> b = LF \<and> c = CR \<and> d = LF")
      case True
      then show ?thesis by (intro exI [of _ 0]) simp
    next
      case False
      then obtain i where "i + 4 \<le> length (b # c # d # s)" "(b # c # d # s) ! i = CR"
        using 1 by (auto split: if_splits)
      then show ?thesis by (intro exI [of _ "Suc i"]) simp
    qed
  qed simp_all
  obtain i where i: "i + 4 \<le> length p" "p ! i = CR" using shape [OF h] by blast
  have "take 7 (p @ t) \<noteq> ''HTTP/1.''" for t
  proof
    assume eq: "take 7 (p @ t) = ''HTTP/1.''"
    have "i < 7" "i < length p" using i True by auto
    then have "take 7 (p @ t) ! i = CR" using i(2) by (simp add: nth_append)
    then have "''HTTP/1.'' ! i = CR" using eq by simp
    moreover have "''HTTP/1.'' ! i \<in> set ''HTTP/1.''" using \<open>i < 7\<close> by (intro nth_mem) simp
    ultimately show False by simp
  qed
  from this [of q] this [of "[]"] show ?thesis by (simp add: http_version_def)
qed

lemma header_name_loop_extend:
  "\<exists>c \<in> set p. \<not> is_token_char c \<Longrightarrow>
     header_name_loop (p @ q) = map_option (\<lambda>(n, r). (n, r @ q)) (header_name_loop p)"
  by (induction p) (auto split: option.splits)

lemma header_value_loop_extend:
  "CR \<in> set p \<Longrightarrow> header_value_loop (p @ q) = map_option (\<lambda>(v, r). (v, r @ q)) (header_value_loop p)"
  by (induction p) (auto split: option.splits)

lemma expect_crlf_extend:
  "2 \<le> length p \<Longrightarrow> expect_crlf (p @ q) = map_option (\<lambda>r. r @ q) (expect_crlf p)"
  by (cases p rule: expect_crlf.cases) auto

lemma parse_header_line_extend:
  assumes he: "header_end p \<noteq> None"
  shows "parse_header_line (p @ q) = map_option (\<lambda>(h, r). (h, r @ q)) (parse_header_line p)"
proof -
  have tok: "\<exists>c \<in> set p. \<not> is_token_char c"
    using header_end_CR [OF he] is_token_char_not_CR(1) by blast
  show ?thesis
  proof (cases "parse_header_name p")
    case None
    then show ?thesis
      using header_name_loop_extend [OF tok, of q] header_name_loop_Some [of p] tok
      by (auto simp: parse_header_line_def parse_header_name_def split: option.splits if_splits)
  next
    case (Some np)
    then obtain n p0 where n: "header_name_loop p = Some (n, p0)" "n \<noteq> []" "p0 \<noteq> []"
        "np = (n, dropWhile is_blank (tl p0))"
      by (auto simp: parse_header_name_def split: option.splits if_splits)
    obtain p0' where p0: "p0 = CHR '':'' # p0'" "p = n @ p0" "CR \<notin> set n"
      using header_name_loop_Some [OF n(1)] n(3) is_token_char_not_CR(1) by (cases p0) auto
    let ?p1 = "dropWhile is_blank p0'"
    have "header_end p0' \<noteq> None"
      using header_end_suffix [of "n @ '':''" p0'] he p0 by simp
    moreover have "p0' = takeWhile is_blank p0' @ ?p1" by simp
    moreover have "CR \<notin> set (takeWhile is_blank p0')"
      by (auto dest: set_takeWhileD simp: is_blank_def)
    ultimately have h1: "header_end ?p1 \<noteq> None" using header_end_suffix by metis
    have name: "parse_header_name (p @ q) = Some (n, ?p1 @ q)"
      using header_name_loop_extend [OF tok, of q] n p0 header_end_CR [OF \<open>header_end p0' \<noteq> None\<close>]
      by (simp add: parse_header_name_def dropWhile_append1 [of CR] is_blank_def)
    show ?thesis
    proof (cases "header_value_loop ?p1")
      case None
      then show ?thesis
        using name Some n p0 header_value_loop_extend [OF header_end_CR [OF h1], of q]
        by (simp add: parse_header_line_def parse_header_value_def)
    next
      case v: (Some vp)
      obtain v p2 where vp: "vp = (v, p2)" by fastforce
      have "?p1 = v @ p2" "CR \<notin> set v"
        using header_value_loop_Some [of ?p1 v p2] v vp value_char_not_CR(1) by auto
      then have "header_end p2 \<noteq> None" using h1 header_end_suffix by metis
      then have "2 \<le> length p2" using header_end_bound by fastforce
      then show ?thesis
        using name Some n p0 v vp header_value_loop_extend [OF header_end_CR [OF h1], of q]
          expect_crlf_extend [of p2 q]
        by (auto simp: parse_header_line_def parse_header_value_def split: option.splits)
    qed
  qed
qed

lemma header_end_after_crlf:
  "header_end (CR # LF # p) \<noteq> None \<Longrightarrow> take 2 p \<noteq> [CR, LF] \<Longrightarrow> header_end p \<noteq> None"
  by (cases "CR # LF # p" rule: header_end.cases; cases p)
    (auto simp: header_end_Cons take_2_iff split: if_splits)

lemma parse_headers_extend:
  assumes "header_end (CR # LF # p) \<noteq> None"
  shows "parse_headers (p @ q) seen req = extend_rest q (parse_headers p seen req)"
  using assms
proof (induction p seen req rule: parse_headers.induct)
  case (1 p seen req)
  show ?case
  proof (cases "take 2 p = [CR, LF]")
    case True
    then obtain r where "p = CR # LF # r" by (auto simp: take_2_iff)
    then show ?thesis
      by (simp add: parse_headers.simps [of "CR # LF # r"] parse_headers.simps [of "CR # LF # r @ q"])
  next
    case False
    then have he: "header_end p \<noteq> None" using "1.prems" header_end_after_crlf by blast
    then have len: "4 \<le> length p" using header_end_bound by fastforce
    then have ne: "p \<noteq> []" "take 2 (p @ q) \<noteq> [CR, LF]" using False by auto
    show ?thesis
    proof (cases "length (rq_headers req) < HTTP_MAX_HEADERS \<and> parse_header_line p \<noteq> None")
      case bad: False
      then have "HTTP_MAX_HEADERS \<le> length (rq_headers req) \<or> parse_header_line p = None" by auto
      then show ?thesis
        using False ne parse_header_line_extend [OF he, of q]
        by (elim disjE) (simp_all add: parse_headers.simps [of p] parse_headers.simps [of "p @ q"])
    next
      case True
      then obtain h r where l: "parse_header_line p = Some (h, r)" by auto
      obtain ok seen' req' where c:
          "count_known_header h seen (req\<lparr>rq_headers := rq_headers req @ [h]\<rparr>) = (ok, seen', req')"
        by (cases "count_known_header h seen (req\<lparr>rq_headers := rq_headers req @ [h]\<rparr>)") auto
      have "header_end (CR # LF # r) \<noteq> None"
        using header_line_header_end [OF l] "1.prems" by (cases "header_end (CR # LF # r)") auto
      then have "ok \<Longrightarrow> parse_headers (r @ q) seen' req' = extend_rest q (parse_headers r seen' req')"
        using "1.IH" [OF ne(1) False _ l refl c [symmetric] refl] True by auto
      then show ?thesis
        using False ne True l c parse_header_line_extend [OF he, of q]
        by (auto simp: parse_headers.simps [of p] parse_headers.simps [of "p @ q"])
    qed
  qed
qed

lemma parse_request_line_extend:
  assumes he: "header_end p \<noteq> None"
  shows "parse_request_line (p @ q) req = extend_rest q (parse_request_line p req)"
proof -
  have tok: "\<exists>c \<in> set p. \<not> is_token_char c"
    using header_end_CR [OF he] is_token_char_not_CR(1) by blast
  obtain p1 m where rt: "read_token HTTP_MAX_METHOD p = (p1, m)" by fastforce
  show ?thesis
  proof (cases p1)
    case None
    then show ?thesis using rt read_token_extend [OF tok, of _ q] by (simp add: parse_request_line_def)
  next
    case (Some s)
    have "p = m @ s" and m: "CR \<notin> set m"
      using read_token_Some [of HTTP_MAX_METHOD p s m] rt Some is_token_char_not_CR(1) by auto
    then have hs: "header_end s \<noteq> None" using he header_end_suffix by metis
    then obtain c p2 where s: "s = c # p2" by (cases s) auto
    show ?thesis
    proof (cases "c = SPC")
      case False
      then show ?thesis
        using rt Some s read_token_extend [OF tok, of _ q] by (simp add: parse_request_line_def Let_def)
    next
      case True
      then have h2: "header_end p2 \<noteq> None" using hs s header_end_suffix [of "[SPC]" p2] by simp
      have tgt: "\<exists>c \<in> set p2. \<not> target_char c"
        using header_end_CR [OF h2] target_char_not_CR(1) by blast
      show ?thesis
      proof (cases "request_target 0 p2")
        case None
        then show ?thesis
          using rt Some s True read_token_extend [OF tok, of _ q] request_target_extend [OF tgt, of 0 q]
          by (simp add: parse_request_line_def Let_def)
      next
        case tp: (Some tp)
        obtain t p3 where "tp = (t, p3)" by fastforce
        note tp = tp [unfolded this]
        have "p2 = t @ p3" "CR \<notin> set t" "p3 = [] \<or> hd p3 = SPC"
          using request_target_Some [OF tp] target_char_not_CR(1) by auto
        then have h3: "header_end p3 \<noteq> None" using h2 header_end_suffix by metis
        then obtain p4 where p3: "p3 = SPC # p4" using \<open>p3 = [] \<or> hd p3 = SPC\<close> by (cases p3) auto
        then have "header_end p4 \<noteq> None" using h3 header_end_suffix [of "[SPC]" p4] by simp
        note v = http_version_extend [OF this, of q]
        show ?thesis
          using rt Some s True tp p3 read_token_extend [OF tok, of _ q]
            request_target_extend [OF tgt, of 0 q] v
          by (cases "http_version p4") (auto simp: parse_request_line_def Let_def)
      qed
    qed
  qed
qed

lemma header_end_None_append:
  "header_end s = None \<Longrightarrow> header_end (s @ t) = Some h \<Longrightarrow> length s < h"
proof (induction s arbitrary: h rule: header_end.induct)
  case (1 a b c d s)
  then show ?case by (auto split: if_splits)
qed (fastforce dest: header_end_bound)+

lemma http_frame_extend:
  assumes "fst (http_frame buf p req) \<noteq> HTTP_PARSE_NEED_MORE" "length p \<le> length buf"
  shows "http_frame (buf @ rest) (p @ rest) req = http_frame buf p req"
  using assms by (auto simp: http_frame_def Let_def split: if_splits)

lemma http_parse_stable:
  assumes "fst (http_parse_request buf) \<noteq> HTTP_PARSE_NEED_MORE"
  shows "http_parse_request (buf @ rest) = http_parse_request buf"
proof (cases "header_end buf")
  case None
  then have big: "length buf > HTTP_MAX_HEADER_BYTES"
    using assms by (auto simp: http_parse_request_def Let_def split: if_splits)
  then have "buf \<noteq> []" by auto
  then show ?thesis
    using None big header_end_None_append [OF None, of rest]
    by (cases "header_end (buf @ rest)") (force simp: http_parse_request_def Let_def)+
next
  case (Some h)
  then have ne: "buf \<noteq> []" by auto
  note app = header_end_append [OF Some, of rest]
  show ?thesis
  proof (cases "h > HTTP_MAX_HEADER_BYTES")
    case True
    then show ?thesis using Some app ne by (simp add: http_parse_request_def Let_def)
  next
    case False
    let ?req = "http_request_zero\<lparr>rq_content_length := - 1\<rparr>"
    have he: "header_end buf \<noteq> None" using Some by simp
    obtain r1 req1 where l: "parse_request_line buf ?req = (r1, req1)" by fastforce
    note le = parse_request_line_extend [OF he, of rest ?req, unfolded l fst_conv snd_conv]
    show ?thesis
    proof (cases r1)
      case None
      then show ?thesis using Some app ne False l le by (simp add: http_parse_request_def Let_def)
    next
      case r1: (Some p1)
      obtain m where m: "buf = m @ p1" "header_end (CR # LF # p1) \<noteq> None"
        using request_line_header_end [of buf ?req p1 req1] l r1 he by auto
      obtain r2 req2 where p: "parse_headers p1 no_headers_seen req1 = (r2, req2)" by fastforce
      note pe = parse_headers_extend [OF m(2), of rest no_headers_seen req1, unfolded p fst_conv snd_conv]
      have "http_frame (buf @ rest) (p2 @ rest) req2 = http_frame buf p2 req2" if "r2 = Some p2" for p2
      proof (rule http_frame_extend)
        show "fst (http_frame buf p2 req2) \<noteq> HTTP_PARSE_NEED_MORE"
          using assms Some ne False l r1 p that by (simp add: http_parse_request_def Let_def)
        show "length p2 \<le> length buf"
          using http_header_position [of buf ?req p1 req1 no_headers_seen p2 req2] l r1 p that
          by (metis length_drop diff_le_self)
      qed
      then show ?thesis
        using Some app ne False l le r1 p pe
        by (cases r2) (simp_all add: http_parse_request_def Let_def)
    qed
  qed
qed

text \<open>A server that reads a request in pieces parses again after each piece. The interface is a
  parser whose verdict, once reached, no further input changes.\<close>

fun feed :: "(string \<Rightarrow> HttpParseResult \<times> 'r) \<Rightarrow> string \<Rightarrow> string list \<Rightarrow> HttpParseResult \<times> 'r" where
  "feed parse buf [] = parse buf"
| "feed parse buf (x # xs) =
     (if fst (parse buf) = HTTP_PARSE_NEED_MORE then feed parse (buf @ x) xs else parse buf)"

locale incremental_parser =
  fixes parse :: "string \<Rightarrow> HttpParseResult \<times> 'r"
  assumes stable: "fst (parse buf) \<noteq> HTTP_PARSE_NEED_MORE \<Longrightarrow> parse (buf @ rest) = parse buf"
begin

lemma feed_concat: "feed parse buf xs = parse (buf @ concat xs)"
  by (induction xs arbitrary: buf) (auto simp: stable)

lemma verdict_unique:
  assumes "fst (parse a) \<noteq> HTTP_PARSE_NEED_MORE" "fst (parse b) \<noteq> HTTP_PARSE_NEED_MORE"
    "a @ s = b @ t"
  shows "parse a = parse b"
  using stable [OF assms(1), of s] stable [OF assms(2), of t] assms(3) by simp

end

interpretation http_inc: incremental_parser http_parse_request
  by unfold_locales (rule http_parse_stable)

text \<open>C24: However the bytes of a request are split into reads, parsing after every read and
  stopping at the first verdict gives the verdict and the request of the whole input: no
  fragmentation makes the parser accept, reject or frame a request differently.\<close>

theorem http_fragmentation_independent:
  "feed http_parse_request [] pieces = http_parse_request (concat pieces)"
  using http_inc.feed_concat [of "[]" pieces] by simp

section \<open>Round trip\<close>

definition print_header :: "HttpHeader \<Rightarrow> string" where
  "print_header h = h_name h @ '': '' @ h_value h @ [CR, LF]"

definition print_request :: "string \<Rightarrow> string \<Rightarrow> int \<Rightarrow> HttpHeader list \<Rightarrow> string \<Rightarrow> string" where
  "print_request m t v hs body =
     m @ SPC # t @ SPC # ''HTTP/1.'' @ (if v = 1 then CHR ''1'' else CHR ''0'') # CR # LF #
     concat (map print_header hs) @ CR # LF # body"

definition printable_header :: "HttpHeader \<Rightarrow> bool" where
  "printable_header h \<longleftrightarrow> header_wf h \<and>
     (h_value h \<noteq> [] \<longrightarrow> \<not> is_blank (hd (h_value h)) \<and> \<not> is_blank (last (h_value h))) \<and>
     (header_name_is h ''Host'' \<longrightarrow> host_value_valid (h_value h)) \<and>
     (header_name_is h ''Content-Length'' \<longrightarrow> parse_content_length (h_value h) \<noteq> None)"

definition acceptable_headers :: "HttpHeader list \<Rightarrow> bool" where
  "acceptable_headers hs \<longleftrightarrow> length hs \<le> HTTP_MAX_HEADERS \<and> list_all printable_header hs \<and>
     (\<forall>n \<in> set [''Host'', ''Content-Length'', ''Authorization'', ''Content-Type'', ''Expect''].
        count_name n hs \<le> 1) \<and> count_name ''Transfer-Encoding'' hs = 0"

definition declared_length :: "HttpHeader list \<Rightarrow> int" where
  "declared_length hs = (case http_find_header hs ''Content-Length'' of
     None \<Rightarrow> - 1 | Some v \<Rightarrow> the (parse_content_length v))"

lemma read_token_print:
  assumes "m \<noteq> []" "length m < cap" "\<forall>c \<in> set m. is_token_char c"
  shows "read_token cap (m @ SPC # r) = (Some (SPC # r), m)"
proof -
  have "length out + length m < cap \<Longrightarrow> \<forall>c \<in> set m. is_token_char c \<Longrightarrow>
      read_token_loop cap out (m @ SPC # r) = (Some (SPC # r), out @ m)" for out
    by (induction m arbitrary: out) (auto simp: is_token_char_not_CR)
  from this [of "[]"] assms show ?thesis by (simp add: read_token_def)
qed

lemma request_target_print:
  assumes "n + length t < HTTP_MAX_PATH" "\<forall>c \<in> set t. target_char c"
  shows "request_target n (t @ SPC # r) = Some (t, SPC # r)"
  using assms
proof (induction t arbitrary: n)
  case (Cons c t)
  then have "c \<noteq> SPC" using target_char_not_CR(3) by auto
  with Cons show ?case by simp
qed simp

lemma parse_request_line_print:
  assumes "m \<noteq> []" "length m < HTTP_MAX_METHOD" "\<forall>c \<in> set m. is_token_char c"
    "length t < HTTP_MAX_PATH" "\<forall>c \<in> set t. target_char c" "t \<noteq> []" "hd t = CHR ''/'' \<or> t = ''*''" "v = 0 \<or> v = 1"
  shows "parse_request_line (m @ SPC # t @ SPC # ''HTTP/1.'' @ (if v = 1 then CHR ''1'' else CHR ''0'') # CR # LF # r) req
    = (Some r, req\<lparr>rq_method := m, rq_path := t, rq_minor := v\<rparr>)"
proof -
  have "http_version (''HTTP/1.'' @ (if v = 1 then CHR ''1'' else CHR ''0'') # CR # LF # r) = Some (v, r)"
    using assms(8) by (auto simp: http_version_def byte_def)
  then show ?thesis
    using read_token_print [OF assms(1-3)] request_target_print [of 0 t] assms(4-7)
    by (simp add: parse_request_line_def Let_def)
qed

lemma colon_not_token: "\<not> is_token_char (CHR '':'')"
  by (simp add: is_token_char_def is_digit_def is_upper_def is_lower_def byte_def strchr_found_def
      token_punct_def)

lemma header_name_loop_print:
  "\<forall>c \<in> set n. is_token_char c \<Longrightarrow> header_name_loop (n @ CHR '':'' # r) = Some (n, CHR '':'' # r)"
  using colon_not_token by (induction n) auto

lemma header_value_loop_print:
  assumes "\<forall>c \<in> set v. value_char c"
  shows "header_value_loop (v @ CR # r) = Some (v, CR # r)"
  using assms
proof (induction v)
  case (Cons c v)
  then have "c \<noteq> CR" "c \<noteq> LF" using value_char_not_CR by auto
  with Cons show ?case by simp
qed simp

lemma parse_header_line_print:
  assumes "printable_header h"
  shows "parse_header_line (print_header h @ r) = Some (h, r)"
proof -
  have "dropWhile is_blank (SPC # h_value h @ CR # LF # r) = h_value h @ CR # LF # r"
    using assms by (cases "h_value h") (auto simp: printable_header_def is_blank_def)
  then show ?thesis
    using assms header_name_loop_print [of "h_name h"] header_value_loop_print [of "h_value h" "LF # r"]
      rstrip_id [of "h_value h" is_blank]
    by (auto simp: printable_header_def header_wf_def print_header_def parse_header_line_def
        parse_header_name_def parse_header_value_def)
qed

lemma count_known_header_accepts:
  assumes "counts_match seen hs" "printable_header h"
    "\<forall>n \<in> set [''Host'', ''Content-Length'', ''Authorization'', ''Content-Type'', ''Expect''].
        count_name n (hs @ [h]) \<le> 1"
  shows "fst (count_known_header h seen req)"
proof -
  have zero: "header_name_is h n \<Longrightarrow> count_name n hs = 0"
    if "n \<in> set [''Host'', ''Content-Length'', ''Authorization'', ''Content-Type'', ''Expect'']" for n
    using bspec [OF assms(3) that] by simp
  have val: "header_name_is h ''Host'' \<Longrightarrow> host_value_valid (h_value h)"
      "header_name_is h ''Content-Length'' \<Longrightarrow>
        parse_content_length (h_value h) = Some (the (parse_content_length (h_value h)))"
    using assms(2) unfolding printable_header_def by auto
  have seen: "seen_host seen = count_name ''Host'' hs"
      "seen_content_length seen = count_name ''Content-Length'' hs"
      "seen_authorization seen = count_name ''Authorization'' hs"
      "seen_content_type seen = count_name ''Content-Type'' hs"
      "seen_expect seen = count_name ''Expect'' hs"
    using assms(1) unfolding counts_match_def by simp_all
  have pcl: "header_name_is h ''Content-Length'' \<Longrightarrow>
      fst (case parse_content_length (h_value h) of None \<Rightarrow> (False, a, b) | Some n \<Rightarrow> (True, c, d n))" for a b c d
    by (subst val(2)) simp_all
  show ?thesis
    unfolding count_known_header_def Let_def
    by (simp add: seen zero val(1) pcl)
qed

lemma count_name_Nil [simp]: "count_name n [] = 0"
  by (simp add: count_name_def)

lemma count_name_append: "count_name n (xs @ ys) = count_name n xs + count_name n ys"
  by (simp add: count_name_def)

lemma count_name_Cons: "count_name n (h # hs) = (if header_name_is h n then 1 else 0) + count_name n hs"
  by (simp add: count_name_def)

lemma print_header_not_crlf: "printable_header h \<Longrightarrow> take 2 (print_header h @ r) \<noteq> [CR, LF]"
  using is_token_char_not_CR(1)
  by (cases "h_name h") (auto simp: printable_header_def header_wf_def print_header_def)

lemma parse_headers_print:
  assumes "counts_match seen (rq_headers req)" "acceptable_headers (rq_headers req @ hs)"
    "rq_minor req = 1 \<longrightarrow> count_name ''Host'' (rq_headers req @ hs) = 1"
  shows "\<exists>n. parse_headers (concat (map print_header hs) @ CR # LF # body) seen req =
    (Some body, req\<lparr>rq_headers := rq_headers req @ hs, rq_content_length := n\<rparr>)"
  using assms
proof (induction hs arbitrary: seen req)
  case Nil
  then have "seen_transfer_encoding seen = 0" "seen_content_length seen \<le> 1"
      "rq_minor req = 1 \<longrightarrow> seen_host seen = 1"
    by (auto simp: counts_match_def acceptable_headers_def)
  then show ?case
    by (intro exI [of _ "rq_content_length req"]) (simp add: parse_headers.simps [of "CR # LF # body"])
next
  case (Cons h hs)
  let ?req = "req\<lparr>rq_headers := rq_headers req @ [h]\<rparr>" and ?r = "concat (map print_header hs) @ CR # LF # body"
  obtain ok seen' req' where c: "count_known_header h seen ?req = (ok, seen', req')"
    by (cases "count_known_header h seen ?req")
  have h: "printable_header h" "length (rq_headers req) < HTTP_MAX_HEADERS"
    using Cons.prems(2) by (auto simp: acceptable_headers_def)
  have single: "\<forall>n \<in> set [''Host'', ''Content-Length'', ''Authorization'', ''Content-Type'', ''Expect''].
      count_name n (rq_headers req @ [h]) \<le> 1"
  proof
    fix n
    assume "n \<in> set [''Host'', ''Content-Length'', ''Authorization'', ''Content-Type'', ''Expect'']"
    then have "count_name n (rq_headers req @ h # hs) \<le> 1"
      using Cons.prems(2) unfolding acceptable_headers_def by blast
    then show "count_name n (rq_headers req @ [h]) \<le> 1"
      by (simp add: count_name_append count_name_Cons split: if_splits)
  qed
  have ok: "ok"
    using count_known_header_accepts [OF Cons.prems(1) h(1) single, of ?req] c by simp
  then obtain n where req': "req' = ?req\<lparr>rq_content_length := n\<rparr>"
    using count_known_header_only_length [of h seen ?req seen' req'] c by auto
  have "counts_match seen' (rq_headers req')"
    using count_known_header_counts [of h seen ?req seen' req' "rq_headers req"] c ok Cons.prems(1) req' by simp
  then obtain n' where "parse_headers ?r seen' req' =
      (Some body, req'\<lparr>rq_headers := rq_headers req' @ hs, rq_content_length := n'\<rparr>)"
    using Cons.IH [of seen' req'] Cons.prems(2,3) req' by auto
  then have "parse_headers (print_header h @ ?r) seen req =
      (Some body, req\<lparr>rq_headers := rq_headers req @ h # hs, rq_content_length := n'\<rparr>)"
    using parse_header_line_print [OF h(1), of ?r] print_header_not_crlf [OF h(1), of ?r] h(2) c ok req'
    by (subst parse_headers.simps) (simp add: print_header_def)
  then show ?case by (intro exI [of _ n']) simp
qed

lemma http_find_header_None: "http_find_header hs n = None \<longleftrightarrow> count_name n hs = 0"
  by (induction hs) (auto simp: count_name_def)

lemma http_find_header_unique:
  "count_name n hs \<le> 1 \<Longrightarrow> h \<in> set hs \<Longrightarrow> header_name_is h n \<Longrightarrow> http_find_header hs n = Some (h_value h)"
proof (induction hs)
  case (Cons k hs)
  then show ?case
    by (cases "header_name_is k n") (auto simp: count_name_Cons count_name_def filter_empty_conv)
qed simp

lemma length_matches_declared:
  assumes "length_matches req" "count_name ''Content-Length'' (rq_headers req) \<le> 1"
  shows "rq_content_length req = declared_length (rq_headers req)"
proof (cases "count_name ''Content-Length'' (rq_headers req) = 0")
  case True
  then show ?thesis
    using assms(1) http_find_header_None [of "rq_headers req" "''Content-Length''"]
    by (simp add: length_matches_def declared_length_def)
next
  case False
  then obtain h where "h \<in> set (rq_headers req)" "header_name_is h ''Content-Length''"
      "parse_content_length (h_value h) = Some (rq_content_length req)"
    using assms(1) by (auto simp: length_matches_def)
  then show ?thesis
    using http_find_header_unique [OF assms(2)] by (simp add: declared_length_def)
qed

definition wf_request_line :: "string \<Rightarrow> string \<Rightarrow> int \<Rightarrow> bool" where
  "wf_request_line m t v \<longleftrightarrow> m \<noteq> [] \<and> length m < HTTP_MAX_METHOD \<and> (\<forall>c \<in> set m. is_token_char c) \<and>
     t \<noteq> [] \<and> length t < HTTP_MAX_PATH \<and> (\<forall>c \<in> set t. target_char c) \<and>
     (hd t = CHR ''/'' \<or> t = ''*'') \<and> (v = 0 \<or> v = 1)"

lemma declared_length_less: 
  assumes "length_matches req" "rq_content_length req = n"
  shows "n \<le> 2 ^ 63 - 1"
  using assms parse_content_length_range by (auto simp: length_matches_def split: if_splits)

text \<open>C25: Printing and parsing are inverse: for every well-formed request line, acceptable header
  list and body of the declared length, the parser accepts the printed request (whatever bytes
  follow it on the connection) and returns exactly the printed method, target, version, headers
  and frame. So the parser rejects no well-formed request.\<close>

theorem http_print_parse:
  assumes "wf_request_line m t v" "acceptable_headers hs"
    "v = 1 \<longrightarrow> count_name ''Host'' hs = 1"
    "length (print_request m t v hs []) \<le> HTTP_MAX_HEADER_BYTES"
    "length body = nat (max 0 (declared_length hs))"
  shows "http_parse_request (print_request m t v hs body @ rest) =
    (HTTP_PARSE_OK, \<lparr>rq_method = m, rq_path = t, rq_minor = v, rq_headers = hs,
       rq_body = Some (length (print_request m t v hs [])), rq_body_len = length body,
       rq_content_length = declared_length hs, rq_header_len = length (print_request m t v hs []),
       rq_message_len = length (print_request m t v hs body)\<rparr>)"
proof -
  let ?buf = "print_request m t v hs body @ rest" and ?H = "length (print_request m t v hs [])"
  let ?req = "http_request_zero\<lparr>rq_content_length := - 1\<rparr>"
  let ?req1 = "?req\<lparr>rq_method := m, rq_path := t, rq_minor := v\<rparr>"
  let ?p1 = "concat (map print_header hs) @ CR # LF # body @ rest"
  have l: "parse_request_line ?buf ?req = (Some ?p1, ?req1)"
    using parse_request_line_print [of m t v ?p1 ?req] assms(1)
    by (simp add: wf_request_line_def print_request_def)
  obtain n where p: "parse_headers ?p1 no_headers_seen ?req1 =
      (Some (body @ rest), ?req1\<lparr>rq_headers := hs, rq_content_length := n\<rparr>)"
    using parse_headers_print [of no_headers_seen ?req1 hs "body @ rest"] assms(2,3)
    by (auto simp: counts_match_def no_headers_seen_def http_request_zero_def)
  have len: "length ?buf = ?H + length body + length rest" by (simp add: print_request_def)
  obtain h where "header_end ?buf = Some h" "length ?buf - length (body @ rest) = h"
    using http_header_position [OF l p] by blast
  then have he: "header_end ?buf = Some ?H" using len by simp
  obtain seen where "headers_inv seen (?req1\<lparr>rq_headers := hs, rq_content_length := n\<rparr>)"
    using parse_headers_inv [OF p headers_inv_start [OF l]] by blast
  then have lm: "length_matches (?req1\<lparr>rq_headers := hs, rq_content_length := n\<rparr>)"
    by (simp add: headers_inv_def)
  have n: "n = declared_length hs" "n \<le> 2 ^ 63 - 1"
    using length_matches_declared [OF lm] declared_length_less [OF lm, of n] assms(2)
    by (simp_all add: acceptable_headers_def)
  have "http_frame ?buf (body @ rest) (?req1\<lparr>rq_headers := hs, rq_content_length := n\<rparr>) =
    (HTTP_PARSE_OK, \<lparr>rq_method = m, rq_path = t, rq_minor = v, rq_headers = hs,
       rq_body = Some ?H, rq_body_len = length body, rq_content_length = declared_length hs,
       rq_header_len = ?H, rq_message_len = ?H + length body\<rparr>)"
    using n assms(5) len by (auto simp: http_frame_def Let_def http_request_zero_def max_def split: if_splits)
  moreover have "?buf \<noteq> []" by (simp add: print_request_def)
  moreover have "length (print_request m t v hs body) = ?H + length body" by (simp add: print_request_def)
  ultimately show ?thesis
    using l p he assms(4) by (simp add: http_parse_request_def Let_def)
qed

theorem http_print_parse_witness:
  "fst (http_parse_request (print_request ''POST'' ''/a'' 1
     [\<lparr>h_name = ''Host'', h_value = ''h''\<rparr>, \<lparr>h_name = ''content-length'', h_value = ''2''\<rparr>] ''ok'' @ ''GET'')) =
     HTTP_PARSE_OK"
proof -
  let ?hs = "[\<lparr>h_name = ''Host'', h_value = ''h''\<rparr>, \<lparr>h_name = ''content-length'', h_value = ''2''\<rparr>]"
  have "wf_request_line ''POST'' ''/a'' 1" by code_simp
  moreover have "acceptable_headers ?hs" by code_simp
  moreover have "count_name ''Host'' ?hs = 1" by code_simp
  moreover have "length (print_request ''POST'' ''/a'' 1 ?hs []) \<le> HTTP_MAX_HEADER_BYTES" by code_simp
  moreover have "length ''ok'' = nat (max 0 (declared_length ?hs))" by code_simp
  ultimately show ?thesis
    using http_print_parse [of "''POST''" "''/a''" 1 ?hs "''ok''" "''GET''"] by simp
qed

text \<open>C35: The token check of the parser accepts the NUL byte, because \<open>strchr\<close> finds the
  terminator of the punctuation set: the request whose method is the single byte 0 is accepted.\<close>

theorem http_accepts_NUL_method:
  "is_token_char NUL \<and>
   fst (http_parse_request ([NUL] @ '' / HTTP/1.0'' @ [CR, LF, CR, LF])) = HTTP_PARSE_OK"
proof
  show "is_token_char NUL" by (simp add: is_token_char_def strchr_found_def)
  show "fst (http_parse_request ([NUL] @ '' / HTTP/1.0'' @ [CR, LF, CR, LF])) = HTTP_PARSE_OK" by code_simp
qed

end
