(* ===== verification/Config.thy ===== *)
theory Config
  imports Gargantua_Prelude
begin

text \<open>
  The configuration store of \<open>src/core/config.c\<close>. The static array \<open>g_entries\<close> with \<open>g_count\<close> is the
  list of its first \<open>g_count\<close> entries, passed and returned. The C library is modelled as the code
  uses it: \<open>fgets\<close> over a stream with its end-of-file and error flags, \<open>strtol\<close> in base ten;
  \<open>getenv\<close> and \<open>fopen\<close> are parameters, since the environment and the file system belong to the
  machine the program runs on.
\<close>

section \<open>The C library\<close>

record Stream =
  st_rest :: string
  st_fails :: bool
  st_eof :: bool
  st_error :: bool

datatype Fopen = FOPEN_ENOENT | FOPEN_REFUSED | FOPEN_OK string bool bool

text \<open>\<open>FOPEN_OK content fails closes\<close>: reading past the content fails with an error or reaches the
  end of the file; \<open>fclose\<close> succeeds or not. \<open>fgets_take n\<close> is what one call reads: up to \<open>n\<close>
  bytes, ending with the first newline.\<close>

fun fgets_take :: "nat \<Rightarrow> string \<Rightarrow> string" where
  "fgets_take 0 s = []"
| "fgets_take (Suc n) [] = []"
| "fgets_take (Suc n) (c # s) = c # (if c = LF then [] else fgets_take n s)"

definition fgets :: "nat \<Rightarrow> Stream \<Rightarrow> string option \<times> Stream" where
  "fgets cap st =
     (let got = fgets_take (cap - 1) (st_rest st); st' = st\<lparr>st_rest := drop (length got) (st_rest st)\<rparr> in
      if length got = cap - 1 \<or> (got \<noteq> [] \<and> last got = LF) then (Some got, st')
      else if st_fails st then (None, st'\<lparr>st_error := True\<rparr>)
      else (if got = [] then None else Some got, st'\<lparr>st_eof := True\<rparr>))"

text \<open>\<open>strtol(text, &end, 10)\<close>: the value, the text at \<open>end\<close>, and whether \<open>errno\<close> is \<open>ERANGE\<close>.\<close>

definition clamp_long :: "int \<Rightarrow> int \<times> bool" where
  "clamp_long v = (if v > 2 ^ 63 - 1 then (2 ^ 63 - 1, True)
                   else if v < - (2 ^ 63) then (- (2 ^ 63), True) else (v, False))"

definition strtol10 :: "string \<Rightarrow> int \<times> string \<times> bool" where
  "strtol10 text =
     (let s = dropWhile isspace text;
          (neg, s1) = (case s of [] \<Rightarrow> (False, s)
                       | c # r \<Rightarrow> if c = CHR ''-'' then (True, r)
                                  else if c = CHR ''+'' then (False, r) else (False, s));
          ds = takeWhile is_digit s1
      in if ds = [] then (0, text, False)
         else let (v, erange) = clamp_long (if neg then - int (dec_val ds) else int (dec_val ds))
              in (v, dropWhile is_digit s1, erange))"

section \<open>The store\<close>

abbreviation CONFIG_LINE_MAX :: nat where "CONFIG_LINE_MAX \<equiv> 512"
abbreviation CONFIG_ENV_MAX :: nat where "CONFIG_ENV_MAX \<equiv> 96"
abbreviation CONFIG_MAX_KEYS :: nat where "CONFIG_MAX_KEYS \<equiv> 64"
abbreviation CONFIG_KEY_LEN :: nat where "CONFIG_KEY_LEN \<equiv> 64"
abbreviation CONFIG_VALUE_LEN :: nat where "CONFIG_VALUE_LEN \<equiv> 256"

record Entry =
  e_key :: string
  e_value :: string

text \<open>The two loops of \<open>trim_spaces\<close>, each with its guard counter: from the front, then from the
  back.\<close>

fun trim_front :: "nat \<Rightarrow> string \<Rightarrow> string" where
  "trim_front 0 s = s"
| "trim_front (Suc guard) [] = []"
| "trim_front (Suc guard) (c # s) = (if isspace c then trim_front guard s else c # s)"

definition trim_spaces :: "string \<Rightarrow> string" where
  "trim_spaces text =
     rev (trim_front CONFIG_LINE_MAX (rev (trim_front CONFIG_LINE_MAX text)))"

fun entry_index :: "Entry list \<Rightarrow> string \<Rightarrow> Entry option" where
  "entry_index [] key = None"
| "entry_index (e # es) key = (if e_key e = key then Some e else entry_index es key)"

definition store_entry :: "string \<Rightarrow> string \<Rightarrow> Entry list \<Rightarrow> Entry list option" where
  "store_entry key value es =
     (if key = [] \<or> length key \<ge> CONFIG_KEY_LEN \<or> length value \<ge> CONFIG_VALUE_LEN then None
      else if entry_index es key \<noteq> None then None
      else if length es \<ge> CONFIG_MAX_KEYS then None
      else Some (es @ [\<lparr>e_key = key, e_value = value\<rparr>]))"

text \<open>One iteration of the loop of \<open>config_load\<close>: \<open>None\<close> leaves the loop (a line that does not fit the
  buffer), otherwise the entries and whether the line counts as bad.\<close>

definition config_line :: "string \<Rightarrow> Entry list \<Rightarrow> (bool \<times> Entry list) option" where
  "config_line got es =
     (let line = cstr got in
      if length line = CONFIG_LINE_MAX - 1 \<and> last line \<noteq> LF then None
      else
        let text = trim_spaces (fst (split_at (\<lambda>c. c = CHR ''#'') line)) in
        if text = [] then Some (False, es)
        else
          (case split_at (\<lambda>c. c = CHR ''='') text of
             (_, None) \<Rightarrow> Some (True, es)
           | (k, Some v) \<Rightarrow>
               (case store_entry (trim_spaces k) (trim_spaces v) es of
                  None \<Rightarrow> Some (True, es)
                | Some es' \<Rightarrow> Some (False, es'))))"

function config_lines :: "nat \<Rightarrow> Stream \<Rightarrow> nat \<Rightarrow> Entry list \<Rightarrow> nat \<times> Stream \<times> nat \<times> Entry list" where
  "config_lines lineno st bad es =
     (case fgets CONFIG_LINE_MAX st of
        (None, st') \<Rightarrow> (lineno, st', bad, es)
      | (Some line, st') \<Rightarrow>
          if lineno \<ge> CONFIG_MAX_KEYS * 8 then (lineno, st', bad, es)
          else
            (case config_line line es of
               None \<Rightarrow> (lineno + 1, st', bad + 1, es)
             | Some (b, es') \<Rightarrow> config_lines (lineno + 1) st' (if b then bad + 1 else bad) es'))"
  by pat_completeness auto
termination
  by (relation "measure (\<lambda>(lineno, st, bad, es). CONFIG_MAX_KEYS * 8 - lineno)") auto

declare config_lines.simps [simp del]

definition config_load ::
  "(string \<Rightarrow> string option) \<Rightarrow> (string \<Rightarrow> Fopen) \<Rightarrow> string \<Rightarrow> int \<times> Entry list" where
  "config_load getenv fopen path =
     (let path' = (case getenv ''GARGANTUA_CONFIG'' of
                     Some p \<Rightarrow> if p \<noteq> [] then p else path | None \<Rightarrow> path) in
      (case fopen path' of
         FOPEN_ENOENT \<Rightarrow> (0, [])
       | FOPEN_REFUSED \<Rightarrow> (- 1, [])
       | FOPEN_OK content fails closes \<Rightarrow>
           (case config_lines 0 \<lparr>st_rest = content, st_fails = fails, st_eof = False, st_error = False\<rparr> 0 [] of
              (lineno, st, bad, es) \<Rightarrow>
                let bad1 = (if st_error st \<or> (lineno \<ge> CONFIG_MAX_KEYS * 8 \<and> \<not> st_eof st) then bad + 1 else bad);
                    bad2 = (if closes then bad1 else bad1 + 1)
                in if bad2 > 0 then (- 1, []) else (int (length es), es))))"

fun env_name :: "nat \<Rightarrow> string \<Rightarrow> string" where
  "env_name cap [] = []"
| "env_name cap (c # key) =
     (if cap \<le> 1 then []
      else (if c = CHR ''.'' then CHR ''_'' else toupper c) # env_name (cap - 1) key)"

definition config_str ::
  "(string \<Rightarrow> string option) \<Rightarrow> Entry list \<Rightarrow> string \<Rightarrow> string \<Rightarrow> string" where
  "config_str getenv es key fallback =
     (case getenv (env_name CONFIG_ENV_MAX key) of
        Some v \<Rightarrow> if v \<noteq> [] then v
                  else (case entry_index es key of Some e \<Rightarrow> e_value e | None \<Rightarrow> fallback)
      | None \<Rightarrow> (case entry_index es key of Some e \<Rightarrow> e_value e | None \<Rightarrow> fallback))"

definition config_int ::
  "(string \<Rightarrow> string option) \<Rightarrow> Entry list \<Rightarrow> string \<Rightarrow> int \<Rightarrow> int" where
  "config_int getenv es key fallback =
     (let text = config_str getenv es key [] in
      if text = [] then fallback
      else
        (case strtol10 text of (value, rest, erange) \<Rightarrow>
           if erange \<or> rest = text \<or> rest \<noteq> [] \<or> value < - 2147483647 \<or> value > 2147483647
           then fallback else value))"

section \<open>Trimming and reading lines\<close>

lemma trim_front_dropWhile: "length s \<le> guard \<Longrightarrow> trim_front guard s = dropWhile isspace s"
  by (induction guard s rule: trim_front.induct) auto

lemma trim_spaces_eq:
  assumes "length s \<le> CONFIG_LINE_MAX"
  shows "trim_spaces s = rstrip isspace (dropWhile isspace s)"
proof -
  have "length (dropWhile isspace s) \<le> CONFIG_LINE_MAX"
    using assms length_dropWhile_le [of isspace s] by linarith
  then show ?thesis
    using assms by (simp add: trim_spaces_def trim_front_dropWhile rstrip_def)
qed

lemma trim_spaces_Nil [simp]: "trim_spaces [] = []"
  by (simp add: trim_spaces_eq)

definition trimmed :: "string \<Rightarrow> bool" where
  "trimmed s \<longleftrightarrow> s = [] \<or> \<not> isspace (hd s) \<and> \<not> isspace (last s)"

lemma rstrip_hd: "rstrip p s \<noteq> [] \<Longrightarrow> hd (rstrip p s) = hd s"
  using rstrip_prefix [of p s] by (metis hd_append2)

lemma trimmed_trim_spaces:
  assumes "length s \<le> CONFIG_LINE_MAX"
  shows "trimmed (trim_spaces s)"
proof (cases "trim_spaces s = []")
  case False
  let ?d = "dropWhile isspace s"
  have "rstrip isspace ?d \<noteq> []" using False trim_spaces_eq [OF assms] by simp
  moreover from this have "?d \<noteq> []" by (metis rstrip_Nil)
  ultimately show ?thesis
    using trim_spaces_eq [OF assms] rstrip_hd [of isspace ?d] rstrip_last [of isspace ?d] hd_dropWhile [of isspace s]
    by (simp add: trimmed_def)
qed (simp add: trimmed_def)

lemma set_trim_spaces: "length s \<le> CONFIG_LINE_MAX \<Longrightarrow> set (trim_spaces s) \<subseteq> set s"
  using set_rstrip [of isspace "dropWhile isspace s"] by (auto simp: trim_spaces_eq dest!: set_dropWhileD)

lemma length_trim_spaces: "length s \<le> CONFIG_LINE_MAX \<Longrightarrow> length (trim_spaces s) \<le> length s"
  using length_rstrip_le [of isspace "dropWhile isspace s"] length_dropWhile_le [of isspace s]
  by (simp add: trim_spaces_eq)

lemma fgets_take_length: "length (fgets_take n s) \<le> n"
  by (induction n s rule: fgets_take.induct) auto

lemma fgets_take_prefix: "fgets_take n s = take (length (fgets_take n s)) s"
  by (induction n s rule: fgets_take.induct) auto

lemma fgets_take_line: "LF \<notin> set l \<Longrightarrow> length l < n \<Longrightarrow> fgets_take n (l @ LF # s) = l @ [LF]"
proof (induction l arbitrary: n)
  case Nil
  then show ?case by (cases n) auto
next
  case (Cons c l)
  then show ?case by (cases n) auto
qed

lemma fgets_take_no_inner_LF: "LF \<notin> set (butlast (fgets_take n s))"
  by (induction n s rule: fgets_take.induct) (auto split: if_splits)

lemma fgets_Some: "fgets cap st = (Some line, st') \<Longrightarrow> \<exists>s. line = fgets_take (cap - 1) s"
  by (auto simp: fgets_def Let_def split: if_splits)

section \<open>Well-formed stores\<close>

definition entry_ok :: "Entry \<Rightarrow> bool" where
  "entry_ok e \<longleftrightarrow> e_key e \<noteq> [] \<and> length (e_key e) < CONFIG_KEY_LEN \<and> length (e_value e) < CONFIG_VALUE_LEN \<and>
     trimmed (e_key e) \<and> trimmed (e_value e) \<and> CHR ''='' \<notin> set (e_key e) \<and>
     (\<forall>c \<in> set (e_key e) \<union> set (e_value e). c \<noteq> CHR ''#'' \<and> c \<noteq> NUL \<and> c \<noteq> LF)"

definition config_inv :: "Entry list \<Rightarrow> bool" where
  "config_inv es \<longleftrightarrow> length es \<le> CONFIG_MAX_KEYS \<and> distinct (map e_key es) \<and> list_all entry_ok es"

lemma entry_index_None: "entry_index es key = None \<longleftrightarrow> key \<notin> e_key ` set es"
  by (induction es) auto

lemma entry_index_Some: "entry_index es key = Some e \<Longrightarrow> e \<in> set es \<and> e_key e = key"
  by (induction es) (auto split: if_splits)

lemma entry_index_snoc:
  "entry_index (es @ [e]) key =
     (case entry_index es key of Some x \<Rightarrow> Some x | None \<Rightarrow> if e_key e = key then Some e else None)"
  by (induction es) auto

lemma store_entry_Some [result_iff]:
  "store_entry key value es = Some es' \<longleftrightarrow>
     key \<noteq> [] \<and> length key < CONFIG_KEY_LEN \<and> length value < CONFIG_VALUE_LEN \<and> key \<notin> e_key ` set es \<and>
     length es < CONFIG_MAX_KEYS \<and> es' = es @ [\<lparr>e_key = key, e_value = value\<rparr>]"
  by (auto simp: store_entry_def entry_index_None not_le)

text \<open>The store as its clients use it: a stored key is found, storing changes no other key, and a
  key is stored at most once.\<close>

locale keyed_store = keyed_map "\<lambda>a b. a = b" store find
  for store :: "'k \<Rightarrow> 'v \<Rightarrow> 's \<Rightarrow> 's option" and find :: "'s \<Rightarrow> 'k \<Rightarrow> 'v option" +
  assumes store_once: "find s k = Some w \<Longrightarrow> store k v s = None"
begin

lemma find_kept: "store_all store kvs s = Some s' \<Longrightarrow> find s k = Some v \<Longrightarrow> find s' k = Some v"
proof (induction kvs arbitrary: s)
  case (Cons kv kvs)
  obtain k' v' where kv: "kv = (k', v')" by fastforce
  then obtain s1 where s1: "store k' v' s = Some s1" "store_all store kvs s1 = Some s'"
    using Cons.prems(1) by (auto split: option.splits)
  then have "k \<noteq> k'" using store_once [OF Cons.prems(2)] by auto
  then show ?case using Cons s1 find_other [OF s1(1)] by simp
qed simp

lemma find_all_stored: "store_all store kvs s = Some s' \<Longrightarrow> (k, v) \<in> set kvs \<Longrightarrow> find s' k = Some v"
proof (induction kvs arbitrary: s)
  case (Cons kv kvs)
  obtain k' v' where kv: "kv = (k', v')" by fastforce
  then obtain s1 where s1: "store k' v' s = Some s1" "store_all store kvs s1 = Some s'"
    using Cons.prems(1) by (auto split: option.splits)
  show ?case
  proof (cases "(k, v) = (k', v')")
    case True
    then show ?thesis using find_kept [OF s1(2)] find_stored [OF s1(1)] by simp
  next
    case False
    then show ?thesis using Cons s1 kv by auto
  qed
qed simp

end

interpretation cfg: keyed_store store_entry "\<lambda>es k. map_option e_value (entry_index es k)"
  by unfold_locales
    (auto simp: store_entry_def entry_index_snoc split: option.splits if_splits)

abbreviation line_text :: "string \<Rightarrow> string" where
  "line_text got \<equiv> trim_spaces (fst (split_at (\<lambda>c. c = CHR ''#'') (cstr got)))"

lemma config_line_stored:
  assumes "config_line got es = Some (b, es')" "es' \<noteq> es"
  shows "\<exists>k v. split_at (\<lambda>c. c = CHR ''='') (line_text got) = (k, Some v) \<and>
    store_entry (trim_spaces k) (trim_spaces v) es = Some es'"
proof -
  obtain k w where kw: "split_at (\<lambda>c. c = CHR ''='') (line_text got) = (k, w)" by fastforce
  show ?thesis
    using assms unfolding config_line_def Let_def kw
    by (cases w; cases "store_entry (trim_spaces k) (trim_spaces (the w)) es") (simp_all split: if_splits)
qed

lemma line_prefix: "\<exists>u. takeWhile p (cstr got) @ u = got"
  unfolding cstr_def
  by (intro exI [of _ "dropWhile p (takeWhile (\<lambda>c. c \<noteq> NUL) got) @ dropWhile (\<lambda>c. c \<noteq> NUL) got"])
    (simp flip: append_assoc)

lemma trim_line_no_LF:
  assumes "LF \<notin> set (butlast got)" "b @ u = got" "length b \<le> CONFIG_LINE_MAX"
  shows "LF \<notin> set (trim_spaces b)"
proof (cases b rule: rev_cases)
  case Nil
  then show ?thesis using set_trim_spaces [OF assms(3)] by auto
next
  case (snoc g x)
  then have g: "LF \<notin> set g" using assms(1,2) by (cases u) (auto simp: butlast_append)
  show ?thesis
  proof (cases "x = LF")
    case False
    then show ?thesis using set_trim_spaces [OF assms(3)] g snoc by auto
  next
    case True
    then have "isspace x" by (simp add: isspace_def byte_def)
    then have "rstrip isspace (dropWhile isspace b) = rstrip isspace (dropWhile isspace g)"
      unfolding snoc using dropWhile_eq_Nil_conv [of isspace g]
      by (auto simp: rstrip_def dropWhile_append simp del: dropWhile_eq_Nil_conv)
    then have "set (trim_spaces b) \<subseteq> set (dropWhile isspace g)"
      using trim_spaces_eq [OF assms(3)] set_rstrip by simp
    then show ?thesis using g by (auto dest: set_dropWhileD)
  qed
qed

lemma config_line_inv:
  assumes "config_line got es = Some (b, es')" "config_inv es" "length got \<le> CONFIG_LINE_MAX - 1"
    "LF \<notin> set (butlast got)"
  shows "config_inv es'"
proof (cases "es' = es")
  case False
  let ?line = "cstr got"
  let ?body = "fst (split_at (\<lambda>c. c = CHR ''#'') ?line)"
  let ?text = "trim_spaces ?body"
  obtain k v where kv: "split_at (\<lambda>c. c = CHR ''='') ?text = (k, Some v)"
      "store_entry (trim_spaces k) (trim_spaces v) es = Some es'"
    using config_line_stored [OF assms(1) False] by blast
  have line: "length ?line \<le> CONFIG_LINE_MAX" "NUL \<notin> set ?line"
    using length_cstr_le [of got] assms(3) by auto
  have body: "?body = takeWhile (\<lambda>c. c \<noteq> CHR ''#'') ?line"
    by (rule fst_split_at)
  have blen: "length ?body \<le> CONFIG_LINE_MAX"
    unfolding body using line(1) length_takeWhile_le le_trans by blast
  have tset: "set ?text \<subseteq> set ?body" and tlen: "length ?text \<le> CONFIG_LINE_MAX"
    using set_trim_spaces [OF blen] length_trim_spaces [OF blen] blen by auto
  have bset: "set ?body \<subseteq> set ?line - {CHR ''#''}"
    unfolding body by (auto dest: set_takeWhileD)
  have hash: "CHR ''#'' \<notin> set ?text" "NUL \<notin> set ?text"
    using tset line(2) bset by blast+
  have lf: "LF \<notin> set ?text"
    using trim_line_no_LF [OF assms(4) _ blen] line_prefix [of _ got] unfolding body by blast
  obtain c where sp: "?text = k @ c # v" "\<forall>x \<in> set k. x \<noteq> CHR ''=''"
    using split_at_Some [OF kv(1)] by auto
  have kl: "length k \<le> CONFIG_LINE_MAX" "length v \<le> CONFIG_LINE_MAX" using sp(1) tlen by auto
  have sets: "set (trim_spaces k) \<subseteq> set k" "set (trim_spaces v) \<subseteq> set ?text" "set k \<subseteq> set ?text"
    using set_trim_spaces [OF kl(1)] set_trim_spaces [OF kl(2)] sp(1) by auto
  have "entry_ok \<lparr>e_key = trim_spaces k, e_value = trim_spaces v\<rparr>"
    using kv(2) trimmed_trim_spaces [OF kl(1)] trimmed_trim_spaces [OF kl(2)] sets hash lf sp(2)
    by (auto simp: entry_ok_def result_iff)
  then show ?thesis using kv(2) assms(2) by (auto simp: config_inv_def result_iff)
qed (use assms(2) in simp)

lemma config_lines_inv:
  "config_lines lineno st bad es = (lineno', st', bad', es') \<Longrightarrow> config_inv es \<Longrightarrow> config_inv es'"
proof (induction lineno st bad es rule: config_lines.induct)
  case (1 lineno st bad es)
  show ?case
  proof (cases "fgets CONFIG_LINE_MAX st")
    case (Pair o1 st1)
    show ?thesis
    proof (cases o1)
      case None
      then show ?thesis using 1 Pair by (simp add: config_lines.simps [of lineno])
    next
      case (Some line)
      obtain s where line: "line = fgets_take (CONFIG_LINE_MAX - 1) s"
        using fgets_Some Pair Some by blast
      show ?thesis
      proof (cases "lineno \<ge> CONFIG_MAX_KEYS * 8 \<or> config_line line es = None")
        case True
        then show ?thesis
          using 1 Pair Some by (elim disjE) (simp_all add: config_lines.simps [of lineno] split: if_splits)
      next
        case False
        then obtain b es1 where c: "config_line line es = Some (b, es1)" by auto
        have "config_inv es1"
          by (rule config_line_inv [OF c "1.prems"(2)])
            (simp_all add: line fgets_take_length fgets_take_no_inner_LF del: fgets_take.simps)
        moreover have "config_lines (lineno + 1) st1 (if b then bad + 1 else bad) es1 = (lineno', st', bad', es')"
          using "1.prems"(1) Pair Some False c by (simp add: config_lines.simps [of lineno])
        ultimately show ?thesis
          using "1.IH" [OF Pair [symmetric] Some _ c refl] False by blast
      qed
    qed
  qed
qed

text \<open>Whatever the environment and the file hold, loading leaves either an empty store
  (with the result -1, or 0 when the file does not exist) or a store of at most 64 entries whose
  count is the result, with distinct non-empty keys, keys and values that fit their arrays and
  are trimmed, and no comment, newline or NUL inside: a bad line anywhere rejects the whole file.\<close>

theorem config_load_wf:
  "config_inv (snd (config_load getenv fopen path)) \<and>
   (fst (config_load getenv fopen path) = int (length (snd (config_load getenv fopen path))) \<or>
    config_load getenv fopen path = (- 1, []))"
proof -
  have e: "config_inv []" by (simp add: config_inv_def)
  show ?thesis
    using e config_lines_inv [OF _ e]
    by (auto simp: config_load_def Let_def split: Fopen.split prod.split option.split)
qed

section \<open>Loading what was printed\<close>

definition print_entry :: "Entry \<Rightarrow> string" where
  "print_entry e = e_key e @ '' = '' @ e_value e @ [LF]"

lemma dropWhile_hd: "s \<noteq> [] \<Longrightarrow> \<not> p (hd s) \<Longrightarrow> dropWhile p (s @ t) = s @ t"
  by (cases s) auto

lemma trim_spaces_pad:
  assumes "trimmed s" "length s < CONFIG_LINE_MAX"
  shows "trim_spaces (SPC # s) = s" "trim_spaces (s @ [SPC]) = s" "trim_spaces [SPC] = []"
proof -
  have sp: "isspace SPC" by (simp add: isspace_def byte_def)
  have d: "dropWhile isspace s = s" "rstrip isspace s = s"
    using assms(1) dropWhile_hd [of s isspace "[]"] rstrip_id [of s isspace]
    by (cases "s = []"; simp add: trimmed_def)+
  show "trim_spaces (SPC # s) = s" using assms(2) sp d by (simp add: trim_spaces_eq)
  show "trim_spaces [SPC] = []" using sp by (simp add: trim_spaces_eq)
  show "trim_spaces (s @ [SPC]) = s"
    using assms sp d dropWhile_hd [of s isspace "[SPC]"]
    by (cases "s = []") (simp_all add: trim_spaces_eq trimmed_def)
qed

lemma print_entry_text:
  assumes "entry_ok e"
  shows "line_text (print_entry e) =
    e_key e @ '' ='' @ (if e_value e = [] then [] else SPC # e_value e)"
proof -
  let ?l = "e_key e @ '' = '' @ e_value e"
  have sp: "isspace SPC" "isspace LF" "\<not> isspace (CHR ''='')" by (simp_all add: isspace_def byte_def)
  have "NUL \<notin> set (print_entry e)" "\<forall>c \<in> set (print_entry e). c \<noteq> CHR ''#''"
    using assms by (auto simp: entry_ok_def print_entry_def)
  then have t: "line_text (print_entry e) = trim_spaces (?l @ [LF])"
    by (simp add: fst_split_at cstr_id takeWhile_eq_all_conv [THEN iffD2]) (simp add: print_entry_def)
  have "length (?l @ [LF]) \<le> CONFIG_LINE_MAX" using assms by (simp add: entry_ok_def)
  moreover have "dropWhile isspace (e_key e @ r) = e_key e @ r" for r
    using assms by (intro dropWhile_hd) (auto simp: entry_ok_def trimmed_def)
  ultimately have "line_text (print_entry e) = rstrip isspace (?l @ [LF])"
    unfolding t by (simp add: trim_spaces_eq del: rstrip_snoc)
  also have "\<dots> = rstrip isspace ?l" using sp(2) by (rule rstrip_snoc)
  also have "\<dots> = e_key e @ '' ='' @ (if e_value e = [] then [] else SPC # e_value e)"
  proof (cases "e_value e = []")
    case True
    have "rstrip isspace ((e_key e @ '' ='') @ [SPC]) = rstrip isspace (e_key e @ '' ='')"
      using sp(1) by (rule rstrip_snoc)
    also have "\<dots> = e_key e @ '' =''" using sp(3) by (intro rstrip_id) simp
    finally show ?thesis using True by simp
  next
    case False
    then have "rstrip isspace ?l = ?l" using assms by (intro rstrip_id) (simp add: entry_ok_def trimmed_def)
    then show ?thesis using False by simp
  qed
  finally show ?thesis .
qed

lemma config_line_print:
  assumes "entry_ok e" "e_key e \<notin> e_key ` set es" "length es < CONFIG_MAX_KEYS"
  shows "config_line (print_entry e) es = Some (False, es @ [e])"
proof -
  let ?v = "if e_value e = [] then [] else SPC # e_value e"
  have "\<forall>c \<in> set (e_key e @ '' ''). c \<noteq> CHR ''=''" using assms(1) by (auto simp: entry_ok_def)
  from split_at_append [of "e_key e @ '' ''" "\<lambda>c. c = CHR ''=''" "CHR ''=''" ?v] this
  have sp: "split_at (\<lambda>c. c = CHR ''='') (line_text (print_entry e)) = (e_key e @ [SPC], Some ?v)"
    unfolding print_entry_text [OF assms(1)] by simp
  have tr: "trim_spaces (e_key e @ [SPC]) = e_key e" "trim_spaces ?v = e_value e"
    using assms(1) trim_spaces_pad [of "e_key e"] trim_spaces_pad [of "e_value e"]
    by (simp_all add: entry_ok_def)
  have st: "store_entry (e_key e) (e_value e) es = Some (es @ [e])"
    using assms by (simp add: result_iff entry_ok_def)
  have "length (cstr (print_entry e)) < CONFIG_LINE_MAX - 1"
    using assms(1) length_cstr_le [of "print_entry e"] by (simp add: print_entry_def entry_ok_def)
  moreover have "line_text (print_entry e) \<noteq> []" unfolding print_entry_text [OF assms(1)] by simp
  ultimately show ?thesis
    unfolding config_line_def Let_def sp by (simp add: tr st)
qed

lemma config_lines_print:
  assumes "config_inv (es1 @ es2)" "lineno + length es2 \<le> CONFIG_MAX_KEYS * 8"
  shows "config_lines lineno \<lparr>st_rest = concat (map print_entry es2), st_fails = False, st_eof = False,
      st_error = False\<rparr> bad es1 = (lineno + length es2,
    \<lparr>st_rest = [], st_fails = False, st_eof = True, st_error = False\<rparr>, bad, es1 @ es2)"
  using assms
proof (induction es2 arbitrary: lineno es1)
  case Nil
  then show ?case by (simp add: config_lines.simps [of lineno] fgets_def numeral_eq_Suc)
next
  case (Cons e es2)
  have ok: "entry_ok e" "e_key e \<notin> e_key ` set es1" "length es1 < CONFIG_MAX_KEYS"
    using Cons.prems(1) by (auto simp: config_inv_def)
  let ?r = "concat (map print_entry es2)" and ?l = "e_key e @ '' = '' @ e_value e"
  have "LF \<notin> set ?l" "length ?l < 511" using ok(1) by (auto simp: entry_ok_def)
  then have take: "fgets_take 511 (print_entry e @ ?r) = print_entry e"
    using fgets_take_line [of ?l 511 ?r] by (simp add: print_entry_def del: fgets_take.simps)
  have "fgets CONFIG_LINE_MAX \<lparr>st_rest = print_entry e @ ?r, st_fails = False, st_eof = False, st_error = False\<rparr> =
      (Some (print_entry e), \<lparr>st_rest = ?r, st_fails = False, st_eof = False, st_error = False\<rparr>)"
    by (simp add: fgets_def Let_def take del: fgets_take.simps) (simp add: print_entry_def)
  then show ?case
    using Cons.IH [of "es1 @ [e]" "lineno + 1"] Cons.prems config_line_print [OF ok]
    by (subst config_lines.simps) simp
qed

lemma store_all_entries:
  "config_inv (es1 @ es2) \<Longrightarrow>
     store_all store_entry (map (\<lambda>e. (e_key e, e_value e)) es2) es1 = Some (es1 @ es2)"
proof (induction es2 arbitrary: es1)
  case (Cons e es2)
  then have "store_entry (e_key e) (e_value e) es1 = Some (es1 @ [e])"
    by (auto simp: result_iff config_inv_def entry_ok_def)
  then show ?case using Cons by simp
qed simp

text \<open>C34: Round trip of the configuration file: a file that holds one line \<open>key = value\<close> for each
  entry of a well-formed store loads as exactly that store, in order, and \<open>config_str\<close> then
  returns each entry's value (unless the environment overrides it with a non-empty variable).\<close>

theorem config_load_print:
  assumes "config_inv es" "getenv ''GARGANTUA_CONFIG'' = None"
    "fopen path = FOPEN_OK (concat (map print_entry es)) False True"
    "e \<in> set es" "getenv (env_name CONFIG_ENV_MAX (e_key e)) = None"
  shows "config_load getenv fopen path = (int (length es), es) \<and>
    config_str getenv (snd (config_load getenv fopen path)) (e_key e) fallback = e_value e"
proof -
  have "length es \<le> CONFIG_MAX_KEYS" "distinct (map e_key es)" using assms(1) by (auto simp: config_inv_def)
  then have "config_load getenv fopen path = (int (length es), es)"
    using config_lines_print [of "[]" es 0 0] assms(1-3) by (simp add: config_load_def Let_def)
  moreover have "map_option e_value (entry_index es (e_key e)) = Some (e_value e)"
    using cfg.find_all_stored [OF store_all_entries [of "[]" es]] assms(1,4) by simp
  then have "config_str getenv es (e_key e) fallback = e_value e"
    using assms(5) by (auto simp: config_str_def)
  ultimately show ?thesis by simp
qed

theorem config_load_print_witness:
  "config_load (\<lambda>_. None) (\<lambda>_. FOPEN_OK (''port = 80'' @ [LF] @ ''host = a b'' @ [LF]) False True) ''f'' =
     (2, [\<lparr>e_key = ''port'', e_value = ''80''\<rparr>, \<lparr>e_key = ''host'', e_value = ''a b''\<rparr>])"
proof -
  let ?es = "[\<lparr>e_key = ''port'', e_value = ''80''\<rparr>, \<lparr>e_key = ''host'', e_value = ''a b''\<rparr>]"
  have inv: "config_inv ?es" by code_simp
  show ?thesis
    using config_load_print [OF inv, of "\<lambda>_. None"
        "\<lambda>_. FOPEN_OK (''port = 80'' @ [LF] @ ''host = a b'' @ [LF]) False True" "''f''"
        "\<lparr>e_key = ''port'', e_value = ''80''\<rparr>"]
    by (simp add: print_entry_def)
qed

section \<open>Integers\<close>

lemma digit_not_sign: "is_digit c \<Longrightarrow> c \<noteq> CHR ''-'' \<and> c \<noteq> CHR ''+'' \<and> \<not> isspace c"
  by (auto simp: is_digit_def isspace_def byte_def)

lemma strtol10_digits:
  assumes "ds \<noteq> []" "\<forall>c \<in> set ds. is_digit c"
  shows "strtol10 ds = (fst (clamp_long (int (dec_val ds))), [], snd (clamp_long (int (dec_val ds))))"
    "strtol10 (CHR ''-'' # ds) = (fst (clamp_long (- int (dec_val ds))), [], snd (clamp_long (- int (dec_val ds))))"
proof -
  obtain c r where c: "ds = c # r" using assms(1) by (cases ds) auto
  have tw: "takeWhile is_digit r = r" "dropWhile is_digit r = []"
    using assms(2) c by (auto simp: takeWhile_eq_all_conv)
  have "\<not> isspace (CHR ''-'')" by (simp add: isspace_def byte_def)
  then show "strtol10 ds = (fst (clamp_long (int (dec_val ds))), [], snd (clamp_long (int (dec_val ds))))"
    "strtol10 (CHR ''-'' # ds) = (fst (clamp_long (- int (dec_val ds))), [], snd (clamp_long (- int (dec_val ds))))"
    using assms digit_not_sign [of c] c by (simp_all add: strtol10_def Let_def tw split: prod.splits)
qed

text \<open>\<open>config_int\<close> reads a decimal number exactly: for an optional minus sign and a digit string
  it returns the number when its magnitude is at most 2147483647 and the fallback otherwise, and
  whatever the setting's text, its result fits an \<open>int\<close> whenever the fallback does.\<close>

theorem config_int_exact:
  fixes neg :: bool
  assumes "ds \<noteq> []" "\<forall>c \<in> set ds. is_digit c"
    "config_str getenv es key [] = (if neg then ''-'' else []) @ ds"
    "- (2 ^ 31) \<le> fallback" "fallback < 2 ^ 31"
  shows "config_int getenv es key fallback =
      (if dec_val ds \<le> 2147483647 then (if neg then - int (dec_val ds) else int (dec_val ds)) else fallback) \<and>
    (\<forall>k. - (2 ^ 31) \<le> config_int getenv es k fallback \<and> config_int getenv es k fallback < 2 ^ 31)"
proof (intro conjI allI)
  show "config_int getenv es key fallback =
      (if dec_val ds \<le> 2147483647 then (if neg then - int (dec_val ds) else int (dec_val ds)) else fallback)"
    using assms(1,3) strtol10_digits [OF assms(1,2)]
    by (cases neg) (auto simp: config_int_def Let_def clamp_long_def)
  show "- (2 ^ 31) \<le> config_int getenv es k fallback" "config_int getenv es k fallback < 2 ^ 31" for k
    using assms(4,5) by (auto simp: config_int_def Let_def split: prod.splits)
qed

theorem config_int_exact_witness:
  "config_int (\<lambda>_. None) [\<lparr>e_key = ''port'', e_value = ''-80''\<rparr>] ''port'' 8080 = - 80"
  using config_int_exact [of "''80''" "\<lambda>_. None" "[\<lparr>e_key = ''port'', e_value = ''-80''\<rparr>]" "''port''" True 8080]
  by (simp add: is_digit_def byte_def config_str_def dec_val_def digit_val_def)

section \<open>The line limit\<close>

lemma config_lines_blank:
  assumes "lineno + n \<le> CONFIG_MAX_KEYS * 8"
  shows "config_lines lineno \<lparr>st_rest = replicate n LF @ r, st_fails = f, st_eof = e, st_error = x\<rparr> bad es =
    config_lines (lineno + n) \<lparr>st_rest = r, st_fails = f, st_eof = e, st_error = x\<rparr> bad es"
  using assms
proof (induction n arbitrary: lineno)
  case (Suc n)
  have "fgets CONFIG_LINE_MAX \<lparr>st_rest = LF # replicate n LF @ r, st_fails = f, st_eof = e, st_error = x\<rparr> =
      (Some [LF], \<lparr>st_rest = replicate n LF @ r, st_fails = f, st_eof = e, st_error = x\<rparr>)"
    using fgets_take_line [of "[]" 511 "replicate n LF @ r"] by (simp add: fgets_def Let_def del: fgets_take.simps)
  moreover have "config_line [LF] es = Some (False, es)" by code_simp
  ultimately show ?case using Suc by (subst config_lines.simps) simp
qed simp

text \<open>C36: The limit of 512 lines is enforced for a file whose next line ends with a newline, but
  not for a last line without one: \<open>fgets\<close> reads it before the limit is tested and reaches the
  end of the file, so the file loads successfully and the setting on that line is lost.\<close>

theorem config_load_drops_last_line:
  "config_load (\<lambda>_. None) (\<lambda>_. FOPEN_OK (replicate 512 LF @ ''a = b'') False True) path = (0, []) \<and>
   config_load (\<lambda>_. None) (\<lambda>_. FOPEN_OK (replicate 512 LF @ ''a = b'' @ [LF]) False True) path = (- 1, [])"
proof
  let ?st = "\<lambda>r. \<lparr>st_rest = r, st_fails = False, st_eof = False, st_error = False\<rparr>"
  have a: "config_lines 0 (?st (replicate 512 LF @ r)) 0 [] = config_lines 512 (?st r) 0 []" for r
    using config_lines_blank [of 0 512 r False False False 0 "[]"] by simp
  have "config_lines 512 (?st ''a = b'') 0 [] = (512, (?st [])\<lparr>st_eof := True\<rparr>, 0, [])" by code_simp
  then show "config_load (\<lambda>_. None) (\<lambda>_. FOPEN_OK (replicate 512 LF @ ''a = b'') False True) path = (0, [])"
    using a by (simp add: config_load_def Let_def)
  have "config_lines 512 (?st (''a = b'' @ [LF])) 0 [] = (512, ?st [], 0, [])" by code_simp
  then show "config_load (\<lambda>_. None) (\<lambda>_. FOPEN_OK (replicate 512 LF @ ''a = b'' @ [LF]) False True) path = (- 1, [])"
    using a by (simp add: config_load_def Let_def)
qed

end
