(* ===== verification/Route.thy ===== *)
theory Route
  imports Gargantua_Prelude "HOL-Library.Multiset"
begin

text \<open>
  The route table of \<open>src/http/route.c\<close>. A C string and an index into it are the suffix that starts
  there. \<open>RequestParams\<close> keeps the parts of its arrays below the counters, as lists. The table
  (\<open>route_table\<close>, generated from the application's annotations) is an argument. The specification
  works on lists of path segments; the choice among the routes that match is a refinement of
  ``the unique route with the fewest dynamic segments''.
\<close>

section \<open>The code\<close>

abbreviation ROUTE_MAX_URL :: nat where "ROUTE_MAX_URL \<equiv> 128"
abbreviation ROUTE_SEGMENT_MAX :: nat where "ROUTE_SEGMENT_MAX \<equiv> 66"
abbreviation PATH_PARAM_MAX :: nat where "PATH_PARAM_MAX \<equiv> 8"
abbreviation QUERY_PARAM_MAX :: nat where "QUERY_PARAM_MAX \<equiv> 12"
abbreviation PARAM_VALUE_LEN :: nat where "PARAM_VALUE_LEN \<equiv> 64"

record RequestParams =
  pr_path :: "string list"
  pr_query :: "(string \<times> string) list"
  pr_invalid :: bool

record 'h Route =
  r_method :: string
  r_url :: string
  r_content_type :: string
  r_status :: int
  r_handler :: "'h option"

definition next_segment :: "string \<Rightarrow> string \<times> string" where
  "next_segment s = (case split_at (\<lambda>c. c = CHR ''/'') s of
     (seg, None) \<Rightarrow> (seg, []) | (seg, Some r) \<Rightarrow> (seg, r))"

definition is_dynamic :: "string \<Rightarrow> bool" where
  "is_dynamic seg \<longleftrightarrow> length seg > 1 \<and> hd seg = CHR ''{'' \<and> last seg = CHR ''}''"

fun path_matches_loop :: "nat \<Rightarrow> string \<Rightarrow> string \<Rightarrow> RequestParams \<Rightarrow> int \<times> RequestParams" where
  "path_matches_loop 0 p u out = (0, out)"
| "path_matches_loop (Suc guard) p u out =
     (if p = [] \<and> u = [] then (1, out)
      else if p = [] \<or> u = [] then (0, out)
      else
        (case (next_segment p, next_segment u) of
           ((pseg, p'), (useg, u')) \<Rightarrow>
             if is_dynamic pseg then
               if length (pr_path out) \<ge> PATH_PARAM_MAX then (0, out)
               else if useg = [] then (0, out)
               else if length useg \<ge> PARAM_VALUE_LEN then (- 1, out\<lparr>pr_invalid := True\<rparr>)
               else path_matches_loop guard p' u' (out\<lparr>pr_path := pr_path out @ [useg]\<rparr>)
             else if length pseg \<noteq> length useg then (0, out)
             else if pseg \<noteq> useg then (0, out)
             else path_matches_loop guard p' u' out))"

definition path_matches :: "string \<Rightarrow> string \<Rightarrow> RequestParams \<Rightarrow> int \<times> RequestParams" where
  "path_matches pattern url out = path_matches_loop ROUTE_SEGMENT_MAX pattern url (out\<lparr>pr_path := []\<rparr>)"

definition dynamic_segment_count :: "string \<Rightarrow> nat" where
  "dynamic_segment_count pattern = length (filter (\<lambda>c. c = CHR ''{'') (take ROUTE_MAX_URL pattern))"

definition params_reset :: "RequestParams \<Rightarrow> RequestParams" where
  "params_reset p = p\<lparr>pr_path := [], pr_query := [], pr_invalid := False\<rparr>"

definition params_copy :: "RequestParams \<Rightarrow> RequestParams \<Rightarrow> RequestParams" where
  "params_copy dst src = dst\<lparr>pr_path := pr_path src, pr_query := pr_query src, pr_invalid := pr_invalid src\<rparr>"

text \<open>The local variables of \<open>route_find_exact\<close>, and one iteration of its loop.\<close>

record 'h FindState =
  fs_best :: "'h Route option"
  fs_best_params :: RequestParams
  fs_best_dynamic :: nat
  fs_ambiguous :: bool
  fs_saw_invalid :: bool

definition no_params :: RequestParams where
  "no_params = \<lparr>pr_path = [], pr_query = [], pr_invalid = False\<rparr>"

definition find_start :: "'h FindState" where
  "find_start = \<lparr>fs_best = None, fs_best_params = no_params, fs_best_dynamic = INT_MAX,
     fs_ambiguous = False, fs_saw_invalid = False\<rparr>"

definition find_step :: "string \<Rightarrow> string \<Rightarrow> 'h FindState \<Rightarrow> 'h Route \<Rightarrow> 'h FindState" where
  "find_step meth url st r =
     (if r_handler r = None then st
      else if r_method r \<noteq> meth then st
      else
        (case path_matches (r_url r) url no_params of
           (matched, candidate) \<Rightarrow>
             let st1 =
               (if matched = 1 then
                  let dynamic = dynamic_segment_count (r_url r) in
                  if dynamic < fs_best_dynamic st then
                    st\<lparr>fs_best := Some r, fs_best_params := params_copy (fs_best_params st) candidate,
                       fs_best_dynamic := dynamic, fs_ambiguous := False\<rparr>
                  else if dynamic = fs_best_dynamic st then st\<lparr>fs_ambiguous := True\<rparr>
                  else st
                else st)
             in if matched < 0 then st1\<lparr>fs_saw_invalid := True\<rparr> else st1))"

definition route_find_exact ::
  "'h Route list \<Rightarrow> string \<Rightarrow> string \<Rightarrow> RequestParams \<Rightarrow> 'h Route option \<times> RequestParams" where
  "route_find_exact table meth url out =
     (let st = foldl (find_step meth url) find_start table in
      if fs_best st \<noteq> None \<and> \<not> fs_ambiguous st then (fs_best st, params_copy out (fs_best_params st))
      else (None, (params_reset out)\<lparr>pr_invalid := fs_saw_invalid st \<or> fs_ambiguous st\<rparr>))"

definition route_find ::
  "'h Route list \<Rightarrow> string \<Rightarrow> string \<Rightarrow> RequestParams \<Rightarrow> 'h Route option \<times> RequestParams" where
  "route_find table meth url out =
     (case route_find_exact table meth url out of
        (route, out1) \<Rightarrow>
          if route = None \<and> \<not> pr_invalid out1 \<and> meth = ''HEAD'' then route_find_exact table ''GET'' url out1
          else (route, out1))"

definition allow_methods :: "string list" where
  "allow_methods = [''GET'', ''HEAD'', ''POST'', ''PUT'', ''PATCH'', ''DELETE'', ''OPTIONS'']"

text \<open>The loop of \<open>route_allow\<close>; the text is what \<open>out\<close> holds up to \<open>at\<close>.\<close>

fun allow_loop :: "'h Route list \<Rightarrow> string \<Rightarrow> nat \<Rightarrow> string list \<Rightarrow> string \<Rightarrow> bool \<Rightarrow> bool \<Rightarrow> int \<times> string" where
  "allow_loop table url cap [] out found invalid = (if found then 1 else if invalid then - 1 else 0, out)"
| "allow_loop table url cap (m # ms) out found invalid =
     (case route_find table m url no_params of
        (route, params) \<Rightarrow>
          let invalid' = (if route = None then invalid \<or> pr_invalid params else invalid);
              options = (m = ''OPTIONS'') in
          if route = None \<and> \<not> (options \<and> found) then allow_loop table url cap ms out found invalid'
          else
            let separator = (if length out > 0 then '', '' else []) in
            if length out + length separator + length m \<ge> cap then (- 1, [])
            else allow_loop table url cap ms (out @ separator @ m) True invalid')"

definition route_allow :: "'h Route list \<Rightarrow> string \<Rightarrow> nat \<Rightarrow> int \<times> string" where
  "route_allow table url cap =
     (if cap = 0 then (- 1, []) else allow_loop table url cap allow_methods [] False False)"

section \<open>Segments\<close>

lemma next_segment_shorter: "s \<noteq> [] \<Longrightarrow> length (snd (next_segment s)) < length s"
  using split_at_shorter [of "\<lambda>c. c = CHR ''/''" s]
  by (auto simp: next_segment_def split: prod.splits option.splits)

function segments :: "string \<Rightarrow> string list" where
  "segments s = (if s = [] then [] else fst (next_segment s) # segments (snd (next_segment s)))"
  by pat_completeness auto
termination
  by (relation "measure length") (auto intro: next_segment_shorter)

declare segments.simps [simp del]

lemma segments_Nil [simp]: "segments [] = []"
  by (simp add: segments.simps)

lemma segments_eq_Nil [simp]: "segments s = [] \<longleftrightarrow> s = []"
  by (subst segments.simps) simp

lemma segments_Cons: "s \<noteq> [] \<Longrightarrow> next_segment s = (seg, r) \<Longrightarrow> segments s = seg # segments r"
  by (subst segments.simps) simp

text \<open>When a path fits a pattern, segment by segment, and the values of the dynamic segments.\<close>

definition segment_fits :: "string \<Rightarrow> string \<Rightarrow> bool" where
  "segment_fits p u \<longleftrightarrow> (if is_dynamic p then u \<noteq> [] \<and> length u < PARAM_VALUE_LEN else p = u)"

definition path_values :: "string list \<Rightarrow> string list \<Rightarrow> string list" where
  "path_values ps us = map snd (filter (\<lambda>(p, u). is_dynamic p) (zip ps us))"

definition path_fits :: "string \<Rightarrow> string \<Rightarrow> bool" where
  "path_fits pattern url \<longleftrightarrow> list_all2 segment_fits (segments pattern) (segments url) \<and>
     length (segments pattern) < ROUTE_SEGMENT_MAX \<and>
     length (filter is_dynamic (segments pattern)) \<le> PATH_PARAM_MAX"

lemma path_values_Cons [simp]:
  "path_values (p # ps) (u # us) = (if is_dynamic p then u # path_values ps us else path_values ps us)"
  by (simp add: path_values_def)

lemma path_values_Nil [simp]: "path_values [] us = []"
  by (simp add: path_values_def)

lemma path_matches_loop_spec:
  "(fst (path_matches_loop guard p u out) = 1 \<longleftrightarrow>
      list_all2 segment_fits (segments p) (segments u) \<and> length (segments p) < guard \<and>
      length (pr_path out) + length (filter is_dynamic (segments p)) \<le> max PATH_PARAM_MAX (length (pr_path out))) \<and>
   (fst (path_matches_loop guard p u out) = 1 \<longrightarrow>
      snd (path_matches_loop guard p u out) =
        out\<lparr>pr_path := pr_path out @ path_values (segments p) (segments u)\<rparr>)"
proof (induction guard p u out rule: path_matches_loop.induct)
  case (2 guard p u out)
  show ?case
  proof (cases "p = [] \<or> u = []")
    case True
    then show ?thesis by (cases "p = []"; cases "u = []") (auto dest: list_all2_lengthD)
  next
    case False
    obtain pseg p' useg u' where n: "next_segment p = (pseg, p')" "next_segment u = (useg, u')"
      by fastforce
    have ne: "\<not> (p = [] \<and> u = [])" "\<not> (p = [] \<or> u = [])" using False by auto
    have segs: "segments p = pseg # segments p'" "segments u = useg # segments u'"
      using False n segments_Cons by auto
    note IH1 = "2.IH"(1) [OF ne refl n(1) [symmetric] n(2) [symmetric]]
    note IH2 = "2.IH"(2) [OF ne refl n(1) [symmetric] n(2) [symmetric]]
    have fits: "segment_fits pseg useg = (if is_dynamic pseg then useg \<noteq> [] \<and> length useg < PARAM_VALUE_LEN
        else pseg = useg)"
      by (rule segment_fits_def)
    show ?thesis
    proof (cases "is_dynamic pseg")
      case dyn: True
      show ?thesis
      proof (cases "length (pr_path out) < PATH_PARAM_MAX \<and> useg \<noteq> [] \<and> length useg < PARAM_VALUE_LEN")
        case True
        then have "max PATH_PARAM_MAX (length (pr_path out)) = PATH_PARAM_MAX"
            "max PATH_PARAM_MAX (Suc (length (pr_path out))) = PATH_PARAM_MAX" by auto
        then show ?thesis using True IH1 dyn ne False by (simp add: segs n fits)
      next
        case bad: False
        then show ?thesis using dyn False by (auto simp: segs n fits max_def)
      qed
    next
      case stat: False
      then show ?thesis
        using IH2 False fits by (cases "pseg = useg") (auto simp: segs n)
    qed
  qed
qed auto

lemma path_matches_spec:
  "fst (path_matches pattern url out) = 1 \<longleftrightarrow> path_fits pattern url"
  "path_fits pattern url \<Longrightarrow> snd (path_matches pattern url out) =
     out\<lparr>pr_path := path_values (segments pattern) (segments url)\<rparr>"
  using path_matches_loop_spec [of ROUTE_SEGMENT_MAX pattern url "out\<lparr>pr_path := []\<rparr>"]
  by (auto simp: path_matches_def path_fits_def)

lemma path_values_length:
  "list_all2 segment_fits ps us \<Longrightarrow>
     length (path_values ps us) = length (filter is_dynamic ps) \<and>
     (\<forall>v \<in> set (path_values ps us). v \<noteq> [] \<and> length v < PARAM_VALUE_LEN)"
  by (induction ps us rule: list_all2_induct) (auto simp: segment_fits_def)

text \<open>The matcher decides exactly the segment-wise specification: it reports a match when path
  and pattern have the same number of segments (at most 65), every literal segment is equal,
  every \<open>{name}\<close> segment stands for a non-empty segment shorter than 64 bytes and there are at
  most 8 of them; it then records precisely those segments, in order, all within their arrays.\<close>

theorem path_matches_correct:
  "(fst (path_matches pattern url out) = 1) = path_fits pattern url \<and>
   (path_fits pattern url \<longrightarrow>
      snd (path_matches pattern url out) = out\<lparr>pr_path := path_values (segments pattern) (segments url)\<rparr> \<and>
      length (path_values (segments pattern) (segments url)) \<le> PATH_PARAM_MAX \<and>
      (\<forall>v \<in> set (path_values (segments pattern) (segments url)). v \<noteq> [] \<and> length v < PARAM_VALUE_LEN))"
  using path_matches_spec [of pattern url out] path_values_length [of "segments pattern" "segments url"]
  unfolding path_fits_def by simp

theorem path_matches_correct_witness:
  "path_matches ''/user/{id}'' ''/user/42'' no_params = (1, no_params\<lparr>pr_path := [''42'']\<rparr>)"
proof -
  have "path_fits ''/user/{id}'' ''/user/42''" by code_simp
  moreover have "path_values (segments ''/user/{id}'') (segments ''/user/42'') = [''42'']" by code_simp
  ultimately show ?thesis
    using path_matches_correct [of "''/user/{id}''" "''/user/42''" no_params] by (metis prod.collapse)
qed

section \<open>Choosing a route\<close>

definition eligible :: "string \<Rightarrow> 'h Route \<Rightarrow> bool" where
  "eligible meth r \<longleftrightarrow> r_handler r \<noteq> None \<and> r_method r = meth"

definition candidates :: "string \<Rightarrow> string \<Rightarrow> 'h Route list \<Rightarrow> 'h Route list" where
  "candidates meth url table = filter (\<lambda>r. eligible meth r \<and> path_fits (r_url r) url) table"

definition specificity :: "'h Route \<Rightarrow> nat" where
  "specificity r = dynamic_segment_count (r_url r)"

definition least_dynamic :: "'h Route list \<Rightarrow> 'h Route list" where
  "least_dynamic cs = filter (\<lambda>r. list_all (\<lambda>c. specificity r \<le> specificity c) cs) cs"

definition route_spec :: "'h Route list \<Rightarrow> string \<Rightarrow> string \<Rightarrow> 'h Route option" where
  "route_spec table meth url = (case least_dynamic (candidates meth url table) of [r] \<Rightarrow> Some r | _ \<Rightarrow> None)"

lemma specificity_bound: "specificity r < INT_MAX"
proof -
  have "specificity r \<le> length (take ROUTE_MAX_URL (r_url r))"
    unfolding specificity_def dynamic_segment_count_def by (rule length_filter_le)
  then show ?thesis by simp
qed

definition find_inv :: "string \<Rightarrow> string \<Rightarrow> 'h Route list \<Rightarrow> 'h FindState \<Rightarrow> bool" where
  "find_inv meth url table st \<longleftrightarrow>
     (case least_dynamic (candidates meth url table) of
        [] \<Rightarrow> fs_best st = None \<and> fs_best_dynamic st = INT_MAX \<and> \<not> fs_ambiguous st
      | r # rs \<Rightarrow> fs_best st = Some r \<and> fs_best_dynamic st = specificity r \<and> (fs_ambiguous st \<longleftrightarrow> rs \<noteq> []) \<and>
          fs_best_params st = snd (path_matches (r_url r) url no_params)) \<and>
     (fs_saw_invalid st \<longleftrightarrow> (\<exists>r \<in> set table. eligible meth r \<and> fst (path_matches (r_url r) url no_params) < 0))"

lemma least_dynamic_snoc:
  "least_dynamic (cs @ [r]) =
     (case least_dynamic cs of
        [] \<Rightarrow> if cs = [] then [r] else least_dynamic (cs @ [r])
      | b # bs \<Rightarrow> if specificity r < specificity b then [r]
                  else if specificity r = specificity b then b # bs @ [r] else b # bs)"
proof (cases "least_dynamic cs")
  case Nil
  then show ?thesis by (auto simp: least_dynamic_def)
next
  case (Cons b bs)
  then have b: "b \<in> set cs" "\<forall>c \<in> set cs. specificity b \<le> specificity c"
    by (auto simp: least_dynamic_def list_all_iff filter_eq_Cons_iff)
  have min: "list_all (\<lambda>c. specificity x \<le> specificity c) cs \<longleftrightarrow> specificity x \<le> specificity b" for x :: "'a Route"
    using b by (auto simp: list_all_iff intro: order_trans)
  have ld: "least_dynamic cs = filter (\<lambda>x. specificity x \<le> specificity b) cs"
    unfolding least_dynamic_def min ..
  have ld': "least_dynamic (cs @ [r]) =
      filter (\<lambda>x. specificity x \<le> specificity b \<and> specificity x \<le> specificity r) (cs @ [r])"
    by (simp add: least_dynamic_def min)
  consider "specificity r < specificity b" | "specificity r = specificity b" | "specificity r > specificity b"
    by linarith
  then show ?thesis
  proof cases
    case 1
    then have "filter (\<lambda>x. specificity x \<le> specificity b \<and> specificity x \<le> specificity r) cs = []"
      using b(2) by (force simp: filter_empty_conv)
    then show ?thesis using 1 Cons ld' by simp
  next
    case 2
    then show ?thesis using Cons ld ld' by simp
  next
    case 3
    then have "specificity x \<le> specificity b \<and> specificity x \<le> specificity r \<longleftrightarrow> specificity x \<le> specificity b" for x :: "'a Route"
      by auto
    then show ?thesis using 3 Cons ld ld' by simp
  qed
qed

lemma least_dynamic_Nil: "least_dynamic cs = [] \<longleftrightarrow> cs = []"
proof (induction cs rule: rev_induct)
  case (snoc r cs)
  show ?case
  proof (cases "cs = []")
    case True
    then show ?thesis by (simp add: least_dynamic_def)
  next
    case False
    then obtain b bs where "least_dynamic cs = b # bs" using snoc by (cases "least_dynamic cs") auto
    then show ?thesis using least_dynamic_snoc [of cs r] by simp
  qed
qed (simp add: least_dynamic_def)

lemma candidates_snoc:
  "candidates meth url (table @ [r]) =
     (if eligible meth r \<and> path_fits (r_url r) url then candidates meth url table @ [r] else candidates meth url table)"
  by (simp add: candidates_def)

lemma params_copy_all [simp]: "params_copy d p = p"
  by (simp add: params_copy_def)

lemma find_step_skip: "\<not> eligible meth r \<Longrightarrow> find_step meth url st r = st"
  by (auto simp: find_step_def eligible_def)

lemma find_inv_step:
  assumes "find_inv meth url table st"
  shows "find_inv meth url (table @ [r]) (find_step meth url st r)"
proof (cases "eligible meth r")
  case False
  then show ?thesis using assms by (auto simp: find_step_skip find_inv_def candidates_snoc)
next
  case el: True
  obtain m cand where pm: "path_matches (r_url r) url no_params = (m, cand)" by fastforce
  have fits: "path_fits (r_url r) url \<longleftrightarrow> m = 1" using path_matches_spec(1) [of "r_url r" url no_params] pm by simp
  let ?cs = "candidates meth url table"
  have inv: "fs_saw_invalid (find_step meth url st r) \<longleftrightarrow>
      (\<exists>r \<in> set (table @ [r]). eligible meth r \<and> fst (path_matches (r_url r) url no_params) < 0)"
    using assms el pm by (auto simp: find_inv_def find_step_def eligible_def Let_def)
  show ?thesis
  proof (cases "m = 1")
    case False
    then show ?thesis using assms inv el fits pm
      by (auto simp: find_inv_def candidates_snoc find_step_def eligible_def Let_def split: list.splits)
  next
    case True
    have cs: "candidates meth url (table @ [r]) = ?cs @ [r]" using el fits True by (simp add: candidates_snoc)
    show ?thesis
    proof (cases "?cs = []")
      case cs0: True
      then have "fs_best_dynamic st = INT_MAX" using assms by (simp add: find_inv_def least_dynamic_def)
      then show ?thesis
        using inv el pm True cs cs0 specificity_bound [of r]
        by (auto simp: find_inv_def least_dynamic_def find_step_def eligible_def Let_def specificity_def)
    next
      case False
      then obtain b bs where b: "least_dynamic ?cs = b # bs"
        using least_dynamic_Nil [of ?cs] by (cases "least_dynamic ?cs") auto
      have st: "fs_best st = Some b" "fs_best_dynamic st = specificity b" "fs_ambiguous st \<longleftrightarrow> bs \<noteq> []"
          "fs_best_params st = snd (path_matches (r_url b) url no_params)"
        using assms b by (auto simp: find_inv_def)
      have "least_dynamic (?cs @ [r]) = (if specificity r < specificity b then [r]
          else if specificity r = specificity b then b # bs @ [r] else b # bs)"
        using least_dynamic_snoc [of ?cs r] b by simp
      then show ?thesis
        using inv el pm True cs st
        by (auto simp: find_inv_def find_step_def eligible_def Let_def specificity_def)
    qed
  qed
qed

lemma find_inv_fold: "find_inv meth url table (foldl (find_step meth url) find_start table)"
proof (induction table rule: rev_induct)
  case Nil
  then show ?case by (simp add: find_inv_def candidates_def least_dynamic_def find_start_def)
next
  case (snoc r table)
  then show ?case using find_inv_step by simp
qed

text \<open>Every route the code reports as over-long or ambiguous.\<close>

definition bad_request :: "'h Route list \<Rightarrow> string \<Rightarrow> string \<Rightarrow> bool" where
  "bad_request table meth url \<longleftrightarrow> length (least_dynamic (candidates meth url table)) > 1 \<or>
     (\<exists>r \<in> set table. eligible meth r \<and> fst (path_matches (r_url r) url no_params) < 0)"

lemma route_find_exact_spec:
  "route_find_exact table meth url out =
     (case route_spec table meth url of
        Some r \<Rightarrow> (Some r, no_params\<lparr>pr_path := path_values (segments (r_url r)) (segments url)\<rparr>)
      | None \<Rightarrow> (None, no_params\<lparr>pr_invalid := bad_request table meth url\<rparr>))"
proof -
  let ?st = "foldl (find_step meth url) find_start table" and ?l = "least_dynamic (candidates meth url table)"
  have inv: "find_inv meth url table ?st" by (rule find_inv_fold)
  show ?thesis
  proof (cases ?l)
    case Nil
    then show ?thesis
      using inv by (auto simp: find_inv_def route_find_exact_def Let_def route_spec_def bad_request_def
          params_reset_def no_params_def)
  next
    case (Cons r rs)
    have "r \<in> set ?l" using Cons by simp
    then have "path_fits (r_url r) url" by (auto simp: least_dynamic_def candidates_def)
    note pm = path_matches_spec(2) [OF this, of no_params]
    show ?thesis
      using inv Cons pm
      by (cases rs) (auto simp: find_inv_def route_find_exact_def Let_def route_spec_def bad_request_def
          params_reset_def no_params_def)
  qed
qed

definition route_find_spec :: "'h Route list \<Rightarrow> string \<Rightarrow> string \<Rightarrow> 'h Route option \<times> RequestParams" where
  "route_find_spec table meth url =
     (let m = (if meth = ''HEAD'' \<and> route_spec table meth url = None \<and> \<not> bad_request table meth url
               then ''GET'' else meth)
      in case route_spec table m url of
           Some r \<Rightarrow> (Some r, no_params\<lparr>pr_path := path_values (segments (r_url r)) (segments url)\<rparr>)
         | None \<Rightarrow> (None, no_params\<lparr>pr_invalid := bad_request table m url\<rparr>))"

lemma route_find_refines: "route_find table meth url out = route_find_spec table meth url"
  by (auto simp: route_find_def route_find_spec_def route_find_exact_spec Let_def no_params_def split: option.splits)

lemma route_spec_Some:
  assumes "route_spec table meth url = Some r"
  shows "r \<in> set table" "eligible meth r" "path_fits (r_url r) url"
    "\<forall>c \<in> set table. eligible meth c \<and> path_fits (r_url c) url \<longrightarrow>
       specificity r < specificity c \<or> c = r"
proof -
  have l: "least_dynamic (candidates meth url table) = [r]"
    using assms by (auto simp: route_spec_def split: list.splits)
  then have "r \<in> set (least_dynamic (candidates meth url table))" by simp
  then show r: "r \<in> set table" "eligible meth r" "path_fits (r_url r) url"
    by (auto simp: least_dynamic_def candidates_def)
  have "\<forall>c \<in> set (candidates meth url table). specificity r \<le> specificity c"
    using \<open>r \<in> set (least_dynamic _)\<close> by (simp add: least_dynamic_def list_all_iff)
  moreover have "c = r" if "c \<in> set (candidates meth url table)" "specificity c = specificity r" for c
  proof -
    have "c \<in> set (least_dynamic (candidates meth url table))"
      using that calculation by (simp add: least_dynamic_def list_all_iff)
    then show ?thesis using l by simp
  qed
  ultimately show "\<forall>c \<in> set table. eligible meth c \<and> path_fits (r_url c) url \<longrightarrow>
       specificity r < specificity c \<or> c = r"
    by (force simp: candidates_def)
qed



section \<open>Order of the table\<close>

lemma least_dynamic_mset:
  assumes "mset cs = mset ds"
  shows "mset (least_dynamic cs) = mset (least_dynamic ds)"
proof -
  have "set cs = set ds" using assms by (rule mset_eq_setD)
  then show ?thesis using assms unfolding least_dynamic_def list_all_iff by (simp add: mset_filter)
qed

lemma route_spec_mset:
  assumes "mset table = mset table'"
  shows "route_spec table meth url = route_spec table' meth url" "bad_request table meth url = bad_request table' meth url"
proof -
  have "mset (candidates meth url table) = mset (candidates meth url table')"
    using assms by (simp add: candidates_def)
  then have m: "mset (least_dynamic (candidates meth url table)) = mset (least_dynamic (candidates meth url table'))"
    by (rule least_dynamic_mset)
  then have len: "length (least_dynamic (candidates meth url table)) = length (least_dynamic (candidates meth url table'))"
    by (rule mset_eq_length)
  show "route_spec table meth url = route_spec table' meth url"
    using m len by (auto simp: route_spec_def split: list.splits)
  show "bad_request table meth url = bad_request table' meth url"
    using len mset_eq_setD [OF assms] by (simp add: bad_request_def)
qed

text \<open>The order in which the generated table lists the routes is irrelevant: every permutation
  of the table gives the same route, values and validity flag for every request.\<close>

theorem route_find_order_irrelevant:
  assumes "mset table = mset table'"
  shows "route_find table meth url out = route_find table' meth url out"
  unfolding route_find_refines route_find_spec_def
  by (auto simp: Let_def route_spec_mset [OF assms] split: option.splits)

theorem route_find_order_irrelevant_witness:
  "route_find [\<lparr>r_method = ''GET'', r_url = ''/a'', r_content_type = [], r_status = 200, r_handler = Some (1::nat)\<rparr>,
       \<lparr>r_method = ''GET'', r_url = ''/{x}'', r_content_type = [], r_status = 200, r_handler = Some 2\<rparr>] ''GET'' ''/a'' no_params =
   route_find [\<lparr>r_method = ''GET'', r_url = ''/{x}'', r_content_type = [], r_status = 200, r_handler = Some 2\<rparr>,
       \<lparr>r_method = ''GET'', r_url = ''/a'', r_content_type = [], r_status = 200, r_handler = Some 1\<rparr>] ''GET'' ''/a'' no_params"
  by (rule route_find_order_irrelevant) simp

section \<open>The Allow header\<close>

fun join_comma :: "string list \<Rightarrow> string" where
  "join_comma [] = []"
| "join_comma [m] = m"
| "join_comma (m # ms) = m @ '', '' @ join_comma ms"

lemma join_comma_snoc: "join_comma (ms @ [m]) = (if ms = [] then m else join_comma ms @ '', '' @ m)"
  by (induction ms rule: join_comma.induct) auto

lemma join_comma_eq_Nil: "[] \<notin> set ms \<Longrightarrow> join_comma ms = [] \<longleftrightarrow> ms = []"
  by (cases ms rule: join_comma.cases) auto

definition has_route :: "'h Route list \<Rightarrow> string \<Rightarrow> string \<Rightarrow> bool" where
  "has_route table url m \<longleftrightarrow> fst (route_find table m url no_params) \<noteq> None"

definition allowed :: "'h Route list \<Rightarrow> string \<Rightarrow> string list" where
  "allowed table url =
     (let ms = filter (has_route table url) [''GET'', ''HEAD'', ''POST'', ''PUT'', ''PATCH'', ''DELETE'']
      in if ms \<noteq> [] \<or> has_route table url ''OPTIONS'' then ms @ [''OPTIONS''] else [])"

lemma length_join_comma: "length (join_comma ms) = sum_list (map (\<lambda>m. length m + 2) ms) - 2"
  by (induction ms rule: join_comma.induct) auto

lemma allow_loop_methods:
  assumes "''OPTIONS'' \<notin> set ms" "[] \<notin> set (acc @ ms)" "length (join_comma (acc @ ms)) < cap"
  shows "allow_loop table url cap (ms @ rest) (join_comma acc) (acc \<noteq> []) bad =
    allow_loop table url cap rest (join_comma (acc @ filter (has_route table url) ms))
      (acc @ filter (has_route table url) ms \<noteq> [])
      (bad \<or> (\<exists>m \<in> set ms. \<not> has_route table url m \<and> pr_invalid (snd (route_find table m url no_params))))"
  using assms
proof (induction ms arbitrary: acc bad)
  case (Cons m ms)
  obtain route ps where rf: "route_find table m url no_params = (route, ps)" by fastforce
  show ?case
  proof (cases "has_route table url m")
    case False
    have "m \<noteq> ''OPTIONS''" using Cons.prems(1) by auto
    have "route = None" using rf False by (simp add: has_route_def)
    then have step: "allow_loop table url cap (m # ms @ rest) (join_comma acc) (acc \<noteq> []) bad =
        allow_loop table url cap (ms @ rest) (join_comma acc) (acc \<noteq> []) (bad \<or> pr_invalid ps)"
      using rf \<open>m \<noteq> ''OPTIONS''\<close> by (simp add: Let_def)
    have "length (join_comma (acc @ ms)) < cap" using Cons.prems(3) by (simp add: length_join_comma)
    then show ?thesis using Cons.IH [of acc "bad \<or> pr_invalid ps"] Cons.prems rf False
      unfolding append_Cons step by (simp add: disj_assoc)
  next
    case True
    then have "route \<noteq> None" using rf by (simp add: has_route_def)
    moreover have "length (join_comma (acc @ [m])) < cap" using Cons.prems(3) by (simp add: length_join_comma)
    ultimately have step: "allow_loop table url cap (m # ms @ rest) (join_comma acc) (acc \<noteq> []) bad =
        allow_loop table url cap (ms @ rest) (join_comma (acc @ [m])) True bad"
      using rf Cons.prems(2) join_comma_eq_Nil [of acc]
      by (simp add: Let_def join_comma_snoc split: if_splits)
    show ?thesis
      using Cons.IH [of "acc @ [m]" bad] Cons.prems True unfolding append_Cons step by simp
  qed
qed simp

lemma allow_loop_last:
  assumes "length (join_comma (F @ [''OPTIONS''])) < cap" "[] \<notin> set F"
  shows "allow_loop table url cap [''OPTIONS''] (join_comma F) (F \<noteq> []) bad =
    (if F \<noteq> [] \<or> has_route table url ''OPTIONS'' then (1, join_comma (F @ [''OPTIONS'']))
     else (if bad \<or> pr_invalid (snd (route_find table ''OPTIONS'' url no_params)) then - 1 else 0, []))"
proof -
  obtain route ps where "route_find table ''OPTIONS'' url no_params = (route, ps)" by fastforce
  then show ?thesis
    using assms join_comma_eq_Nil [OF assms(2)]
    by (cases "F = []"; cases route) (auto simp: Let_def has_route_def join_comma_snoc)
qed

text \<open>The \<open>Allow\<close> value lists exactly the methods that have a route for the path, in a fixed
  order and separated by commas, with \<open>OPTIONS\<close> added as soon as one is found; a buffer of 45
  bytes is always enough. Without any method the result tells a bad path from an unknown one.\<close>

theorem route_allow_correct:
  assumes "cap \<ge> 45"
  shows "route_allow table url cap =
    (if allowed table url \<noteq> [] then (1, join_comma (allowed table url))
     else (if \<exists>m \<in> set allow_methods. pr_invalid (snd (route_find table m url no_params)) then - 1 else 0, []))"
proof -
  let ?ms = "[''GET'', ''HEAD'', ''POST'', ''PUT'', ''PATCH'', ''DELETE'']"
  let ?f = "filter (has_route table url) ?ms"
  let ?bad = "\<lambda>m. pr_invalid (snd (route_find table m url no_params))"
  have "allow_methods = ?ms @ [''OPTIONS'']" by (simp add: allow_methods_def)
  moreover have "length (join_comma ([] @ ?ms)) < cap" using assms by simp
  ultimately have "route_allow table url cap = allow_loop table url cap [''OPTIONS''] (join_comma ?f) (?f \<noteq> [])
      (\<exists>m \<in> set ?ms. \<not> has_route table url m \<and> ?bad m)"
    using assms allow_loop_methods [of ?ms "[]" cap table url "[''OPTIONS'']" False]
    by (simp add: route_allow_def)
  also have "\<dots> = (if ?f \<noteq> [] \<or> has_route table url ''OPTIONS'' then (1, join_comma (?f @ [''OPTIONS'']))
     else (if (\<exists>m \<in> set ?ms. \<not> has_route table url m \<and> ?bad m) \<or> ?bad ''OPTIONS'' then - 1 else 0, []))"
  proof (rule allow_loop_last)
    have "sum_list (map (\<lambda>m. length m + 2) ?f) \<le> sum_list (map (\<lambda>m. length m + 2) ?ms)"
      by (rule sum_list_filter_le_nat)
    then show "length (join_comma (?f @ [''OPTIONS''])) < cap" using assms by (simp add: length_join_comma)
  qed auto
  also have "\<dots> = (if allowed table url \<noteq> [] then (1, join_comma (allowed table url))
     else (if \<exists>m \<in> set allow_methods. ?bad m then - 1 else 0, []))"
  proof (cases "?f \<noteq> [] \<or> has_route table url ''OPTIONS''")
    case True
    then show ?thesis unfolding allowed_def Let_def by (simp only: if_True append_is_Nil_conv list.simps simp_thms)
  next
    case False
    then have "\<forall>m \<in> set ?ms. \<not> has_route table url m" by (metis filter_empty_conv)
    then have "(\<exists>m \<in> set allow_methods. ?bad m) \<longleftrightarrow>
        (\<exists>m \<in> set ?ms. \<not> has_route table url m \<and> ?bad m) \<or> ?bad ''OPTIONS''"
      by (simp add: allow_methods_def)
    then show ?thesis using False unfolding allowed_def Let_def by (simp only: if_False simp_thms)
  qed
  finally show ?thesis .
qed

theorem route_allow_correct_witness:
  "route_allow [\<lparr>r_method = ''GET'', r_url = ''/a'', r_content_type = [], r_status = 200, r_handler = Some (1::nat)\<rparr>]
     ''/a'' 2048 = (1, ''GET, HEAD, OPTIONS'')"
proof -
  let ?t = "[\<lparr>r_method = ''GET'', r_url = ''/a'', r_content_type = [], r_status = 200, r_handler = Some (1::nat)\<rparr>]"
  have fits: "path_fits ''/a'' ''/a''" by code_simp
  have "allowed ?t ''/a'' = [''GET'', ''HEAD'', ''OPTIONS'']"
    by (simp add: allowed_def has_route_def route_find_refines route_find_spec_def route_spec_def
        bad_request_def candidates_def eligible_def least_dynamic_def fits Let_def)
  then show ?thesis using route_allow_correct [of 2048 ?t "''/a''"] by simp
qed

end
