(* ===== verification/Response.thy ===== *)
theory Response
  imports Http
begin

text \<open>
  The response headers of \<open>src/http/response.c\<close>: the thread-local \<open>headers\<close> array with
  \<open>header_count\<close> is a list, \<open>status_override\<close> a field of the same record. A C string argument is
  the list of its bytes before the terminator, \<open>None\<close> the null pointer; a function that returns
  -1 leaves the state unchanged.
\<close>

section \<open>The code\<close>

abbreviation RESPONSE_MAX_HEADERS :: nat where "RESPONSE_MAX_HEADERS \<equiv> 16"
abbreviation RESPONSE_NAME_CAP :: nat where "RESPONSE_NAME_CAP \<equiv> 64"
abbreviation RESPONSE_VALUE_CAP :: nat where "RESPONSE_VALUE_CAP \<equiv> 1024"
abbreviation RESPONSE_WIRE_CAP :: nat where
  "RESPONSE_WIRE_CAP \<equiv> RESPONSE_MAX_HEADERS * (RESPONSE_NAME_CAP + RESPONSE_VALUE_CAP + 4)"

record ResponseHeader =
  rh_name :: string
  rh_value :: string

record Response =
  rs_headers :: "ResponseHeader list"
  rs_status :: int

definition response_token :: "string option \<Rightarrow> bool" where
  "response_token text = (case text of None \<Rightarrow> False
     | Some t \<Rightarrow> t \<noteq> [] \<and> list_all (\<lambda>c. is_lower c \<or> is_upper c \<or> is_digit c \<or> strchr_found token_punct c) t)"

definition response_value :: "string option \<Rightarrow> bool" where
  "response_value text = (case text of None \<Rightarrow> False
     | Some t \<Rightarrow> list_all (\<lambda>c. \<not> (byte c = 127 \<or> byte c < 32 \<and> c \<noteq> TAB)) t)"

definition reserved_names :: "string list" where
  "reserved_names = [''Content-Length'', ''Transfer-Encoding'', ''Connection'', ''Trailer'', ''TE'', ''Upgrade'',
     ''Keep-Alive'', ''Content-Type'', ''Allow'', ''Vary'', ''X-Content-Type-Options'', ''Referrer-Policy'',
     ''Content-Security-Policy'', ''Strict-Transport-Security'', ''X-Frame-Options'', ''X-XSS-Protection'',
     ''Content-Security-Policy-Report-Only'', ''Permissions-Policy'', ''Cross-Origin-Resource-Policy'',
     ''Cross-Origin-Opener-Policy'', ''Cross-Origin-Embedder-Policy'', ''Proxy-Authenticate'',
     ''Proxy-Authorization'']"

definition is_reserved_header :: "string \<Rightarrow> bool" where
  "is_reserved_header name \<longleftrightarrow> ci_eq (take 15 name) ''Access-Control-'' \<or> list_ex (ci_eq name) reserved_names"

fun header_index :: "ResponseHeader list \<Rightarrow> string \<Rightarrow> nat" where
  "header_index [] name = 0"
| "header_index (h # hs) name = (if ci_eq (rh_name h) name then 0 else Suc (header_index hs name))"

definition response_header :: "string option \<Rightarrow> string option \<Rightarrow> Response \<Rightarrow> Response option" where
  "response_header name value rs =
     (case (name, value) of
        (Some n, Some v) \<Rightarrow>
          if length n \<ge> RESPONSE_NAME_CAP \<or> length v \<ge> RESPONSE_VALUE_CAP \<or> \<not> response_token (Some n) \<or>
             \<not> response_value (Some v) \<or> is_reserved_header n then None
          else
            let index = header_index (rs_headers rs) n; h = \<lparr>rh_name = n, rh_value = v\<rparr> in
            if index = RESPONSE_MAX_HEADERS then None
            else if index = length (rs_headers rs) then Some (rs\<lparr>rs_headers := rs_headers rs @ [h]\<rparr>)
            else Some (rs\<lparr>rs_headers := (rs_headers rs)[index := h]\<rparr>)
      | _ \<Rightarrow> None)"

definition response_location :: "string option \<Rightarrow> Response \<Rightarrow> Response option" where
  "response_location value rs = response_header (Some ''Location'') value rs"

definition response_status :: "int \<Rightarrow> Response \<Rightarrow> Response option" where
  "response_status code rs = (if code < 200 \<or> code > 599 then None else Some (rs\<lparr>rs_status := code\<rparr>))"

definition response_reset :: "Response \<Rightarrow> Response" where
  "response_reset rs = rs\<lparr>rs_headers := [], rs_status := 0\<rparr>"

definition response_status_get :: "int \<Rightarrow> Response \<Rightarrow> int" where
  "response_status_get fallback rs = (if rs_status rs \<noteq> 0 then rs_status rs else fallback)"

definition response_line :: "ResponseHeader \<Rightarrow> string" where
  "response_line h = rh_name h @ '': '' @ rh_value h @ [CR, LF]"

fun response_write_loop :: "nat \<Rightarrow> int \<Rightarrow> ResponseHeader list \<Rightarrow> string \<Rightarrow> string option" where
  "response_write_loop cap status [] out = Some out"
| "response_write_loop cap status (h # hs) out =
     (if status \<ge> 400 \<and> ci_eq (rh_name h) ''Location'' then response_write_loop cap status hs out
      else if length (response_line h) \<ge> cap - length out then None
      else response_write_loop cap status hs (out @ response_line h))"

definition response_write :: "nat \<Rightarrow> int \<Rightarrow> Response \<Rightarrow> string option" where
  "response_write cap status rs = (if cap = 0 then None else response_write_loop cap status (rs_headers rs) [])"

section \<open>Invariant\<close>

definition resp_header_ok :: "ResponseHeader \<Rightarrow> bool" where
  "resp_header_ok h \<longleftrightarrow> rh_name h \<noteq> [] \<and> length (rh_name h) < RESPONSE_NAME_CAP \<and>
     length (rh_value h) < RESPONSE_VALUE_CAP \<and> (\<forall>c \<in> set (rh_name h). is_token_char c) \<and>
     (\<forall>c \<in> set (rh_value h). value_char c) \<and> \<not> is_reserved_header (rh_name h)"

definition resp_inv :: "Response \<Rightarrow> bool" where
  "resp_inv rs \<longleftrightarrow> length (rs_headers rs) \<le> RESPONSE_MAX_HEADERS \<and> list_all resp_header_ok (rs_headers rs) \<and>
     distinct (map (\<lambda>h. map tolower (rh_name h)) (rs_headers rs)) \<and>
     (rs_status rs = 0 \<or> 200 \<le> rs_status rs \<and> rs_status rs \<le> 599)"

lemma response_token_iff: "response_token (Some t) \<longleftrightarrow> t \<noteq> [] \<and> (\<forall>c \<in> set t. is_token_char c)"
  by (auto simp: response_token_def list_all_iff is_token_char_def)

lemma response_value_iff: "response_value (Some t) \<longleftrightarrow> (\<forall>c \<in> set t. value_char c)"
proof -
  have "\<not> (byte c = 127 \<or> byte c < 32 \<and> c \<noteq> TAB) \<longleftrightarrow> value_char c" for c
    unfolding value_char_def by blast
  then show ?thesis by (simp only: response_value_def list_all_iff option.case)
qed

lemma header_index_le: "header_index hs n \<le> length hs"
  by (induction hs) auto

lemma header_index_found:
  "header_index hs n < length hs \<Longrightarrow> ci_eq (rh_name (hs ! header_index hs n)) n"
  by (induction hs) auto

lemma header_index_none: "header_index hs n = length hs \<Longrightarrow> \<forall>h \<in> set hs. \<not> ci_eq (rh_name h) n"
  by (induction hs) (auto split: if_splits)

lemma response_header_Some:
  assumes "response_header name value rs = Some rs'"
  obtains n v where "name = Some n" "value = Some v" "resp_header_ok \<lparr>rh_name = n, rh_value = v\<rparr>"
    "header_index (rs_headers rs) n = length (rs_headers rs) \<and> length (rs_headers rs) \<noteq> RESPONSE_MAX_HEADERS \<and>
       rs' = rs\<lparr>rs_headers := rs_headers rs @ [\<lparr>rh_name = n, rh_value = v\<rparr>]\<rparr> \<or>
     header_index (rs_headers rs) n < length (rs_headers rs) \<and>
       rs' = rs\<lparr>rs_headers := (rs_headers rs)[header_index (rs_headers rs) n := \<lparr>rh_name = n, rh_value = v\<rparr>]\<rparr>"
proof -
  obtain n v where nv: "name = Some n" "value = Some v"
    using assms by (cases name; cases "value") (auto simp: response_header_def)
  have g: "length n < RESPONSE_NAME_CAP" "length v < RESPONSE_VALUE_CAP" "response_token (Some n)"
      "response_value (Some v)" "\<not> is_reserved_header n" "header_index (rs_headers rs) n \<noteq> RESPONSE_MAX_HEADERS"
      "rs' = (if header_index (rs_headers rs) n = length (rs_headers rs)
        then rs\<lparr>rs_headers := rs_headers rs @ [\<lparr>rh_name = n, rh_value = v\<rparr>]\<rparr>
        else rs\<lparr>rs_headers := (rs_headers rs)[header_index (rs_headers rs) n := \<lparr>rh_name = n, rh_value = v\<rparr>]\<rparr>)"
    using assms unfolding nv by (simp_all add: response_header_def Let_def not_le split: if_splits)
  have "resp_header_ok \<lparr>rh_name = n, rh_value = v\<rparr>"
    using g(1-5) by (simp add: resp_header_ok_def response_token_iff response_value_iff)
  then show thesis
    using that [OF nv] g(6,7) header_index_le [of "rs_headers rs" n] by (auto split: if_splits)
qed

lemma response_header_inv:
  assumes "response_header name value rs = Some rs'" "resp_inv rs"
  shows "resp_inv rs'"
proof (rule response_header_Some [OF assms(1)], goal_cases)
  case (1 n v)
  let ?hs = "rs_headers rs" and ?i = "header_index (rs_headers rs) n"
  from 1(4) show ?case
  proof (elim disjE conjE)
    assume a: "?i = length ?hs" "length ?hs \<noteq> RESPONSE_MAX_HEADERS"
      "rs' = rs\<lparr>rs_headers := ?hs @ [\<lparr>rh_name = n, rh_value = v\<rparr>]\<rparr>"
    then show ?thesis
      using assms(2) 1(3) header_index_none [OF a(1)] by (auto simp: resp_inv_def ci_eq_def)
  next
    assume a: "?i < length ?hs" "rs' = rs\<lparr>rs_headers := ?hs[?i := \<lparr>rh_name = n, rh_value = v\<rparr>]\<rparr>"
    have "map (\<lambda>h. map tolower (rh_name h)) (?hs[?i := \<lparr>rh_name = n, rh_value = v\<rparr>]) =
        map (\<lambda>h. map tolower (rh_name h)) ?hs"
      using header_index_found [OF a(1)] a(1) by (auto simp: map_update ci_eq_def list_update_same_conv)
    then show ?thesis
      using assms(2) 1(3) a set_update_subset_insert [of ?hs ?i]
      by (force simp: resp_inv_def list_all_iff)
  qed
qed

text \<open>What a handler can do to the response of its request.\<close>

inductive response_reach :: "Response \<Rightarrow> bool" where
  reach_reset: "response_reach (response_reset rs)"
| reach_header: "response_reach rs \<Longrightarrow> response_header name value rs = Some rs' \<Longrightarrow> response_reach rs'"
| reach_location: "response_reach rs \<Longrightarrow> response_location value rs = Some rs' \<Longrightarrow> response_reach rs'"
| reach_status: "response_reach rs \<Longrightarrow> response_status code rs = Some rs' \<Longrightarrow> response_reach rs'"

lemma response_reach_inv: "response_reach rs \<Longrightarrow> resp_inv rs"
  by (induction rule: response_reach.induct)
    (auto simp: response_location_def response_status_def response_reset_def resp_inv_def
      dest: response_header_inv split: if_splits)

section \<open>Writing\<close>

definition written :: "int \<Rightarrow> Response \<Rightarrow> ResponseHeader list" where
  "written status rs = filter (\<lambda>h. \<not> (status \<ge> 400 \<and> ci_eq (rh_name h) ''Location'')) (rs_headers rs)"

lemma response_write_loop_eq:
  assumes "length out + sum_list (map (\<lambda>h. length (response_line h)) hs) < cap"
  shows "response_write_loop cap status hs out = Some (out @ concat (map response_line
    (filter (\<lambda>h. \<not> (status \<ge> 400 \<and> ci_eq (rh_name h) ''Location'')) hs)))"
  using assms by (induction hs arbitrary: out) auto

lemma response_line_length: "resp_header_ok h \<Longrightarrow> length (response_line h) \<le> 1090"
  by (simp add: resp_header_ok_def response_line_def)

lemma response_lines_no_end:
  assumes "\<forall>h \<in> set hs. resp_header_ok h"
  shows "header_end (CR # LF # concat (map response_line hs)) = None"
  using assms
proof (induction hs)
  case (Cons h hs)
  let ?xs = "rh_name h @ '': '' @ rh_value h"
  have "CR \<notin> set ?xs" using Cons.prems is_token_char_not_CR(1) value_char_not_CR(1) by (auto simp: resp_header_ok_def)
  from header_end_line [OF this, of "CR # LF # concat (map response_line hs)"] Cons
  show ?case by (simp add: response_line_def [of h])
qed simp

lemma header_end_prefix_None: "header_end (CR # LF # s) = None \<Longrightarrow> header_end s = None"
  by (cases s rule: header_end.cases) (auto split: if_splits)

lemma response_write_fits:
  assumes "resp_inv rs" "cap \<ge> RESPONSE_WIRE_CAP"
  shows "response_write cap status rs = Some (concat (map response_line (written status rs)))"
proof -
  let ?hs = "rs_headers rs"
  have "sum_list (map (\<lambda>h. length (response_line h)) ?hs) \<le> sum_list (map (\<lambda>h. 1090) ?hs)"
    using assms(1) response_line_length by (intro sum_list_mono) (auto simp: resp_inv_def list_all_iff)
  also have "\<dots> \<le> 16 * 1090" using assms(1) by (simp add: sum_list_triv resp_inv_def)
  finally have "length [] + sum_list (map (\<lambda>h. length (response_line h)) ?hs) < cap" using assms(2) by simp
  from response_write_loop_eq [OF this, of status] assms(2) show ?thesis
    by (simp add: response_write_def written_def)
qed

text \<open>C33: Whatever a handler does to its response, the header block stays safe: at most 16 headers
  with pairwise different names (ignoring case), none of them reserved for the server's framing
  and security headers; writing them into a buffer of the wire size always succeeds, the text is
  one line per header (\<open>Location\<close> left out of error responses), and no value can end the header
  block early or inject a line, since the text contains no empty line.\<close>

theorem response_block_safe:
  assumes "response_reach rs" "cap \<ge> RESPONSE_WIRE_CAP"
  shows "resp_inv rs \<and>
    response_write cap status rs = Some (concat (map response_line (written status rs))) \<and>
    header_end (concat (map response_line (written status rs))) = None \<and>
    (\<forall>h \<in> set (written status rs). CR \<notin> set (rh_name h @ rh_value h) \<and> LF \<notin> set (rh_name h @ rh_value h))"
proof -
  have inv: "resp_inv rs" by (rule response_reach_inv [OF assms(1)])
  then have ok: "\<forall>h \<in> set (written status rs). resp_header_ok h"
    by (auto simp: resp_inv_def written_def list_all_iff)
  then have "\<forall>h \<in> set (written status rs). CR \<notin> set (rh_name h @ rh_value h) \<and> LF \<notin> set (rh_name h @ rh_value h)"
    using is_token_char_not_CR value_char_not_CR by (auto simp: resp_header_ok_def)
  then show ?thesis
    using inv response_write_fits [OF inv assms(2)] header_end_prefix_None [OF response_lines_no_end [OF ok]] by blast
qed

definition demo_response :: Response where
  "demo_response = \<lparr>rs_headers = [\<lparr>rh_name = ''ETag'', rh_value = ''x''\<rparr>], rs_status = 0\<rparr>"

lemma ci_eq_length_neq: "length a \<noteq> length b \<Longrightarrow> \<not> ci_eq a b"
  using ci_eq_length by auto

lemma etag_not_reserved: "\<not> is_reserved_header ''ETag''" "\<not> is_reserved_header ''Etag''"
  by (simp_all add: is_reserved_header_def reserved_names_def ci_eq_length_neq)
    (simp_all add: ci_eq_def tolower_def is_upper_def byte_def)

lemma etag_ci_eq: "ci_eq ''Etag'' ''ETag''" "ci_eq ''ETag'' ''etag''"
  by code_simp+

lemma demo_header:
  "response_header (Some ''ETag'') (Some ''x'') (response_reset demo_response) = Some demo_response"
  "store_all (\<lambda>n v. response_header (Some n) (Some v)) [(''Etag'', ''y''), (''ETag'', ''x'')] (response_reset demo_response) =
     Some demo_response"
  by (simp_all add: response_header_def etag_not_reserved etag_ci_eq response_token_def response_value_def is_lower_def is_upper_def
      byte_def response_reset_def demo_response_def)

theorem response_block_safe_witness:
  "response_write RESPONSE_WIRE_CAP 200 demo_response = Some (''ETag: x'' @ [CR, LF])"
proof -
  have r0: "response_reach (response_reset demo_response)" by (rule reach_reset)
  have "response_reach demo_response" by (rule reach_header [OF r0 demo_header(1)])
  from response_block_safe [OF this order_refl, of 200] show ?thesis
    by (simp add: demo_response_def written_def response_line_def)
qed

section \<open>The headers as a map\<close>

definition response_find :: "Response \<Rightarrow> string \<Rightarrow> string option" where
  "response_find rs n = (let i = header_index (rs_headers rs) n in
     if i < length (rs_headers rs) then Some (rh_value (rs_headers rs ! i)) else None)"

lemma header_index_snoc:
  "header_index (hs @ [h]) n = (if header_index hs n < length hs then header_index hs n
     else if ci_eq (rh_name h) n then length hs else Suc (length hs))"
  by (induction hs) (auto simp: header_index_le)

lemma header_index_cong: "ci_eq n k \<Longrightarrow> header_index hs n = header_index hs k"
  by (induction hs) (auto simp: ci_eq_def)

lemma header_index_update:
  assumes "header_index hs n < length hs"
  shows "header_index (hs[header_index hs n := \<lparr>rh_name = n, rh_value = v\<rparr>]) k = header_index hs k"
  using assms by (induction hs) (auto simp: ci_eq_def split: if_splits)

lemma header_index_inj:
  assumes "header_index hs k = header_index hs n" "header_index hs n < length hs"
  shows "ci_eq n k"
  using header_index_found [of hs n] header_index_found [of hs k] assms by (simp add: ci_eq_def)

lemma header_index_fresh:
  assumes "header_index hs n = length hs" "ci_eq n k"
  shows "header_index hs k = length hs"
  using assms header_index_cong by metis

lemma response_find_store:
  assumes "response_header (Some n) (Some v) rs = Some rs'"
  shows "response_find rs' k = (if ci_eq n k then Some v else response_find rs k)"
proof (rule response_header_Some [OF assms], goal_cases)
  case (1 n' v')
  let ?hs = "rs_headers rs" and ?i = "header_index (rs_headers rs) n" and ?h = "\<lparr>rh_name = n, rh_value = v\<rparr>"
  have nv: "n' = n" "v' = v" using 1(1,2) by simp_all
  from 1(4) show ?case unfolding nv
  proof (elim disjE conjE)
    assume a: "?i = length ?hs" "rs' = rs\<lparr>rs_headers := ?hs @ [?h]\<rparr>"
    show ?thesis
    proof (cases "ci_eq n k")
      case True
      then show ?thesis using a header_index_fresh [OF a(1) True] by (simp add: response_find_def header_index_snoc)
    next
      case False
      then show ?thesis
        using a header_index_le [of ?hs k] by (auto simp: response_find_def header_index_snoc Let_def nth_append)
    qed
  next
    assume a: "?i < length ?hs" "rs' = rs\<lparr>rs_headers := ?hs[?i := ?h]\<rparr>"
    note up = header_index_update [OF a(1), of v k]
    show ?thesis
    proof (cases "ci_eq n k")
      case True
      then show ?thesis using a up header_index_cong [OF True, of ?hs] by (simp add: response_find_def)
    next
      case False
      then have "header_index ?hs k \<noteq> ?i" using header_index_inj [OF _ a(1)] by blast
      then show ?thesis using False a up by (simp add: response_find_def Let_def)
    qed
  qed
qed

interpretation resp: keyed_map ci_eq "\<lambda>n v. response_header (Some n) (Some v)" response_find
  by unfold_locales (simp_all add: response_find_store)

text \<open>Setting headers behaves as a map from case-insensitive names: after any sequence of
  successful settings, the value kept for a name is that of the last setting of that name under
  any spelling, and a name that was not set keeps its earlier value.\<close>

theorem response_last_setting_wins:
  assumes "store_all (\<lambda>n v. response_header (Some n) (Some v)) kvs rs = Some rs'"
  shows "(\<forall>k. (\<forall>(n, v) \<in> set kvs. \<not> ci_eq n k) \<longrightarrow> response_find rs' k = response_find rs k) \<and>
    (\<forall>before n v after k. kvs = before @ (n, v) # after \<longrightarrow> ci_eq n k \<longrightarrow>
       (\<forall>(m, w) \<in> set after. \<not> ci_eq m k) \<longrightarrow> response_find rs' k = Some v)"
  using assms resp.find_untouched [of kvs rs rs'] resp.find_last [of _ _ _ _ rs rs'] by auto

theorem response_last_setting_wins_witness:
  "response_find demo_response ''etag'' = Some ''x''"
proof -
  note all = response_last_setting_wins [OF demo_header(2), THEN conjunct2, rule_format]
  show ?thesis
    using etag_ci_eq(2) by (intro all [of "[(''Etag'', ''y'')]" "''ETag''" "''x''" "[]"]) simp_all
qed

end
