(* ===== verification/Json_Token.thy ===== *)
theory Json_Token
  imports Config
begin

text \<open>
  The lexical half of \<open>src/http/json.c\<close>: hexadecimal escapes, UTF-8 sequences, string and primitive
  tokens, and the decoding of string tokens. Positions are indices into the text, as in the code;
  the token array with its counter is the list of the tokens allocated so far, so that
  \<open>token_alloc\<close> fails when the list has reached \<open>max\<close>. The code points of the decoder are 32-bit
  words. The grammar that drives these scanners is in the theory \<open>Json\<close>.
\<close>

section \<open>The code\<close>

abbreviation JSON_PATH_SEGMENT :: nat where "JSON_PATH_SEGMENT \<equiv> 128"
abbreviation JSON_MAX_DEPTH :: nat where "JSON_MAX_DEPTH \<equiv> 128"
abbreviation JSON_MAX_OBJECT_KEYS :: nat where "JSON_MAX_OBJECT_KEYS \<equiv> 256"
abbreviation JSON_MAX_KEY_BYTES :: nat where "JSON_MAX_KEY_BYTES \<equiv> 128"

datatype JsonType = JSON_UNDEF | JSON_OBJ | JSON_ARR | JSON_STR | JSON_PRIM

record JsonToken =
  tk_type :: JsonType
  tk_start :: int
  tk_end :: int
  tk_parent :: int

definition token_alloc :: "nat \<Rightarrow> JsonType \<Rightarrow> nat \<Rightarrow> int \<Rightarrow> JsonToken list \<Rightarrow> JsonToken list option" where
  "token_alloc mx ty start parent toks =
     (if length toks \<ge> mx then None
      else Some (toks @ [\<lparr>tk_type = ty, tk_start = int start, tk_end = - 1, tk_parent = parent\<rparr>]))"

definition is_space :: "char \<Rightarrow> bool" where
  "is_space c \<longleftrightarrow> c = SPC \<or> c = TAB \<or> c = CR \<or> c = LF"

definition hex_digit :: "char \<Rightarrow> nat option" where
  "hex_digit c =
     (if 48 \<le> byte c \<and> byte c \<le> 57 then Some (byte c - 48)
      else if 97 \<le> byte c \<and> byte c \<le> 102 then Some (byte c - 97 + 10)
      else if 65 \<le> byte c \<and> byte c \<le> 70 then Some (byte c - 65 + 10)
      else None)"

fun read_hex_loop :: "32 word \<Rightarrow> string \<Rightarrow> 32 word option" where
  "read_hex_loop v [] = Some v"
| "read_hex_loop v (c # s) =
     (case hex_digit c of None \<Rightarrow> None | Some h \<Rightarrow> read_hex_loop (push_bit 4 v OR of_nat h) s)"

definition read_hex4 :: "string \<Rightarrow> nat \<Rightarrow> nat \<Rightarrow> 32 word option" where
  "read_hex4 js len pos =
     (if pos > len \<or> len - pos < 4 then None else read_hex_loop 0 (take 4 (drop pos js)))"

text \<open>The number of continuation bytes a lead byte announces, with the range of the first of them.\<close>

definition utf8_lead :: "nat \<Rightarrow> (nat \<times> nat \<times> nat) option" where
  "utf8_lead a =
     (if 0xC2 \<le> a \<and> a \<le> 0xDF then Some (1, 0x80, 0xBF)
      else if 0xE0 \<le> a \<and> a \<le> 0xEF then
        Some (2, if a = 0xE0 then 0xA0 else 0x80, if a = 0xED then 0x9F else 0xBF)
      else if 0xF0 \<le> a \<and> a \<le> 0xF4 then
        Some (3, if a = 0xF0 then 0x90 else 0x80, if a = 0xF4 then 0x8F else 0xBF)
      else None)"

definition utf8_advance :: "string \<Rightarrow> nat \<Rightarrow> nat \<Rightarrow> nat option" where
  "utf8_advance js len i =
     (case utf8_lead (byte (js ! i)) of
        None \<Rightarrow> None
      | Some (n, mn, mx) \<Rightarrow>
          if i + n \<ge> len then None
          else
            let b = byte (js ! (i + 1)) in
            if b < mn \<or> b > mx then None
            else if \<exists>k \<in> {2..n}. byte (js ! (i + k)) < 0x80 \<or> byte (js ! (i + k)) > 0xBF then None
            else Some (i + n + 1))"

definition high_surrogate :: "32 word \<Rightarrow> bool" where
  "high_surrogate u \<longleftrightarrow> 0xD800 \<le> u \<and> u \<le> 0xDBFF"

definition low_surrogate :: "32 word \<Rightarrow> bool" where
  "low_surrogate u \<longleftrightarrow> 0xDC00 \<le> u \<and> u \<le> 0xDFFF"

definition simple_escapes :: string where
  "simple_escapes = [DQUOTE, BSLASH, CHR ''/''] @ ''bfnrt''"

lemma utf8_advance_progress:
  assumes "utf8_advance js len i = Some j"
  shows "i < j" "j \<le> len"
  using assms by (auto simp: utf8_advance_def Let_def split: option.splits if_splits)

text \<open>The loop of \<open>token_string\<close> from index \<open>i\<close>: the index of the closing quote.\<close>

function string_end :: "string \<Rightarrow> nat \<Rightarrow> nat option" where
  "string_end js i =
     (if i \<ge> length js then None
      else if js ! i = DQUOTE then Some i
      else if js ! i = BSLASH then
        if i + 1 \<ge> length js then None
        else if js ! (i + 1) \<in> set simple_escapes then string_end js (i + 2)
        else if js ! (i + 1) \<noteq> CHR ''u'' then None
        else
          (case read_hex4 js (length js) (i + 2) of
             None \<Rightarrow> None
           | Some first \<Rightarrow>
               if high_surrogate first then
                 if length js - (i + 6) < 6 \<or> js ! (i + 6) \<noteq> BSLASH \<or> js ! (i + 7) \<noteq> CHR ''u'' then None
                 else
                   (case read_hex4 js (length js) (i + 8) of
                      None \<Rightarrow> None
                    | Some second \<Rightarrow>
                        if \<not> low_surrogate second then None else string_end js (i + 12))
               else if low_surrogate first then None
               else string_end js (i + 6))
      else if byte (js ! i) < 0x20 then None
      else if byte (js ! i) \<ge> 0x80 then
        (case utf8_advance js (length js) i of None \<Rightarrow> None | Some j \<Rightarrow> string_end js j)
      else string_end js (i + 1))"
  by pat_completeness auto
termination
  by (relation "measure (\<lambda>(js, i). length js - i)") (auto dest: utf8_advance_progress)

declare string_end.simps [simp del]

definition token_string ::
  "string \<Rightarrow> nat \<Rightarrow> nat \<Rightarrow> int \<Rightarrow> JsonToken list \<Rightarrow> (nat \<times> JsonToken list) option" where
  "token_string js pos mx parent toks =
     (case token_alloc mx JSON_STR (pos + 1) parent toks of
        None \<Rightarrow> None
      | Some toks1 \<Rightarrow>
          (case string_end js (pos + 1) of
             None \<Rightarrow> None
           | Some i \<Rightarrow> Some (i + 1, toks1[length toks := (toks1 ! length toks)\<lparr>tk_end := int i\<rparr>])))"

definition is_delimiter :: "string \<Rightarrow> nat \<Rightarrow> bool" where
  "is_delimiter js pos \<longleftrightarrow> pos \<ge> length js \<or> is_space (js ! pos) \<or> js ! pos = CHR '','' \<or>
     js ! pos = CHR '']'' \<or> js ! pos = CHR ''}''"

definition digit_at :: "string \<Rightarrow> nat \<Rightarrow> bool" where
  "digit_at js i \<longleftrightarrow> i < length js \<and> is_digit (js ! i)"

text \<open>\<open>do i++ while (i < len && digit)\<close> from a position that holds a digit.\<close>

function skip_digits :: "string \<Rightarrow> nat \<Rightarrow> nat" where
  "skip_digits js i = (if digit_at js (i + 1) then skip_digits js (i + 1) else i + 1)"
  by pat_completeness auto
termination
  by (relation "measure (\<lambda>(js, i). length js - i)") (auto simp: digit_at_def)

declare skip_digits.simps [simp del]

definition scan_int :: "string \<Rightarrow> nat \<Rightarrow> nat option" where
  "scan_int js i =
     (if i \<ge> length js then None
      else if js ! i = CHR ''0'' then (if digit_at js (i + 1) then None else Some (i + 1))
      else if 49 \<le> byte (js ! i) \<and> byte (js ! i) \<le> 57 then Some (skip_digits js i)
      else None)"

definition scan_frac :: "string \<Rightarrow> nat \<Rightarrow> nat option" where
  "scan_frac js i =
     (if i < length js \<and> js ! i = CHR ''.'' then
        (if \<not> digit_at js (i + 1) then None else Some (skip_digits js (i + 1)))
      else Some i)"

definition scan_exp :: "string \<Rightarrow> nat \<Rightarrow> nat option" where
  "scan_exp js i =
     (if i < length js \<and> (js ! i = CHR ''e'' \<or> js ! i = CHR ''E'') then
        let j = (if i + 1 < length js \<and> (js ! (i + 1) = CHR ''+'' \<or> js ! (i + 1) = CHR ''-'') then i + 2 else i + 1)
        in if \<not> digit_at js j then None else Some (skip_digits js j)
      else Some i)"

definition scan_number :: "string \<Rightarrow> nat \<Rightarrow> nat option" where
  "scan_number js i =
     (let i0 = (if i < length js \<and> js ! i = CHR ''-'' then i + 1 else i) in
      (case scan_int js i0 of
         None \<Rightarrow> None
       | Some i1 \<Rightarrow>
           (case scan_frac js i1 of
              None \<Rightarrow> None
            | Some i2 \<Rightarrow>
                (case scan_exp js i2 of
                   None \<Rightarrow> None
                 | Some i3 \<Rightarrow> if is_delimiter js i3 then Some i3 else None))))"

definition literal_at :: "string \<Rightarrow> nat \<Rightarrow> string \<Rightarrow> bool" where
  "literal_at js i lit \<longleftrightarrow> length js - i \<ge> length lit \<and> take (length lit) (drop i js) = lit"

definition token_primitive ::
  "string \<Rightarrow> nat \<Rightarrow> nat \<Rightarrow> int \<Rightarrow> JsonToken list \<Rightarrow> (nat \<times> JsonToken list) option" where
  "token_primitive js start mx parent toks =
     (case (if literal_at js start ''true'' then Some (start + 4)
            else if literal_at js start ''false'' then Some (start + 5)
            else if literal_at js start ''null'' then Some (start + 4)
            else scan_number js start) of
        None \<Rightarrow> None
      | Some i \<Rightarrow>
          if \<not> is_delimiter js i then None
          else
            (case token_alloc mx JSON_PRIM start parent toks of
               None \<Rightarrow> None
             | Some toks1 \<Rightarrow> Some (i, toks1[length toks := (toks1 ! length toks)\<lparr>tk_end := int i\<rparr>])))"

text \<open>\<open>utf8_encode\<close> returns the bytes it writes (none when the code point does not fit).\<close>

definition byte_char :: "32 word \<Rightarrow> char" where
  "byte_char w = char_of (unat w)"

definition utf8_encode :: "32 word \<Rightarrow> nat \<Rightarrow> string" where
  "utf8_encode cp cap =
     (if cp \<le> 0x7F \<and> cap \<ge> 1 then [byte_char cp]
      else if cp \<le> 0x7FF \<and> cap \<ge> 2 then
        [byte_char (0xC0 OR drop_bit 6 cp), byte_char (0x80 OR (cp AND 0x3F))]
      else if cp \<le> 0xFFFF \<and> cap \<ge> 3 then
        [byte_char (0xE0 OR drop_bit 12 cp), byte_char (0x80 OR (drop_bit 6 cp AND 0x3F)),
         byte_char (0x80 OR (cp AND 0x3F))]
      else if cp \<le> 0x10FFFF \<and> cap \<ge> 4 then
        [byte_char (0xF0 OR drop_bit 18 cp), byte_char (0x80 OR (drop_bit 12 cp AND 0x3F)),
         byte_char (0x80 OR (drop_bit 6 cp AND 0x3F)), byte_char (0x80 OR (cp AND 0x3F))]
      else [])"

definition escape_char :: "char \<Rightarrow> char option" where
  "escape_char c =
     (if c = CHR ''b'' then Some (CHR 0x08) else if c = CHR ''f'' then Some (CHR 0x0C)
      else if c = CHR ''n'' then Some LF else if c = CHR ''r'' then Some CR else if c = CHR ''t'' then Some TAB
      else if c = DQUOTE \<or> c = BSLASH \<or> c = CHR ''/'' then Some c else None)"

text \<open>The loop of \<open>json_copy_str\<close>; \<open>out\<close> is what has been written, without the terminator.\<close>

function copy_loop :: "string \<Rightarrow> bool \<Rightarrow> nat \<Rightarrow> nat \<Rightarrow> nat \<Rightarrow> string \<Rightarrow> string" where
  "copy_loop js is_str stop outsz i out =
     (if \<not> (i < stop \<and> length out + 1 < outsz) then out
      else if \<not> is_str \<or> js ! i \<noteq> BSLASH then copy_loop js is_str stop outsz (i + 1) (out @ [js ! i])
      else if i + 1 \<ge> stop then out
      else
        (case escape_char (js ! (i + 1)) of
           Some c \<Rightarrow> copy_loop js is_str stop outsz (i + 2) (out @ [c])
         | None \<Rightarrow>
             if js ! (i + 1) \<noteq> CHR ''u'' then out
             else
               (case read_hex4 js stop (i + 2) of
                  None \<Rightarrow> out
                | Some first \<Rightarrow>
                    if high_surrogate first \<and> stop - (i + 6) \<ge> 6 \<and> js ! (i + 6) = BSLASH \<and> js ! (i + 7) = CHR ''u''
                    then
                      (case read_hex4 js stop (i + 8) of
                         None \<Rightarrow> out
                       | Some second \<Rightarrow>
                           copy_loop js is_str stop outsz (i + 12) (out @
                             utf8_encode (0x10000 + push_bit 10 (first - 0xD800) + (second - 0xDC00))
                               (outsz - length out - 1)))
                    else
                      copy_loop js is_str stop outsz (i + 6) (out @ utf8_encode first (outsz - length out - 1)))))"
  by pat_completeness auto
termination
  by (relation "measure (\<lambda>(js, is_str, stop, outsz, i, out). stop - i)") auto

declare copy_loop.simps [simp del]

definition json_copy_str :: "string \<Rightarrow> JsonToken \<Rightarrow> nat \<Rightarrow> string" where
  "json_copy_str js t outsz =
     (if outsz = 0 then []
      else if tk_start t < 0 \<or> tk_end t < tk_start t then []
      else copy_loop js (tk_type t = JSON_STR) (nat (tk_end t)) outsz (nat (tk_start t)) [])"

section \<open>Positions\<close>

lemma read_hex4_length: "read_hex4 js len pos = Some v \<Longrightarrow> pos + 4 \<le> len"
  by (auto simp: read_hex4_def split: if_splits)

text \<open>The grammar of a string body: the text from index \<open>i\<close> is a sequence of plain ASCII characters,
  UTF-8 sequences, simple escapes, escaped code points and escaped surrogate pairs up to the
  closing quote at \<open>j\<close>.\<close>

inductive string_body :: "string \<Rightarrow> nat \<Rightarrow> nat \<Rightarrow> bool" for js j where
  body_quote: "j < length js \<Longrightarrow> js ! j = DQUOTE \<Longrightarrow> string_body js j j"
| body_ascii: "i < length js \<Longrightarrow> js ! i \<noteq> DQUOTE \<Longrightarrow> js ! i \<noteq> BSLASH \<Longrightarrow> 0x20 \<le> byte (js ! i) \<Longrightarrow>
    byte (js ! i) < 0x80 \<Longrightarrow> string_body js j (i + 1) \<Longrightarrow> string_body js j i"
| body_utf8: "i < length js \<Longrightarrow> 0x80 \<le> byte (js ! i) \<Longrightarrow> utf8_advance js (length js) i = Some k \<Longrightarrow>
    string_body js j k \<Longrightarrow> string_body js j i"
| body_escape: "i + 1 < length js \<Longrightarrow> js ! i = BSLASH \<Longrightarrow> js ! (i + 1) \<in> set simple_escapes \<Longrightarrow>
    string_body js j (i + 2) \<Longrightarrow> string_body js j i"
| body_code: "i + 1 < length js \<Longrightarrow> js ! i = BSLASH \<Longrightarrow> js ! (i + 1) = CHR ''u'' \<Longrightarrow>
    read_hex4 js (length js) (i + 2) = Some first \<Longrightarrow> \<not> high_surrogate first \<Longrightarrow> \<not> low_surrogate first \<Longrightarrow>
    string_body js j (i + 6) \<Longrightarrow> string_body js j i"
| body_pair: "i + 1 < length js \<Longrightarrow> js ! i = BSLASH \<Longrightarrow> js ! (i + 1) = CHR ''u'' \<Longrightarrow>
    read_hex4 js (length js) (i + 2) = Some first \<Longrightarrow> high_surrogate first \<Longrightarrow>
    length js - (i + 6) \<ge> 6 \<Longrightarrow> js ! (i + 6) = BSLASH \<Longrightarrow> js ! (i + 7) = CHR ''u'' \<Longrightarrow>
    read_hex4 js (length js) (i + 8) = Some second \<Longrightarrow> low_surrogate second \<Longrightarrow>
    string_body js j (i + 12) \<Longrightarrow> string_body js j i"

lemma u_not_simple: "CHR ''u'' \<notin> set simple_escapes"
  by (simp add: simple_escapes_def)

lemma high_not_low: "high_surrogate u \<Longrightarrow> \<not> low_surrogate u"
  by (auto simp: high_surrogate_def low_surrogate_def word_le_nat_alt)

lemma byte_quote_bslash [simp]: "byte DQUOTE = 34" "byte BSLASH = 92"
  by (simp_all add: byte_def)

lemma string_end_body: "string_end js i = Some j \<Longrightarrow> string_body js j i"
proof (induction js i rule: string_end.induct)
  case (1 js i)
  have len: "i < length js" using "1.prems" by (subst (asm) string_end.simps) (simp split: if_splits)
  consider (quote) "js ! i = DQUOTE" | (esc) "js ! i \<noteq> DQUOTE" "js ! i = BSLASH"
    | (raw) "js ! i \<noteq> DQUOTE" "js ! i \<noteq> BSLASH" by blast
  then show ?case
  proof cases
    case quote
    then have "j = i" using "1.prems" len by (simp add: string_end.simps [of js i])
    then show ?thesis using quote len body_quote by simp
  next
    case raw
    note eq = "1.prems" [unfolded string_end.simps [of js i]]
    show ?thesis
    proof (cases "byte (js ! i) < 0x80")
      case True
      then have "string_end js (i + 1) = Some j" "0x20 \<le> byte (js ! i)"
        using eq len raw by (simp_all split: if_splits)
      then show ?thesis using "1.IH"(5) len raw True body_ascii by simp
    next
      case False
      then obtain k where k: "utf8_advance js (length js) i = Some k" "string_end js k = Some j"
        using eq len raw by (auto split: option.splits if_splits)
      then have "string_body js j k" using "1.IH"(4) len raw False by simp
      then show ?thesis using k len False body_utf8 by simp
    qed
  next
    case esc
    note eq = "1.prems" [unfolded string_end.simps [of js i]]
    have l1: "i + 1 < length js" using eq len esc by (simp split: if_splits)
    show ?thesis
    proof (cases "js ! (i + 1) \<in> set simple_escapes")
      case True
      then have "string_end js (i + 2) = Some j" using eq l1 esc by simp
      then have "string_body js j (i + 2)" using "1.IH"(1) len esc l1 True by simp
      then show ?thesis using True l1 esc body_escape by blast
    next
      case False
      then obtain first where f: "js ! (i + 1) = CHR ''u''" "read_hex4 js (length js) (i + 2) = Some first"
        using eq l1 esc by (auto split: option.splits if_splits)
      show ?thesis
      proof (cases "high_surrogate first")
        case hi: True
        obtain second where s: "length js - (i + 6) \<ge> 6" "js ! (i + 6) = BSLASH" "js ! (i + 7) = CHR ''u''"
            "read_hex4 js (length js) (i + 8) = Some second" "low_surrogate second" "string_end js (i + 12) = Some j"
          using eq f l1 esc False hi by (auto split: option.splits if_splits)
        then have "string_body js j (i + 12)" using "1.IH"(2) len esc l1 False f hi by simp
        then show ?thesis using body_pair f s l1 esc hi by blast
      next
        case lo: False
        then have "\<not> low_surrogate first" "string_end js (i + 6) = Some j"
          using eq f l1 esc False by (auto split: if_splits)
        moreover from this have "string_body js j (i + 6)" using "1.IH"(3) len esc l1 False f lo by simp
        ultimately show ?thesis using body_code f l1 esc lo by blast
      qed
    qed
  qed
qed

lemma body_string_end: "string_body js j i \<Longrightarrow> string_end js i = Some j"
proof (induction rule: string_body.induct)
  case body_quote
  then show ?case by (simp add: string_end.simps [of js j])
next
  case (body_ascii i)
  then show ?case by (subst string_end.simps) simp
next
  case (body_utf8 i k)
  then show ?case by (subst string_end.simps) auto
next
  case (body_escape i)
  then show ?case by (subst string_end.simps) simp
next
  case (body_code i first)
  then show ?case using u_not_simple by (subst string_end.simps) simp
next
  case (body_pair i first second)
  then show ?case using u_not_simple by (subst string_end.simps) simp
qed

lemma string_end_iff: "string_end js i = Some j \<longleftrightarrow> string_body js j i"
  by (blast intro: string_end_body body_string_end)

lemma string_body_bounds: "string_body js j i \<Longrightarrow> i \<le> j \<and> j < length js \<and> js ! j = DQUOTE"
  by (induction rule: string_body.induct) (auto dest: utf8_advance_progress)

lemma string_end_Some: "string_end js i = Some j \<Longrightarrow> i \<le> j \<and> j < length js \<and> js ! j = DQUOTE"
  by (rule string_body_bounds [OF string_end_body])

lemma token_alloc_Some [result_iff]:
  "token_alloc mx ty start parent toks = Some toks' \<longleftrightarrow>
     length toks < mx \<and> toks' = toks @ [\<lparr>tk_type = ty, tk_start = int start, tk_end = - 1, tk_parent = parent\<rparr>]"
  by (auto simp: token_alloc_def)

lemma token_string_Some:
  "token_string js pos mx parent toks = Some (pos', toks') \<longleftrightarrow>
     length toks < mx \<and> (\<exists>j. string_end js (pos + 1) = Some j \<and> pos' = j + 1 \<and>
       toks' = toks @ [\<lparr>tk_type = JSON_STR, tk_start = int (pos + 1), tk_end = int j, tk_parent = parent\<rparr>])"
  by (auto simp: token_string_def token_alloc_def split: option.splits)

lemma skip_digits_bounds: "digit_at js i \<Longrightarrow> i < skip_digits js i \<and> skip_digits js i \<le> length js"
proof (induction js i rule: skip_digits.induct)
  case (1 js i)
  then show ?case by (subst skip_digits.simps, subst (2) skip_digits.simps) (auto simp: digit_at_def)
qed

lemma scan_int_bounds: "scan_int js i = Some j \<Longrightarrow> i < j \<and> j \<le> length js"
  using skip_digits_bounds [of js i]
  by (auto simp: scan_int_def digit_at_def is_digit_def split: if_splits)

lemma scan_frac_bounds: "scan_frac js i = Some j \<Longrightarrow> i \<le> length js \<Longrightarrow> i \<le> j \<and> j \<le> length js"
  using skip_digits_bounds [of js "i + 1"] by (auto simp: scan_frac_def split: if_splits)

lemma scan_exp_bounds: "scan_exp js i = Some j \<Longrightarrow> i \<le> length js \<Longrightarrow> i \<le> j \<and> j \<le> length js"
  using skip_digits_bounds [of js "i + 1"] skip_digits_bounds [of js "i + 2"]
  by (auto simp: scan_exp_def Let_def split: if_splits)

lemma scan_number_bounds:
  assumes "scan_number js i = Some j"
  shows "i < j \<and> j \<le> length js"
proof -
  define i0 where "i0 = (if i < length js \<and> js ! i = CHR ''-'' then i + 1 else i)"
  obtain i1 i2 where "scan_int js i0 = Some i1" "scan_frac js i1 = Some i2" "scan_exp js i2 = Some j"
    using assms unfolding scan_number_def i0_def [symmetric] Let_def by (auto split: option.splits if_splits)
  moreover have "i \<le> i0" by (simp add: i0_def)
  ultimately show ?thesis
    using scan_int_bounds [of js i0 i1] scan_frac_bounds [of js i1 i2] scan_exp_bounds [of js i2 j] by linarith
qed

lemma token_primitive_Some:
  assumes "token_primitive js start mx parent toks = Some (pos', toks')"
  shows "length toks < mx \<and> start < pos' \<and> pos' \<le> length js \<and>
    toks' = toks @ [\<lparr>tk_type = JSON_PRIM, tk_start = int start, tk_end = int pos', tk_parent = parent\<rparr>]"
  using assms scan_number_bounds [of js start]
  by (auto simp: token_primitive_def token_alloc_def literal_at_def split: option.splits if_splits)

section \<open>Decoded strings fit their buffer\<close>

lemma utf8_encode_length: "length (utf8_encode cp cap) \<le> cap \<and> length (utf8_encode cp cap) \<le> 4"
  by (simp add: utf8_encode_def)

lemma copy_loop_length:
  "length out < outsz \<Longrightarrow> length (copy_loop js is_str stop outsz i out) < outsz"
proof (induction js is_str stop outsz i out rule: copy_loop.induct)
  case (1 js is_str stop outsz i out)
  note enc = utf8_encode_length [of _ "outsz - length out - 1"]
  show ?case
  proof (cases "i < stop \<and> length out + 1 < outsz")
    case False
    then show ?thesis using "1.prems" by (subst copy_loop.simps) simp
  next
    case True
    have "length (out @ utf8_encode cp (outsz - length out - 1)) < outsz" for cp
      using enc [of cp] True by (simp add: less_diff_conv) linarith
    then show ?thesis
      using "1.IH" "1.prems" True
      by (subst copy_loop.simps) (auto split: option.split)
  qed
qed

lemma json_copy_str_length: "0 < outsz \<Longrightarrow> length (json_copy_str js t outsz) < outsz"
  by (simp add: json_copy_str_def copy_loop_length)

section \<open>Decoded strings are UTF-8\<close>

text \<open>One well-formed multi-byte sequence, and texts made of ASCII characters and such sequences.\<close>

definition utf8_char :: "string \<Rightarrow> bool" where
  "utf8_char a \<longleftrightarrow> a \<noteq> [] \<and> utf8_advance a (length a) 0 = Some (length a)"

inductive utf8_text :: "string \<Rightarrow> bool" where
  utf8_nil: "utf8_text []"
| utf8_ascii: "byte c < 0x80 \<Longrightarrow> utf8_text s \<Longrightarrow> utf8_text (c # s)"
| utf8_multi: "utf8_char a \<Longrightarrow> utf8_text s \<Longrightarrow> utf8_text (a @ s)"

lemma utf8_text_append: "utf8_text s \<Longrightarrow> utf8_text t \<Longrightarrow> utf8_text (s @ t)"
  by (induction rule: utf8_text.induct) (auto intro: utf8_text.intros)

lemma utf8_advance_char:
  assumes "utf8_advance js len i = Some k" "len \<le> length js"
  shows "utf8_char (take (k - i) (drop i js))"
proof -
  obtain n mn mx where l: "utf8_lead (byte (js ! i)) = Some (n, mn, mx)" "k = i + n + 1" "i + n < len"
      "mn \<le> byte (js ! (i + 1))" "byte (js ! (i + 1)) \<le> mx"
      "\<not> (\<exists>k \<in> {2..n}. byte (js ! (i + k)) < 0x80 \<or> byte (js ! (i + k)) > 0xBF)"
    using assms(1) by (auto simp: utf8_advance_def Let_def split: option.splits if_splits)
  let ?a = "take (k - i) (drop i js)"
  have n: "1 \<le> n" using l(1) by (auto simp: utf8_lead_def split: if_splits)
  have len: "length ?a = n + 1" using l(2,3) assms(2) by simp
  have nth: "?a ! m = js ! (i + m)" if "m \<le> n" for m using that l(2,3) assms(2) by simp
  show ?thesis
    using l n len nth [of 0] nth [of 1] nth
    by (auto simp: utf8_char_def utf8_advance_def Let_def simp del: nth_take length_take length_drop nth_drop)
qed

lemma nat_or_add: "(x::nat) < 2 ^ k \<Longrightarrow> (a * 2 ^ k) OR x = a * 2 ^ k + x"
proof -
  assume "x < 2 ^ k"
  then have x: "take_bit k x = x" by (rule take_bit_nat_eq_self)
  have "push_bit k a AND take_bit k x = 0" by (rule bit_eqI) (auto simp: bit_simps)
  then have "push_bit k a + take_bit k x = push_bit k a OR take_bit k x" by (rule disjunctive_add_eq_or)
  then show ?thesis using x by (simp add: push_bit_eq_mult)
qed

lemma byte_or:
  assumes "unat c = a * 2 ^ k" "unat w < 2 ^ k" "a * 2 ^ k + unat w < 256"
  shows "byte (byte_char (c OR w)) = a * 2 ^ k + unat w"
  using assms nat_or_add [of "unat w" k a] by (simp add: byte_def byte_char_def unsigned_or_eq)

lemma unat_and_63: "unat ((w :: 32 word) AND 0x3F) = unat w mod 64"
proof -
  have "(63::32 word) = mask 6" by (simp add: mask_eq_exp_minus_1)
  then have "w AND 0x3F = take_bit 6 w" by (simp add: take_bit_eq_mask)
  also have "\<dots> = w mod 2 ^ 6" by (rule take_bit_eq_mod)
  finally show ?thesis by (simp add: unat_mod_distrib)
qed

lemma unat_drop:
  "unat (drop_bit 6 (w :: 32 word)) = unat w div 64" "unat (drop_bit 12 (w :: 32 word)) = unat w div 4096"
  "unat (drop_bit 18 (w :: 32 word)) = unat w div 262144"
  by (simp_all add: drop_bit_eq_div unat_div)

lemma continuation_byte: "byte (byte_char (0x80 OR ((w :: 32 word) AND 0x3F))) = 128 + unat w mod 64"
proof -
  have "unat w mod 64 < 64" by simp
  then show ?thesis using byte_or [where c = "0x80" and a = 2 and k = 6 and w = "w AND 0x3F"] by (simp add: unat_and_63)
qed

lemma lead_bytes:
  fixes cp :: "32 word"
  shows "cp \<le> 0x7FF \<Longrightarrow> byte (byte_char (0xC0 OR drop_bit 6 cp)) = 192 + unat cp div 64"
    "cp \<le> 0xFFFF \<Longrightarrow> byte (byte_char (0xE0 OR drop_bit 12 cp)) = 224 + unat cp div 4096"
    "cp \<le> 0x10FFFF \<Longrightarrow> byte (byte_char (0xF0 OR drop_bit 18 cp)) = 240 + unat cp div 262144"
proof -
  assume "cp \<le> 0x7FF"
  then have "unat cp div 64 < 32" by (auto simp: word_le_nat_alt)
  then show "byte (byte_char (0xC0 OR drop_bit 6 cp)) = 192 + unat cp div 64"
    using byte_or [where c = "0xC0" and a = 6 and k = 5 and w = "drop_bit 6 cp"] by (simp add: unat_drop)
next
  assume "cp \<le> 0xFFFF"
  then have "unat cp div 4096 < 16" by (auto simp: word_le_nat_alt)
  then show "byte (byte_char (0xE0 OR drop_bit 12 cp)) = 224 + unat cp div 4096"
    using byte_or [where c = "0xE0" and a = 14 and k = 4 and w = "drop_bit 12 cp"] by (simp add: unat_drop)
next
  assume "cp \<le> 0x10FFFF"
  then have "unat cp div 262144 < 8" by (auto simp: word_le_nat_alt)
  then show "byte (byte_char (0xF0 OR drop_bit 18 cp)) = 240 + unat cp div 262144"
    using byte_or [where c = "0xF0" and a = 30 and k = 3 and w = "drop_bit 18 cp"] by (simp add: unat_drop)
qed

definition scalar_value :: "32 word \<Rightarrow> bool" where
  "scalar_value cp \<longleftrightarrow> cp \<le> 0x10FFFF \<and> \<not> high_surrogate cp \<and> \<not> low_surrogate cp"

definition utf8_value :: "string \<Rightarrow> nat" where
  "utf8_value s = (case map byte s of
     [a] \<Rightarrow> a
   | [a, b] \<Rightarrow> (a - 192) * 64 + (b - 128)
   | [a, b, c] \<Rightarrow> (a - 224) * 4096 + (b - 128) * 64 + (c - 128)
   | [a, b, c, d] \<Rightarrow> (a - 240) * 262144 + (b - 128) * 4096 + (c - 128) * 64 + (d - 128)
   | _ \<Rightarrow> 0)"

lemma utf8_encode_value:
  assumes "scalar_value cp" "cap \<ge> 4"
  shows "utf8_value (utf8_encode cp cap) = unat cp"
proof -
  define n where "n = unat cp"
  have dd: "n div 4096 = n div 64 div 64" "n div 262144 = n div 4096 div 64"
    by (simp_all flip: div_mult2_eq)
  have d: "n div 64 mod 64 + n div 4096 * 64 = n div 64" "n div 4096 mod 64 + n div 262144 * 64 = n div 4096"
      "n mod 64 + n div 64 * 64 = n"
    unfolding dd by (rule mod_div_mult_eq)+
  have two: "n div 64 * 64 + n mod 64 = n" using d by linarith
  have three: "n div 4096 * 4096 + n div 64 mod 64 * 64 + n mod 64 = n" using d by linarith
  have four: "n div 262144 * 262144 + n div 4096 mod 64 * 4096 + n div 64 mod 64 * 64 + n mod 64 = n"
    using d by linarith
  have le: "cp \<le> 0x10FFFF" using assms(1) by (simp add: scalar_value_def)
  have asc: "cp \<le> 0x7F \<Longrightarrow> byte (byte_char cp) = n"
    by (simp add: byte_def byte_char_def n_def word_le_nat_alt)
  consider "cp \<le> 0x7F" | "\<not> cp \<le> 0x7F" "cp \<le> 0x7FF" | "\<not> cp \<le> 0x7FF" "cp \<le> 0xFFFF" | "\<not> cp \<le> 0xFFFF"
    by blast
  then show ?thesis
  proof cases
    case 1
    then show ?thesis using assms(2) asc by (simp add: utf8_encode_def utf8_value_def n_def)
  next
    case 2
    then show ?thesis
      using assms(2) lead_bytes(1) [of cp] two by (simp add: utf8_encode_def utf8_value_def continuation_byte n_def)
  next
    case 3
    then have "\<not> cp \<le> 0x7F" by (auto simp: word_le_nat_alt)
    then show ?thesis
      using 3 assms(2) lead_bytes(2) [of cp] three
      by (simp add: utf8_encode_def utf8_value_def continuation_byte unat_drop n_def)
  next
    case 4
    then have "\<not> cp \<le> 0x7F" "\<not> cp \<le> 0x7FF" by (auto simp: word_le_nat_alt)
    then show ?thesis
      using 4 le assms(2) lead_bytes(3) [of cp] four
      by (simp add: utf8_encode_def utf8_value_def continuation_byte unat_drop n_def)
  qed
qed

lemma utf8_char_2:
  "0xC2 \<le> byte a \<Longrightarrow> byte a \<le> 0xDF \<Longrightarrow> 0x80 \<le> byte b \<Longrightarrow> byte b \<le> 0xBF \<Longrightarrow> utf8_char [a, b]"
  by (simp add: utf8_char_def utf8_advance_def utf8_lead_def)

lemma utf8_char_3:
  assumes "0xE0 \<le> byte a" "byte a \<le> 0xEF" "0x80 \<le> byte b" "byte b \<le> 0xBF" "0x80 \<le> byte c" "byte c \<le> 0xBF"
    "byte a = 0xE0 \<longrightarrow> 0xA0 \<le> byte b" "byte a = 0xED \<longrightarrow> byte b \<le> 0x9F"
  shows "utf8_char [a, b, c]"
  using assms by (auto simp: utf8_char_def utf8_advance_def utf8_lead_def Let_def numeral_2_eq_2)

lemma utf8_char_4:
  assumes "0xF0 \<le> byte a" "byte a \<le> 0xF4" "0x80 \<le> byte b" "byte b \<le> 0xBF" "0x80 \<le> byte c" "byte c \<le> 0xBF"
    "0x80 \<le> byte d" "byte d \<le> 0xBF" "byte a = 0xF0 \<longrightarrow> 0x90 \<le> byte b" "byte a = 0xF4 \<longrightarrow> byte b \<le> 0x8F"
  shows "utf8_char [a, b, c, d]"
proof -
  have "{2..3} = {2, 3 :: nat}" by auto
  then have "\<not> (\<exists>k \<in> {2..3}. byte ([a, b, c, d] ! (0 + k)) < 0x80 \<or> byte ([a, b, c, d] ! (0 + k)) > 0xBF)"
    using assms(5-8) by (simp add: not_less)
  then show ?thesis
    using assms(1-4,9,10) by (auto simp: utf8_char_def utf8_advance_def utf8_lead_def Let_def)
qed

lemma surrogate_range: "high_surrogate cp \<or> low_surrogate cp \<longleftrightarrow> 0xD800 \<le> unat cp \<and> unat cp \<le> 0xDFFF"
  by (auto simp: high_surrogate_def low_surrogate_def word_le_nat_alt)

lemma utf8_encode_text:
  assumes "scalar_value cp" "cap \<ge> 4"
  shows "utf8_text (utf8_encode cp cap)"
proof -
  define n where "n = unat cp"
  define q where "q = n div 64"
  define r where "r = n div 4096"
  have q: "n = 64 * q + n mod 64" by (simp add: q_def)
  have "r = q div 64" "n div 262144 = r div 64" by (simp_all add: q_def r_def flip: div_mult2_eq)
  then have r: "q = 64 * r + q mod 64" and s: "r = 64 * (n div 262144) + r mod 64" by simp_all
  have m: "n mod 64 < 64" "q mod 64 < 64" "r mod 64 < 64" by simp_all
  have le: "n \<le> 0x10FFFF" and sur: "\<not> (0xD800 \<le> n \<and> n \<le> 0xDFFF)"
    using assms(1) surrogate_range [of cp] by (auto simp: scalar_value_def n_def word_le_nat_alt)
  have single: "utf8_char a \<Longrightarrow> utf8_text a" for a using utf8_multi [OF _ utf8_nil] by simp
  consider "n \<le> 0x7F" | "0x7F < n" "n \<le> 0x7FF" | "0x7FF < n" "n \<le> 0xFFFF" | "0xFFFF < n" by linarith
  then show ?thesis
  proof cases
    case 1
    then have "cp \<le> 0x7F" "byte (byte_char cp) < 0x80" by (simp_all add: n_def word_le_nat_alt byte_def byte_char_def)
    then show ?thesis using assms(2) by (simp add: utf8_encode_def utf8_ascii utf8_nil)
  next
    case 2
    then have c: "\<not> cp \<le> 0x7F" "cp \<le> 0x7FF" by (auto simp: n_def word_le_nat_alt)
    have "utf8_char [byte_char (0xC0 OR drop_bit 6 cp), byte_char (0x80 OR (cp AND 0x3F))]"
      using 2 lead_bytes(1) [OF c(2)] q m by (intro utf8_char_2) (simp_all add: continuation_byte flip: n_def q_def)
    then show ?thesis using c assms(2) by (simp add: utf8_encode_def single)
  next
    case 3
    then have c: "\<not> cp \<le> 0x7F" "\<not> cp \<le> 0x7FF" "cp \<le> 0xFFFF" by (auto simp: n_def word_le_nat_alt)
    have "utf8_char [byte_char (0xE0 OR drop_bit 12 cp), byte_char (0x80 OR (drop_bit 6 cp AND 0x3F)),
        byte_char (0x80 OR (cp AND 0x3F))]"
      using 3 lead_bytes(2) [OF c(3)] q r m sur
      by (intro utf8_char_3) (simp_all add: continuation_byte unat_drop flip: n_def q_def r_def, linarith+)
    then show ?thesis using c assms(2) by (simp add: utf8_encode_def single)
  next
    case 4
    then have c: "\<not> cp \<le> 0x7F" "\<not> cp \<le> 0x7FF" "\<not> cp \<le> 0xFFFF" "cp \<le> 0x10FFFF"
      using le by (auto simp: n_def word_le_nat_alt)
    have "utf8_char [byte_char (0xF0 OR drop_bit 18 cp), byte_char (0x80 OR (drop_bit 12 cp AND 0x3F)),
        byte_char (0x80 OR (drop_bit 6 cp AND 0x3F)), byte_char (0x80 OR (cp AND 0x3F))]"
      using 4 le lead_bytes(3) [OF c(4)] q r s m
      by (intro utf8_char_4) (simp_all add: continuation_byte unat_drop flip: n_def q_def r_def, linarith+)
    then show ?thesis using c assms(2) by (simp add: utf8_encode_def single)
  qed
qed

lemma utf8_advance_bytes:
  assumes "utf8_advance js len i = Some k" "i \<le> m" "m < k"
  shows "0x80 \<le> byte (js ! m)"
proof -
  obtain n mn mx where l: "utf8_lead (byte (js ! i)) = Some (n, mn, mx)" "k = i + n + 1"
      "mn \<le> byte (js ! (i + 1))" "\<forall>q \<in> {2..n}. 0x80 \<le> byte (js ! (i + q))"
    using assms(1) by (auto simp: utf8_advance_def Let_def not_less split: option.splits if_splits)
  have lead: "0x80 \<le> byte (js ! i)" "0x80 \<le> mn" using l(1) by (auto simp: utf8_lead_def split: if_splits)
  obtain q where q: "m = i + q" "q \<le> n" using assms(2,3) l(2) by (metis Suc_eq_plus1 add_le_cancel_left le_Suc_ex less_Suc_eq_le add_Suc_right)
  consider "q = 0" | "q = 1" | "2 \<le> q" by linarith
  then show ?thesis using l(3,4) lead q by cases auto
qed

lemma copy_run:
  assumes "\<And>m. m < n \<Longrightarrow> js ! (i + m) \<noteq> BSLASH" "i + n \<le> stop" "length out + n < outsz" "i + n \<le> length js"
  shows "copy_loop js True stop outsz i out = copy_loop js True stop outsz (i + n) (out @ take n (drop i js))"
  using assms
proof (induction n arbitrary: i out)
  case (Suc n)
  have "js ! i \<noteq> BSLASH" using Suc.prems(1) [of 0] by simp
  then have "copy_loop js True stop outsz i out = copy_loop js True stop outsz (i + 1) (out @ [js ! i])"
    using Suc.prems(2,3) by (subst copy_loop.simps) simp
  also have "\<dots> = copy_loop js True stop outsz (i + 1 + n) ((out @ [js ! i]) @ take n (drop (i + 1) js))"
    using Suc.prems by (intro Suc.IH) (auto dest: Suc.prems(1) [of "Suc _", simplified])
  also have "take (Suc n) (drop i js) = js ! i # take n (drop (i + 1) js)"
    using Suc.prems(4) by (simp add: Cons_nth_drop_Suc [symmetric])
  then have "(out @ [js ! i]) @ take n (drop (i + 1) js) = out @ take (Suc n) (drop i js)" by simp
  finally show ?case by simp
qed simp

lemma read_hex4_stop: "read_hex4 js len pos = Some v \<Longrightarrow> pos + 4 \<le> stop \<Longrightarrow> read_hex4 js stop pos = Some v"
  by (auto simp: read_hex4_def split: if_splits)

lemma read_hex_loop_bound:
  "read_hex_loop v s = Some w \<Longrightarrow> unat v < 16 ^ k \<Longrightarrow> k + length s \<le> 7 \<Longrightarrow> unat w < 16 ^ (k + length s)"
proof (induction v s arbitrary: k rule: read_hex_loop.induct)
  case (2 v c s)
  obtain h where h: "hex_digit c = Some h" "read_hex_loop (push_bit 4 v OR of_nat h) s = Some w"
    using "2.prems"(1) by (auto split: option.splits)
  have h16: "h < 16" using h(1) by (auto simp: hex_digit_def split: if_splits)
  have k: "k \<le> 6" using "2.prems"(3) by simp
  then have "(16::nat) ^ k \<le> 16 ^ 6" by (intro power_increasing) auto
  then have v: "unat v * 16 + 16 < 2 ^ 32" using "2.prems"(2) by simp
  have "unat (push_bit 4 v) = unat v * 2 ^ 4" using v by (simp add: push_bit_eq_mult unat_word_ariths)
  moreover have "unat (of_nat h :: 32 word) = h" using h16 by (simp add: unat_of_nat)
  ultimately have "unat (push_bit 4 v OR of_nat h) = unat v * 16 + h"
    using nat_or_add [of h 4 "unat v"] h16 by (simp add: unsigned_or_eq)
  also have "\<dots> < 16 ^ Suc k"
  proof -
    have "unat v + 1 \<le> 16 ^ k" using "2.prems"(2) by simp
    then have "(unat v + 1) * 16 \<le> 16 ^ k * 16" by (rule mult_right_mono) simp
    then show ?thesis using h16 by simp
  qed
  finally show ?case using "2.IH" [OF h(1,2), of "Suc k"] "2.prems"(3) by simp
qed simp

lemma read_hex4_bound: "read_hex4 js len pos = Some v \<Longrightarrow> unat v < 2 ^ 16"
proof -
  assume "read_hex4 js len pos = Some v"
  then have "read_hex_loop 0 (take 4 (drop pos js)) = Some v" by (simp add: read_hex4_def split: if_splits)
  moreover have l: "length (take 4 (drop pos js)) \<le> 4" by simp
  ultimately have "unat v < 16 ^ length (take 4 (drop pos js))"
    using read_hex_loop_bound [of 0 "take 4 (drop pos js)" v 0] by simp
  also have "\<dots> \<le> 16 ^ 4" using l by (intro power_increasing) auto
  finally show ?thesis by simp
qed

lemma surrogate_pair_scalar:
  assumes "high_surrogate first" "low_surrogate second"
  shows "scalar_value (0x10000 + push_bit 10 (first - 0xD800) + (second - 0xDC00))"
proof -
  have f: "0xD800 \<le> unat first" "unat first \<le> 0xDBFF" and s: "0xDC00 \<le> unat second" "unat second \<le> 0xDFFF"
    using assms by (auto simp: high_surrogate_def low_surrogate_def word_le_nat_alt)
  have uf: "unat (first - 0xD800) = unat first - 0xD800" and us: "unat (second - 0xDC00) = unat second - 0xDC00"
    using f s by (simp_all add: unat_sub word_le_nat_alt)
  have "unat (push_bit 10 a) = unat a * 1024" if "unat a < 2 ^ 20" for a :: "32 word"
    using that by (simp add: push_bit_eq_mult unat_word_ariths)
  from this [of "first - 0xD800"] have "unat (push_bit 10 (first - 0xD800)) = (unat first - 0xD800) * 1024"
    using uf f by simp
  then have "unat (0x10000 + push_bit 10 (first - 0xD800) + (second - 0xDC00)) =
      0x10000 + (unat first - 0xD800) * 1024 + (unat second - 0xDC00)"
    using us f s by (simp add: unat_word_ariths)
  moreover have "0x10000 + (unat first - 0xD800) * 1024 + (unat second - 0xDC00) \<le> 0x10FFFF" using f s by simp
  ultimately show ?thesis
    unfolding scalar_value_def
    using surrogate_range [of "0x10000 + push_bit 10 (first - 0xD800) + (second - 0xDC00)"]
    by (auto simp: word_le_nat_alt)
qed

lemma escape_char_simple: "c \<in> set simple_escapes \<Longrightarrow> \<exists>d. escape_char c = Some d \<and> byte d < 0x80"
  by (auto simp: simple_escapes_def escape_char_def byte_def)

lemma escape_char_u: "escape_char (CHR ''u'') = None"
  by (simp add: escape_char_def)

text \<open>Decoding a scanned string body appends one fixed text, which is well-formed UTF-8, whatever
  the buffer, as long as the buffer has room for the raw bytes.\<close>

lemma copy_loop_body:
  assumes "string_body js j i"
  shows "\<exists>s. utf8_text s \<and> length s \<le> j - i \<and>
    (\<forall>outsz out. length out + (j - i) < outsz \<longrightarrow> copy_loop js True j outsz i out = out @ s)"
  using assms
proof (induction rule: string_body.induct)
  case body_quote
  then show ?case by (intro exI [of _ "[]"]) (auto simp: utf8_nil copy_loop.simps [of js True j])
next
  case (body_ascii i)
  then obtain s where s: "utf8_text s" "length s \<le> j - (i + 1)"
      "\<And>outsz out. length out + (j - (i + 1)) < outsz \<Longrightarrow> copy_loop js True j outsz (i + 1) out = out @ s" by blast
  have ij: "i + 1 \<le> j" using string_body_bounds [OF body_ascii.hyps(6)] by simp
  have "copy_loop js True j outsz i out = out @ js ! i # s" if "length out + (j - i) < outsz" for outsz out
    using copy_run [of 1 js i j out outsz] body_ascii.hyps ij that s(3) [of "out @ [js ! i]" outsz]
    by (simp add: take_Suc_conv_app_nth)
  then show ?case
    using s(1,2) ij body_ascii.hyps(5) by (intro exI [of _ "js ! i # s"]) (auto intro: utf8_ascii)
next
  case (body_utf8 i k)
  then obtain s where s: "utf8_text s" "length s \<le> j - k"
      "\<And>outsz out. length out + (j - k) < outsz \<Longrightarrow> copy_loop js True j outsz k out = out @ s" by blast
  let ?a = "take (k - i) (drop i js)"
  have ik: "i < k" "k \<le> length js" using utf8_advance_progress [OF body_utf8.hyps(3)] by auto
  have kj: "k \<le> j" using string_body_bounds [OF body_utf8.hyps(4)] by simp
  have nb: "js ! (i + m) \<noteq> BSLASH" if "m < k - i" for m
  proof -
    have "i + m < k" using that by linarith
    then show ?thesis using utf8_advance_bytes [OF body_utf8.hyps(3), of "i + m"] by auto
  qed
  have "copy_loop js True j outsz i out = out @ ?a @ s" if "length out + (j - i) < outsz" for outsz out
    using copy_run [of "k - i" js i j out outsz] nb ik kj that s(3) [of "out @ ?a" outsz] by auto
  moreover have "utf8_text (?a @ s)"
    using utf8_advance_char [OF body_utf8.hyps(3)] s(1) by (intro utf8_multi) simp_all
  ultimately show ?case using s(2) ik kj by (intro exI [of _ "?a @ s"]) auto
next
  case (body_escape i)
  then obtain s where s: "utf8_text s" "length s \<le> j - (i + 2)"
      "\<And>outsz out. length out + (j - (i + 2)) < outsz \<Longrightarrow> copy_loop js True j outsz (i + 2) out = out @ s" by blast
  obtain d where d: "escape_char (js ! (i + 1)) = Some d" "byte d < 0x80"
    using escape_char_simple [OF body_escape.hyps(3)] by blast
  have ij: "i + 2 \<le> j" using string_body_bounds [OF body_escape.hyps(4)] by simp
  have "copy_loop js True j outsz i out = out @ d # s" if "length out + (j - i) < outsz" for outsz out
    using body_escape.hyps d ij that s(3) [of "out @ [d]" outsz] by (subst copy_loop.simps) simp
  then show ?case using s(1,2) d ij by (intro exI [of _ "d # s"]) (auto intro: utf8_ascii)
next
  case (body_code i first)
  then obtain s where s: "utf8_text s" "length s \<le> j - (i + 6)"
      "\<And>outsz out. length out + (j - (i + 6)) < outsz \<Longrightarrow> copy_loop js True j outsz (i + 6) out = out @ s" by blast
  have ij: "i + 6 \<le> j" using string_body_bounds [OF body_code.hyps(7)] by simp
  have r: "read_hex4 js j (i + 2) = Some first" using read_hex4_stop [OF body_code.hyps(4)] ij by simp
  have sc: "scalar_value first"
    using body_code.hyps(5,6) read_hex4_bound [OF body_code.hyps(4)] by (simp add: scalar_value_def word_le_nat_alt)
  let ?e = "utf8_encode first 4"
  have enc: "utf8_encode first cap = ?e" if "cap \<ge> 4" for cap using that by (simp add: utf8_encode_def)
  have "copy_loop js True j outsz i out = out @ ?e @ s" if "length out + (j - i) < outsz" for outsz out
  proof -
    have room: "outsz - length out - 1 \<ge> 4" "length out + 1 < outsz" using that ij by linarith+
    have "length (out @ ?e) + (j - (i + 6)) < outsz"
      using that ij utf8_encode_length [of first 4] by simp
    note s(3) [OF this]
    then show ?thesis
      using body_code.hyps r ij room enc [OF room(1)] by (subst copy_loop.simps) (simp add: escape_char_u)
  qed
  then show ?case
    using s(1,2) ij utf8_encode_text [OF sc, of 4] utf8_encode_length [of first 4]
    by (intro exI [of _ "?e @ s"]) (auto intro: utf8_text_append)
next
  case (body_pair i first second)
  then obtain s where s: "utf8_text s" "length s \<le> j - (i + 12)"
      "\<And>outsz out. length out + (j - (i + 12)) < outsz \<Longrightarrow> copy_loop js True j outsz (i + 12) out = out @ s" by blast
  have ij: "i + 12 \<le> j" using string_body_bounds [OF body_pair.hyps(11)] by simp
  have r: "read_hex4 js j (i + 2) = Some first" "read_hex4 js j (i + 8) = Some second"
    using read_hex4_stop [OF body_pair.hyps(4)] read_hex4_stop [OF body_pair.hyps(9)] ij by simp_all
  let ?cp = "0x10000 + push_bit 10 (first - 0xD800) + (second - 0xDC00)"
  let ?e = "utf8_encode ?cp 4"
  have enc: "utf8_encode ?cp cap = ?e" if "cap \<ge> 4" for cap using that by (simp add: utf8_encode_def)
  have "copy_loop js True j outsz i out = out @ ?e @ s" if "length out + (j - i) < outsz" for outsz out
  proof -
    have room: "outsz - length out - 1 \<ge> 4" "length out + 1 < outsz" using that ij by linarith+
    have "length (out @ ?e) + (j - (i + 12)) < outsz"
      using that ij utf8_encode_length [of ?cp 4] by simp
    note s(3) [OF this]
    moreover have "j - (i + 6) \<ge> 6" using ij by linarith
    ultimately show ?thesis
      using body_pair.hyps r ij room enc [OF room(1)] by (subst copy_loop.simps) (simp add: escape_char_u)
  qed
  then show ?case
    using s(1,2) ij utf8_encode_text [OF surrogate_pair_scalar [OF body_pair.hyps(5,10)], of 4] utf8_encode_length [of ?cp 4]
    by (intro exI [of _ "?e @ s"]) (auto intro: utf8_text_append)
qed

text \<open>The scanner accepts a string token exactly when the text after the quote is a JSON string
  body, a sequence of printable ASCII characters, well-formed UTF-8 sequences, the eight simple
  escapes, escaped code points that are no surrogates, and escaped surrogate pairs, up to the
  first closing quote, and there is a free token; the token then spans that body.\<close>

theorem token_string_grammar:
  "token_string js pos mx parent toks = Some (pos', toks') \<longleftrightarrow>
     length toks < mx \<and> (\<exists>j. string_body js j (pos + 1) \<and> pos' = j + 1 \<and>
       toks' = toks @ [\<lparr>tk_type = JSON_STR, tk_start = int (pos + 1), tk_end = int j, tk_parent = parent\<rparr>])"
  by (simp add: token_string_Some string_end_iff)

text \<open>Decoding a string token that the scanner produced is safe and faithful: the result always
  fits the buffer with its terminator, and when the buffer is larger than the raw token the
  decoded text does not depend on the buffer, is no longer than the raw text and is well-formed
  UTF-8 (no overlong form, no surrogate, nothing above U+10FFFF).\<close>

theorem json_string_decoded:
  assumes "token_string js pos mx parent toks = Some (pos', toks')"
  shows "\<exists>s. utf8_text s \<and> length s \<le> nat (tk_end (last toks') - tk_start (last toks')) \<and>
    (\<forall>outsz. (0 < outsz \<longrightarrow> length (json_copy_str js (last toks') outsz) < outsz) \<and>
       (nat (tk_end (last toks') - tk_start (last toks')) < outsz \<longrightarrow> json_copy_str js (last toks') outsz = s))"
proof -
  obtain j where j: "string_end js (pos + 1) = Some j"
      "toks' = toks @ [\<lparr>tk_type = JSON_STR, tk_start = int (pos + 1), tk_end = int j, tk_parent = parent\<rparr>]"
    using assms token_string_Some by metis
  obtain s where s: "utf8_text s" "length s \<le> j - (pos + 1)"
      "\<forall>outsz out. length out + (j - (pos + 1)) < outsz \<longrightarrow> copy_loop js True j outsz (pos + 1) out = out @ s"
    using copy_loop_body [OF string_end_body [OF j(1)]] by blast
  have n: "nat (1 + int pos) = Suc pos" by simp
  have c: "copy_loop js True j outsz (Suc pos) [] = s" if "j - Suc pos < outsz" for outsz
    using s(3) [rule_format, of "[]" outsz] that by simp
  have "Suc pos \<le> j" using string_end_Some [OF j(1)] by simp
  then show ?thesis
    using s(1,2) j(2) json_copy_str_length [of _ js "last toks'"]
    by (intro exI [of _ s]) (auto simp: json_copy_str_def nat_diff_distrib' n c)
qed

theorem json_string_decoded_witness:
  "\<exists>toks'. token_string (DQUOTE # ''a'' @ [BSLASH, CHR ''n'', DQUOTE]) 0 4 (- 1) [] = Some (5, toks') \<and>
    (\<exists>s. utf8_text s \<and> json_copy_str (DQUOTE # ''a'' @ [BSLASH, CHR ''n'', DQUOTE]) (last toks') 16 = s)"
proof -
  let ?js = "DQUOTE # ''a'' @ [BSLASH, CHR ''n'', DQUOTE]"
  let ?t = "\<lparr>tk_type = JSON_STR, tk_start = 1, tk_end = 4, tk_parent = - 1\<rparr>"
  have t: "token_string ?js 0 4 (- 1) [] = Some (5, [?t])" by code_simp
  from json_string_decoded [OF t] show ?thesis using t by auto
qed

text \<open>The UTF-8 encoder is correct: for every Unicode scalar value the bytes it writes are a
  well-formed sequence that decodes to the same code point, and it never writes more bytes than
  it has room for.\<close>

theorem utf8_encode_correct:
  assumes "scalar_value cp" "4 \<le> cap"
  shows "utf8_text (utf8_encode cp cap) \<and> utf8_value (utf8_encode cp cap) = unat cp \<and>
    length (utf8_encode cp cap) \<le> cap"
  using utf8_encode_text [OF assms] utf8_encode_value [OF assms] utf8_encode_length by blast

theorem utf8_encode_correct_witness:
  "utf8_value (utf8_encode 0x1F600 8) = 128512"
proof -
  have "scalar_value 0x1F600" by (simp add: scalar_value_def high_surrogate_def low_surrogate_def)
  from utf8_encode_correct [OF this, of 8] show ?thesis by simp
qed

end
