(* ===== verification/Json.thy ===== *)
theory Json
  imports Json_Token
begin

text \<open>
  The grammar half of \<open>src/http/json.c\<close>: the state machine of \<open>json_parse\<close> over a stack of frames,
  and the functions that read the token array. The local variables of \<open>json_parse\<close> are the record
  \<open>Scan\<close>; the stack \<open>stack[0..depth-1]\<close> is a list with the top first, so that \<open>depth\<close> is its
  length. \<open>None\<close> is the C result -1.
\<close>

section \<open>The parser\<close>


datatype FrameState = OBJ_KEY_OR_END | OBJ_KEY | OBJ_COLON | OBJ_VALUE | OBJ_NEXT
  | ARR_VALUE_OR_END | ARR_VALUE | ARR_NEXT

record Frame =
  fr_token :: nat
  fr_type :: JsonType
  fr_state :: FrameState
  fr_members :: nat

record Scan =
  sc_at :: nat
  sc_toks :: "JsonToken list"
  sc_stack :: "Frame list"
  sc_done :: bool

definition scan_value :: "string \<Rightarrow> nat \<Rightarrow> int \<Rightarrow> Scan \<Rightarrow> Scan option" where
  "scan_value js mx parent sc =
     (if sc_at sc \<ge> length js then None
      else
        let c = js ! sc_at sc in
        if c = DQUOTE then
          map_option (\<lambda>(pos, toks). sc\<lparr>sc_at := pos, sc_toks := toks\<rparr>)
            (token_string js (sc_at sc) mx parent (sc_toks sc))
        else if c = CHR ''{'' \<or> c = CHR ''['' then
          if length (sc_stack sc) \<ge> JSON_MAX_DEPTH then None
          else
            let ty = (if c = CHR ''{'' then JSON_OBJ else JSON_ARR) in
            (case token_alloc mx ty (sc_at sc) parent (sc_toks sc) of
               None \<Rightarrow> None
             | Some toks \<Rightarrow>
                 Some (sc\<lparr>sc_toks := toks, sc_at := sc_at sc + 1,
                   sc_stack := \<lparr>fr_token = length (sc_toks sc), fr_type = ty,
                     fr_state = (if ty = JSON_OBJ then OBJ_KEY_OR_END else ARR_VALUE_OR_END), fr_members = 0\<rparr>
                     # sc_stack sc\<rparr>))
        else
          map_option (\<lambda>(pos, toks). sc\<lparr>sc_at := pos, sc_toks := toks\<rparr>)
            (token_primitive js (sc_at sc) mx parent (sc_toks sc)))"

definition close_container :: "Frame \<Rightarrow> Scan \<Rightarrow> Scan" where
  "close_container f sc =
     (let pos = sc_at sc + 1; stack = tl (sc_stack sc) in
      sc\<lparr>sc_toks := (sc_toks sc)[fr_token f := (sc_toks sc ! fr_token f)\<lparr>tk_end := int pos\<rparr>],
         sc_at := pos, sc_stack := stack, sc_done := (if stack = [] then True else sc_done sc)\<rparr>)"

text \<open>\<open>duplicate_key\<close>: the loop over the earlier tokens, with its counter of direct children.\<close>

fun duplicate_loop :: "string \<Rightarrow> JsonToken list \<Rightarrow> nat \<Rightarrow> string \<Rightarrow> nat \<Rightarrow> nat list \<Rightarrow> bool" where
  "duplicate_loop js toks parent dkey direct [] = False"
| "duplicate_loop js toks parent dkey direct (prior # ps) =
     (if tk_parent (toks ! prior) \<noteq> int parent then duplicate_loop js toks parent dkey direct ps
      else if even direct \<and> tk_type (toks ! prior) = JSON_STR \<and>
           cstr (json_copy_str js (toks ! prior) JSON_MAX_KEY_BYTES) = dkey then True
      else duplicate_loop js toks parent dkey (direct + 1) ps)"

definition duplicate_key :: "string \<Rightarrow> JsonToken list \<Rightarrow> nat \<Rightarrow> nat \<Rightarrow> bool" where
  "duplicate_key js toks parent key =
     duplicate_loop js toks parent (cstr (json_copy_str js (toks ! key) JSON_MAX_KEY_BYTES)) 0 [parent + 1..<key]"

definition set_state :: "FrameState \<Rightarrow> Scan \<Rightarrow> Scan" where
  "set_state st sc = sc\<lparr>sc_stack := (case sc_stack sc of [] \<Rightarrow> [] | f # fs \<Rightarrow> f\<lparr>fr_state := st\<rparr> # fs)\<rparr>"

definition scan_object_key :: "string \<Rightarrow> nat \<Rightarrow> Frame \<Rightarrow> Scan \<Rightarrow> Scan option" where
  "scan_object_key js mx f sc =
     (if js ! sc_at sc = CHR ''}'' then
        if fr_state f = OBJ_KEY then None else Some (close_container f sc)
      else if js ! sc_at sc \<noteq> DQUOTE then None
      else
        (case token_string js (sc_at sc) mx (int (fr_token f)) (sc_toks sc) of
           None \<Rightarrow> None
         | Some (pos, toks) \<Rightarrow>
             let key = length (sc_toks sc); key_len = tk_end (toks ! key) - tk_start (toks ! key) in
             if fr_members f \<ge> JSON_MAX_OBJECT_KEYS then None
             else if key_len < 0 \<or> key_len \<ge> int JSON_MAX_KEY_BYTES then None
             else if duplicate_key js toks (fr_token f) key then None
             else Some (sc\<lparr>sc_at := pos, sc_toks := toks,
                     sc_stack := f\<lparr>fr_members := fr_members f + 1, fr_state := OBJ_COLON\<rparr> # tl (sc_stack sc)\<rparr>)))"

definition scan_array_element :: "string \<Rightarrow> nat \<Rightarrow> Frame \<Rightarrow> Scan \<Rightarrow> Scan option" where
  "scan_array_element js mx f sc =
     (if js ! sc_at sc = CHR '']'' then
        if fr_state f = ARR_VALUE then None else Some (close_container f sc)
      else scan_value js mx (int (fr_token f)) (set_state ARR_NEXT sc))"

definition scan_separator :: "string \<Rightarrow> Frame \<Rightarrow> char \<Rightarrow> FrameState \<Rightarrow> Scan \<Rightarrow> Scan option" where
  "scan_separator js f closer nxt sc =
     (if js ! sc_at sc = CHR '','' then Some ((set_state nxt sc)\<lparr>sc_at := sc_at sc + 1\<rparr>)
      else if js ! sc_at sc \<noteq> closer then None
      else Some (close_container f sc))"

definition scan_frame :: "string \<Rightarrow> nat \<Rightarrow> Scan \<Rightarrow> Scan option" where
  "scan_frame js mx sc =
     (let f = hd (sc_stack sc) in
      (case fr_state f of
         OBJ_KEY_OR_END \<Rightarrow> scan_object_key js mx f sc
       | OBJ_KEY \<Rightarrow> scan_object_key js mx f sc
       | OBJ_COLON \<Rightarrow>
           if js ! sc_at sc \<noteq> CHR '':'' then None
           else Some ((set_state OBJ_VALUE sc)\<lparr>sc_at := sc_at sc + 1\<rparr>)
       | OBJ_VALUE \<Rightarrow> scan_value js mx (int (fr_token f)) (set_state OBJ_NEXT sc)
       | OBJ_NEXT \<Rightarrow> scan_separator js f (CHR ''}'') OBJ_KEY sc
       | ARR_VALUE_OR_END \<Rightarrow> scan_array_element js mx f sc
       | ARR_VALUE \<Rightarrow> scan_array_element js mx f sc
       | ARR_NEXT \<Rightarrow> scan_separator js f (CHR '']'') ARR_VALUE sc))"

definition skip_space :: "string \<Rightarrow> nat \<Rightarrow> nat" where
  "skip_space js pos = pos + length (takeWhile is_space (drop pos js))"

section \<open>Progress\<close>

lemma scan_value_progress:
  assumes "scan_value js mx parent sc = Some sc'"
  shows "sc_at sc < sc_at sc'" "sc_at sc' \<le> length js"
  using assms string_end_Some token_primitive_Some
  by (force simp: scan_value_def Let_def token_string_Some result_iff split: if_splits option.splits)+

lemma set_state_at [simp]: "sc_at (set_state st sc) = sc_at sc" "sc_toks (set_state st sc) = sc_toks sc"
  "sc_done (set_state st sc) = sc_done sc" "length (sc_stack (set_state st sc)) = length (sc_stack sc)"
  by (simp_all add: set_state_def split: list.splits)

lemma close_container_at [simp]: "sc_at (close_container f sc) = sc_at sc + 1"
  by (simp add: close_container_def Let_def)

lemma scan_frame_progress:
  assumes "scan_frame js mx sc = Some sc'" "sc_at sc < length js"
  shows "sc_at sc < sc_at sc' \<and> sc_at sc' \<le> length js"
proof -
  have v: "scan_value js mx p (set_state st sc) = Some sc' \<Longrightarrow> ?thesis" for p st
    using scan_value_progress [of js mx p "set_state st sc" sc'] by simp
  have k: "scan_object_key js mx f sc = Some sc' \<Longrightarrow> ?thesis" for f
    using assms(2) string_end_Some [of js "sc_at sc + 1"]
    by (auto simp: scan_object_key_def Let_def token_string_Some split: if_splits option.splits)
  have a: "scan_array_element js mx f sc = Some sc' \<Longrightarrow> ?thesis" for f
    using assms(2) v by (auto simp: scan_array_element_def split: if_splits)
  have s: "scan_separator js f c nxt sc = Some sc' \<Longrightarrow> ?thesis" for f c nxt
    using assms(2) by (auto simp: scan_separator_def split: if_splits)
  show ?thesis
    using assms v k a s
    by (cases "fr_state (hd (sc_stack sc))") (auto simp: scan_frame_def Let_def split: if_splits)
qed

lemma skip_space_le: "skip_space js pos \<le> max pos (length js)"
  using length_takeWhile_le [of is_space "drop pos js"] by (auto simp: skip_space_def max_def)

lemma skip_space_ge: "pos \<le> skip_space js pos"
  by (simp add: skip_space_def)

function json_loop :: "string \<Rightarrow> nat \<Rightarrow> bool \<Rightarrow> Scan \<Rightarrow> (bool \<times> Scan) option" where
  "json_loop js mx seen sc =
     (let sc1 = sc\<lparr>sc_at := skip_space js (sc_at sc)\<rparr> in
      if sc_at sc1 \<ge> length js then Some (seen, sc1)
      else if sc_stack sc1 = [] then
        if seen \<or> sc_done sc1 then None
        else
          (case scan_value js mx (- 1) sc1 of
             None \<Rightarrow> None
           | Some sc2 \<Rightarrow> json_loop js mx True (if sc_stack sc2 = [] then sc2\<lparr>sc_done := True\<rparr> else sc2))
      else (case scan_frame js mx sc1 of None \<Rightarrow> None | Some sc2 \<Rightarrow> json_loop js mx seen sc2))"
  by pat_completeness auto
termination
proof (relation "measure (\<lambda>(js, mx, seen, sc). length js - sc_at sc)", goal_cases)
  case (2 js mx seen sc sc1 sc2)
  then show ?case
    using scan_value_progress [of js mx "- 1" sc1 sc2] skip_space_ge [of "sc_at sc" js] by auto
next
  case (3 js mx seen sc sc1 sc2)
  then show ?case
    using scan_frame_progress [of js mx sc1 sc2] skip_space_ge [of "sc_at sc" js] by auto
qed simp

declare json_loop.simps [simp del]

definition scan_start :: Scan where
  "scan_start = \<lparr>sc_at = 0, sc_toks = [], sc_stack = [], sc_done = False\<rparr>"

definition json_parse :: "string \<Rightarrow> nat \<Rightarrow> JsonToken list option" where
  "json_parse js mx =
     (if mx = 0 \<or> length js = 0 \<or> length js > INT_MAX then None
      else
        (case json_loop js mx False scan_start of
           None \<Rightarrow> None
         | Some (seen, sc) \<Rightarrow> if seen \<and> sc_done sc \<and> sc_stack sc = [] then Some (sc_toks sc) else None))"

section \<open>Reading tokens\<close>

fun object_get_loop :: "string \<Rightarrow> JsonToken list \<Rightarrow> nat \<Rightarrow> string \<Rightarrow> nat \<Rightarrow> nat list \<Rightarrow> nat option" where
  "object_get_loop js toks obj key direct [] = None"
| "object_get_loop js toks obj key direct (i # is) =
     (if \<not> tk_start (toks ! i) < tk_end (toks ! obj) then None
      else if tk_parent (toks ! i) \<noteq> int obj then object_get_loop js toks obj key direct is
      else if even direct \<and> tk_type (toks ! i) = JSON_STR \<and>
           0 \<le> tk_end (toks ! i) - tk_start (toks ! i) \<and>
           tk_end (toks ! i) - tk_start (toks ! i) < int JSON_MAX_KEY_BYTES \<and>
           cstr (json_copy_str js (toks ! i) JSON_MAX_KEY_BYTES) = key
      then (if i + 1 < length toks then Some (i + 1) else None)
      else object_get_loop js toks obj key (direct + 1) is)"

definition json_object_get :: "string \<Rightarrow> JsonToken list \<Rightarrow> int \<Rightarrow> string \<Rightarrow> nat option" where
  "json_object_get js toks obj key =
     (if obj < 0 \<or> obj \<ge> int (length toks) \<or> tk_type (toks ! nat obj) \<noteq> JSON_OBJ then None
      else if length key \<ge> JSON_MAX_KEY_BYTES then None
      else object_get_loop js toks (nat obj) key 0 [nat obj + 1..<length toks])"

fun array_get_loop :: "JsonToken list \<Rightarrow> nat \<Rightarrow> int \<Rightarrow> int \<Rightarrow> nat list \<Rightarrow> nat option" where
  "array_get_loop toks arr want idx [] = None"
| "array_get_loop toks arr want idx (i # is) =
     (if \<not> tk_start (toks ! i) < tk_end (toks ! arr) then None
      else if tk_parent (toks ! i) \<noteq> int arr then array_get_loop toks arr want idx is
      else if idx = want then Some i
      else array_get_loop toks arr want (idx + 1) is)"

text \<open>One step of a path: a key of an object or a decimal index of an array.\<close>

definition path_step :: "string \<Rightarrow> JsonToken list \<Rightarrow> nat \<Rightarrow> string \<Rightarrow> nat option" where
  "path_step js toks cur seg =
     (if tk_type (toks ! cur) = JSON_OBJ then json_object_get js toks (int cur) seg
      else if tk_type (toks ! cur) = JSON_ARR then
        (case strtol10 seg of (want, rest, erange) \<Rightarrow>
           if erange \<or> rest = seg \<or> rest \<noteq> [] \<or> want < 0 \<or> want > int INT_MAX then None
           else array_get_loop toks cur want 0 [cur + 1..<length toks])
      else None)"

text \<open>The loop of \<open>json_path_get\<close>; \<open>None\<close> as the current token is the C value -1, which ends the loop.\<close>

fun path_loop :: "string \<Rightarrow> JsonToken list \<Rightarrow> nat \<Rightarrow> nat option \<Rightarrow> string \<Rightarrow> nat option" where
  "path_loop js toks 0 cur p = (if p = [] then cur else None)"
| "path_loop js toks (Suc guard) cur p =
     (case cur of
        None \<Rightarrow> None
      | Some i \<Rightarrow>
          if p = [] then Some i
          else
            let seg = takeWhile (\<lambda>c. c \<noteq> CHR ''.'') p; rest = dropWhile (\<lambda>c. c \<noteq> CHR ''.'') p in
            if length seg \<ge> JSON_PATH_SEGMENT then None
            else if i \<ge> length toks then None
            else
              (case path_step js toks i seg of
                 None \<Rightarrow> None
               | Some k \<Rightarrow> path_loop js toks guard (Some k) (drop 1 rest)))"

definition json_path_get :: "string \<Rightarrow> JsonToken list \<Rightarrow> int \<Rightarrow> string \<Rightarrow> nat option" where
  "json_path_get js toks root path =
     (if root < 0 \<or> root \<ge> int (length toks) then None
      else path_loop js toks JSON_MAX_DEPTH (Some (nat root)) path)"

definition token_text :: "string \<Rightarrow> JsonToken \<Rightarrow> nat \<Rightarrow> string option" where
  "token_text js t cap =
     (if cap < 2 \<or> tk_type t \<noteq> JSON_PRIM \<or> tk_start t < 0 \<or> tk_end t \<le> tk_start t then None
      else
        let n = nat (tk_end t - tk_start t) in
        if n \<ge> cap then None else Some (take n (drop (nat (tk_start t)) js)))"

definition json_token_long_checked :: "string \<Rightarrow> JsonToken \<Rightarrow> int option" where
  "json_token_long_checked js t =
     (case token_text js t 128 of
        None \<Rightarrow> None
      | Some buf \<Rightarrow>
          (case strtol10 (cstr buf) of (v, rest, erange) \<Rightarrow>
             if erange \<or> rest = cstr buf \<or> rest \<noteq> [] then None else Some v))"

definition json_token_bool_checked :: "string \<Rightarrow> JsonToken \<Rightarrow> bool option" where
  "json_token_bool_checked js t =
     (if tk_type t \<noteq> JSON_PRIM \<or> tk_start t < 0 \<or> tk_end t < tk_start t then None
      else
        let n = nat (tk_end t - tk_start t); s = take n (drop (nat (tk_start t)) js) in
        if n = 4 \<and> s = ''true'' then Some True
        else if n = 5 \<and> s = ''false'' then Some False
        else None)"

definition json_token_long :: "string \<Rightarrow> JsonToken \<Rightarrow> int" where
  "json_token_long js t = (case json_token_long_checked js t of None \<Rightarrow> 0 | Some v \<Rightarrow> v)"

section \<open>Nesting\<close>

definition container :: "JsonToken \<Rightarrow> bool" where
  "container t \<longleftrightarrow> tk_type t = JSON_OBJ \<or> tk_type t = JSON_ARR"

text \<open>Token \<open>k\<close> while the containers \<open>opn\<close> are open and the scanner is at \<open>pos\<close>: its extent, and
  its place inside its parent.\<close>

definition extent_ok :: "nat set \<Rightarrow> nat \<Rightarrow> JsonToken list \<Rightarrow> nat \<Rightarrow> bool" where
  "extent_ok opn pos toks k \<longleftrightarrow> 0 \<le> tk_start (toks ! k) \<and>
     (if k \<in> opn then container (toks ! k) \<and> tk_start (toks ! k) < int pos
      else tk_start (toks ! k) \<le> tk_end (toks ! k) \<and> tk_end (toks ! k) \<le> int pos)"

definition parent_ok :: "nat set \<Rightarrow> JsonToken list \<Rightarrow> nat \<Rightarrow> bool" where
  "parent_ok opn toks k \<longleftrightarrow>
     k = 0 \<and> tk_parent (toks ! k) = - 1 \<or>
     (\<exists>p<k. tk_parent (toks ! k) = int p \<and> container (toks ! p) \<and> tk_start (toks ! p) < tk_start (toks ! k) \<and>
        (p \<notin> opn \<longrightarrow> k \<notin> opn \<and> tk_end (toks ! k) < tk_end (toks ! p)))"

definition tok_inv :: "nat set \<Rightarrow> nat \<Rightarrow> JsonToken list \<Rightarrow> bool" where
  "tok_inv opn pos toks \<longleftrightarrow> (\<forall>k<length toks. extent_ok opn pos toks k \<and> parent_ok opn toks k)"

lemma tok_inv_mono: "tok_inv opn pos toks \<Longrightarrow> pos \<le> pos' \<Longrightarrow> tok_inv opn pos' toks"
  by (fastforce simp: tok_inv_def extent_ok_def split: if_splits)

text \<open>The parent a new token gets: none for the first token, otherwise an open container.\<close>

definition new_parent :: "nat set \<Rightarrow> JsonToken list \<Rightarrow> int \<Rightarrow> bool" where
  "new_parent opn toks p \<longleftrightarrow> (toks = [] \<and> p = - 1) \<or> (\<exists>q \<in> opn. q < length toks \<and> p = int q)"

lemma tok_inv_snoc:
  assumes inv: "tok_inv opn pos toks" and sub: "opn \<subseteq> {..<length toks}" and par: "new_parent opn toks (tk_parent t)"
    and start: "int pos \<le> tk_start t" and le: "pos \<le> pos'"
    and opn': "opn' = opn \<and> tk_start t \<le> tk_end t \<and> tk_end t \<le> int pos' \<or>
      opn' = insert (length toks) opn \<and> container t \<and> tk_start t < int pos'"
  shows "tok_inv opn' pos' (toks @ [t])"
proof -
  have old: "extent_ok opn' pos' (toks @ [t]) k \<and> parent_ok opn' (toks @ [t]) k" if k: "k < length toks" for k
  proof
    have mem: "j \<in> opn' \<longleftrightarrow> j \<in> opn" if "j < length toks" for j using opn' that by auto
    have "extent_ok opn pos' toks k" using tok_inv_mono [OF inv le] k by (simp add: tok_inv_def)
    then show "extent_ok opn' pos' (toks @ [t]) k" using k mem by (simp add: extent_ok_def nth_append)
    have "parent_ok opn toks k" using inv k by (simp add: tok_inv_def)
    then show "parent_ok opn' (toks @ [t]) k" using k mem by (fastforce simp: parent_ok_def nth_append)
  qed
  have "extent_ok opn' pos' (toks @ [t]) (length toks)"
    using opn' start sub by (auto simp: extent_ok_def)
  moreover have "parent_ok opn' (toks @ [t]) (length toks)"
  proof (cases "toks = []")
    case True
    then show ?thesis using par sub by (auto simp: parent_ok_def new_parent_def)
  next
    case False
    then obtain q where q: "q \<in> opn" "q < length toks" "tk_parent t = int q" using par by (auto simp: new_parent_def)
    then have "extent_ok opn pos toks q" using inv by (simp add: tok_inv_def)
    then have "container (toks ! q)" "tk_start (toks ! q) < tk_start t" using q start by (auto simp: extent_ok_def)
    then show ?thesis using q opn' by (auto simp: parent_ok_def nth_append intro: exI [of _ q])
  qed
  ultimately show ?thesis using old by (simp add: tok_inv_def less_Suc_eq)
qed

lemma tok_inv_close:
  assumes inv: "tok_inv opn pos toks" and f: "f \<in> opn" "f < length toks" and top: "\<forall>k \<in> opn. k \<le> f"
  shows "tok_inv (opn - {f}) (pos + 1) (toks[f := (toks ! f)\<lparr>tk_end := int (pos + 1)\<rparr>])"
proof -
  let ?t = "(toks ! f)\<lparr>tk_end := int (pos + 1)\<rparr>" and ?ts = "toks[f := (toks ! f)\<lparr>tk_end := int (pos + 1)\<rparr>]"
  have nth: "?ts ! k = (if k = f then ?t else toks ! k)" if "k < length toks" for k using that f(2) by simp
  have e: "extent_ok opn pos toks k" "parent_ok opn toks k" if "k < length toks" for k
    using inv that by (auto simp: tok_inv_def)
  have "extent_ok (opn - {f}) (pos + 1) ?ts k" if k: "k < length toks" for k
    using e(1) [OF k] f(1) k by (cases "k = f") (auto simp: extent_ok_def container_def split: if_splits)
  moreover have "parent_ok (opn - {f}) ?ts k" if k: "k < length toks" for k
  proof -
    consider "k = 0 \<and> tk_parent (toks ! k) = - 1"
      | p where "p < k" "tk_parent (toks ! k) = int p" "container (toks ! p)" "tk_start (toks ! p) < tk_start (toks ! k)"
        "p \<notin> opn \<longrightarrow> k \<notin> opn \<and> tk_end (toks ! k) < tk_end (toks ! p)"
      using e(2) [OF k] by (auto simp: parent_ok_def)
    then show ?thesis
    proof cases
      case 1
      then show ?thesis using k f(2) by (auto simp: parent_ok_def nth_list_update)
    next
      case 2
      have "k \<notin> opn \<and> tk_end (toks ! k) \<le> int pos" if "p = f"
      proof -
        have "k \<notin> opn" using that 2(1) top by (meson leD)
        then show ?thesis using e(1) [OF k] by (simp add: extent_ok_def)
      qed
      moreover have "k \<noteq> f" if "p \<notin> opn" using that 2(5) f(1) by auto
      ultimately show ?thesis
        using 2 k f(2) by (cases "p = f"; cases "k = f") (auto simp: parent_ok_def container_def intro!: exI [of _ p])
    qed
  qed
  ultimately show ?thesis by (simp add: tok_inv_def)
qed

abbreviation open_tokens :: "Scan \<Rightarrow> nat set" where
  "open_tokens sc \<equiv> fr_token ` set (sc_stack sc)"

definition scan_inv :: "nat \<Rightarrow> Scan \<Rightarrow> bool" where
  "scan_inv mx sc \<longleftrightarrow> tok_inv (open_tokens sc) (sc_at sc) (sc_toks sc) \<and>
     sorted_wrt (\<lambda>a b. b < a) (map fr_token (sc_stack sc)) \<and> open_tokens sc \<subseteq> {..<length (sc_toks sc)} \<and>
     length (sc_toks sc) \<le> mx \<and> length (sc_stack sc) \<le> JSON_MAX_DEPTH"

lemma open_tokens_set_state [simp]: "open_tokens (set_state st sc) = open_tokens sc"
  "map fr_token (sc_stack (set_state st sc)) = map fr_token (sc_stack sc)"
  by (cases "sc_stack sc"; simp add: set_state_def)+

lemma scan_inv_set_state [simp]: "scan_inv mx (set_state st sc) = scan_inv mx sc"
  by (simp add: scan_inv_def)

lemma scan_inv_at: "scan_inv mx sc \<Longrightarrow> sc_at sc \<le> pos \<Longrightarrow> scan_inv mx (sc\<lparr>sc_at := pos\<rparr>)"
  by (auto simp: scan_inv_def intro: tok_inv_mono)

lemma scan_inv_add:
  assumes "scan_inv mx sc" "new_parent (open_tokens sc) (sc_toks sc) (tk_parent t)" "int (sc_at sc) \<le> tk_start t"
    "sc_at sc \<le> pos" "tk_start t \<le> tk_end t" "tk_end t \<le> int pos" "length (sc_toks sc) < mx"
  shows "scan_inv mx (sc\<lparr>sc_at := pos, sc_toks := sc_toks sc @ [t]\<rparr>)"
  using assms tok_inv_snoc [of "open_tokens sc" "sc_at sc" "sc_toks sc" t pos "open_tokens sc"]
  by (auto simp: scan_inv_def)

lemma scan_value_inv:
  assumes "scan_value js mx p sc = Some sc'" "scan_inv mx sc" "new_parent (open_tokens sc) (sc_toks sc) p"
  shows "scan_inv mx sc'"
proof -
  have at: "sc_at sc < length js" using assms(1) by (auto simp: scan_value_def split: if_splits)
  let ?c = "js ! sc_at sc"
  consider (str) "?c = DQUOTE" | (nest) "?c \<noteq> DQUOTE" "?c = CHR ''{'' \<or> ?c = CHR ''[''"
    | (prim) "?c \<noteq> DQUOTE" "?c \<noteq> CHR ''{''" "?c \<noteq> CHR ''[''" by blast
  then show ?thesis
  proof cases
    case str
    then obtain pos toks where t: "token_string js (sc_at sc) mx p (sc_toks sc) = Some (pos, toks)"
        "sc' = sc\<lparr>sc_at := pos, sc_toks := toks\<rparr>"
      using assms(1) at by (auto simp: scan_value_def Let_def)
    obtain j where j: "length (sc_toks sc) < mx" "string_end js (sc_at sc + 1) = Some j" "pos = j + 1"
        "toks = sc_toks sc @ [\<lparr>tk_type = JSON_STR, tk_start = int (sc_at sc + 1), tk_end = int j, tk_parent = p\<rparr>]"
      using t(1) unfolding token_string_Some by blast
    show ?thesis
      unfolding t(2) j(4) using j string_end_Some [OF j(2)] assms(2,3) by (intro scan_inv_add) auto
  next
    case prim
    then obtain pos toks where t: "token_primitive js (sc_at sc) mx p (sc_toks sc) = Some (pos, toks)"
        "sc' = sc\<lparr>sc_at := pos, sc_toks := toks\<rparr>"
      using assms(1) at by (auto simp: scan_value_def Let_def)
    note j = token_primitive_Some [OF t(1)]
    show ?thesis
      unfolding t(2) conjunct2 [OF conjunct2 [OF conjunct2 [OF j]]]
      using j assms(2,3) by (intro scan_inv_add) auto
  next
    case nest
    let ?n = "length (sc_toks sc)" and ?ty = "if ?c = CHR ''{'' then JSON_OBJ else JSON_ARR"
    let ?t = "\<lparr>tk_type = ?ty, tk_start = int (sc_at sc), tk_end = - 1, tk_parent = p\<rparr>"
    have l: "?n < mx" "length (sc_stack sc) < JSON_MAX_DEPTH"
        "sc' = sc\<lparr>sc_toks := sc_toks sc @ [?t], sc_at := sc_at sc + 1,
           sc_stack := \<lparr>fr_token = ?n, fr_type = ?ty,
             fr_state = (if ?ty = JSON_OBJ then OBJ_KEY_OR_END else ARR_VALUE_OR_END), fr_members = 0\<rparr> # sc_stack sc\<rparr>"
      using assms(1) at nest by (auto simp: scan_value_def Let_def token_alloc_def split: if_splits)
    have "tok_inv (insert ?n (open_tokens sc)) (sc_at sc + 1) (sc_toks sc @ [?t])"
      using assms(2,3) by (intro tok_inv_snoc [of "open_tokens sc" "sc_at sc"]) (auto simp: scan_inv_def container_def)
    then show ?thesis using assms(2) l by (auto simp: scan_inv_def)
  qed
qed

lemma close_container_inv:
  assumes "scan_inv mx sc" "sc_stack sc = f # fs"
  shows "scan_inv mx (close_container f sc)"
proof -
  have s: "tok_inv (open_tokens sc) (sc_at sc) (sc_toks sc)" "\<forall>g \<in> set fs. fr_token g < fr_token f"
      "fr_token f < length (sc_toks sc)"
    using assms by (auto simp: scan_inv_def)
  then have o: "open_tokens sc - {fr_token f} = fr_token ` set fs" using assms(2) by force
  have "tok_inv (open_tokens sc - {fr_token f}) (sc_at sc + 1)
      ((sc_toks sc)[fr_token f := (sc_toks sc ! fr_token f)\<lparr>tk_end := int (sc_at sc + 1)\<rparr>])"
    using s assms(2) by (intro tok_inv_close) auto
  then show ?thesis
    using assms o by (auto simp: scan_inv_def close_container_def Let_def)
qed

lemma scan_frame_inv:
  assumes "scan_frame js mx sc = Some sc'" "scan_inv mx sc" "sc_stack sc = f # fs"
  shows "scan_inv mx sc'"
proof -
  have np: "new_parent (open_tokens sc) (sc_toks sc) (int (fr_token f))"
    using assms(2,3) by (auto simp: new_parent_def scan_inv_def)
  have v: "scan_inv mx sc'" if "scan_value js mx (int (fr_token f)) (set_state st sc) = Some sc'" for st
    using scan_value_inv [OF that] assms(2) np by simp
  have c: "scan_inv mx (close_container f sc)" by (rule close_container_inv [OF assms(2,3)])
  have k: "scan_inv mx sc'" if key: "scan_object_key js mx f sc = Some sc'"
  proof (cases "js ! sc_at sc = CHR ''}''")
    case True
    then show ?thesis using key c by (auto simp: scan_object_key_def split: if_splits)
  next
    case False
    then obtain pos toks where t: "token_string js (sc_at sc) mx (int (fr_token f)) (sc_toks sc) = Some (pos, toks)"
        "sc' = sc\<lparr>sc_at := pos, sc_toks := toks,
           sc_stack := f\<lparr>fr_members := fr_members f + 1, fr_state := OBJ_COLON\<rparr> # fs\<rparr>"
      using key assms(3) by (auto simp: scan_object_key_def Let_def split: if_splits option.splits)
    obtain j where j: "length (sc_toks sc) < mx" "string_end js (sc_at sc + 1) = Some j" "pos = j + 1"
        "toks = sc_toks sc @ [\<lparr>tk_type = JSON_STR, tk_start = int (sc_at sc + 1), tk_end = int j, tk_parent = int (fr_token f)\<rparr>]"
      using t(1) unfolding token_string_Some by blast
    have "scan_inv mx (sc\<lparr>sc_at := pos, sc_toks := toks\<rparr>)"
      unfolding j(4) using j string_end_Some [OF j(2)] assms(2) np by (intro scan_inv_add) auto
    then show ?thesis unfolding t(2) using assms(3) by (simp add: scan_inv_def)
  qed
  have a: "scan_inv mx sc'" if "scan_array_element js mx f sc = Some sc'"
    using that v c by (auto simp: scan_array_element_def split: if_splits)
  have s: "scan_inv mx sc'" if "scan_separator js f ch nxt sc = Some sc'" for ch nxt
    using that c scan_inv_at [of mx "set_state nxt sc" "sc_at sc + 1"] assms(2)
    by (auto simp: scan_separator_def split: if_splits)
  show ?thesis
    using assms v k a s scan_inv_at [of mx "set_state OBJ_VALUE sc" "sc_at sc + 1"]
    by (cases "fr_state f") (auto simp: scan_frame_def Let_def split: if_splits)
qed

lemma scan_value_grows: "scan_value js mx p sc = Some sc' \<Longrightarrow> length (sc_toks sc') = length (sc_toks sc) + 1"
  by (auto simp: scan_value_def Let_def token_string_Some token_alloc_def split: if_splits option.splits
      dest!: token_primitive_Some)

lemma scan_frame_toks: "scan_frame js mx sc = Some sc' \<Longrightarrow> sc_toks sc \<noteq> [] \<Longrightarrow> sc_toks sc' \<noteq> []"
  by (cases "fr_state (hd (sc_stack sc))")
    (auto simp: scan_frame_def scan_object_key_def scan_array_element_def scan_separator_def close_container_def
      Let_def token_string_Some split: if_splits option.splits dest!: scan_value_grows)

text \<open>Rule for properties of all states of the parser: they hold at the start and every step
  (skipping blanks, the root value, a step of the top frame) keeps them.\<close>

lemma json_loop_invariant:
  assumes run: "json_loop js mx seen sc = Some (seen', sc')" and start: "I seen sc"
    and blank: "\<And>seen sc pos. I seen sc \<Longrightarrow> sc_at sc \<le> pos \<Longrightarrow> pos \<le> max (sc_at sc) (length js) \<Longrightarrow>
      I seen (sc\<lparr>sc_at := pos\<rparr>)"
    and root: "\<And>sc sc' d. I False sc \<Longrightarrow> sc_stack sc = [] \<Longrightarrow> scan_value js mx (- 1) sc = Some sc' \<Longrightarrow>
      I True (sc'\<lparr>sc_done := d\<rparr>)"
    and frame: "\<And>seen sc sc'. I seen sc \<Longrightarrow> sc_stack sc \<noteq> [] \<Longrightarrow> sc_at sc < length js \<Longrightarrow>
      scan_frame js mx sc = Some sc' \<Longrightarrow> I seen sc'"
  shows "I seen' sc'"
  using run start
proof (induction "length js - sc_at sc" arbitrary: seen sc rule: less_induct)
  case less
  define sc1 where "sc1 = sc\<lparr>sc_at := skip_space js (sc_at sc)\<rparr>"
  have i1: "I seen sc1" unfolding sc1_def by (rule blank [OF less.prems(2) skip_space_ge skip_space_le])
  have ge: "sc_at sc \<le> sc_at sc1" by (simp add: sc1_def skip_space_ge)
  note run = less.prems(1) [unfolded json_loop.simps [of js mx seen sc] Let_def sc1_def [symmetric]]
  show ?case
  proof (cases "sc_at sc1 \<ge> length js")
    case True
    then show ?thesis using run i1 by simp
  next
    case False
    show ?thesis
    proof (cases "sc_stack sc1 = []")
      case True
      then obtain sc2 where s: "\<not> seen" "scan_value js mx (- 1) sc1 = Some sc2"
          "json_loop js mx True (if sc_stack sc2 = [] then sc2\<lparr>sc_done := True\<rparr> else sc2) = Some (seen', sc')"
        using run False by (auto split: if_splits option.splits)
      let ?sc3 = "sc2\<lparr>sc_done := (if sc_stack sc2 = [] then True else sc_done sc2)\<rparr>"
      have eq: "(if sc_stack sc2 = [] then sc2\<lparr>sc_done := True\<rparr> else sc2) = ?sc3" by simp
      have "I True ?sc3" using root [OF _ True s(2)] i1 s(1) by simp
      then show ?thesis
        using less.hyps [of ?sc3 True] s(3) scan_value_progress [OF s(2)] ge False unfolding eq by simp
    next
      case st: False
      then obtain sc2 where s: "scan_frame js mx sc1 = Some sc2" "json_loop js mx seen sc2 = Some (seen', sc')"
        using run False by (auto split: option.splits)
      have "length js - sc_at sc2 < length js - sc_at sc"
        using scan_frame_progress [OF s(1)] ge False by simp linarith
      then show ?thesis using less.hyps [of sc2 seen] frame [OF i1 st _ s(1)] s(2) False by simp
    qed
  qed
qed

definition parse_inv :: "nat \<Rightarrow> bool \<Rightarrow> Scan \<Rightarrow> bool" where
  "parse_inv mx seen sc \<longleftrightarrow> scan_inv mx sc \<and> (seen \<longleftrightarrow> sc_toks sc \<noteq> []) \<and> (sc_stack sc \<noteq> [] \<longrightarrow> seen)"

lemma parse_inv_start: "parse_inv mx False scan_start"
  by (simp add: parse_inv_def scan_inv_def tok_inv_def scan_start_def)

lemma parse_inv_loop:
  assumes "json_loop js mx False scan_start = Some (seen, sc)"
  shows "parse_inv mx seen sc"
proof (rule json_loop_invariant [OF assms, where I = "parse_inv mx"], goal_cases)
  case 1
  then show ?case by (rule parse_inv_start)
next
  case (2 seen sc pos)
  then show ?case by (auto simp: parse_inv_def scan_inv_at)
next
  case (3 sc sc' d)
  then have "scan_inv mx sc'"
    by (intro scan_value_inv [OF 3(3)]) (auto simp: parse_inv_def new_parent_def)
  then show ?case using scan_value_grows [OF 3(3)] by (auto simp: parse_inv_def scan_inv_def)
next
  case (4 seen sc sc')
  then obtain f fs where f: "sc_stack sc = f # fs" by (cases "sc_stack sc") auto
  then show ?case
    using 4 scan_frame_inv [OF 4(4) _ f] scan_frame_toks [OF 4(4)] by (auto simp: parse_inv_def)
qed

lemma json_parse_Some:
  assumes "json_parse js mx = Some toks"
  obtains sc where "json_loop js mx False scan_start = Some (True, sc)" "sc_stack sc = []" "toks = sc_toks sc"
  using assms by (auto simp: json_parse_def split: if_splits option.splits)

text \<open>C29: An accepted document yields a well-nested token array within the caller's bound: at least
  one token and at most the maximum; every token spans a range inside the text; the first token
  has no parent, and every later token has an earlier object or array as its parent and lies
  strictly inside it.\<close>

theorem json_tokens_nested:
  assumes "json_parse js mx = Some toks"
  shows "toks \<noteq> [] \<and> length toks \<le> mx \<and> tk_parent (toks ! 0) = - 1 \<and>
    (\<forall>k<length toks. 0 \<le> tk_start (toks ! k) \<and> tk_start (toks ! k) \<le> tk_end (toks ! k) \<and>
       tk_end (toks ! k) \<le> int (length js)) \<and>
    (\<forall>k<length toks. 0 < k \<longrightarrow> (\<exists>p<k. tk_parent (toks ! k) = int p \<and> container (toks ! p) \<and>
       tk_start (toks ! p) < tk_start (toks ! k) \<and> tk_end (toks ! k) < tk_end (toks ! p)))"
proof -
  obtain sc where sc: "json_loop js mx False scan_start = Some (True, sc)" "sc_stack sc = []" "toks = sc_toks sc"
    by (rule json_parse_Some [OF assms])
  have inv: "parse_inv mx True sc" by (rule parse_inv_loop [OF sc(1)])
  have at: "sc_at sc \<le> length js"
    by (rule json_loop_invariant [OF sc(1), where I = "\<lambda>_ sc. sc_at sc \<le> length js"])
      (auto simp: scan_start_def dest: scan_value_progress scan_frame_progress)
  have k: "extent_ok {} (sc_at sc) toks k" "parent_ok {} toks k" if "k < length toks" for k
    using inv sc(2,3) that by (auto simp: parse_inv_def scan_inv_def tok_inv_def)
  have ne: "toks \<noteq> []" "length toks \<le> mx" using inv sc(3) by (auto simp: parse_inv_def scan_inv_def)
  then have "tk_parent (toks ! 0) = - 1" using k(2) [of 0] by (simp add: parent_ok_def)
  moreover have "0 \<le> tk_start (toks ! k) \<and> tk_start (toks ! k) \<le> tk_end (toks ! k) \<and> tk_end (toks ! k) \<le> int (length js)"
    if "k < length toks" for k using k(1) [OF that] at by (simp add: extent_ok_def)
  moreover have "\<exists>p<k. tk_parent (toks ! k) = int p \<and> container (toks ! p) \<and>
      tk_start (toks ! p) < tk_start (toks ! k) \<and> tk_end (toks ! k) < tk_end (toks ! p)"
    if "k < length toks" "0 < k" for k using k(2) [OF that(1)] that(2) by (auto simp: parent_ok_def)
  ultimately show ?thesis using ne by blast
qed

theorem json_tokens_nested_witness:
  "\<exists>toks. json_parse ''[1, [2]]'' 8 = Some toks \<and> length toks = 4 \<and> toks \<noteq> []"
proof -
  let ?ts = "[\<lparr>tk_type = JSON_ARR, tk_start = 0, tk_end = 8, tk_parent = - 1\<rparr>,
    \<lparr>tk_type = JSON_PRIM, tk_start = 1, tk_end = 2, tk_parent = 0\<rparr>,
    \<lparr>tk_type = JSON_ARR, tk_start = 4, tk_end = 7, tk_parent = 0\<rparr>,
    \<lparr>tk_type = JSON_PRIM, tk_start = 5, tk_end = 6, tk_parent = 2\<rparr>]"
  have "json_loop ''[1, [2]]'' 8 False scan_start =
      Some (True, \<lparr>sc_at = 8, sc_toks = ?ts, sc_stack = [], sc_done = True\<rparr>)" by code_simp
  then have p: "json_parse ''[1, [2]]'' 8 = Some ?ts" by (simp add: json_parse_def)
  from json_tokens_nested [OF p] p show ?thesis by auto
qed

end
