(* ===== verification/Json_Keys.thy ===== *)
theory Json_Keys
  imports Json
begin

text \<open>
  The objects of an accepted JSON document: their direct children alternate between keys and
  values, a value is the token after its key, keys are short strings with pairwise different
  decoded names. The invariant is kept by every step of the parser; it makes \<open>json_object_get\<close>
  and \<open>json_path_get\<close> lookups in a map.
\<close>

section \<open>Children of a container\<close>

fun pick :: "bool \<Rightarrow> 'a list \<Rightarrow> 'a list" where
  "pick b [] = []"
| "pick b (x # xs) = (if b then x # pick False xs else pick True xs)"

lemma pick_snoc: "pick b (xs @ [x]) = pick b xs @ (if even (length xs) = b then [x] else [])"
  by (induction b xs rule: pick.induct) auto

lemma set_pick: "set (pick b xs) \<subseteq> set xs"
  by (induction b xs rule: pick.induct) auto

lemma length_pick: "length (pick True xs) = (length xs + 1) div 2 \<and> length (pick False xs) = length xs div 2"
  by (induction xs) auto

definition children :: "JsonToken list \<Rightarrow> nat \<Rightarrow> nat list" where
  "children toks p = filter (\<lambda>k. tk_parent (toks ! k) = int p) [0..<length toks]"

definition keys :: "JsonToken list \<Rightarrow> nat \<Rightarrow> nat list" where
  "keys toks p = pick True (children toks p)"

definition key_name :: "string \<Rightarrow> JsonToken list \<Rightarrow> nat \<Rightarrow> string" where
  "key_name js toks k = cstr (json_copy_str js (toks ! k) JSON_MAX_KEY_BYTES)"

definition key_token :: "JsonToken \<Rightarrow> bool" where
  "key_token t \<longleftrightarrow> tk_type t = JSON_STR \<and> 0 \<le> tk_end t - tk_start t \<and> tk_end t - tk_start t < int JSON_MAX_KEY_BYTES"

lemma children_snoc:
  "children (toks @ [t]) p = children toks p @ (if tk_parent t = int p then [length toks] else [])"
proof -
  have "filter (\<lambda>k. tk_parent ((toks @ [t]) ! k) = int p) [0..<length toks] = children toks p"
    unfolding children_def by (rule filter_cong) (auto simp: nth_append)
  then show ?thesis by (simp add: children_def)
qed

lemma children_less: "k \<in> set (children toks p) \<Longrightarrow> k < length toks"
  by (simp add: children_def)

lemma children_update:
  assumes "tk_parent t = tk_parent (toks ! f)"
  shows "children (toks[f := t]) p = children toks p"
proof -
  have "tk_parent (toks[f := t] ! x) = tk_parent (toks ! x)" if "x < length toks" for x
    using assms that by (cases "x = f") auto
  then show ?thesis unfolding children_def by (intro filter_cong) auto
qed

definition parents_below :: "JsonToken list \<Rightarrow> bool" where
  "parents_below toks \<longleftrightarrow> (\<forall>k<length toks. tk_parent (toks ! k) < int k)"

lemma children_above: "parents_below toks \<Longrightarrow> k \<in> set (children toks p) \<Longrightarrow> p < k"
  by (auto simp: children_def parents_below_def)

lemma children_range:
  assumes "parents_below toks" "p < length toks"
  shows "filter (\<lambda>k. tk_parent (toks ! k) = int p) [p + 1..<length toks] = children toks p"
proof -
  obtain d where d: "length toks = p + 1 + d" using assms(2) by (metis Suc_eq_plus1 Suc_leI le_Suc_ex)
  have "[0..<length toks] = [0..<p + 1] @ [p + 1..<length toks]"
    unfolding d by (rule upt_add_eq_append) simp
  moreover have "tk_parent (toks ! x) \<noteq> int p" if "x \<le> p" for x
    using assms(1) [unfolded parents_below_def, rule_format, of x] assms(2) that by auto
  then have "filter (\<lambda>k. tk_parent (toks ! k) = int p) [0..<p + 1] = []" by (auto simp: filter_empty_conv)
  ultimately show ?thesis unfolding children_def by (metis append_Nil filter_append)
qed

lemma tok_inv_parents_below: "tok_inv opn pos toks \<Longrightarrow> parents_below toks"
  by (fastforce simp: tok_inv_def parent_ok_def parents_below_def)

lemma children_beyond: "parents_below toks \<Longrightarrow> length toks \<le> p \<Longrightarrow> children toks p = []"
  by (force simp: children_def parents_below_def filter_empty_conv)

section \<open>Well-formed objects\<close>

definition object_ok :: "string \<Rightarrow> JsonToken list \<Rightarrow> nat \<Rightarrow> bool" where
  "object_ok js toks p \<longleftrightarrow> (\<forall>k \<in> set (keys toks p). key_token (toks ! k)) \<and>
     distinct (map (key_name js toks) (keys toks p)) \<and> length (keys toks p) \<le> JSON_MAX_OBJECT_KEYS \<and>
     (\<forall>i. Suc (2 * i) < length (children toks p) \<longrightarrow>
        children toks p ! Suc (2 * i) = Suc (children toks p ! (2 * i)))"

definition objects_inv :: "string \<Rightarrow> nat set \<Rightarrow> JsonToken list \<Rightarrow> bool" where
  "objects_inv js opn toks \<longleftrightarrow> (\<forall>p<length toks. tk_type (toks ! p) = JSON_OBJ \<longrightarrow>
     object_ok js toks p \<and> (p \<notin> opn \<longrightarrow> even (length (children toks p))))"

lemma object_ok_same:
  assumes "object_ok js toks p" "children toks' p = children toks p"
    "\<forall>k \<in> set (keys toks p). toks' ! k = toks ! k"
  shows "object_ok js toks' p"
proof -
  have k: "keys toks' p = keys toks p" using assms(2) by (simp add: keys_def)
  have m: "map (key_name js toks') (keys toks p) = map (key_name js toks) (keys toks p)"
    using assms(3) by (simp add: key_name_def)
  show ?thesis using assms(1,3) unfolding object_ok_def k m assms(2) by simp
qed

lemma keys_less: "k \<in> set (keys toks p) \<Longrightarrow> k < length toks"
  using set_pick [of True "children toks p"] children_less by (auto simp: keys_def)

lemma object_ok_value:
  assumes "object_ok js toks p" "odd (length (children toks p))" "tk_parent t = int p"
    "last (children toks p) = length toks - 1"
  shows "object_ok js (toks @ [t]) p"
proof -
  let ?cs = "children toks p"
  have ne: "?cs \<noteq> []" using assms(2) by auto
  then have ln: "0 < length toks" using children_less [of "hd ?cs"] by (metis hd_in_set less_nat_zero_code neq0_conv)
  have c: "children (toks @ [t]) p = ?cs @ [length toks]" using assms(3) by (simp add: children_snoc)
  then have k: "keys (toks @ [t]) p = keys toks p" using assms(2) by (simp add: keys_def pick_snoc)
  have nth: "(toks @ [t]) ! x = toks ! x" if "x \<in> set (keys toks p)" for x
    using keys_less [OF that] by (simp add: nth_append)
  then have m: "map (key_name js (toks @ [t])) (keys toks p) = map (key_name js toks) (keys toks p)"
    by (simp add: key_name_def)
  have "(?cs @ [length toks]) ! Suc (2 * i) = Suc ((?cs @ [length toks]) ! (2 * i))"
    if i: "Suc (2 * i) < length (?cs @ [length toks])" for i
  proof (cases "Suc (2 * i) < length ?cs")
    case True
    then show ?thesis using assms(1) by (simp add: object_ok_def nth_append)
  next
    case False
    then have "length ?cs = Suc (2 * i)" using i by simp
    moreover from this have "?cs ! (2 * i) = length toks - 1" using assms(4) ne by (simp add: last_conv_nth)
    ultimately show ?thesis using ln by (simp add: nth_append)
  qed
  then show ?thesis using assms(1) nth unfolding object_ok_def k c m by simp
qed

lemma object_ok_key:
  assumes "object_ok js toks p" "even (length (children toks p))" "tk_parent t = int p" "key_token t"
    "key_name js (toks @ [t]) (length toks) \<notin> key_name js toks ` set (keys toks p)"
    "length (keys toks p) < JSON_MAX_OBJECT_KEYS"
  shows "object_ok js (toks @ [t]) p"
proof -
  let ?cs = "children toks p"
  have c: "children (toks @ [t]) p = ?cs @ [length toks]" using assms(3) by (simp add: children_snoc)
  then have k: "keys (toks @ [t]) p = keys toks p @ [length toks]" using assms(2) by (simp add: keys_def pick_snoc)
  have nth: "(toks @ [t]) ! x = toks ! x" if "x \<in> set (keys toks p)" for x
    using keys_less [OF that] by (simp add: nth_append)
  then have m: "map (key_name js (toks @ [t])) (keys toks p) = map (key_name js toks) (keys toks p)"
    by (simp add: key_name_def)
  have "(?cs @ [length toks]) ! Suc (2 * i) = Suc ((?cs @ [length toks]) ! (2 * i))"
    if i: "Suc (2 * i) < length (?cs @ [length toks])" for i
  proof -
    have "Suc (2 * i) < length ?cs" using i assms(2) by (cases "length ?cs = Suc (2 * i)") auto
    then show ?thesis using assms(1) by (simp add: object_ok_def nth_append)
  qed
  moreover have "distinct (map (key_name js (toks @ [t])) (keys toks p @ [length toks]))"
    using assms(1,5) unfolding map_append m by (auto simp: object_ok_def)
  moreover have "\<forall>x \<in> set (keys toks p @ [length toks]). key_token ((toks @ [t]) ! x)"
    using assms(1,4) nth by (auto simp: object_ok_def)
  ultimately show ?thesis using assms(6) unfolding object_ok_def k c by simp
qed

lemma objects_inv_snoc:
  assumes inv: "objects_inv js opn toks" and below: "parents_below toks" "tk_parent t < int (length toks)"
    and par: "\<And>q. tk_parent t = int q \<Longrightarrow> q \<in> opn \<and> (tk_type (toks ! q) = JSON_OBJ \<longrightarrow> object_ok js (toks @ [t]) q)"
    and opn: "opn \<subseteq> opn'"
  shows "objects_inv js opn' (toks @ [t])"
  unfolding objects_inv_def
proof (intro allI impI)
  fix p
  assume p: "p < length (toks @ [t])" "tk_type ((toks @ [t]) ! p) = JSON_OBJ"
  show "object_ok js (toks @ [t]) p \<and> (p \<notin> opn' \<longrightarrow> even (length (children (toks @ [t]) p)))"
  proof (cases "p = length toks")
    case True
    have "children (toks @ [t]) p = []"
      using below children_beyond [OF below(1), of p] True by (simp add: children_snoc)
    then show ?thesis by (simp add: object_ok_def keys_def)
  next
    case False
    then have lt: "p < length toks" and ty: "tk_type (toks ! p) = JSON_OBJ" using p by (auto simp: nth_append)
    show ?thesis
    proof (cases "tk_parent t = int p")
      case True
      then show ?thesis using par [OF True] ty opn by auto
    next
      case other: False
      then have c: "children (toks @ [t]) p = children toks p" by (simp add: children_snoc)
      have "object_ok js (toks @ [t]) p"
        using object_ok_same [of js toks p "toks @ [t]"] inv lt ty c keys_less
        by (auto simp: objects_inv_def nth_append)
      then show ?thesis using inv lt ty c opn by (auto simp: objects_inv_def)
    qed
  qed
qed

lemma objects_inv_close:
  assumes inv: "objects_inv js opn toks" and f: "f < length toks" "container (toks ! f)"
    "tk_type (toks ! f) = JSON_OBJ \<longrightarrow> even (length (children toks f))"
  shows "objects_inv js (opn - {f}) (toks[f := (toks ! f)\<lparr>tk_end := e\<rparr>])"
  unfolding objects_inv_def
proof (intro allI impI)
  fix p
  let ?ts = "toks[f := (toks ! f)\<lparr>tk_end := e\<rparr>]"
  assume "p < length ?ts" and ty: "tk_type (?ts ! p) = JSON_OBJ"
  then have p: "p < length toks" "tk_type (toks ! p) = JSON_OBJ" using f(1) by (auto simp: nth_list_update split: if_splits)
  have c: "children ?ts p = children toks p" by (rule children_update) simp
  have ok: "object_ok js toks p" "p \<notin> opn \<longrightarrow> even (length (children toks p))" using inv p by (auto simp: objects_inv_def)
  have "k \<noteq> f" if "k \<in> set (keys toks p)" for k
    using ok(1) f(2) that by (auto simp: object_ok_def key_token_def container_def)
  then have "\<forall>k \<in> set (keys toks p). ?ts ! k = toks ! k" by (metis nth_list_update_neq)
  then have "object_ok js ?ts p" by (rule object_ok_same [OF ok(1) c])
  then show "object_ok js ?ts p \<and> (p \<notin> opn - {f} \<longrightarrow> even (length (children ?ts p)))"
    using ok(2) c f(3) p by (cases "p = f") auto
qed

section \<open>The duplicate check\<close>

lemma duplicate_loop_iff:
  "duplicate_loop js toks p dkey direct ps \<longleftrightarrow>
     (\<exists>k \<in> set (pick (even direct) (filter (\<lambda>k. tk_parent (toks ! k) = int p) ps)).
        tk_type (toks ! k) = JSON_STR \<and> key_name js toks k = dkey)"
  by (induction js toks p dkey direct ps rule: duplicate_loop.induct) (auto simp: key_name_def)

lemma duplicate_key_iff:
  assumes "parents_below toks" "p < length toks" "tk_parent t = int p"
  shows "duplicate_key js (toks @ [t]) p (length toks) \<longleftrightarrow>
    (\<exists>k \<in> set (keys toks p). tk_type (toks ! k) = JSON_STR \<and>
       key_name js toks k = key_name js (toks @ [t]) (length toks))"
proof -
  have "filter (\<lambda>k. tk_parent ((toks @ [t]) ! k) = int p) [p + 1..<length toks] =
      filter (\<lambda>k. tk_parent (toks ! k) = int p) [p + 1..<length toks]"
    by (rule filter_cong) (auto simp: nth_append)
  also have "\<dots> = children toks p" by (rule children_range [OF assms(1,2)])
  finally have f: "filter (\<lambda>k. tk_parent ((toks @ [t]) ! k) = int p) [p + 1..<length toks] = children toks p" .
  have nth: "(toks @ [t]) ! k = toks ! k" if "k \<in> set (keys toks p)" for k
    using keys_less [OF that] by (simp add: nth_append)
  show ?thesis
    unfolding duplicate_key_def duplicate_loop_iff f
    using nth by (auto simp: keys_def key_name_def)
qed

section \<open>The invariant of the parser\<close>

definition object_state :: "FrameState \<Rightarrow> bool" where
  "object_state st \<longleftrightarrow> st \<in> {OBJ_KEY_OR_END, OBJ_KEY, OBJ_COLON, OBJ_VALUE, OBJ_NEXT}"

definition after_key :: "FrameState \<Rightarrow> bool" where
  "after_key st \<longleftrightarrow> st = OBJ_COLON \<or> st = OBJ_VALUE"

definition frame_ok :: "JsonToken list \<Rightarrow> Frame \<Rightarrow> bool" where
  "frame_ok toks f \<longleftrightarrow> tk_type (toks ! fr_token f) = fr_type f \<and>
     (fr_type f = JSON_OBJ \<and> object_state (fr_state f) \<and>
        (odd (length (children toks (fr_token f))) \<longleftrightarrow> after_key (fr_state f)) \<and>
        fr_members f = length (keys toks (fr_token f)) \<or>
      fr_type f = JSON_ARR \<and> \<not> object_state (fr_state f))"

text \<open>Only the top frame can be between a key and its value, and the key is then the last token.\<close>

definition stack_ok :: "Scan \<Rightarrow> bool" where
  "stack_ok sc \<longleftrightarrow> list_all (frame_ok (sc_toks sc)) (sc_stack sc) \<and>
     (\<forall>f \<in> set (tl (sc_stack sc)). \<not> after_key (fr_state f)) \<and>
     (sc_stack sc \<noteq> [] \<and> after_key (fr_state (hd (sc_stack sc))) \<longrightarrow>
        last (children (sc_toks sc) (fr_token (hd (sc_stack sc)))) = length (sc_toks sc) - 1)"

definition keys_inv :: "string \<Rightarrow> nat \<Rightarrow> Scan \<Rightarrow> bool" where
  "keys_inv js mx sc \<longleftrightarrow> scan_inv mx sc \<and> objects_inv js (open_tokens sc) (sc_toks sc) \<and> stack_ok sc"

lemma frame_ok_snoc_other:
  assumes "frame_ok toks f" "fr_token f < length toks" "tk_parent t \<noteq> int (fr_token f)"
  shows "frame_ok (toks @ [t]) f"
  using assms by (simp add: frame_ok_def keys_def children_snoc nth_append)

lemma scan_inv_below: "scan_inv mx sc \<Longrightarrow> parents_below (sc_toks sc)"
  unfolding scan_inv_def by (blast intro: tok_inv_parents_below)

lemma frame_token_neq:
  assumes "scan_inv mx sc" "sc_stack sc = f # fs" "g \<in> set fs"
  shows "fr_token g < fr_token f" "fr_token g < length (sc_toks sc)"
  using assms by (auto simp: scan_inv_def)

text \<open>A value under the top frame \<open>f\<close>, whose state has already become \<open>OBJ_NEXT\<close> or \<open>ARR_NEXT\<close>:
  appending its token keeps the objects and the frames in order.\<close>

lemma frames_after_value:
  assumes inv: "scan_inv mx sc" "sc_stack sc = f # fs" "stack_ok sc"
    and st: "fr_type f = JSON_OBJ \<and> fr_state f = OBJ_VALUE \<and> st = OBJ_NEXT \<or>
      fr_type f = JSON_ARR \<and> \<not> object_state (fr_state f) \<and> st = ARR_NEXT"
    and t: "tk_parent t = int (fr_token f)"
  shows "list_all (frame_ok (sc_toks sc @ [t])) (f\<lparr>fr_state := st\<rparr> # fs)"
proof -
  have f: "frame_ok (sc_toks sc) f" "fr_token f < length (sc_toks sc)"
    using inv by (auto simp: stack_ok_def scan_inv_def)
  have "frame_ok (sc_toks sc @ [t]) (f\<lparr>fr_state := st\<rparr>)"
    using f st t
    by (auto simp: frame_ok_def keys_def children_snoc pick_snoc nth_append object_state_def after_key_def)
  moreover have "frame_ok (sc_toks sc @ [t]) g" if "g \<in> set fs" for g
    using frame_ok_snoc_other [of "sc_toks sc" g t] frame_token_neq [OF inv(1,2) that] inv(2,3) that t
    by (auto simp: stack_ok_def list_all_iff)
  ultimately show ?thesis by (simp add: list_all_iff)
qed

lemma objects_after_value:
  assumes inv: "keys_inv js mx sc" "sc_stack sc = f # fs"
    and st: "fr_type f = JSON_OBJ \<and> fr_state f = OBJ_VALUE \<or> fr_type f = JSON_ARR"
    and t: "tk_parent t = int (fr_token f)" and opn: "open_tokens sc \<subseteq> opn'"
  shows "objects_inv js opn' (sc_toks sc @ [t])"
proof (rule objects_inv_snoc [OF _ _ _ _ opn])
  let ?q = "fr_token f"
  show "objects_inv js (open_tokens sc) (sc_toks sc)" "parents_below (sc_toks sc)"
    using inv(1) scan_inv_below by (auto simp: keys_inv_def)
  have q: "?q < length (sc_toks sc)" "frame_ok (sc_toks sc) f"
    using inv by (auto simp: keys_inv_def scan_inv_def stack_ok_def)
  then show "tk_parent t < int (length (sc_toks sc))" using t by simp
  fix p
  assume "tk_parent t = int p"
  then have p: "p = ?q" using t by simp
  show "p \<in> open_tokens sc \<and> (tk_type (sc_toks sc ! p) = JSON_OBJ \<longrightarrow> object_ok js (sc_toks sc @ [t]) p)"
  proof (intro conjI impI)
    show "p \<in> open_tokens sc" using p inv(2) by simp
    assume "tk_type (sc_toks sc ! p) = JSON_OBJ"
    then have fo: "fr_type f = JSON_OBJ" "fr_state f = OBJ_VALUE" using q(2) p st by (auto simp: frame_ok_def)
    have "odd (length (children (sc_toks sc) ?q))" using q(2) fo by (simp add: frame_ok_def after_key_def)
    moreover have "last (children (sc_toks sc) ?q) = length (sc_toks sc) - 1"
      using inv fo by (simp add: keys_inv_def stack_ok_def after_key_def)
    moreover have "object_ok js (sc_toks sc) ?q"
      using inv(1) q(1) \<open>tk_type (sc_toks sc ! p) = JSON_OBJ\<close> p by (simp add: keys_inv_def objects_inv_def)
    ultimately show "object_ok js (sc_toks sc @ [t]) p" unfolding p using t by (intro object_ok_value)
  qed
qed

definition new_frame :: "nat \<Rightarrow> JsonType \<Rightarrow> Frame" where
  "new_frame n ty = \<lparr>fr_token = n, fr_type = ty,
     fr_state = (if ty = JSON_OBJ then OBJ_KEY_OR_END else ARR_VALUE_OR_END), fr_members = 0\<rparr>"

lemma new_frame_fold:
  "\<lparr>fr_token = n, fr_type = JSON_OBJ, fr_state = OBJ_KEY_OR_END, fr_members = 0\<rparr> = new_frame n JSON_OBJ"
  "\<lparr>fr_token = n, fr_type = JSON_ARR, fr_state = ARR_VALUE_OR_END, fr_members = 0\<rparr> = new_frame n JSON_ARR"
  by (simp_all add: new_frame_def)

lemma scan_value_shape:
  assumes "scan_value js mx p sc = Some sc'"
  obtains t where "tk_parent t = p" "sc_toks sc' = sc_toks sc @ [t]" "sc_stack sc' = sc_stack sc"
  | t ty where "tk_parent t = p" "sc_toks sc' = sc_toks sc @ [t]" "ty = JSON_OBJ \<or> ty = JSON_ARR" "tk_type t = ty"
    "sc_stack sc' = new_frame (length (sc_toks sc)) ty # sc_stack sc"
proof -
  consider (flat) pos toks where "token_string js (sc_at sc) mx p (sc_toks sc) = Some (pos, toks) \<or>
        token_primitive js (sc_at sc) mx p (sc_toks sc) = Some (pos, toks)" "sc' = sc\<lparr>sc_at := pos, sc_toks := toks\<rparr>"
    | (nest) ty toks where "ty = JSON_OBJ \<or> ty = JSON_ARR" "token_alloc mx ty (sc_at sc) p (sc_toks sc) = Some toks"
        "sc' = sc\<lparr>sc_toks := toks, sc_at := sc_at sc + 1, sc_stack := new_frame (length (sc_toks sc)) ty # sc_stack sc\<rparr>"
    using assms by (auto simp: scan_value_def Let_def new_frame_fold split: if_splits option.splits)
  then show thesis
  proof cases
    case flat
    then obtain t where "tk_parent t = p" "toks = sc_toks sc @ [t]"
      using token_primitive_Some [of js "sc_at sc" mx p "sc_toks sc" pos toks] token_string_Some by fastforce
    then show ?thesis using that(1) flat(2) by simp
  next
    case nest
    then show ?thesis
      by (intro that(2) [of "\<lparr>tk_type = ty, tk_start = int (sc_at sc), tk_end = - 1, tk_parent = p\<rparr>" ty])
        (simp_all add: result_iff)
  qed
qed

lemma keys_inv_value:
  assumes inv: "keys_inv js mx sc" "sc_stack sc = f # fs"
    and st: "fr_type f = JSON_OBJ \<and> fr_state f = OBJ_VALUE \<and> st = OBJ_NEXT \<or>
      fr_type f = JSON_ARR \<and> \<not> object_state (fr_state f) \<and> st = ARR_NEXT"
    and v: "scan_value js mx (int (fr_token f)) (set_state st sc) = Some sc'"
  shows "keys_inv js mx sc'"
proof -
  let ?p = "int (fr_token f)" and ?sc = "set_state st sc" and ?n = "length (sc_toks sc)"
  have si: "scan_inv mx sc" "stack_ok sc" using inv(1) by (auto simp: keys_inv_def)
  have stk: "sc_stack ?sc = f\<lparr>fr_state := st\<rparr> # fs" using inv(2) by (simp add: set_state_def)
  have nak: "\<not> after_key st" using st by (auto simp: after_key_def)
  have tlk: "\<forall>g \<in> set fs. \<not> after_key (fr_state g)" using si(2) inv(2) by (simp add: stack_ok_def)
  have q: "fr_token f < ?n" using si(1) inv(2) by (simp add: scan_inv_def)
  have np: "new_parent (open_tokens ?sc) (sc_toks ?sc) ?p" using q inv(2) by (auto simp: new_parent_def)
  have si': "scan_inv mx sc'" using scan_value_inv [OF v _ np] si(1) by simp
  have obj: "objects_inv js opn' (sc_toks sc @ [t])" if "tk_parent t = ?p" "open_tokens sc \<subseteq> opn'" for t opn'
    using objects_after_value [OF inv _ that] st by blast
  have frs: "list_all (frame_ok (sc_toks sc @ [t])) (f\<lparr>fr_state := st\<rparr> # fs)" if "tk_parent t = ?p" for t
    by (rule frames_after_value [OF si(1) inv(2) si(2) st that])
  show ?thesis
  proof (cases rule: scan_value_shape [OF v])
    case (1 t)
    have "open_tokens sc' = open_tokens sc" using 1(3) stk inv(2) by simp
    then show ?thesis
      using si' obj [OF 1(1), of "open_tokens sc'"] frs [OF 1(1)] 1 stk nak tlk by (simp add: keys_inv_def stack_ok_def)
  next
    case (2 t ty)
    have "children (sc_toks sc @ [t]) ?n = []"
      using children_beyond [OF scan_inv_below [OF si(1)], of ?n] 2(1) q by (simp add: children_snoc)
    then have nf: "frame_ok (sc_toks sc @ [t]) (new_frame ?n ty)"
      using 2(3,4) by (auto simp: frame_ok_def new_frame_def object_state_def after_key_def keys_def)
    have nk: "\<not> after_key (fr_state (new_frame ?n ty))" by (simp add: new_frame_def after_key_def)
    have "open_tokens sc \<subseteq> open_tokens sc'" using 2(5) stk inv(2) by auto
    then show ?thesis
      using si' obj [OF 2(1), of "open_tokens sc'"] frs [OF 2(1)] 2(2,5) stk nak tlk nf nk
      by (simp add: keys_inv_def stack_ok_def)
  qed
qed

lemma keys_inv_root:
  assumes "scan_value js mx (- 1) sc = Some sc'" "scan_inv mx sc" "sc_toks sc = []" "sc_stack sc = []"
  shows "keys_inv js mx sc'"
proof -
  have si: "scan_inv mx sc'" using scan_value_inv [OF assms(1,2)] assms(3) by (simp add: new_parent_def)
  have c: "children [t] p = []" if "tk_parent t = - 1" for t p using that by (simp add: children_def)
  have o: "objects_inv js opn [t]" if "tk_parent t = - 1" for t opn
    using c [OF that] by (simp add: objects_inv_def object_ok_def keys_def)
  show ?thesis
  proof (cases rule: scan_value_shape [OF assms(1)])
    case (1 t)
    then show ?thesis using si o assms(3,4) by (simp add: keys_inv_def stack_ok_def)
  next
    case (2 t ty)
    then have "frame_ok [t] (new_frame 0 ty)" "\<not> after_key (fr_state (new_frame 0 ty))"
      using c [of t] by (auto simp: frame_ok_def new_frame_def object_state_def after_key_def keys_def)
    then show ?thesis using 2 si o assms(3,4) by (simp add: keys_inv_def stack_ok_def)
  qed
qed

lemma keys_inv_close:
  assumes inv: "keys_inv js mx sc" "sc_stack sc = f # fs" and st: "\<not> after_key (fr_state f)"
  shows "keys_inv js mx (close_container f sc)"
proof -
  let ?n = "fr_token f" and ?e = "int (sc_at sc + 1)"
  let ?ts = "(sc_toks sc)[?n := (sc_toks sc ! ?n)\<lparr>tk_end := ?e\<rparr>]"
  have si: "scan_inv mx sc" "stack_ok sc" using inv(1) by (auto simp: keys_inv_def)
  have f: "?n < length (sc_toks sc)" "frame_ok (sc_toks sc) f"
    using si inv(2) by (auto simp: scan_inv_def stack_ok_def)
  have "container (sc_toks sc ! ?n)" using f(2) by (auto simp: frame_ok_def container_def)
  moreover have "tk_type (sc_toks sc ! ?n) = JSON_OBJ \<longrightarrow> even (length (children (sc_toks sc) ?n))"
    using f(2) st by (auto simp: frame_ok_def)
  ultimately have "objects_inv js (open_tokens sc - {?n}) ?ts"
    using inv(1) f(1) by (intro objects_inv_close) (simp_all add: keys_inv_def)
  moreover have "open_tokens sc - {?n} = fr_token ` set fs"
    using frame_token_neq [OF si(1) inv(2)] inv(2) by force
  moreover have "frame_ok ?ts g" if "g \<in> set fs" for g
  proof -
    have "frame_ok (sc_toks sc) g" using that si(2) inv(2) by (auto simp: stack_ok_def list_all_iff)
    moreover have "children ?ts (fr_token g) = children (sc_toks sc) (fr_token g)" by (rule children_update) simp
    moreover have "?ts ! fr_token g = sc_toks sc ! fr_token g" using frame_token_neq [OF si(1) inv(2) that] by simp
    ultimately show ?thesis by (simp add: frame_ok_def keys_def)
  qed
  moreover have "\<forall>g \<in> set fs. \<not> after_key (fr_state g)" using si(2) inv(2) by (simp add: stack_ok_def)
  ultimately show ?thesis
    using close_container_inv [OF si(1) inv(2)] inv(2)
    by (cases fs) (auto simp: keys_inv_def stack_ok_def close_container_def Let_def list_all_iff)
qed

lemma keys_inv_key:
  assumes inv: "keys_inv js mx sc" "sc_stack sc = f # fs"
    and st: "fr_state f = OBJ_KEY_OR_END \<or> fr_state f = OBJ_KEY"
    and k: "scan_object_key js mx f sc = Some sc'"
  shows "keys_inv js mx sc'"
proof (cases "js ! sc_at sc = CHR ''}''")
  case True
  then have "sc' = close_container f sc" using k by (auto simp: scan_object_key_def split: if_splits)
  then show ?thesis using keys_inv_close [OF inv] st by (auto simp: after_key_def)
next
  case False
  let ?n = "length (sc_toks sc)" and ?p = "fr_token f"
  let ?f = "f\<lparr>fr_members := fr_members f + 1, fr_state := OBJ_COLON\<rparr>"
  obtain pos toks where s: "token_string js (sc_at sc) mx (int ?p) (sc_toks sc) = Some (pos, toks)"
      "sc' = sc\<lparr>sc_at := pos, sc_toks := toks, sc_stack := ?f # fs\<rparr>" "fr_members f < JSON_MAX_OBJECT_KEYS"
      "0 \<le> tk_end (toks ! ?n) - tk_start (toks ! ?n)" "tk_end (toks ! ?n) - tk_start (toks ! ?n) < int JSON_MAX_KEY_BYTES"
      "\<not> duplicate_key js toks ?p ?n"
    using k False inv(2) by (auto simp: scan_object_key_def Let_def not_le not_less split: if_splits option.splits)
  obtain t where t: "toks = sc_toks sc @ [t]" "tk_type t = JSON_STR" "tk_parent t = int ?p"
    using s(1) by (auto simp: token_string_Some)
  have si: "scan_inv mx sc" "stack_ok sc" using inv(1) by (auto simp: keys_inv_def)
  have below: "parents_below (sc_toks sc)" by (rule scan_inv_below [OF si(1)])
  have f: "?p < ?n" "frame_ok (sc_toks sc) f" using si inv(2) by (auto simp: scan_inv_def stack_ok_def)
  have fo: "fr_type f = JSON_OBJ" "even (length (children (sc_toks sc) ?p))" "fr_members f = length (keys (sc_toks sc) ?p)"
      "tk_type (sc_toks sc ! ?p) = JSON_OBJ"
    using f(2) st by (auto simp: frame_ok_def object_state_def after_key_def)
  have "key_token t" using s(4,5) t(1,2) by (simp add: key_token_def)
  moreover have "object_ok js (sc_toks sc) ?p" using inv(1) f(1) fo(4) by (simp add: keys_inv_def objects_inv_def)
  moreover have "key_name js (sc_toks sc @ [t]) ?n \<notin> key_name js (sc_toks sc) ` set (keys (sc_toks sc) ?p)"
    using s(6) duplicate_key_iff [OF below f(1) t(3)] t(1) \<open>object_ok js (sc_toks sc) ?p\<close>
    by (fastforce simp: object_ok_def key_token_def)
  ultimately have ok: "object_ok js (sc_toks sc @ [t]) ?p"
    using fo t(3) s(3) by (intro object_ok_key) auto
  have "objects_inv js (open_tokens sc) (sc_toks sc @ [t])"
    using inv f(1) t(3) below ok by (intro objects_inv_snoc) (auto simp: keys_inv_def)
  moreover have "open_tokens sc' = open_tokens sc" using s(2) inv(2) by simp
  moreover have "frame_ok (sc_toks sc @ [t]) ?f"
    using f fo t(3) by (auto simp: frame_ok_def keys_def children_snoc pick_snoc nth_append object_state_def after_key_def)
  moreover have "frame_ok (sc_toks sc @ [t]) g" if "g \<in> set fs" for g
    using frame_ok_snoc_other [of "sc_toks sc" g t] frame_token_neq [OF si(1) inv(2) that] si(2) inv(2) that t(3)
    by (auto simp: stack_ok_def list_all_iff)
  moreover have "last (children (sc_toks sc @ [t]) ?p) = ?n" using t(3) by (simp add: children_snoc)
  moreover have "scan_inv mx sc'"
  proof -
    have "scan_frame js mx sc = Some sc'" using k st inv(2) by (auto simp: scan_frame_def)
    then show ?thesis using scan_frame_inv si(1) inv(2) by blast
  qed
  ultimately show ?thesis
    using s(2) t(1) si(2) inv(2) by (simp add: keys_inv_def stack_ok_def list_all_iff)
qed

lemma keys_inv_state:
  assumes inv: "keys_inv js mx sc" "sc_stack sc = f # fs"
    and st: "after_key st = after_key (fr_state f)" "object_state st = object_state (fr_state f)"
    and sc': "sc' = (set_state st sc)\<lparr>sc_at := sc_at sc + 1\<rparr>"
  shows "keys_inv js mx sc'"
proof -
  have "scan_inv mx sc'" unfolding sc' using inv(1) scan_inv_at [of mx "set_state st sc"] by (simp add: keys_inv_def)
  moreover have "sc_stack sc' = f\<lparr>fr_state := st\<rparr> # fs" "sc_toks sc' = sc_toks sc" unfolding sc' using inv(2) by (simp_all add: set_state_def)
  moreover have "open_tokens sc' = open_tokens sc" using calculation(2) inv(2) by simp
  moreover have "frame_ok toks (f\<lparr>fr_state := st\<rparr>) = frame_ok toks f" for toks using st by (simp add: frame_ok_def)
  ultimately show ?thesis using inv st by (simp add: keys_inv_def stack_ok_def)
qed

lemma keys_inv_frame:
  assumes inv: "keys_inv js mx sc" "sc_stack sc \<noteq> []" and s: "scan_frame js mx sc = Some sc'"
  shows "keys_inv js mx sc'"
proof -
  obtain f fs where f: "sc_stack sc = f # fs" using inv(2) by (cases "sc_stack sc") auto
  have fo: "frame_ok (sc_toks sc) f" using inv(1) f by (simp add: keys_inv_def stack_ok_def)
  have arr: "keys_inv js mx sc'" if "scan_array_element js mx f sc = Some sc'" "\<not> object_state (fr_state f)"
  proof (cases "js ! sc_at sc = CHR '']''")
    case True
    then show ?thesis
      using that keys_inv_close [OF inv(1) f] by (auto simp: scan_array_element_def object_state_def after_key_def split: if_splits)
  next
    case False
    then show ?thesis
      using that fo keys_inv_value [OF inv(1) f, of ARR_NEXT sc'] by (auto simp: scan_array_element_def frame_ok_def)
  qed
  have sep: "keys_inv js mx sc'" if "scan_separator js f c nxt sc = Some sc'" "\<not> after_key (fr_state f)" "\<not> after_key nxt"
      "object_state nxt = object_state (fr_state f)" for c nxt
    using that keys_inv_close [OF inv(1) f] keys_inv_state [OF inv(1) f, of nxt]
    by (auto simp: scan_separator_def split: if_splits)
  show ?thesis
  proof (cases "fr_state f")
    case OBJ_KEY_OR_END
    then show ?thesis using s f keys_inv_key [OF inv(1) f] by (simp add: scan_frame_def)
  next
    case OBJ_KEY
    then show ?thesis using s f keys_inv_key [OF inv(1) f] by (simp add: scan_frame_def)
  next
    case OBJ_COLON
    then show ?thesis
      using s f keys_inv_state [OF inv(1) f, of OBJ_VALUE sc']
      by (auto simp: scan_frame_def after_key_def object_state_def split: if_splits)
  next
    case OBJ_VALUE
    then show ?thesis
      using s f fo keys_inv_value [OF inv(1) f, of OBJ_NEXT sc'] by (auto simp: scan_frame_def frame_ok_def object_state_def)
  next
    case OBJ_NEXT
    then show ?thesis using s f sep by (simp add: scan_frame_def after_key_def object_state_def)
  next
    case ARR_VALUE_OR_END
    then show ?thesis using s f arr by (simp add: scan_frame_def object_state_def)
  next
    case ARR_VALUE
    then show ?thesis using s f arr by (simp add: scan_frame_def object_state_def)
  next
    case ARR_NEXT
    then show ?thesis using s f sep by (simp add: scan_frame_def after_key_def object_state_def)
  qed
qed

lemma json_parse_keys_inv:
  assumes "json_parse js mx = Some toks"
  shows "objects_inv js {} toks"
proof -
  obtain sc where sc: "json_loop js mx False scan_start = Some (True, sc)" "sc_stack sc = []" "toks = sc_toks sc"
    by (rule json_parse_Some [OF assms])
  define I where "I = (\<lambda>seen sc. if seen then keys_inv js mx sc
    else scan_inv mx sc \<and> sc_toks sc = [] \<and> sc_stack sc = [])"
  have "I True sc"
  proof (rule json_loop_invariant [OF sc(1)], goal_cases)
    case 1
    then show ?case using parse_inv_start [of mx] by (simp add: I_def parse_inv_def scan_start_def)
  next
    case (2 seen sc pos)
    then show ?case
      using scan_inv_at [of mx sc pos] by (auto simp: I_def keys_inv_def stack_ok_def split: if_splits)
  next
    case (3 sc sc' d)
    then have "keys_inv js mx sc'" using keys_inv_root [OF 3(3)] by (simp add: I_def)
    then show ?case by (simp add: I_def keys_inv_def scan_inv_def stack_ok_def)
  next
    case (4 seen sc sc')
    then show ?case using keys_inv_frame by (auto simp: I_def split: if_splits)
  qed
  then show ?thesis using sc(2,3) by (simp add: I_def keys_inv_def)
qed

section \<open>Tokens are in the order of the text\<close>

definition starts_inv :: "Scan \<Rightarrow> bool" where
  "starts_inv sc \<longleftrightarrow> sorted_wrt (<) (map tk_start (sc_toks sc)) \<and> (\<forall>t \<in> set (sc_toks sc). tk_start t < int (sc_at sc))"

lemma starts_inv_add:
  "starts_inv sc \<Longrightarrow> int (sc_at sc) \<le> tk_start t \<Longrightarrow> tk_start t < int pos \<Longrightarrow> sc_at sc \<le> pos \<Longrightarrow>
     sc_toks sc' = sc_toks sc @ [t] \<Longrightarrow> sc_at sc' = pos \<Longrightarrow> starts_inv sc'"
  by (fastforce simp: starts_inv_def sorted_wrt_append)

lemma starts_inv_later:
  "starts_inv sc \<Longrightarrow> map tk_start (sc_toks sc') = map tk_start (sc_toks sc) \<Longrightarrow> sc_at sc \<le> sc_at sc' \<Longrightarrow> starts_inv sc'"
proof -
  assume a: "starts_inv sc" "map tk_start (sc_toks sc') = map tk_start (sc_toks sc)" "sc_at sc \<le> sc_at sc'"
  have "tk_start ` set (sc_toks sc') = tk_start ` set (sc_toks sc)" using a(2) by (metis list.set_map)
  then have "\<forall>t \<in> set (sc_toks sc'). tk_start t < int (sc_at sc')" using a(1,3) by (force simp: starts_inv_def)
  then show ?thesis using a by (simp add: starts_inv_def)
qed

lemma token_string_starts:
  assumes "token_string js (sc_at sc) mx p (sc_toks sc) = Some (pos, toks)" "starts_inv sc"
    "sc_toks sc' = toks" "sc_at sc' = pos"
  shows "starts_inv sc'"
proof -
  obtain j where j: "string_end js (sc_at sc + 1) = Some j" "pos = j + 1"
      "toks = sc_toks sc @ [\<lparr>tk_type = JSON_STR, tk_start = int (sc_at sc + 1), tk_end = int j, tk_parent = p\<rparr>]"
    using assms(1) unfolding token_string_Some by blast
  show ?thesis
    using string_end_Some [OF j(1)] assms(3,4) j(2,3)
    by (intro starts_inv_add [OF assms(2), of _ pos sc']) auto
qed

lemma scan_value_starts:
  assumes "scan_value js mx p sc = Some sc'" "starts_inv sc"
  shows "starts_inv sc'"
proof -
  consider pos toks where "token_string js (sc_at sc) mx p (sc_toks sc) = Some (pos, toks)" "sc_toks sc' = toks" "sc_at sc' = pos"
    | pos toks where "token_primitive js (sc_at sc) mx p (sc_toks sc) = Some (pos, toks)" "sc_toks sc' = toks" "sc_at sc' = pos"
    | ty toks where "token_alloc mx ty (sc_at sc) p (sc_toks sc) = Some toks" "sc_toks sc' = toks" "sc_at sc' = sc_at sc + 1"
    using assms(1) by (auto simp: scan_value_def Let_def split: if_splits option.splits)
  then show ?thesis
  proof cases
    case 1
    then show ?thesis using token_string_starts assms(2) by blast
  next
    case 2
    then show ?thesis using token_primitive_Some [OF 2(1)] by (intro starts_inv_add [OF assms(2)]) auto
  next
    case 3
    then show ?thesis by (intro starts_inv_add [OF assms(2)]) (auto simp: result_iff)
  qed
qed

lemma set_state_starts [simp]: "starts_inv (set_state st sc) = starts_inv sc"
  by (simp add: starts_inv_def)

lemma close_container_starts:
  assumes "starts_inv sc"
  shows "starts_inv (close_container f sc)"
proof (rule starts_inv_later [OF assms])
  show "map tk_start (sc_toks (close_container f sc)) = map tk_start (sc_toks sc)"
    by (cases "fr_token f < length (sc_toks sc)") (simp_all add: close_container_def Let_def map_update list_update_same_conv list_update_beyond)
qed simp

lemma scan_frame_starts:
  assumes "scan_frame js mx sc = Some sc'" "starts_inv sc"
  shows "starts_inv sc'"
proof -
  have v: "starts_inv sc'" if "scan_value js mx p (set_state st sc) = Some sc'" for p st
    using scan_value_starts [OF that] assms(2) by simp
  have later: "starts_inv ((set_state st sc)\<lparr>sc_at := Suc (sc_at sc)\<rparr>)" for st
    by (rule starts_inv_later [OF assms(2)]) simp_all
  have k: "starts_inv sc'" if key: "scan_object_key js mx f sc = Some sc'" for f
  proof -
    consider "sc' = close_container f sc"
      | pos toks where "token_string js (sc_at sc) mx (int (fr_token f)) (sc_toks sc) = Some (pos, toks)"
        "sc_toks sc' = toks" "sc_at sc' = pos"
      using key by (auto simp: scan_object_key_def Let_def split: if_splits option.splits)
    then show ?thesis using close_container_starts [OF assms(2)] token_string_starts assms(2) by cases blast+
  qed
  have a: "starts_inv sc'" if "scan_array_element js mx f sc = Some sc'" for f
    using that close_container_starts [OF assms(2)] v by (auto simp: scan_array_element_def split: if_splits)
  have s: "starts_inv sc'" if "scan_separator js f c nxt sc = Some sc'" for f c nxt
    using that close_container_starts [OF assms(2)] later by (auto simp: scan_separator_def split: if_splits)
  show ?thesis
    using assms(1) v k a s later
    by (cases "fr_state (hd (sc_stack sc))") (auto simp: scan_frame_def Let_def split: if_splits)
qed

lemma json_parse_starts:
  assumes "json_parse js mx = Some toks"
  shows "sorted_wrt (<) (map tk_start toks)"
proof -
  obtain sc where sc: "json_loop js mx False scan_start = Some (True, sc)" "toks = sc_toks sc"
    by (rule json_parse_Some [OF assms])
  have "starts_inv sc"
  proof (rule json_loop_invariant [OF sc(1), where I = "\<lambda>_. starts_inv"], goal_cases)
    case 1
    then show ?case by (simp add: starts_inv_def scan_start_def)
  next
    case (2 seen sc pos)
    then show ?case by (intro starts_inv_later [OF 2(1)]) simp_all
  next
    case (3 sc sc' d)
    then show ?case using scan_value_starts [OF 3(3,1)] by (simp add: starts_inv_def)
  next
    case (4 seen sc sc')
    then show ?case using scan_frame_starts by blast
  qed
  then show ?thesis using sc(2) by (simp add: starts_inv_def)
qed

section \<open>Lookups\<close>

lemma object_get_loop_find:
  assumes "\<forall>k \<in> set (filter (\<lambda>k. tk_parent (toks ! k) = int p) ks). \<forall>j \<in> set ks. j \<le> k \<longrightarrow> tk_start (toks ! j) < tk_end (toks ! p)"
    "sorted_wrt (<) ks"
    "\<forall>k \<in> set (pick (even direct) (filter (\<lambda>k. tk_parent (toks ! k) = int p) ks)). key_token (toks ! k) \<and> k + 1 < length toks"
  shows "object_get_loop js toks p key direct ks = map_option Suc
    (List.find (\<lambda>k. key_name js toks k = key) (pick (even direct) (filter (\<lambda>k. tk_parent (toks ! k) = int p) ks)))"
  using assms
proof (induction js toks p key direct ks rule: object_get_loop.induct)
  case (2 js toks p key direct i ks)
  let ?ch = "\<lambda>k. tk_parent (toks ! k) = int p"
  show ?case
  proof (cases "filter ?ch (i # ks) = []")
    case True
    have none: "object_get_loop js toks p key d ks' = None" if "filter ?ch ks' = []" for d ks'
      using that by (induction ks') (auto split: if_splits)
    show ?thesis unfolding True none [OF True] by simp
  next
    case False
    then obtain c where cin: "c \<in> set (filter ?ch (i # ks))" by (meson list.set_sel(1))
    then have c: "c \<in> set (i # ks)" "?ch c" unfolding set_filter by blast+
    then have "i \<le> c" using "2.prems"(2) by auto
    then have lt: "tk_start (toks ! i) < tk_end (toks ! p)"
      using "2.prems"(1) [rule_format, OF cin, of i] by simp
    have tl1: "\<forall>k \<in> set (filter ?ch ks). \<forall>j \<in> set ks. j \<le> k \<longrightarrow> tk_start (toks ! j) < tk_end (toks ! p)"
      "sorted_wrt (<) ks" using "2.prems"(1,2) by (auto split: if_splits)
    show ?thesis
    proof (cases "?ch i")
      case no: False
      then show ?thesis using "2.IH"(1) lt tl1 "2.prems"(3) by simp
    next
      case yes: True
      show ?thesis
      proof (cases "even direct")
        case True
        then have kt: "key_token (toks ! i)" "i + 1 < length toks" using "2.prems"(3) yes by auto
        show ?thesis
        proof (cases "key_name js toks i = key")
          case hit: True
          then show ?thesis using True yes lt kt by (simp add: key_name_def key_token_def)
        next
          case miss: False
          then show ?thesis
            using "2.IH"(2) True yes lt tl1 "2.prems"(3) by (simp add: key_name_def)
        qed
      next
        case odd: False
        then show ?thesis using "2.IH"(2) yes lt tl1 "2.prems"(3) by simp
      qed
    qed
  qed
qed simp

lemma json_parse_below:
  assumes "json_parse js mx = Some toks"
  shows "parents_below toks"
proof -
  obtain sc where sc: "json_loop js mx False scan_start = Some (True, sc)" "toks = sc_toks sc"
    by (rule json_parse_Some [OF assms])
  then show ?thesis using parse_inv_loop [OF sc(1)] scan_inv_below [of mx sc] by (simp add: parse_inv_def)
qed

lemma json_parse_inside:
  assumes "json_parse js mx = Some toks" "k \<in> set (children toks p)" "j \<le> k"
  shows "tk_start (toks ! j) < tk_end (toks ! p)"
proof -
  obtain sc where sc: "json_loop js mx False scan_start = Some (True, sc)" "sc_stack sc = []" "toks = sc_toks sc"
    by (rule json_parse_Some [OF assms(1)])
  have k: "k < length toks" "tk_parent (toks ! k) = int p" using assms(2) by (auto simp: children_def)
  have "extent_ok {} (sc_at sc) toks k" "parent_ok {} toks k"
    using parse_inv_loop [OF sc(1)] sc(2,3) k(1) by (auto simp: parse_inv_def scan_inv_def tok_inv_def)
  then have "tk_start (toks ! k) < tk_end (toks ! p)" using k(2) by (auto simp: parent_ok_def extent_ok_def)
  moreover have "tk_start (toks ! j) \<le> tk_start (toks ! k)"
    using json_parse_starts [OF assms(1)] assms(3) k(1)
    by (cases "j = k") (auto simp: sorted_wrt_iff_nth_less intro: less_imp_le)
  ultimately show ?thesis by simp
qed

lemma pick_even_index: "k \<in> set (pick b xs) \<Longrightarrow> \<exists>i. (even i = b) \<and> i < length xs \<and> xs ! i = k"
proof (induction b xs rule: pick.induct)
  case (2 b x xs)
  show ?case
  proof (cases "b \<and> k = x")
    case True
    then show ?thesis by (intro exI [of _ 0]) simp
  next
    case False
    then have "k \<in> set (pick (\<not> b) xs)" using "2.prems" by (cases b) auto
    then obtain i where "even i = (\<not> b)" "i < length xs" "xs ! i = k"
      using "2.IH" by (cases b) auto
    then show ?thesis by (intro exI [of _ "Suc i"]) auto
  qed
qed simp

text \<open>Every key of an object of an accepted document has a value, the token after it.\<close>

lemma key_value:
  assumes "json_parse js mx = Some toks" "p < length toks" "tk_type (toks ! p) = JSON_OBJ" "k \<in> set (keys toks p)"
  shows "k + 1 < length toks" "tk_parent (toks ! (k + 1)) = int p"
proof -
  have inv: "object_ok js toks p" "even (length (children toks p))"
    using json_parse_keys_inv [OF assms(1)] assms(2,3) by (auto simp: objects_inv_def)
  obtain i where i: "even i" "i < length (children toks p)" "children toks p ! i = k"
    using pick_even_index [of k True] assms(4) by (auto simp: keys_def)
  then obtain m where m: "i = 2 * m" by (auto elim: evenE)
  then have "Suc (2 * m) < length (children toks p)" using i(2) inv(2) by (cases "length (children toks p) = Suc (2 * m)") auto
  moreover from this have "children toks p ! Suc (2 * m) = k + 1" using inv(1) i(3) m by (simp add: object_ok_def)
  ultimately have "k + 1 \<in> set (children toks p)" by (metis nth_mem)
  then show "k + 1 < length toks" "tk_parent (toks ! (k + 1)) = int p" by (auto simp: children_def)
qed

text \<open>The lookup depends on the tokens of the document and on the text of its keys only.\<close>

lemma json_object_get_find_in:
  assumes "json_parse js mx = Some toks" "p < length toks" "tk_type (toks ! p) = JSON_OBJ" "length key < JSON_MAX_KEY_BYTES"
  shows "json_object_get js' toks (int p) key =
    map_option Suc (List.find (\<lambda>k. key_name js' toks k = key) (keys toks p))"
proof -
  let ?ch = "\<lambda>k. tk_parent (toks ! k) = int p" and ?ks = "[p + 1..<length toks]"
  have f: "filter ?ch ?ks = children toks p" by (rule children_range [OF json_parse_below [OF assms(1)] assms(2)])
  have ok: "object_ok js toks p" using json_parse_keys_inv [OF assms(1)] assms(2,3) by (simp add: objects_inv_def)
  have l: "object_get_loop js' toks p key 0 ?ks = map_option Suc
      (List.find (\<lambda>k. key_name js' toks k = key) (pick (even (0::nat)) (filter ?ch ?ks)))"
  proof (rule object_get_loop_find)
    show "\<forall>k \<in> set (filter ?ch ?ks). \<forall>j \<in> set ?ks. j \<le> k \<longrightarrow> tk_start (toks ! j) < tk_end (toks ! p)"
      unfolding f using json_parse_inside [OF assms(1)] by blast
    show "sorted_wrt (<) ?ks" by simp
    show "\<forall>k \<in> set (pick (even (0::nat)) (filter ?ch ?ks)). key_token (toks ! k) \<and> k + 1 < length toks"
      unfolding f using ok key_value [OF assms(1-3)] by (auto simp: object_ok_def keys_def)
  qed
  show ?thesis
    using assms(2-4) l [unfolded f] by (simp add: json_object_get_def keys_def del: upt_Suc)
qed

lemma json_object_get_find:
  assumes "json_parse js mx = Some toks" "p < length toks" "tk_type (toks ! p) = JSON_OBJ" "length key < JSON_MAX_KEY_BYTES"
  shows "json_object_get js toks (int p) key =
    map_option Suc (List.find (\<lambda>k. key_name js toks k = key) (keys toks p))"
  by (rule json_object_get_find_in [OF assms])

lemma find_map_of: "map_option Suc (List.find (\<lambda>k. g k = key) ks) = map_of (map (\<lambda>k. (g k, k + 1)) ks) key"
  by (induction ks) auto

text \<open>C5: Every object of an accepted document is a map: its direct children alternate between keys
  and values, the value of a key is the token after it, there are at most 256 keys and their
  decoded names are pairwise different; \<open>json_object_get\<close> is exactly the lookup in that map.\<close>

theorem json_object_is_map:
  assumes "json_parse js mx = Some toks" "p < length toks" "tk_type (toks ! p) = JSON_OBJ"
  shows "distinct (map (key_name js toks) (keys toks p)) \<and> length (keys toks p) \<le> JSON_MAX_OBJECT_KEYS \<and>
    even (length (children toks p)) \<and>
    (\<forall>k \<in> set (keys toks p). tk_type (toks ! k) = JSON_STR \<and> k + 1 < length toks \<and> tk_parent (toks ! (k + 1)) = int p) \<and>
    (\<forall>key. length key < JSON_MAX_KEY_BYTES \<longrightarrow>
       json_object_get js toks (int p) key = map_of (map (\<lambda>k. (key_name js toks k, k + 1)) (keys toks p)) key)"
proof -
  have ok: "object_ok js toks p" "even (length (children toks p))"
    using json_parse_keys_inv [OF assms(1)] assms(2,3) by (auto simp: objects_inv_def)
  have "tk_type (toks ! k) = JSON_STR \<and> k + 1 < length toks \<and> tk_parent (toks ! (k + 1)) = int p"
    if "k \<in> set (keys toks p)" for k
    using ok(1) key_value [OF assms that] that by (simp add: object_ok_def key_token_def)
  moreover have "json_object_get js toks (int p) key = map_of (map (\<lambda>k. (key_name js toks k, k + 1)) (keys toks p)) key"
    if "length key < JSON_MAX_KEY_BYTES" for key
    using json_object_get_find [OF assms that] find_map_of by metis
  ultimately show ?thesis using ok by (simp add: object_ok_def)
qed

definition demo_json :: string where
  "demo_json = ''{'' @ [DQUOTE] @ ''a'' @ [DQUOTE] @ '':7}''"

definition demo_tokens :: "JsonToken list" where
  "demo_tokens = [\<lparr>tk_type = JSON_OBJ, tk_start = 0, tk_end = 7, tk_parent = - 1\<rparr>,
    \<lparr>tk_type = JSON_STR, tk_start = 2, tk_end = 3, tk_parent = 0\<rparr>,
    \<lparr>tk_type = JSON_PRIM, tk_start = 5, tk_end = 6, tk_parent = 0\<rparr>]"

lemma demo_parse: "json_parse demo_json 8 = Some demo_tokens"
proof -
  have "json_loop demo_json 8 False scan_start =
      Some (True, \<lparr>sc_at = 7, sc_toks = demo_tokens, sc_stack = [], sc_done = True\<rparr>)" by code_simp
  moreover have "length demo_json = 7" by code_simp
  ultimately show ?thesis by (simp add: json_parse_def)
qed

theorem json_object_is_map_witness: "json_object_get demo_json demo_tokens 0 ''a'' = Some 2"
proof -
  have "0 < length demo_tokens" "tk_type (demo_tokens ! 0) = JSON_OBJ" by (simp_all add: demo_tokens_def)
  note map = json_object_is_map [OF demo_parse this]
  have "map_of (map (\<lambda>k. (key_name demo_json demo_tokens k, k + 1)) (keys demo_tokens 0)) ''a'' = Some 2" by code_simp
  then show ?thesis using map by simp
qed

section \<open>Paths\<close>

definition is_child :: "JsonToken list \<Rightarrow> nat \<Rightarrow> nat \<Rightarrow> bool" where
  "is_child toks p k \<longleftrightarrow> k < length toks \<and> tk_parent (toks ! k) = int p"

lemma array_get_loop_child: "array_get_loop toks p want idx ks = Some k \<Longrightarrow> k \<in> set ks \<and> tk_parent (toks ! k) = int p"
  by (induction toks p want idx ks rule: array_get_loop.induct) (auto split: if_splits)

lemma path_step_child:
  assumes "json_parse js mx = Some toks" "i < length toks" "path_step js toks i seg = Some k"
  shows "is_child toks i k"
proof (cases "tk_type (toks ! i) = JSON_OBJ")
  case True
  then have g: "json_object_get js toks (int i) seg = Some k" using assms(3) by (simp add: path_step_def)
  then have "length seg < JSON_MAX_KEY_BYTES" by (auto simp: json_object_get_def split: if_splits)
  then obtain k' where k': "List.find (\<lambda>k. key_name js toks k = seg) (keys toks i) = Some k'" "k = Suc k'"
    using json_object_get_find [OF assms(1,2) True] g by auto
  then have "k' \<in> set (keys toks i)" by (auto simp: find_Some_iff)
  then show ?thesis using key_value [OF assms(1,2) True] k'(2) by (simp add: is_child_def)
next
  case False
  then show ?thesis
    using assms(2,3) array_get_loop_child
    by (auto simp: path_step_def is_child_def split: if_splits prod.splits dest!: array_get_loop_child)
qed

text \<open>A path lookup never leaves the document or the subtree of its root: when it returns a
  token, that token exists and is reached from the root token by going from a container to one
  of its direct children at every step.\<close>

theorem json_path_stays_inside:
  assumes "json_parse js mx = Some toks" "json_path_get js toks root path = Some k"
  shows "0 \<le> root \<and> nat root < length toks \<and> k < length toks \<and> (is_child toks)\<^sup>*\<^sup>* (nat root) k"
proof -
  have loop: "path_loop js toks guard (Some i) p = Some k \<Longrightarrow> i < length toks \<Longrightarrow>
      k < length toks \<and> (is_child toks)\<^sup>*\<^sup>* i k" for guard i p
  proof (induction guard arbitrary: i p)
    case (Suc guard)
    show ?case
    proof (cases "p = []")
      case True
      then show ?thesis using Suc.prems by simp
    next
      case False
      then obtain j p' where j: "path_step js toks i (takeWhile (\<lambda>c. c \<noteq> CHR ''.'') p) = Some j"
          "path_loop js toks guard (Some j) p' = Some k"
        using Suc.prems(1) by (auto simp: Let_def split: if_splits option.splits)
      then have c: "is_child toks i j" using path_step_child [OF assms(1) Suc.prems(2)] by blast
      then show ?thesis using Suc.IH [OF j(2)] by (auto simp: is_child_def intro: converse_rtranclp_into_rtranclp)
    qed
  qed (simp split: if_splits)
  show ?thesis
    using assms(2) loop [of JSON_MAX_DEPTH "nat root" path] by (auto simp: json_path_get_def split: if_splits)
qed

theorem json_path_stays_inside_witness: "json_path_get demo_json demo_tokens 0 ''a'' = Some 2 \<and> 2 < length demo_tokens"
proof -
  have "json_path_get demo_json demo_tokens 0 ''a'' = Some 2" by code_simp
  with json_path_stays_inside [OF demo_parse this] show ?thesis by simp
qed

end
