(* ===== verification/Sink.thy ===== *)
theory Sink
  imports Json_Token
begin

text \<open>
  Bounded text output: the \<open>Sink\<close> of \<open>src/runtime/runtime.c\<close> that every JSON response is written
  through. The record keeps the whole destination array (\<open>sk_buf\<close>, of \<open>sk_cap\<close> bytes), so that the
  position of the terminator is part of the model. \<open>emits\<close> is the contract of an operation that
  appends a text to a bounded output: the text is appended when it fits with its terminator, and
  the output is marked as overflowed otherwise. The locale \<open>bounded_writer\<close> states it for the
  append operation of an output and derives it for what is composed of appends; the template
  writer satisfies the same contract.
\<close>

section \<open>The contract of bounded outputs\<close>

definition extend_text :: "nat \<Rightarrow> string option \<Rightarrow> string \<Rightarrow> string option" where
  "extend_text cap v t =
     (case v of None \<Rightarrow> None | Some u \<Rightarrow> if length u + length t < cap then Some (u @ t) else None)"

definition emits ::
  "('s \<Rightarrow> bool) \<Rightarrow> ('s \<Rightarrow> string option) \<Rightarrow> ('s \<Rightarrow> nat) \<Rightarrow> ('s \<Rightarrow> 's) \<Rightarrow> string \<Rightarrow> bool" where
  "emits ok view cap f t \<longleftrightarrow>
     (\<forall>s. ok s \<longrightarrow> ok (f s) \<and> cap (f s) = cap s \<and> view (f s) = extend_text (cap s) (view s) t)"

lemma extend_text_append:
  "extend_text c (extend_text c v t) u = extend_text c v (t @ u)"
  by (auto simp: extend_text_def split: option.splits)

lemma extend_text_None [simp]: "extend_text c None t = None"
  by (simp add: extend_text_def)

lemma emits_id: "(\<And>s u. ok s \<Longrightarrow> view s = Some u \<Longrightarrow> length u < cap s) \<Longrightarrow> emits ok view cap (\<lambda>s. s) []"
  by (auto simp: emits_def extend_text_def split: option.splits)

lemma emits_comp:
  assumes "emits ok view cap f t" "emits ok view cap g u"
  shows "emits ok view cap (\<lambda>s. g (f s)) (t @ u)"
  using assms by (simp add: emits_def extend_text_append)

locale bounded_writer =
  fixes ok :: "'s \<Rightarrow> bool" and view :: "'s \<Rightarrow> string option" and cap :: "'s \<Rightarrow> nat"
    and add :: "string \<Rightarrow> 's \<Rightarrow> 's"
  assumes add_ok: "ok s \<Longrightarrow> ok (add t s)"
    and add_cap: "ok s \<Longrightarrow> cap (add t s) = cap s"
    and add_view: "ok s \<Longrightarrow> view (add t s) = extend_text (cap s) (view s) t"
    and view_short: "ok s \<Longrightarrow> view s = Some u \<Longrightarrow> length u < cap s"
begin

lemma emits_add: "emits ok view cap (add t) t"
  by (simp add: emits_def add_ok add_cap add_view)

lemma emits_nothing: "emits ok view cap (\<lambda>s. s) []"
  by (rule emits_id) (auto dest: view_short)

lemma emits_fold:
  "(\<And>x. x \<in> set xs \<Longrightarrow> emits ok view cap (f x) (t x)) \<Longrightarrow> emits ok view cap (fold f xs) (concat (map t xs))"
proof (induction xs)
  case Nil
  then show ?case using emits_nothing by (simp add: id_def)
next
  case (Cons x xs)
  then have "emits ok view cap (\<lambda>s. fold f xs (f x s)) (t x @ concat (map t xs))"
    by (intro emits_comp) auto
  then show ?case by (simp add: comp_def)
qed

text \<open>An operation that stops once the output has overflowed is not different from one that goes on.\<close>

lemma emits_unless_full:
  assumes f: "emits ok view cap f t" and full: "\<And>s. ok s \<Longrightarrow> full s \<longleftrightarrow> view s = None"
  shows "emits ok view cap (\<lambda>s. if full s then s else f s) t"
  using assms by (auto simp: emits_def)

lemma emits_result:
  assumes "emits ok view cap f t" "ok s" "view s = Some []"
  shows "view (f s) = (if length t < cap s then Some t else None)"
  using assms by (simp add: emits_def extend_text_def)

end

section \<open>The code\<close>

abbreviation RUNTIME_MAX_TEXT :: nat where "RUNTIME_MAX_TEXT \<equiv> 1048576"

record Sink =
  sk_buf :: string
  sk_cap :: nat
  sk_len :: nat
  sk_overflow :: bool

text \<open>\<open>memcpy(buf + at, bytes, n)\<close> into an array.\<close>

definition poke :: "string \<Rightarrow> nat \<Rightarrow> string \<Rightarrow> string" where
  "poke buf at bytes = take at buf @ bytes @ drop (at + length bytes) buf"

definition sink_init :: "string \<Rightarrow> nat \<Rightarrow> Sink" where
  "sink_init buf cap = \<lparr>sk_buf = buf[0 := NUL], sk_cap = cap, sk_len = 0, sk_overflow = False\<rparr>"

definition sink_add_bytes :: "string \<Rightarrow> Sink \<Rightarrow> Sink" where
  "sink_add_bytes text s =
     (if sk_overflow s then s
      else if length text \<ge> sk_cap s - sk_len s then s\<lparr>sk_overflow := True\<rparr>
      else s\<lparr>sk_buf := (poke (sk_buf s) (sk_len s) text)[sk_len s + length text := NUL],
             sk_len := sk_len s + length text\<rparr>)"

definition sink_add :: "string \<Rightarrow> Sink \<Rightarrow> Sink" where
  "sink_add text s = sink_add_bytes (cstr text) s"

definition sink_put :: "char \<Rightarrow> Sink \<Rightarrow> Sink" where
  "sink_put c s =
     (if sk_overflow s then s
      else if sk_len s + 1 \<ge> sk_cap s then s\<lparr>sk_overflow := True\<rparr>
      else s\<lparr>sk_buf := (sk_buf s)[sk_len s := c], sk_len := sk_len s + 1\<rparr>)"

definition sink_terminate :: "Sink \<Rightarrow> Sink" where
  "sink_terminate s = (if sk_overflow s then s else s\<lparr>sk_buf := (sk_buf s)[sk_len s := NUL]\<rparr>)"

definition HEX_DIGIT :: string where
  "HEX_DIGIT = ''0123456789abcdef''"

definition sink_escape :: "char \<Rightarrow> Sink \<Rightarrow> Sink" where
  "sink_escape c s =
     (if c = DQUOTE then sink_add_bytes [BSLASH, DQUOTE] s
      else if c = BSLASH then sink_add_bytes [BSLASH, BSLASH] s
      else if c = LF then sink_add_bytes [BSLASH, CHR ''n''] s
      else if c = CR then sink_add_bytes [BSLASH, CHR ''r''] s
      else if c = TAB then sink_add_bytes [BSLASH, CHR ''t''] s
      else
        sink_put (HEX_DIGIT ! (byte c mod 16))
          (sink_put (HEX_DIGIT ! (byte c div 16 mod 16)) (sink_add_bytes (BSLASH # ''u00'') s)))"

definition is_plain :: "char \<Rightarrow> bool" where
  "is_plain c \<longleftrightarrow> byte c \<ge> 0x20 \<and> c \<noteq> DQUOTE \<and> c \<noteq> BSLASH"

text \<open>The loop of \<open>sink_add_escaped\<close>: \<open>run\<close> is \<open>text[plain..i)\<close>, the characters not yet written.\<close>

fun sink_escaped_loop :: "string \<Rightarrow> string \<Rightarrow> Sink \<Rightarrow> Sink" where
  "sink_escaped_loop run [] s = (if run \<noteq> [] then sink_add_bytes run s else s)"
| "sink_escaped_loop run (c # text) s =
     (if is_plain c then sink_escaped_loop (run @ [c]) text s
      else sink_escaped_loop [] text (sink_escape c (if run \<noteq> [] then sink_add_bytes run s else s)))"

definition sink_add_escaped :: "string \<Rightarrow> Sink \<Rightarrow> Sink" where
  "sink_add_escaped text s =
     sink_terminate (sink_escaped_loop [] (take RUNTIME_MAX_TEXT (cstr text)) s)"

text \<open>The digits of the magnitude, least significant first, at most 24 of them.\<close>

fun int_digits :: "nat \<Rightarrow> nat \<Rightarrow> string" where
  "int_digits 0 magnitude = []"
| "int_digits (Suc room) magnitude =
     char_of (48 + magnitude mod 10) # (if magnitude div 10 > 0 then int_digits room (magnitude div 10) else [])"

definition sink_add_int :: "int \<Rightarrow> Sink \<Rightarrow> Sink" where
  "sink_add_int value s =
     (let s1 = (if value < 0 then sink_put (CHR ''-'') s else s);
          magnitude = (if value < 0 then nat (- (value + 1)) + 1 else nat value)
      in sink_terminate (fold sink_put (rev (int_digits 24 magnitude)) s1))"

section \<open>The state of a sink\<close>

definition sink_wf :: "Sink \<Rightarrow> bool" where
  "sink_wf s \<longleftrightarrow> length (sk_buf s) = sk_cap s \<and> sk_len s < sk_cap s"

definition sink_view :: "Sink \<Rightarrow> string option" where
  "sink_view s = (if sk_overflow s then None else Some (take (sk_len s) (sk_buf s)))"

abbreviation writes :: "(Sink \<Rightarrow> Sink) \<Rightarrow> string \<Rightarrow> bool" where
  "writes \<equiv> emits sink_wf sink_view sk_cap"

definition terminated :: "Sink \<Rightarrow> bool" where
  "terminated s \<longleftrightarrow> sk_overflow s \<or> sk_buf s ! sk_len s = NUL"

lemma sink_wf_init: "length buf = cap \<Longrightarrow> 0 < cap \<Longrightarrow> sink_wf (sink_init buf cap)"
  by (simp add: sink_wf_def sink_init_def)

lemma sink_view_init [simp]: "sink_view (sink_init buf cap) = Some []"
  by (simp add: sink_view_def sink_init_def)

lemma sk_cap_init [simp]: "sk_cap (sink_init buf cap) = cap"
  by (simp add: sink_init_def)

lemma length_poke: "at + length bytes \<le> length buf \<Longrightarrow> length (poke buf at bytes) = length buf"
  by (simp add: poke_def)

lemma writes_add_bytes: "writes (sink_add_bytes t) t"
  unfolding emits_def
proof (intro allI impI)
  fix s assume wf: "sink_wf s"
  show "sink_wf (sink_add_bytes t s) \<and> sk_cap (sink_add_bytes t s) = sk_cap s \<and>
    sink_view (sink_add_bytes t s) = extend_text (sk_cap s) (sink_view s) t"
  proof (cases "sk_overflow s \<or> length t \<ge> sk_cap s - sk_len s")
    case True
    then show ?thesis using wf by (auto simp: sink_add_bytes_def sink_wf_def sink_view_def extend_text_def)
  next
    case False
    then show ?thesis
      using wf by (auto simp: sink_add_bytes_def sink_wf_def sink_view_def extend_text_def length_poke)
        (simp add: poke_def)
  qed
qed

interpretation snk: bounded_writer sink_wf sink_view sk_cap sink_add_bytes
proof
  fix s t u
  show "sink_wf s \<Longrightarrow> sink_wf (sink_add_bytes t s)" "sink_wf s \<Longrightarrow> sk_cap (sink_add_bytes t s) = sk_cap s"
    "sink_wf s \<Longrightarrow> sink_view (sink_add_bytes t s) = extend_text (sk_cap s) (sink_view s) t"
    using writes_add_bytes [of t] by (simp_all add: emits_def)
  show "sink_wf s \<Longrightarrow> sink_view s = Some u \<Longrightarrow> length u < sk_cap s"
    by (auto simp: sink_wf_def sink_view_def split: if_splits)
qed

lemma writes_add: "writes (sink_add t) (cstr t)"
  unfolding sink_add_def using writes_add_bytes .

lemma writes_put: "writes (sink_put c) [c]"
  by (auto simp: emits_def sink_put_def sink_wf_def sink_view_def extend_text_def take_Suc_conv_app_nth)

lemma writes_terminate: "writes sink_terminate []"
  by (auto simp: emits_def sink_terminate_def sink_wf_def sink_view_def extend_text_def)

lemma writes_puts: "writes (fold sink_put t) t"
  using snk.emits_fold [of t sink_put "\<lambda>c. [c]"] writes_put by simp

lemma terminated_terminate: "sink_wf s \<Longrightarrow> terminated (sink_terminate s)"
  by (simp add: terminated_def sink_terminate_def sink_wf_def)

lemma terminated_add: "sink_wf s \<Longrightarrow> terminated s \<Longrightarrow> terminated (sink_add_bytes t s)"
  by (auto simp: terminated_def sink_add_bytes_def sink_wf_def length_poke)

lemma cstr_terminated:
  assumes "sink_wf s" "terminated s" "sink_view s = Some t" "NUL \<notin> set t"
  shows "cstr (sk_buf s) = t"
proof -
  have t: "t = take (sk_len s) (sk_buf s)" "\<not> sk_overflow s"
    using assms by (auto simp: sink_view_def split: if_splits)
  then have "sk_buf s = t @ NUL # drop (Suc (sk_len s)) (sk_buf s)"
    using assms by (metis Cons_nth_drop_Suc append_take_drop_id sink_wf_def terminated_def)
  moreover have "cstr (t @ NUL # r) = t" for r
    using assms(4) by (subst cstr_def, subst takeWhile_append2) auto
  ultimately show ?thesis by metis
qed

section \<open>Escaping\<close>

text \<open>The escaped form of a character and of a text, as a function.\<close>

definition escape_of :: "char \<Rightarrow> string" where
  "escape_of c =
     (if c = DQUOTE then [BSLASH, DQUOTE] else if c = BSLASH then [BSLASH, BSLASH]
      else if c = LF then [BSLASH, CHR ''n''] else if c = CR then [BSLASH, CHR ''r'']
      else if c = TAB then [BSLASH, CHR ''t'']
      else BSLASH # ''u00'' @ [HEX_DIGIT ! (byte c div 16 mod 16), HEX_DIGIT ! (byte c mod 16)])"

definition json_escape :: "string \<Rightarrow> string" where
  "json_escape t = concat (map (\<lambda>c. if is_plain c then [c] else escape_of c) t)"

lemma json_escape_simps [simp]:
  "json_escape [] = []"
  "json_escape (c # t) = (if is_plain c then [c] else escape_of c) @ json_escape t"
  by (simp_all add: json_escape_def)

lemma writes_escape: "writes (sink_escape c) (escape_of c)"
proof -
  have "writes (\<lambda>s. sink_put b (sink_put a (sink_add_bytes t s))) (t @ [a, b])" for a b t
    using emits_comp [OF emits_comp [OF writes_add_bytes [of t] writes_put [of a]] writes_put [of b]] by simp
  from this [of "HEX_DIGIT ! (byte c mod 16)" "HEX_DIGIT ! (byte c div 16 mod 16)" "BSLASH # ''u00''"] show ?thesis
    unfolding sink_escape_def escape_of_def using writes_add_bytes by simp
qed

lemma writes_run: "writes (\<lambda>s. if run \<noteq> [] then sink_add_bytes run s else s) run"
  using writes_add_bytes [of run] snk.emits_nothing by (cases "run = []") simp_all

lemma writes_escaped_loop: "writes (sink_escaped_loop run t) (run @ json_escape t)"
proof (induction t arbitrary: run)
  case Nil
  then show ?case using writes_run [of run] by simp
next
  case (Cons c t)
  show ?case
  proof (cases "is_plain c")
    case True
    then show ?thesis using Cons.IH [of "run @ [c]"] by simp
  next
    case False
    have "writes (\<lambda>s. sink_escaped_loop [] t (sink_escape c (if run \<noteq> [] then sink_add_bytes run s else s)))
      ((run @ escape_of c) @ [] @ json_escape t)"
      using emits_comp [OF emits_comp [OF writes_run [of run] writes_escape [of c]] Cons.IH [of "[]"]] .
    then show ?thesis using False by simp
  qed
qed

lemma writes_add_escaped: "writes (sink_add_escaped t) (json_escape (take RUNTIME_MAX_TEXT (cstr t)))"
  unfolding sink_add_escaped_def
  using emits_comp [OF writes_escaped_loop [of "[]" "take RUNTIME_MAX_TEXT (cstr t)"] writes_terminate] by simp

text \<open>A piece \<open>e\<close> of a string token that the scanner passes and the decoder reads as \<open>d\<close>.\<close>

definition decodes :: "string \<Rightarrow> string \<Rightarrow> bool" where
  "decodes e d \<longleftrightarrow>
     (\<forall>pre post j outsz out.
        (string_body (pre @ e @ post) j (length pre + length e) \<longrightarrow> string_body (pre @ e @ post) j (length pre)) \<and>
        (length pre + length e \<le> j \<longrightarrow> length out + length d < outsz \<longrightarrow>
           copy_loop (pre @ e @ post) True j outsz (length pre) out =
           copy_loop (pre @ e @ post) True j outsz (length pre + length e) (out @ d)))"

lemma decodesI:
  assumes "\<And>js pre post j. js = pre @ e @ post \<Longrightarrow> string_body js j (length pre + length e) \<Longrightarrow> string_body js j (length pre)"
    and "\<And>js pre post j outsz out. js = pre @ e @ post \<Longrightarrow> length pre + length e \<le> j \<Longrightarrow> length out + length d < outsz \<Longrightarrow>
      copy_loop js True j outsz (length pre) out = copy_loop js True j outsz (length pre + length e) (out @ d)"
  shows "decodes e d"
  unfolding decodes_def using assms by metis

lemma decodes_body:
  "decodes e d \<Longrightarrow> js = pre @ e @ post \<Longrightarrow> string_body js j (length pre + length e) \<Longrightarrow> string_body js j (length pre)"
  unfolding decodes_def by blast

lemma decodes_copy:
  "decodes e d \<Longrightarrow> js = pre @ e @ post \<Longrightarrow> length pre + length e \<le> j \<Longrightarrow> length out + length d < outsz \<Longrightarrow>
    copy_loop js True j outsz (length pre) out = copy_loop js True j outsz (length pre + length e) (out @ d)"
  unfolding decodes_def by blast

lemma decodes_append:
  assumes "decodes e d" "decodes e' d'"
  shows "decodes (e @ e') (d @ d')"
proof (rule decodesI, goal_cases)
  case (1 js pre post j)
  have "string_body js j (length pre + length e)"
    using decodes_body [OF assms(2), of js "pre @ e" post j] 1 by (simp add: add.assoc)
  then show ?case
    using decodes_body [OF assms(1), of js pre "e' @ post" j] 1 by simp
next
  case (2 js pre post j outsz out)
  have "copy_loop js True j outsz (length pre) out = copy_loop js True j outsz (length pre + length e) (out @ d)"
    using decodes_copy [OF assms(1), of js pre "e' @ post" j out outsz] 2 by simp
  also have "\<dots> = copy_loop js True j outsz (length pre + length e + length e') (out @ d @ d')"
    using decodes_copy [OF assms(2), of js "pre @ e" post j "out @ d" outsz] 2 by simp
  finally show ?case by (simp add: add.assoc)
qed

lemma decodes_Nil: "decodes [] []"
  by (simp add: decodes_def)

lemma decodes_ascii:
  assumes "is_plain c" "byte c < 0x80"
  shows "decodes [c] [c]"
proof (rule decodesI, goal_cases)
  case (1 js pre post j)
  show ?case by (rule body_ascii) (use 1 assms in \<open>auto simp: is_plain_def nth_append\<close>)
next
  case (2 js pre post j outsz out)
  then show ?case using copy_run [of 1 js "length pre" j out outsz] assms by (simp add: is_plain_def)
qed

lemma decodes_utf8:
  assumes "utf8_char a"
  shows "decodes a a"
proof -
  have adv: "utf8_advance (pre @ a @ post) (length (pre @ a @ post)) (length pre) = Some (length pre + length a)" for pre post
  proof -
    let ?js = "pre @ a @ post"
    have a: "utf8_advance a (length a) 0 = Some (length a)" "a \<noteq> []" using assms by (auto simp: utf8_char_def)
    obtain n mn mx where l: "utf8_lead (byte (a ! 0)) = Some (n, mn, mx)" "length a = n + 1"
        "mn \<le> byte (a ! 1)" "byte (a ! 1) \<le> mx" "\<not> (\<exists>k \<in> {2..n}. byte (a ! k) < 0x80 \<or> byte (a ! k) > 0xBF)"
      using a(1) by (auto simp: utf8_advance_def Let_def split: option.splits if_splits)
    have n: "1 \<le> n" using l(1) by (auto simp: utf8_lead_def split: if_splits)
    have nth: "?js ! (length pre + k) = a ! k" if "k \<le> n" for k using that l(2) by (simp add: nth_append)
    show ?thesis
      using l n nth [of 0] nth [of 1] nth
      by (auto simp: utf8_advance_def Let_def simp del: nth_append_length_plus)
  qed
  show ?thesis
  proof (rule decodesI, goal_cases)
    case (1 js pre post j)
    have "0x80 \<le> byte (js ! length pre)"
      using utf8_advance_bytes [OF adv [of pre post], of "length pre"] assms 1 by (simp add: utf8_char_def)
    then show ?case using adv [of pre post] 1 assms by (intro body_utf8 [of "length pre" js "length pre + length a"]) (auto simp: utf8_char_def)
  next
    case (2 js pre post j outsz out)
    have "js ! (length pre + m) \<noteq> BSLASH" if "m < length a" for m
      using utf8_advance_bytes [OF adv [of pre post], of "length pre + m"] that 2(1) by auto
    then show ?case using copy_run [of "length a" js "length pre" j out outsz] 2 by simp
  qed
qed

lemma decodes_simple:
  assumes "c \<in> set simple_escapes" "escape_char c = Some d"
  shows "decodes [BSLASH, c] [d]"
proof (rule decodesI, goal_cases)
  case (1 js pre post j)
  show ?case by (rule body_escape) (use 1 assms in \<open>auto simp: nth_append\<close>)
next
  case (2 js pre post j outsz out)
  then show ?case using assms by (subst copy_loop.simps) (auto simp: nth_append)
qed

lemma decodes_code:
  assumes "read_hex_loop 0 h = Some v" "length h = 4" "unat v < 0x80"
  shows "decodes (BSLASH # CHR ''u'' # h) [char_of (unat v)]"
proof -
  have hex: "read_hex4 (pre @ (BSLASH # CHR ''u'' # h) @ post) k (length pre + 2) = Some v" if "length pre + 6 \<le> k" for pre post k
    using assms that by (simp add: read_hex4_def)
  have low: "\<not> high_surrogate v" "\<not> low_surrogate v"
    using assms(3) by (simp_all add: high_surrogate_def low_surrogate_def word_le_nat_alt)
  have enc: "utf8_encode v k = [char_of (unat v)]" if "1 \<le> k" for k
    using assms(3) that by (simp add: utf8_encode_def byte_char_def word_le_nat_alt)
  show ?thesis
  proof (rule decodesI, goal_cases)
    case (1 js pre post j)
    show ?case
      by (rule body_code [of "length pre" js v])
        (use 1 assms hex [of pre "length js" post] low in \<open>auto simp: nth_append numeral_eq_Suc\<close>)
  next
    case (2 js pre post j outsz out)
    then show ?case
      using assms hex [of pre j post] low enc
      by (subst copy_loop.simps) (auto simp: nth_append escape_char_u numeral_eq_Suc)
  qed
qed

lemma hex_escape_value:
  assumes "byte c < 0x20"
  shows "\<exists>v. read_hex_loop 0 (''00'' @ [HEX_DIGIT ! (byte c div 16 mod 16), HEX_DIGIT ! (byte c mod 16)]) = Some v \<and>
    unat v = byte c"
proof -
  have "list_all (\<lambda>n. read_hex_loop 0 (''00'' @ [HEX_DIGIT ! (n div 16 mod 16), HEX_DIGIT ! (n mod 16)]) =
      Some (of_nat n)) [0..<32]"
    by code_simp
  then have "read_hex_loop 0 (''00'' @ [HEX_DIGIT ! (byte c div 16 mod 16), HEX_DIGIT ! (byte c mod 16)]) =
      Some (of_nat (byte c))"
    using assms unfolding list_all_iff by (drule_tac x = "byte c" in bspec) (simp_all del: read_hex_loop.simps)
  moreover have "unat (of_nat (byte c) :: 32 word) = byte c"
    using assms by (simp add: unat_of_nat)
  ultimately show ?thesis by blast
qed

lemma decodes_escape: "\<not> is_plain c \<Longrightarrow> decodes (escape_of c) [c]"
proof -
  assume c: "\<not> is_plain c"
  have simple: "DQUOTE \<in> set simple_escapes" "BSLASH \<in> set simple_escapes" "CHR ''n'' \<in> set simple_escapes"
      "CHR ''r'' \<in> set simple_escapes" "CHR ''t'' \<in> set simple_escapes"
      "escape_char DQUOTE = Some DQUOTE" "escape_char BSLASH = Some BSLASH" "escape_char (CHR ''n'') = Some LF"
      "escape_char (CHR ''r'') = Some CR" "escape_char (CHR ''t'') = Some TAB"
    by (simp_all add: simple_escapes_def escape_char_def)
  consider "c = DQUOTE" | "c = BSLASH" | "c = LF" | "c = CR" | "c = TAB"
    | "c \<notin> {DQUOTE, BSLASH, LF, CR, TAB}" by blast
  then show ?thesis
  proof cases
    case 6
    then have "byte c < 0x20" using c by (auto simp: is_plain_def)
    then obtain v where "read_hex_loop 0 (''00'' @ [HEX_DIGIT ! (byte c div 16 mod 16), HEX_DIGIT ! (byte c mod 16)]) = Some v"
        "unat v = byte c" using hex_escape_value by blast
    with \<open>byte c < 0x20\<close> show ?thesis
      using decodes_code [of "''00'' @ [HEX_DIGIT ! (byte c div 16 mod 16), HEX_DIGIT ! (byte c mod 16)]" v] 6
      by (simp add: escape_of_def byte_def)
  qed (use decodes_simple simple in \<open>simp_all add: escape_of_def\<close>)
qed

lemma is_plain_high: "0x80 \<le> byte c \<Longrightarrow> is_plain c"
  by (auto simp: is_plain_def)

lemma json_escape_plain: "\<forall>c \<in> set a. is_plain c \<Longrightarrow> json_escape (a @ s) = a @ json_escape s"
  by (induction a) auto

lemma utf8_char_high: "utf8_char a \<Longrightarrow> c \<in> set a \<Longrightarrow> 0x80 \<le> byte c"
  unfolding utf8_char_def by (metis in_set_conv_nth utf8_advance_bytes zero_le)

lemma decodes_json_escape: "utf8_text t \<Longrightarrow> decodes (json_escape t) t"
proof (induction rule: utf8_text.induct)
  case utf8_nil
  then show ?case by (simp add: decodes_Nil)
next
  case (utf8_ascii c s)
  then show ?case
    using decodes_append [of "if is_plain c then [c] else escape_of c" "[c]"] decodes_ascii [of c] decodes_escape [of c]
    by auto
next
  case (utf8_multi a s)
  have "\<forall>c \<in> set a. is_plain c" using utf8_char_high [OF utf8_multi(1)] is_plain_high by blast
  then show ?case
    using decodes_append [OF decodes_utf8 [OF utf8_multi(1)] utf8_multi.IH] json_escape_plain [of a s] by simp
qed

text \<open>A quoted escaped text is one string token, and decodes to the text.\<close>

lemma quoted_text_token:
  assumes "utf8_text t" and js: "js = pre @ DQUOTE # json_escape t @ DQUOTE # post"
  shows "string_end js (length pre + 1) = Some (length pre + 1 + length (json_escape t))"
    and "length t < outsz \<Longrightarrow> json_copy_str js \<lparr>tk_type = JSON_STR, tk_start = int (length pre + 1),
      tk_end = int (length pre + 1 + length (json_escape t)), tk_parent = p\<rparr> outsz = t"
proof -
  let ?j = "length pre + 1 + length (json_escape t)"
  have d: "decodes (json_escape t) t" using decodes_json_escape [OF assms(1)] .
  have js': "js = (pre @ [DQUOTE]) @ json_escape t @ DQUOTE # post" using js by simp
  have close: "?j < length js" "js ! ?j = DQUOTE" using js by (simp_all add: nth_append)
  then have "string_body js ?j ?j" by (rule body_quote)
  then have "string_body js ?j (length pre + 1)"
    using decodes_body [OF d js', of ?j] by simp
  then show "string_end js (length pre + 1) = Some ?j" by (simp add: string_end_iff)
  assume "length t < outsz"
  then have "copy_loop js True ?j outsz (length pre + 1) [] = copy_loop js True ?j outsz ?j t"
    using decodes_copy [OF d js', of ?j "[]" outsz] by simp
  also have "\<dots> = t" by (subst copy_loop.simps) simp
  finally show "json_copy_str js \<lparr>tk_type = JSON_STR, tk_start = int (length pre + 1), tk_end = int ?j, tk_parent = p\<rparr> outsz = t"
    using \<open>length t < outsz\<close> by (auto simp: json_copy_str_def nat_add_distrib)
qed

section \<open>Integers\<close>

text \<open>The decimal text of an integer.\<close>

definition int_text :: "int \<Rightarrow> string" where
  "int_text v = (if v < 0 then ''-'' else []) @ rev (int_digits 24 (nat \<bar>v\<bar>))"

lemma digit_char:
  fixes n :: nat
  assumes "n < 10"
  shows "byte (char_of (48 + n)) = 48 + n" "is_digit (char_of (48 + n))" "digit_val (char_of (48 + n)) = n"
proof -
  show b: "byte (char_of (48 + n)) = 48 + n" using assms by (simp add: byte_def)
  show "is_digit (char_of (48 + n))" "digit_val (char_of (48 + n)) = n"
    unfolding is_digit_def digit_val_def b using assms by simp_all
qed

lemma dec_val_snoc: "dec_val (s @ [c]) = dec_val s * 10 + digit_val c"
  by (simp add: dec_val_def)

lemma int_digits_value:
  "n < 10 ^ room \<Longrightarrow> dec_val (rev (int_digits room n)) = n"
proof (induction room n rule: int_digits.induct)
  case (2 room n)
  have "n div 10 < 10 ^ room" using "2.prems" by (simp add: less_mult_imp_div_less mult.commute)
  then have "dec_val (rev (if n div 10 > 0 then int_digits room (n div 10) else [])) = n div 10"
    using "2.IH" by (cases "n div 10 > 0") (auto simp: dec_val_def)
  then show ?case
    using digit_char(3) [of "n mod 10"] by (simp add: dec_val_snoc)
qed (simp add: dec_val_def)

lemma int_digits_digits: "c \<in> set (int_digits room n) \<Longrightarrow> is_digit c"
proof (induction room n rule: int_digits.induct)
  case (2 room n)
  then show ?case using digit_char(2) [of "n mod 10"] by (auto split: if_splits)
qed simp

lemma int_digits_nonempty: "0 < room \<Longrightarrow> int_digits room n \<noteq> []"
  by (cases room) auto

lemma writes_add_int: "writes (sink_add_int v) (int_text v)"
proof -
  have m: "nat (- (v + 1)) + 1 = nat \<bar>v\<bar>" if "v < 0" using that by linarith
  have "writes (\<lambda>s. if v < 0 then sink_put (CHR ''-'') s else s) (if v < 0 then ''-'' else [])"
    using writes_put [of "CHR ''-''"] snk.emits_nothing by simp
  from emits_comp [OF emits_comp [OF this writes_puts [of "rev (int_digits 24 (nat \<bar>v\<bar>))"]] writes_terminate]
  show ?thesis
    using m by (cases "v < 0") (simp_all add: sink_add_int_def [abs_def] int_text_def Let_def)
qed

lemma strtol10_int_text:
  assumes "- (2 ^ 63) \<le> v" "v < 2 ^ 63"
  shows "strtol10 (int_text v) = (v, [], False)"
proof -
  let ?ds = "rev (int_digits 24 (nat \<bar>v\<bar>))"
  have d: "?ds \<noteq> []" "\<forall>c \<in> set ?ds. is_digit c"
    using int_digits_nonempty [of 24] int_digits_digits by auto
  have "nat \<bar>v\<bar> < 10 ^ 24" using assms by (simp add: nat_less_iff)
  then have "dec_val ?ds = nat \<bar>v\<bar>" by (rule int_digits_value)
  then show ?thesis
    using strtol10_digits [OF d] assms by (cases "v < 0") (auto simp: int_text_def clamp_long_def)
qed

text \<open>Integers survive the writer: for every \<open>long\<close>, the characters \<open>sink_add_int\<close> appends to a
  sink with room for them are read back by \<open>strtol\<close> as the same number, with nothing left over
  and no range error; and the sink stays terminated.\<close>

theorem sink_int_roundtrip:
  assumes "sink_wf s" "sink_view s = Some u" "length u + length (int_text v) < sk_cap s"
    "- (2 ^ 63) \<le> v" "v < 2 ^ 63"
  shows "\<exists>t. sink_view (sink_add_int v s) = Some (u @ t) \<and> strtol10 t = (v, [], False) \<and>
    terminated (sink_add_int v s)"
proof -
  have v: "sink_view (sink_add_int v s) = Some (u @ int_text v)"
    using writes_add_int [of v] assms(1-3) by (simp add: emits_def extend_text_def)
  have "sink_wf (fold sink_put ds (if v < 0 then sink_put (CHR ''-'') s else s))" for ds
    using writes_puts [of ds] writes_put [of "CHR ''-''"] assms(1) by (simp add: emits_def)
  then have "terminated (sink_add_int v s)"
    unfolding sink_add_int_def Let_def by (intro terminated_terminate)
  then show ?thesis using v strtol10_int_text [OF assms(4,5)] by blast
qed

theorem sink_int_roundtrip_witness:
  "\<exists>t. sink_view (sink_add_int (- 40) (sink_init (replicate 8 NUL) 8)) = Some t \<and> strtol10 t = (- 40, [], False)"
proof -
  have "sink_wf (sink_init (replicate 8 NUL) 8)" by (simp add: sink_wf_init)
  moreover have "length (int_text (- 40)) < 8" by code_simp
  ultimately show ?thesis
    using sink_int_roundtrip [of "sink_init (replicate 8 NUL) 8" "[]" "- 40"] by auto
qed

text \<open>Text survives the writer and the parser: when a well-formed UTF-8 text of less than one
  mebibyte is written to a sink between quotes, the JSON scanner takes what was written as one
  string token, and decoding that token gives the text back, whatever surrounds it.\<close>

theorem sink_text_roundtrip:
  assumes "sink_wf s" "sink_view s = Some u" "utf8_text t" "NUL \<notin> set t" "length t < RUNTIME_MAX_TEXT"
    "length u + length (json_escape t) + 2 < sk_cap s" "length t < outsz" "length toks < mx"
  shows "\<exists>js. sink_view (sink_add_bytes [DQUOTE] (sink_add_escaped t (sink_add_bytes [DQUOTE] s))) = Some js \<and>
    (\<exists>toks'. token_string (js @ post) (length u) mx parent toks = Some (length js, toks') \<and>
       json_copy_str (js @ post) (last toks') outsz = t)"
proof -
  let ?js = "u @ DQUOTE # json_escape t @ [DQUOTE]"
  have "writes (\<lambda>s. sink_add_bytes [DQUOTE] (sink_add_escaped t (sink_add_bytes [DQUOTE] s))) (([DQUOTE] @ json_escape t) @ [DQUOTE])"
    using emits_comp [OF emits_comp [OF writes_add_bytes [of "[DQUOTE]"] writes_add_escaped [of t]] writes_add_bytes [of "[DQUOTE]"]]
      assms(4,5) by (simp add: cstr_id)
  then have v: "sink_view (sink_add_bytes [DQUOTE] (sink_add_escaped t (sink_add_bytes [DQUOTE] s))) = Some ?js"
    using assms(1,2,6) by (simp add: emits_def extend_text_def)
  have e: "?js @ post = u @ DQUOTE # json_escape t @ DQUOTE # post" by simp
  have "token_string (?js @ post) (length u) mx parent toks = Some (length ?js, toks @
      [\<lparr>tk_type = JSON_STR, tk_start = int (length u + 1), tk_end = int (length u + 1 + length (json_escape t)), tk_parent = parent\<rparr>])"
    using quoted_text_token(1) [OF assms(3) e] assms(8) by (subst token_string_Some) simp
  then show ?thesis
    using v quoted_text_token(2) [OF assms(3) e assms(7), of parent] by (intro exI [of _ ?js]) (simp del: of_nat_add)
qed

theorem sink_text_roundtrip_witness:
  "\<exists>js toks'. sink_view (sink_add_bytes [DQUOTE] (sink_add_escaped (CHR ''a'' # LF # [DQUOTE])
      (sink_add_bytes [DQUOTE] (sink_init (replicate 32 NUL) 32)))) = Some js \<and>
    token_string js 0 4 (- 1) [] = Some (length js, toks') \<and> json_copy_str js (last toks') 16 = CHR ''a'' # LF # [DQUOTE]"
proof -
  have u: "utf8_text (CHR ''a'' # LF # [DQUOTE])" by (intro utf8_text.intros) (simp_all add: byte_def)
  have l: "length (json_escape (CHR ''a'' # LF # [DQUOTE])) = 5"
    by (simp add: is_plain_def escape_of_def byte_def)
  show ?thesis
    using sink_text_roundtrip [of "sink_init (replicate 32 NUL) 32" "[]" "CHR ''a'' # LF # [DQUOTE]" 16 "[]" 4 "[]" "- 1"]
      sink_wf_init [of "replicate 32 NUL" 32] u l by auto
qed

end
