(* ===== verification/Type_Info.thy ===== *)
theory Type_Info
  imports Complex_Main Sink
begin

text \<open>
  Type descriptors and the JSON writer: \<open>src/core/nullable.c\<close> and the type and writer halves of
  \<open>src/runtime/runtime.c\<close>. A structure in memory is the list of its bytes, so that a read at an offset
  is the code's \<open>memcpy\<close>; the layout of the scalar types is the LP64 one the program is built for
  (\<open>int\<close> 4, \<open>long\<close>, \<open>double\<close> and pointers 8, \<open>bool\<close> 1 byte, little endian, natural alignment). A
  \<open>str\<close> field holds an address; the text at an address is the argument \<open>text_at\<close>, the rest of the
  process's memory. \<open>fmt_double\<close> is the text \<open>printf("%.17g")\<close> gives for the bits of a finite double.
  Offsets, sizes and flags keep their widths. A null \<open>fields\<close> pointer is None.
\<close>

section \<open>Data\<close>

datatype FieldKind = FIELD_INT | FIELD_LONG | FIELD_DOUBLE | FIELD_BOOL | FIELD_STR | FIELD_OBJECT

abbreviation FIELD_PRIMARY_KEY :: "32 word" where "FIELD_PRIMARY_KEY \<equiv> 1"
abbreviation FIELD_NOT_NULL :: "32 word" where "FIELD_NOT_NULL \<equiv> 2"
abbreviation FIELD_UNIQUE :: "32 word" where "FIELD_UNIQUE \<equiv> 4"
abbreviation FIELD_NULLABLE :: "32 word" where "FIELD_NULLABLE \<equiv> 8"

abbreviation RULE_MIN :: "32 word" where "RULE_MIN \<equiv> 1"
abbreviation RULE_MAX :: "32 word" where "RULE_MAX \<equiv> 2"
abbreviation RULE_SIZE :: "32 word" where "RULE_SIZE \<equiv> 4"
abbreviation RULE_EMAIL :: "32 word" where "RULE_EMAIL \<equiv> 8"

abbreviation NEST_DEPTH_MAX :: nat where "NEST_DEPTH_MAX \<equiv> 8"
abbreviation PAGE_MAX :: nat where "PAGE_MAX \<equiv> 100"
abbreviation RUNTIME_MAX_FIELDS :: nat where "RUNTIME_MAX_FIELDS \<equiv> 64"
abbreviation RUNTIME_MAX_TYPES :: nat where "RUNTIME_MAX_TYPES \<equiv> 4096"

text \<open>The bounds of a rule are \<open>long double\<close> constants, rational numbers.\<close>

record FieldRules =
  fr_flags :: "32 word"
  fr_min :: rat
  fr_max :: rat
  fr_size_min :: nat
  fr_size_max :: nat
  fr_min_int :: int
  fr_max_int :: int

datatype TypeInfo = TypeInfo (ti_name: "string option") (ti_size: "16 word") (ti_fields: "FieldInfo list option")
  and FieldInfo = FieldInfo (fi_name: "string option") (fi_kind: FieldKind) (fi_offset: "16 word") (fi_size: "16 word")
    (fi_flags: "32 word") (fi_nested: "TypeInfo option") (fi_references: "string option")
    (fi_reference_key: "string option") (fi_rules: FieldRules)

definition fields_of :: "TypeInfo \<Rightarrow> FieldInfo list" where
  "fields_of t = (case ti_fields t of None \<Rightarrow> [] | Some fs \<Rightarrow> fs)"

definition has_flag :: "32 word \<Rightarrow> 32 word \<Rightarrow> bool" where
  "has_flag flags b \<longleftrightarrow> flags AND b \<noteq> 0"

section \<open>Reading memory\<close>

type_synonym memory = "string"

definition bytes_at :: "memory \<Rightarrow> nat \<Rightarrow> nat \<Rightarrow> string" where
  "bytes_at obj offset n = take n (drop offset obj)"

definition le_val :: "string \<Rightarrow> nat" where
  "le_val bs = foldr (\<lambda>b v. byte b + 256 * v) bs 0"

definition read_str :: "memory \<Rightarrow> 16 word \<Rightarrow> size_t" where
  "read_str obj offset = of_nat (le_val (bytes_at obj (unat offset) 8))"

definition read_int :: "memory \<Rightarrow> 16 word \<Rightarrow> int" where
  "read_int obj offset = sint (of_nat (le_val (bytes_at obj (unat offset) 4)) :: 32 word)"

definition read_bool :: "memory \<Rightarrow> 16 word \<Rightarrow> bool" where
  "read_bool obj offset \<longleftrightarrow> le_val (bytes_at obj (unat offset) 1) \<noteq> 0"

definition read_long :: "memory \<Rightarrow> 16 word \<Rightarrow> int" where
  "read_long obj offset = sint (of_nat (le_val (bytes_at obj (unat offset) 8)) :: 64 word)"

text \<open>A double is its 64 bits; it is finite when the exponent bits are not all set.\<close>

definition read_double :: "memory \<Rightarrow> 16 word \<Rightarrow> 64 word" where
  "read_double obj offset = of_nat (le_val (bytes_at obj (unat offset) 8))"

definition isfinite :: "64 word \<Rightarrow> bool" where
  "isfinite d \<longleftrightarrow> drop_bit 52 d AND 0x7FF \<noteq> 0x7FF"

section \<open>Nullable fields\<close>

definition value_offset :: "FieldKind \<Rightarrow> nat" where
  "value_offset kind =
     (case kind of FIELD_INT \<Rightarrow> 4 | FIELD_LONG \<Rightarrow> 8 | FIELD_DOUBLE \<Rightarrow> 8 | FIELD_BOOL \<Rightarrow> 1 | _ \<Rightarrow> 0)"

definition field_storage_size :: "FieldInfo \<Rightarrow> nat" where
  "field_storage_size field =
     (let nullable = has_flag (fi_flags field) FIELD_NULLABLE in
      case fi_kind field of
        FIELD_INT \<Rightarrow> if nullable then 8 else 4
      | FIELD_LONG \<Rightarrow> if nullable then 16 else 8
      | FIELD_DOUBLE \<Rightarrow> if nullable then 16 else 8
      | FIELD_BOOL \<Rightarrow> if nullable then 2 else 1
      | FIELD_STR \<Rightarrow> if nullable then 0 else 8
      | FIELD_OBJECT \<Rightarrow> 0)"

definition field_scalar :: "FieldInfo \<Rightarrow> FieldInfo" where
  "field_scalar field =
     (if has_flag (fi_flags field) FIELD_NULLABLE then
        let moved = FieldInfo (fi_name field) (fi_kind field)
              (of_nat (unat (fi_offset field) + value_offset (fi_kind field))) (fi_size field)
              (fi_flags field AND NOT FIELD_NULLABLE) (fi_nested field) (fi_references field)
              (fi_reference_key field) (fi_rules field)
        in FieldInfo (fi_name moved) (fi_kind moved) (fi_offset moved) (of_nat (field_storage_size moved))
             (fi_flags moved) (fi_nested moved) (fi_references moved) (fi_reference_key moved) (fi_rules moved)
      else field)"

definition field_is_null :: "FieldInfo \<Rightarrow> memory \<Rightarrow> bool" where
  "field_is_null field obj =
     (if has_flag (fi_flags field) FIELD_NULLABLE then \<not> read_bool obj (fi_offset field)
      else if fi_kind field = FIELD_STR then read_str obj (fi_offset field) = 0
      else False)"

definition field_set_present :: "FieldInfo \<Rightarrow> memory \<Rightarrow> memory" where
  "field_set_present field obj =
     (if has_flag (fi_flags field) FIELD_NULLABLE then obj[unat (fi_offset field) := CHR 0x01] else obj)"

section \<open>Valid types\<close>

definition ident_start :: "char \<Rightarrow> bool" where
  "ident_start c \<longleftrightarrow> is_upper c \<or> is_lower c \<or> c = CHR ''_''"

definition ident_char :: "char \<Rightarrow> bool" where
  "ident_char c \<longleftrightarrow> is_upper c \<or> is_lower c \<or> is_digit c \<or> c = CHR ''_''"

text \<open>The loop looks at the indices below \<open>RUNTIME_MAX_TEXT\<close> for the terminator.\<close>

definition is_safe_identifier :: "string option \<Rightarrow> bool" where
  "is_safe_identifier name =
     (case name of
        None \<Rightarrow> False
      | Some [] \<Rightarrow> False
      | Some (c # r) \<Rightarrow> ident_start c \<and> list_all ident_char r \<and> length r + 1 < RUNTIME_MAX_TEXT)"

fun type_valid_nested :: "TypeInfo option \<Rightarrow> nat \<Rightarrow> nat \<Rightarrow> bool \<times> nat"
  and fields_valid :: "16 word \<Rightarrow> FieldInfo list \<Rightarrow> nat \<Rightarrow> nat \<Rightarrow> bool \<times> nat" where
  "type_valid_nested None depth remaining =
     (if depth \<ge> NEST_DEPTH_MAX \<or> remaining = 0 then (False, remaining) else (False, remaining - 1))"
| "type_valid_nested (Some (TypeInfo name sz flds)) depth remaining =
     (if depth \<ge> NEST_DEPTH_MAX \<or> remaining = 0 then (False, remaining)
      else
        (case flds of
           None \<Rightarrow> (False, remaining - 1)
         | Some fs \<Rightarrow>
             if \<not> is_safe_identifier name \<or> length fs = 0 \<or> length fs > RUNTIME_MAX_FIELDS \<or> sz = 0
             then (False, remaining - 1)
             else fields_valid sz fs depth (remaining - 1)))"
| "fields_valid sz [] depth remaining = (True, remaining)"
| "fields_valid sz (FieldInfo name kind offset fsz flags nested refs rkey rules # fs) depth remaining =
     (let field = FieldInfo name kind offset fsz flags nested refs rkey rules;
          (nested_ok, remaining1) =
            (if kind = FIELD_OBJECT then type_valid_nested nested (depth + 1) remaining else (True, remaining));
          expected =
            (if kind = FIELD_OBJECT then (case nested of None \<Rightarrow> 0 | Some t \<Rightarrow> unat (ti_size t))
             else field_storage_size field)
      in if \<not> nested_ok then (False, remaining1)
         else if \<not> is_safe_identifier name \<or> expected = 0 \<or> unat fsz \<noteq> expected \<or> unat offset > unat sz \<or>
           expected > unat sz - unat offset then (False, remaining1)
         else fields_valid sz fs depth remaining1)"

definition type_valid :: "TypeInfo option \<Rightarrow> bool" where
  "type_valid t \<longleftrightarrow> fst (type_valid_nested t 0 RUNTIME_MAX_TYPES)"

section \<open>Writing JSON\<close>

definition json_write_scalar ::
  "(size_t \<Rightarrow> string) \<Rightarrow> (64 word \<Rightarrow> string) \<Rightarrow> FieldInfo \<Rightarrow> memory \<Rightarrow> Sink \<Rightarrow> int \<times> Sink" where
  "json_write_scalar text_at fmt_double f0 obj sink =
     (if field_is_null f0 obj then (0, sink_add ''null'' sink)
      else
        let f = field_scalar f0 in
        case fi_kind f of
          FIELD_STR \<Rightarrow>
            let value = read_str obj (fi_offset f) in
            if value = 0 then (0, sink_add ''null'' sink)
            else (0, sink_add [DQUOTE] (sink_add_escaped (text_at value) (sink_add [DQUOTE] sink)))
        | FIELD_INT \<Rightarrow> (0, sink_add_int (read_int obj (fi_offset f)) sink)
        | FIELD_LONG \<Rightarrow> (0, sink_add_int (read_long obj (fi_offset f)) sink)
        | FIELD_DOUBLE \<Rightarrow>
            let value = read_double obj (fi_offset f) in
            if \<not> isfinite value then (- 1, sink) else (0, sink_add (take 63 (fmt_double value)) sink)
        | FIELD_BOOL \<Rightarrow> (0, sink_add (if read_bool obj (fi_offset f) then ''true'' else ''false'') sink)
        | FIELD_OBJECT \<Rightarrow> (0, sink_add ''null'' sink))"

text \<open>\<open>json_write_nested\<close> and its loop over the fields; \<open>first\<close> is \<open>i == 0\<close>. A null \<open>nested\<close>
  pointer is not reached: the callers check the type first.\<close>

fun json_write_nested ::
  "(size_t \<Rightarrow> string) \<Rightarrow> (64 word \<Rightarrow> string) \<Rightarrow> TypeInfo \<Rightarrow> memory \<Rightarrow> Sink \<Rightarrow> nat \<Rightarrow> int \<times> Sink"
  and json_write_fields ::
  "(size_t \<Rightarrow> string) \<Rightarrow> (64 word \<Rightarrow> string) \<Rightarrow> FieldInfo list \<Rightarrow> bool \<Rightarrow> memory \<Rightarrow> Sink \<Rightarrow> nat \<Rightarrow> int \<times> Sink" where
  "json_write_nested text_at fmt_double (TypeInfo name sz flds) obj sink depth =
     (if depth \<ge> NEST_DEPTH_MAX then (- 1, sink)
      else
        (case (case flds of
                 None \<Rightarrow> (0, sink_add ''{'' sink)
               | Some fs \<Rightarrow> json_write_fields text_at fmt_double fs True obj (sink_add ''{'' sink) depth) of
           (rc, s1) \<Rightarrow>
             if rc \<noteq> 0 then (- 1, s1)
             else let s2 = sink_add ''}'' s1 in (if sk_overflow s2 then - 1 else 0, s2)))"
| "json_write_fields text_at fmt_double [] first obj sink depth = (0, sink)"
| "json_write_fields text_at fmt_double (FieldInfo name kind offset fsz flags nested refs rkey rules # fs) first obj sink depth =
     (if sk_overflow sink then (0, sink)
      else
        let f = FieldInfo name kind offset fsz flags nested refs rkey rules;
            s1 = (if first then sink else sink_add '','' sink);
            s2 = sink_add (DQUOTE # '':'') (sink_add (case name of None \<Rightarrow> [] | Some n \<Rightarrow> n) (sink_add [DQUOTE] s1));
            (rc, s3) =
              (if kind = FIELD_OBJECT then
                 (case nested of
                    None \<Rightarrow> (- 1, s2)
                  | Some t \<Rightarrow> json_write_nested text_at fmt_double t (drop (unat offset) obj) s2 (depth + 1))
               else json_write_scalar text_at fmt_double f obj s2)
        in if rc \<noteq> 0 then (- 1, s3) else json_write_fields text_at fmt_double fs False obj s3 depth)"

text \<open>The results of the two exported writers are the return value and the destination array.\<close>

definition json_write_struct ::
  "(size_t \<Rightarrow> string) \<Rightarrow> (64 word \<Rightarrow> string) \<Rightarrow> TypeInfo option \<Rightarrow> memory option \<Rightarrow> string \<Rightarrow> int \<times> string" where
  "json_write_struct text_at fmt_double type obj out =
     (if length out = 0 then (- 1, out)
      else
        let out1 = out[0 := NUL] in
        case (obj, type) of
          (Some ob, Some t) \<Rightarrow>
            if \<not> type_valid type then (- 1, out1)
            else
              (case json_write_nested text_at fmt_double t ob (sink_init out1 (length out1)) 0 of
                 (rc, sink) \<Rightarrow> if rc \<noteq> 0 then (- 1, (sk_buf sink)[0 := NUL]) else (0, sk_buf sink))
        | _ \<Rightarrow> (- 1, out1))"

record RowList =
  rl_type :: "TypeInfo option"
  rl_items :: "memory option"
  rl_count :: int
  rl_page :: int
  rl_size :: int
  rl_has_more :: bool

fun row_list_items ::
  "(size_t \<Rightarrow> string) \<Rightarrow> (64 word \<Rightarrow> string) \<Rightarrow> TypeInfo \<Rightarrow> memory \<Rightarrow> nat list \<Rightarrow> Sink \<Rightarrow> int \<times> Sink" where
  "row_list_items text_at fmt_double t items [] sink = (0, sink)"
| "row_list_items text_at fmt_double t items (i # is) sink =
     (if sk_overflow sink then (0, sink)
      else
        let s1 = (if i > 0 then sink_add_bytes '','' sink else sink) in
        case json_write_nested text_at fmt_double t (drop (i * unat (ti_size t)) items) s1 0 of
          (rc, s2) \<Rightarrow> if rc \<noteq> 0 then (- 1, s2) else row_list_items text_at fmt_double t items is s2)"

definition row_list_write ::
  "(size_t \<Rightarrow> string) \<Rightarrow> (64 word \<Rightarrow> string) \<Rightarrow> RowList \<Rightarrow> bool \<Rightarrow> string \<Rightarrow> int \<times> string" where
  "row_list_write text_at fmt_double list paginated out =
     (if length out = 0 then (- 1, out)
      else
        let out1 = out[0 := NUL] in
        if \<not> type_valid (rl_type list) \<or> rl_count list < 0 \<or> rl_count list > int PAGE_MAX \<or>
           (rl_count list > 0 \<and> rl_items list = None) \<or>
           (of_int (rl_count list) :: size_t) > SIZE_MAX div of_nat (unat (ti_size (the (rl_type list)))) \<or>
           (paginated \<and> (rl_page list < 0 \<or> rl_size list \<le> 0 \<or> rl_size list > int PAGE_MAX \<or> rl_count list > rl_size list))
        then (- 1, out1)
        else
          let s0 = sink_init out1 (length out1);
              s1 = (if paginated then sink_add_bytes (''{'' @ [DQUOTE] @ ''items'' @ [DQUOTE] @ '':'') s0 else s0);
              (rc, s2) = row_list_items text_at fmt_double (the (rl_type list)) (case rl_items list of None \<Rightarrow> [] | Some m \<Rightarrow> m)
                           [0..<nat (rl_count list)] (sink_add_bytes ''['' s1)
          in if rc \<noteq> 0 then (- 1, (sk_buf s2)[0 := NUL])
             else
               let s3 = sink_add_bytes '']'' s2;
                   s4 = (if paginated then
                           sink_add_bytes ''}''
                            (sink_add (if rl_has_more list then ''true'' else ''false'')
                              (sink_add_bytes ('','' @ [DQUOTE] @ ''hasMore'' @ [DQUOTE] @ '':'')
                                (sink_add_int (rl_size list)
                                  (sink_add_bytes ('','' @ [DQUOTE] @ ''size'' @ [DQUOTE] @ '':'')
                                    (sink_add_int (rl_page list)
                                      (sink_add_bytes ('','' @ [DQUOTE] @ ''page'' @ [DQUOTE] @ '':'') s3))))))
                         else s3)
               in if sk_overflow s4 then (- 1, (sk_buf s4)[0 := NUL]) else (0, sk_buf s4))"

section \<open>Layout\<close>

text \<open>The byte ranges of the scalar fields of a structure, relative to its start: what the writer,
  the reader and the validator access.\<close>

fun leaf_spans :: "TypeInfo \<Rightarrow> nat \<Rightarrow> (nat \<times> nat) list"
  and field_spans :: "FieldInfo list \<Rightarrow> nat \<Rightarrow> (nat \<times> nat) list" where
  "leaf_spans (TypeInfo name sz flds) base = (case flds of None \<Rightarrow> [] | Some fs \<Rightarrow> field_spans fs base)"
| "field_spans [] base = []"
| "field_spans (FieldInfo name kind offset fsz flags nested refs rkey rules # fs) base =
     (if kind = FIELD_OBJECT then (case nested of None \<Rightarrow> [] | Some t \<Rightarrow> leaf_spans t (base + unat offset))
      else [(base + unat offset, field_storage_size (FieldInfo name kind offset fsz flags nested refs rkey rules))]) @
     field_spans fs base"

lemma valid_spans_inside:
  "fst (type_valid_nested (Some t) depth remaining) \<Longrightarrow> (a, n) \<in> set (leaf_spans t base) \<Longrightarrow>
     base \<le> a \<and> a + n \<le> base + unat (ti_size t) \<and> 0 < n"
  "fst (fields_valid sz fs depth remaining) \<Longrightarrow> (a, n) \<in> set (field_spans fs base) \<Longrightarrow>
     base \<le> a \<and> a + n \<le> base + unat sz \<and> 0 < n"
proof (induction t base and fs base arbitrary: depth remaining and depth remaining sz rule: leaf_spans_field_spans.induct)
  case (1 name sz flds base)
  then show ?case by (auto split: option.splits if_splits)
next
  case (2 base)
  then show ?case by simp
next
  case (3 name kind offset fsz flags nested refs rkey rules fs base)
  let ?f = "FieldInfo name kind offset fsz flags nested refs rkey rules"
  let ?nv = "if kind = FIELD_OBJECT then type_valid_nested nested (depth + 1) remaining else (True, remaining)"
  let ?expected = "if kind = FIELD_OBJECT then (case nested of None \<Rightarrow> 0 | Some t \<Rightarrow> unat (ti_size t)) else field_storage_size ?f"
  have v: "fst ?nv" "?expected \<noteq> 0" "unat offset \<le> unat sz" "?expected \<le> unat sz - unat offset"
      "fst (fields_valid sz fs depth (snd ?nv))"
    using "3.prems"(1) by (auto simp: Let_def split: prod.splits if_splits)
  show ?case
  proof (cases "(a, n) \<in> set (field_spans fs base)")
    case True
    then show ?thesis using "3.IH"(2) v(5) by blast
  next
    case False
    show ?thesis
    proof (cases "kind = FIELD_OBJECT")
      case obj: True
      then obtain t where t: "nested = Some t" "(a, n) \<in> set (leaf_spans t (base + unat offset))"
        using "3.prems"(2) False by (auto split: option.splits)
      have "fst (type_valid_nested (Some t) (depth + 1) remaining)" using v(1) obj t(1) by simp
      from "3.IH"(1) [OF obj t(1) this t(2)] have "base + unat offset \<le> a" "a + n \<le> base + unat offset + unat (ti_size t)" "0 < n"
        by simp_all
      then show ?thesis using v(3,4) obj t(1) by simp
    next
      case scalar: False
      then have "a = base + unat offset" "n = field_storage_size ?f" using "3.prems"(2) False by auto
      then show ?thesis using v(2-4) scalar by auto
    qed
  qed
qed

section \<open>The text of a structure\<close>

text \<open>What a structure's JSON is, without regard to the size of any buffer: None when a double is not
  finite or the types nest too deeply.\<close>

definition scalar_text :: "(size_t \<Rightarrow> string) \<Rightarrow> (64 word \<Rightarrow> string) \<Rightarrow> FieldInfo \<Rightarrow> memory \<Rightarrow> string option" where
  "scalar_text text_at fmt_double f0 obj =
     (if field_is_null f0 obj then Some ''null''
      else
        let f = field_scalar f0 in
        case fi_kind f of
          FIELD_STR \<Rightarrow>
            let value = read_str obj (fi_offset f) in
            if value = 0 then Some ''null''
            else Some ([DQUOTE] @ json_escape (take RUNTIME_MAX_TEXT (cstr (text_at value))) @ [DQUOTE])
        | FIELD_INT \<Rightarrow> Some (int_text (read_int obj (fi_offset f)))
        | FIELD_LONG \<Rightarrow> Some (int_text (read_long obj (fi_offset f)))
        | FIELD_DOUBLE \<Rightarrow>
            let value = read_double obj (fi_offset f) in
            if isfinite value then Some (cstr (take 63 (fmt_double value))) else None
        | FIELD_BOOL \<Rightarrow> Some (if read_bool obj (fi_offset f) then ''true'' else ''false'')
        | FIELD_OBJECT \<Rightarrow> Some ''null'')"

fun struct_text :: "(size_t \<Rightarrow> string) \<Rightarrow> (64 word \<Rightarrow> string) \<Rightarrow> TypeInfo \<Rightarrow> memory \<Rightarrow> nat \<Rightarrow> string option"
  and fields_text :: "(size_t \<Rightarrow> string) \<Rightarrow> (64 word \<Rightarrow> string) \<Rightarrow> FieldInfo list \<Rightarrow> bool \<Rightarrow> memory \<Rightarrow> nat \<Rightarrow> string option" where
  "struct_text text_at fmt_double (TypeInfo name sz flds) obj depth =
     (if depth \<ge> NEST_DEPTH_MAX then None
      else
        (case (case flds of None \<Rightarrow> Some [] | Some fs \<Rightarrow> fields_text text_at fmt_double fs True obj depth) of
           None \<Rightarrow> None
         | Some body \<Rightarrow> Some (''{'' @ body @ ''}'')))"
| "fields_text text_at fmt_double [] first obj depth = Some []"
| "fields_text text_at fmt_double (FieldInfo name kind offset fsz flags nested refs rkey rules # fs) first obj depth =
     (case (if kind = FIELD_OBJECT then
              (case nested of
                 None \<Rightarrow> None
               | Some t \<Rightarrow> struct_text text_at fmt_double t (drop (unat offset) obj) (depth + 1))
            else scalar_text text_at fmt_double (FieldInfo name kind offset fsz flags nested refs rkey rules) obj) of
        None \<Rightarrow> None
      | Some v \<Rightarrow>
          (case fields_text text_at fmt_double fs False obj depth of
             None \<Rightarrow> None
           | Some r \<Rightarrow>
               Some ((if first then [] else '','') @ [DQUOTE] @ cstr (case name of None \<Rightarrow> [] | Some n \<Rightarrow> n) @ DQUOTE # '':'' @ v @ r)))"

text \<open>A writer that returns a code does what a text specification says.\<close>

definition produces :: "Sink \<Rightarrow> string option \<Rightarrow> int \<times> Sink \<Rightarrow> bool" where
  "produces s v res \<longleftrightarrow>
     (let (rc, s') = res in
      sink_wf s' \<and> sk_cap s' = sk_cap s \<and>
      (case v of
         Some x \<Rightarrow> sink_view s' = extend_text (sk_cap s) (sink_view s) x \<and> (rc \<noteq> 0 \<longrightarrow> sink_view s' = None)
       | None \<Rightarrow> rc \<noteq> 0 \<or> sink_view s' = None))"

lemma produces_writes: "writes f x \<Longrightarrow> sink_wf s \<Longrightarrow> produces s (Some x) (0, f s)"
  by (simp add: produces_def emits_def)

lemma view_None_iff: "sink_view s = None \<longleftrightarrow> sk_overflow s"
  by (simp add: sink_view_def)

lemma produces_fail: "sink_wf s' \<Longrightarrow> sk_cap s' = sk_cap s \<Longrightarrow> produces s None (- 1, s')"
  by (simp add: produces_def)

lemma cstr_literals [simp]:
  "cstr ''null'' = ''null''" "cstr ''true'' = ''true''" "cstr ''false'' = ''false''" "cstr [DQUOTE] = [DQUOTE]"
  "cstr ''{'' = ''{''" "cstr ''}'' = ''}''" "cstr '','' = '',''" "cstr (DQUOTE # '':'') = DQUOTE # '':''"
  by (simp_all add: cstr_def)

lemma writes_quoted_text: "writes (\<lambda>s. sink_add [DQUOTE] (sink_add_escaped t (sink_add [DQUOTE] s)))
  ([DQUOTE] @ json_escape (take RUNTIME_MAX_TEXT (cstr t)) @ [DQUOTE])"
  using emits_comp [OF emits_comp [OF writes_add [of "[DQUOTE]"] writes_add_escaped [of t]] writes_add [of "[DQUOTE]"]] by simp

lemma produces_scalar:
  assumes "sink_wf s"
  shows "produces s (scalar_text text_at fmt_double f obj) (json_write_scalar text_at fmt_double f obj s)"
proof -
  have t: "produces s (Some (cstr t)) (0, sink_add t s)" for t
    using produces_writes [OF writes_add assms] .
  have i: "produces s (Some (int_text v)) (0, sink_add_int v s)" for v
    using produces_writes [OF writes_add_int assms] .
  have q: "produces s (Some ([DQUOTE] @ json_escape (take RUNTIME_MAX_TEXT (cstr t)) @ [DQUOTE]))
      (0, sink_add [DQUOTE] (sink_add_escaped t (sink_add [DQUOTE] s)))" for t
    using produces_writes [OF writes_quoted_text assms] .
  have b: "produces s (Some (if c then ''true'' else ''false'')) (0, sink_add (if c then ''true'' else ''false'') s)" for c
    using t [of "if c then ''true'' else ''false''"] by (cases c) simp_all
  show ?thesis
    unfolding scalar_text_def json_write_scalar_def Let_def
    using t [of "''null''"] t q i b produces_fail [OF assms refl]
    by (cases "fi_kind (field_scalar f)") simp_all
qed

text \<open>Two steps in sequence, the second one run only when the first returned 0.\<close>

lemma produces_seq:
  assumes "produces s v (rc, s1)" and "\<And>s1. sink_wf s1 \<Longrightarrow> produces s1 w (f s1)"
  shows "produces s (case v of None \<Rightarrow> None | Some x \<Rightarrow> (case w of None \<Rightarrow> None | Some y \<Rightarrow> Some (x @ y)))
    (if rc \<noteq> 0 then (- 1, s1) else f s1)"
proof -
  have wf: "sink_wf s1" "sk_cap s1 = sk_cap s" using assms(1) by (auto simp: produces_def)
  obtain rc2 s2 where f: "f s1 = (rc2, s2)" by (cases "f s1")
  have p: "produces s1 w (rc2, s2)" using assms(2) [OF wf(1)] f by simp
  have full: "sink_view s1 = None \<Longrightarrow> rc2 = 0 \<Longrightarrow> w \<noteq> None \<Longrightarrow> sink_view s2 = None"
    using p by (auto simp: produces_def)
  show ?thesis
  proof (cases "rc = 0")
    case False
    then show ?thesis using assms(1) by (auto simp: produces_def extend_text_append [symmetric] split: option.splits)
  next
    case True
    show ?thesis
      using assms(1) p wf True f full
      by (auto simp: produces_def extend_text_append [symmetric] split: option.splits)
  qed
qed

lemma produces_full: "sink_wf s \<Longrightarrow> sk_overflow s \<Longrightarrow> produces s v (0, s)"
  by (auto simp: produces_def sink_view_def split: option.splits)

text \<open>A text written first, then a step that returns a code.\<close>

lemma produces_after:
  assumes "writes g x" "sink_wf s" "\<And>s1. sink_wf s1 \<Longrightarrow> produces s1 w (f s1)"
  shows "produces s (case w of None \<Rightarrow> None | Some y \<Rightarrow> Some (x @ y)) (f (g s))"
  using produces_seq [OF produces_writes [OF assms(1,2)] assms(3)] by simp

definition field_head :: "string option \<Rightarrow> bool \<Rightarrow> Sink \<Rightarrow> Sink" where
  "field_head name first s =
     sink_add (DQUOTE # '':'') (sink_add (case name of None \<Rightarrow> [] | Some n \<Rightarrow> n)
       (sink_add [DQUOTE] (if first then s else sink_add '','' s)))"

definition head_text :: "string option \<Rightarrow> bool \<Rightarrow> string" where
  "head_text name first =
     (if first then [] else '','') @ [DQUOTE] @ cstr (case name of None \<Rightarrow> [] | Some n \<Rightarrow> n) @ DQUOTE # '':''"

lemma writes_field_head: "writes (field_head name first) (head_text name first)"
proof -
  have "writes (\<lambda>s. if first then s else sink_add '','' s) (if first then [] else '','')"
    using snk.emits_nothing writes_add [of "'',''"] by simp
  from emits_comp [OF emits_comp [OF emits_comp [OF this writes_add [of "[DQUOTE]"]]
      writes_add [of "case name of None \<Rightarrow> [] | Some n \<Rightarrow> n"]] writes_add [of "DQUOTE # '':''"]]
  show ?thesis unfolding field_head_def [abs_def] head_text_def by simp
qed

lemma produces_struct:
  "sink_wf s \<Longrightarrow> produces s (struct_text text_at fmt_double t obj depth) (json_write_nested text_at fmt_double t obj s depth)"
  "sink_wf s \<Longrightarrow> produces s (fields_text text_at fmt_double fs first obj depth)
     (json_write_fields text_at fmt_double fs first obj s depth)"
proof (induction text_at fmt_double t obj depth and text_at fmt_double fs first obj depth arbitrary: s and s
    rule: struct_text_fields_text.induct)
  case (1 text_at fmt_double name sz flds obj depth)
  let ?body = "case flds of None \<Rightarrow> Some [] | Some fs \<Rightarrow> fields_text text_at fmt_double fs True obj depth"
  let ?run = "\<lambda>s1. case flds of None \<Rightarrow> (0, s1) | Some fs \<Rightarrow> json_write_fields text_at fmt_double fs True obj s1 depth"
  let ?finish = "\<lambda>s1. (if sk_overflow (sink_add ''}'' s1) then - 1 else 0, sink_add ''}'' s1)"
  show ?case
  proof (cases "depth \<ge> NEST_DEPTH_MAX")
    case True
    then show ?thesis using produces_fail [OF "1.prems" refl] by simp
  next
    case False
    have run: "produces s1 ?body (?run s1)" if "sink_wf s1" for s1
      using "1.IH" [OF False] that produces_writes [OF snk.emits_nothing that] by (cases flds) simp_all
    have fin: "produces s1 (Some ''}'') (?finish s1)" if "sink_wf s1" for s1
      using produces_writes [OF writes_add [of "''}''"] that] view_None_iff by (auto simp: produces_def)
    obtain rc s1 where r: "?run (sink_add ''{'' s) = (rc, s1)" by (cases "?run (sink_add ''{'' s)")
    have "produces s (case ?body of None \<Rightarrow> None | Some y \<Rightarrow> Some (''{'' @ y)) (rc, s1)"
      using produces_after [OF writes_add [of "''{''"] "1.prems" run] unfolding r cstr_literals .
    note p = produces_seq [OF this fin]
    have code: "json_write_nested text_at fmt_double (TypeInfo name sz flds) obj s depth =
        (if rc \<noteq> 0 then (- 1, s1) else ?finish s1)"
      using False r by (simp add: Let_def)
    have tx: "struct_text text_at fmt_double (TypeInfo name sz flds) obj depth =
        (case (case ?body of None \<Rightarrow> None | Some y \<Rightarrow> Some (''{'' @ y)) of None \<Rightarrow> None
         | Some x \<Rightarrow> (case Some ''}'' of None \<Rightarrow> None | Some y \<Rightarrow> Some (x @ y)))"
      using False by (simp split: option.splits)
    show ?thesis unfolding code tx by (rule p)
  qed
next
  case (2 text_at fmt_double first obj depth)
  then show ?case using produces_writes [OF snk.emits_nothing "2.prems"] by simp
next
  case (3 text_at fmt_double name kind offset fsz flags nested refs rkey rules fs first obj depth)
  let ?f = "FieldInfo name kind offset fsz flags nested refs rkey rules"
  let ?v = "if kind = FIELD_OBJECT then (case nested of None \<Rightarrow> None
      | Some t \<Rightarrow> struct_text text_at fmt_double t (drop (unat offset) obj) (depth + 1))
    else scalar_text text_at fmt_double ?f obj"
  let ?run = "\<lambda>s2. if kind = FIELD_OBJECT then (case nested of None \<Rightarrow> (- 1, s2)
      | Some t \<Rightarrow> json_write_nested text_at fmt_double t (drop (unat offset) obj) s2 (depth + 1))
    else json_write_scalar text_at fmt_double ?f obj s2"
  show ?case
  proof (cases "sk_overflow s")
    case True
    then show ?thesis using produces_full [OF "3.prems" True] by simp
  next
    case False
    have run: "produces s2 ?v (?run s2)" if "sink_wf s2" for s2
      using "3.IH"(1) that produces_fail [OF that refl] produces_scalar [OF that]
      by (cases "kind = FIELD_OBJECT"; cases nested) simp_all
    obtain rc s3 where r: "?run (field_head name first s) = (rc, s3)" by (cases "?run (field_head name first s)")
    have p: "produces s (case ?v of None \<Rightarrow> None | Some y \<Rightarrow> Some (head_text name first @ y)) (rc, s3)"
      using produces_after [OF writes_field_head "3.prems" run, of name first] unfolding r .
    have code: "json_write_fields text_at fmt_double (?f # fs) first obj s depth =
        (if rc \<noteq> 0 then (- 1, s3) else json_write_fields text_at fmt_double fs False obj s3 depth)"
      unfolding json_write_fields.simps(2) Let_def
      by (simp only: False if_False r [unfolded field_head_def] prod.case)
    have tx: "fields_text text_at fmt_double (?f # fs) first obj depth =
        (case (case ?v of None \<Rightarrow> None | Some y \<Rightarrow> Some (head_text name first @ y)) of None \<Rightarrow> None
         | Some x \<Rightarrow> (case fields_text text_at fmt_double fs False obj depth of None \<Rightarrow> None | Some y \<Rightarrow> Some (x @ y)))"
      by (simp add: head_text_def split: option.splits)
    show ?thesis
    proof (cases "?v = None")
      case True
      have "produces s None (if rc \<noteq> 0 then (- 1, s3) else json_write_fields text_at fmt_double fs False obj s3 depth)"
      proof (cases "rc = 0")
        case rc: True
        have wf3: "sink_wf s3" "sk_cap s3 = sk_cap s" "sk_overflow s3"
          using p True rc by (auto simp: produces_def view_None_iff)
        then have "json_write_fields text_at fmt_double fs False obj s3 depth = (0, s3)"
          by (cases fs; cases "hd fs") auto
        then show ?thesis using wf3 rc by (simp add: produces_def view_None_iff)
      qed (use p produces_fail in \<open>auto simp: produces_def\<close>)
      then show ?thesis unfolding code tx using True by simp
    next
      case some: False
      then obtain v where v: "?v = Some v" by blast
      have "produces s1 (fields_text text_at fmt_double fs False obj depth)
          (json_write_fields text_at fmt_double fs False obj s1 depth)" if "sink_wf s1" for s1
        using "3.IH"(2) [OF v that] .
      from produces_seq [OF p this] show ?thesis unfolding code tx .
    qed
  qed
qed

lemma NUL_hex_digit: "n < 16 \<Longrightarrow> HEX_DIGIT ! n \<noteq> NUL"
proof -
  have "list_all (\<lambda>n. HEX_DIGIT ! n \<noteq> NUL) [0..<16]" by code_simp
  then show "n < 16 \<Longrightarrow> HEX_DIGIT ! n \<noteq> NUL" by (simp add: list_all_iff)
qed

lemma NUL_json_escape: "NUL \<notin> set (json_escape t)"
proof (induction t)
  case (Cons c t)
  have "NUL \<notin> set (escape_of c)"
    using NUL_hex_digit [of "byte c div 16 mod 16"] NUL_hex_digit [of "byte c mod 16"]
    by (auto simp: escape_of_def)
  moreover have "\<not> is_plain NUL" by (simp add: is_plain_def byte_def)
  ultimately show ?case using Cons.IH by (auto split: if_splits)
qed simp

lemma NUL_int_text: "NUL \<notin> set (int_text v)"
proof -
  have "\<not> is_digit NUL" by (simp add: is_digit_def byte_def)
  then show ?thesis using int_digits_digits by (auto simp: int_text_def)
qed

lemma NUL_scalar_text: "scalar_text text_at fmt_double f obj = Some x \<Longrightarrow> NUL \<notin> set x"
  using NUL_json_escape NUL_int_text
  by (auto simp: scalar_text_def Let_def split: if_splits FieldKind.splits)

lemma NUL_struct_text:
  "struct_text text_at fmt_double t obj depth = Some x \<Longrightarrow> NUL \<notin> set x"
  "fields_text text_at fmt_double fs first obj depth = Some x \<Longrightarrow> NUL \<notin> set x"
proof (induction text_at fmt_double t obj depth and text_at fmt_double fs first obj depth arbitrary: x and x
    rule: struct_text_fields_text.induct)
  case (1 text_at fmt_double name sz flds obj depth)
  then show ?case by (auto split: option.splits if_splits)
next
  case (3 text_at fmt_double name kind offset fsz flags nested refs rkey rules fs first obj depth)
  let ?v = "if kind = FIELD_OBJECT then (case nested of None \<Rightarrow> None
      | Some t \<Rightarrow> struct_text text_at fmt_double t (drop (unat offset) obj) (depth + 1))
    else scalar_text text_at fmt_double (FieldInfo name kind offset fsz flags nested refs rkey rules) obj"
  obtain v r where v: "?v = Some v" and r: "fields_text text_at fmt_double fs False obj depth = Some r"
      and x: "x = head_text name first @ v @ r"
    using "3.prems" by (auto simp: head_text_def split: option.splits)
  have "NUL \<notin> set v"
  proof (cases "kind = FIELD_OBJECT")
    case True
    then show ?thesis using "3.IH"(1) v by (auto split: option.splits)
  next
    case False
    then show ?thesis using v NUL_scalar_text by simp
  qed
  moreover have "NUL \<notin> set (head_text name first)" by (simp add: head_text_def)
  ultimately show ?case using "3.IH"(2) [OF v r] x by simp
qed simp

lemma terminated_add_bytes: "sink_wf s \<Longrightarrow> terminated (sink_add_bytes t s)"
  by (auto simp: terminated_def sink_add_bytes_def sink_wf_def length_poke)

lemma json_write_nested_end:
  assumes "sink_wf s" "json_write_nested text_at fmt_double t obj s depth = (rc, s')"
  shows "rc = 0 \<Longrightarrow> \<not> sk_overflow s' \<and> terminated s'" "rc = 0 \<or> rc = - 1"
proof -
  obtain name sz flds where t: "t = TypeInfo name sz flds" by (cases t)
  let ?r = "case flds of None \<Rightarrow> (0, sink_add ''{'' s)
    | Some fs \<Rightarrow> json_write_fields text_at fmt_double fs True obj (sink_add ''{'' s) depth"
  obtain rc1 s1 where r: "?r = (rc1, s1)" by (cases ?r)
  have "sink_wf (sink_add ''{'' s)" using writes_add [of "''{''"] assms(1) by (simp add: emits_def)
  then have "sink_wf (snd (json_write_fields text_at fmt_double fs True obj (sink_add ''{'' s) depth))" for fs
    using produces_struct(2) [of "sink_add ''{'' s" text_at fmt_double fs True obj depth]
    by (simp add: produces_def split: prod.splits)
  then have "sink_wf s1"
    using r \<open>sink_wf (sink_add ''{'' s)\<close> by (cases flds) (auto, metis snd_conv)
  then have "terminated (sink_add ''}'' s1)" using terminated_add_bytes by (simp add: sink_add_def)
  then show "rc = 0 \<Longrightarrow> \<not> sk_overflow s' \<and> terminated s'" "rc = 0 \<or> rc = - 1"
    using assms(2) r by (auto simp: t Let_def split: if_splits)
qed

text \<open>What an exported writer leaves in its destination: the text when it fits, nothing otherwise.\<close>

definition written :: "string \<Rightarrow> string option \<Rightarrow> int \<times> string \<Rightarrow> bool" where
  "written out v res \<longleftrightarrow>
     length (snd res) = length out \<and>
     (if (\<exists>x. v = Some x \<and> length x < length out) then fst res = 0 \<and> cstr (snd res) = the v
      else fst res = - 1 \<and> cstr (snd res) = [])"

lemma cstr_NUL_first: "cstr (xs[0 := NUL]) = []" if "xs \<noteq> []"
  using that by (cases xs) (simp_all add: cstr_def)

lemma written_finish:
  assumes "produces (sink_init out (length out)) v (rc, s)" "out \<noteq> []"
    "rc = 0 \<Longrightarrow> terminated s" "rc = 0 \<Longrightarrow> \<not> sk_overflow s" "\<And>x. v = Some x \<Longrightarrow> NUL \<notin> set x"
  shows "written out v (if rc \<noteq> 0 then (- 1, (sk_buf s)[0 := NUL]) else (0, sk_buf s))"
proof -
  have wf: "sink_wf s" "sk_cap s = length out" using assms(1) by (auto simp: produces_def)
  then have len: "length (sk_buf s) = length out" by (simp add: sink_wf_def)
  then have ne: "sk_buf s \<noteq> []" using assms(2) by auto
  show ?thesis
  proof (cases "rc = 0")
    case True
    then have view: "sink_view s \<noteq> None" using assms(4) by (simp add: view_None_iff)
    then obtain x' where x': "v = Some x'" "length x' < length out" "sink_view s = Some x'"
      using assms(1) True by (auto simp: produces_def extend_text_def split: option.splits if_splits)
    then have "NUL \<notin> set x'" using assms(5) by simp
    then show ?thesis
      using cstr_terminated [OF wf(1) assms(3) [OF True] x'(3)] x' len True by (simp add: written_def)
  next
    case False
    have "\<not> (\<exists>x. v = Some x \<and> length x < length out)"
      using assms(1) False by (auto simp: produces_def extend_text_def split: option.splits)
    then show ?thesis using False len ne cstr_NUL_first by (simp add: written_def)
  qed
qed

text \<open>C30: The JSON writer does not depend on its buffer: for a valid type it produces the text of the
  structure, complete and terminated, exactly when that text and its terminator fit; in every
  other case (a text that does not fit, a double that is not finite, types nested too deeply) it
  returns -1 and leaves the empty string, never a truncated document, and it never changes the
  size of the destination.\<close>

theorem json_write_struct_correct:
  assumes "out \<noteq> []" "type_valid (Some t)"
  shows "written out (struct_text text_at fmt_double t obj 0)
    (json_write_struct text_at fmt_double (Some t) (Some obj) out)"
proof -
  let ?out = "out[0 := NUL]"
  let ?v = "struct_text text_at fmt_double t obj 0"
  have wf: "sink_wf (sink_init ?out (length ?out))" using assms(1) by (intro sink_wf_init) auto
  obtain rc s where r: "json_write_nested text_at fmt_double t obj (sink_init ?out (length ?out)) 0 = (rc, s)"
    by (cases "json_write_nested text_at fmt_double t obj (sink_init ?out (length ?out)) 0")
  have "produces (sink_init ?out (length ?out)) ?v (rc, s)" using produces_struct(1) [OF wf] r by metis
  then have "written ?out ?v (if rc \<noteq> 0 then (- 1, (sk_buf s)[0 := NUL]) else (0, sk_buf s))"
  proof (rule written_finish)
    show "?out \<noteq> []" using assms(1) by simp
    show "terminated s" "\<not> sk_overflow s" if "rc = 0" using json_write_nested_end(1) [OF wf r that] by simp_all
    show "NUL \<notin> set x" if "?v = Some x" for x using NUL_struct_text(1) [OF that] .
  qed
  then show ?thesis using assms r by (simp add: written_def json_write_struct_def Let_def)
qed

text \<open>A type with an integer, a nullable boolean and a nested structure, and one object of it.\<close>

definition no_rules :: FieldRules where
  "no_rules = \<lparr>fr_flags = 0, fr_min = 0, fr_max = 0, fr_size_min = 0, fr_size_max = 0, fr_min_int = 0, fr_max_int = 0\<rparr>"

definition demo_type :: TypeInfo where
  "demo_type = TypeInfo (Some ''Item'') 16 (Some
     [FieldInfo (Some ''id'') FIELD_INT 0 4 FIELD_PRIMARY_KEY None None None no_rules,
      FieldInfo (Some ''ok'') FIELD_BOOL 4 2 FIELD_NULLABLE None None None no_rules,
      FieldInfo (Some ''at'') FIELD_OBJECT 8 8 0
        (Some (TypeInfo (Some ''At'') 8 (Some [FieldInfo (Some ''s'') FIELD_STR 0 8 0 None None None no_rules]))) None None no_rules])"

definition demo_obj :: memory where
  "demo_obj = CHR 0x07 # replicate 3 NUL @ [CHR 0x01, CHR 0x01] @ replicate 10 NUL"

lemma demo_type_valid: "type_valid (Some demo_type)"
  unfolding type_valid_def demo_type_def
  by (simp add: is_safe_identifier_def ident_start_def ident_char_def is_upper_def is_lower_def byte_def
      field_storage_size_def has_flag_def)

theorem json_write_struct_correct_witness:
  "written (replicate 64 NUL) (struct_text (\<lambda>_. []) (\<lambda>_. []) demo_type demo_obj 0)
    (json_write_struct (\<lambda>_. []) (\<lambda>_. []) (Some demo_type) (Some demo_obj) (replicate 64 NUL))"
  using json_write_struct_correct [OF _ demo_type_valid, of "replicate 64 NUL"] by simp

text \<open>C31: A type accepted by \<open>type_valid\<close> is safe to walk: every scalar field of it, at any nesting,
  lies within the structure and has a size, so that no access of the writer, reader or validator
  is out of bounds.\<close>

theorem type_valid_in_bounds:
  assumes "type_valid (Some t)" "(a, n) \<in> set (leaf_spans t 0)" "length obj = unat (ti_size t)"
  shows "0 < n \<and> a + n \<le> length obj \<and> length (bytes_at obj a n) = n"
  using valid_spans_inside(1) [of t 0 RUNTIME_MAX_TYPES a n 0] assms by (auto simp: type_valid_def bytes_at_def)

theorem type_valid_in_bounds_witness:
  "0 < (8 :: nat) \<and> 8 + 8 \<le> length demo_obj \<and> length (bytes_at demo_obj 8 8) = 8"
proof -
  have "(8, 8) \<in> set (leaf_spans demo_type 0)"
    by (simp add: demo_type_def field_storage_size_def has_flag_def)
  moreover have "length demo_obj = unat (ti_size demo_type)" by (simp add: demo_obj_def demo_type_def)
  ultimately show ?thesis using type_valid_in_bounds [OF demo_type_valid] by blast
qed

section \<open>Collections\<close>

fun rows_text :: "(size_t \<Rightarrow> string) \<Rightarrow> (64 word \<Rightarrow> string) \<Rightarrow> TypeInfo \<Rightarrow> memory \<Rightarrow> nat list \<Rightarrow> string option" where
  "rows_text text_at fmt_double t items [] = Some []"
| "rows_text text_at fmt_double t items (i # is) =
     (case struct_text text_at fmt_double t (drop (i * unat (ti_size t)) items) 0 of
        None \<Rightarrow> None
      | Some x \<Rightarrow>
          (case rows_text text_at fmt_double t items is of
             None \<Rightarrow> None
           | Some y \<Rightarrow> Some ((if i > 0 then '','' else []) @ x @ y)))"

definition json_name :: "string \<Rightarrow> string" where
  "json_name n = [DQUOTE] @ n @ [DQUOTE] @ '':''"

definition page_head :: "bool \<Rightarrow> string" where
  "page_head paginated = (if paginated then ''{'' @ json_name ''items'' else [])"

definition page_tail :: "RowList \<Rightarrow> bool \<Rightarrow> string" where
  "page_tail list paginated =
     (if paginated then
        '','' @ json_name ''page'' @ int_text (rl_page list) @ '','' @ json_name ''size'' @ int_text (rl_size list) @
        '','' @ json_name ''hasMore'' @ (if rl_has_more list then ''true'' else ''false'') @ ''}''
      else [])"

definition list_text :: "(size_t \<Rightarrow> string) \<Rightarrow> (64 word \<Rightarrow> string) \<Rightarrow> RowList \<Rightarrow> bool \<Rightarrow> string option" where
  "list_text text_at fmt_double list paginated =
     (case rows_text text_at fmt_double (the (rl_type list)) (case rl_items list of None \<Rightarrow> [] | Some m \<Rightarrow> m)
             [0..<nat (rl_count list)] of
        None \<Rightarrow> None
      | Some x \<Rightarrow> Some (page_head paginated @ ''['' @ x @ '']'' @ page_tail list paginated))"

lemma produces_rows:
  "sink_wf s \<Longrightarrow> produces s (rows_text text_at fmt_double t items is) (row_list_items text_at fmt_double t items is s)"
proof (induction "is" arbitrary: s)
  case Nil
  then show ?case using produces_writes [OF snk.emits_nothing Nil] by simp
next
  case (Cons i "is")
  let ?w = "\<lambda>s1. json_write_nested text_at fmt_double t (drop (i * unat (ti_size t)) items) s1 0"
  let ?x = "struct_text text_at fmt_double t (drop (i * unat (ti_size t)) items) 0"
  let ?comma = "\<lambda>s. if i > 0 then sink_add_bytes '','' s else s"
  show ?case
  proof (cases "sk_overflow s")
    case True
    then show ?thesis using produces_full [OF Cons.prems] by simp
  next
    case False
    have comma: "writes ?comma (if i > 0 then '','' else [])"
      using writes_add_bytes [of "'',''"] snk.emits_nothing by simp
    obtain rc s2 where r: "?w (?comma s) = (rc, s2)" by (cases "?w (?comma s)")
    have "produces s (case ?x of None \<Rightarrow> None | Some y \<Rightarrow> Some ((if i > 0 then '','' else []) @ y)) (rc, s2)"
      using produces_after [OF comma Cons.prems produces_struct(1)] r by metis
    note p = produces_seq [OF this Cons.IH]
    have code: "row_list_items text_at fmt_double t items (i # is) s =
        (if rc \<noteq> 0 then (- 1, s2) else row_list_items text_at fmt_double t items is s2)"
      unfolding row_list_items.simps Let_def by (simp only: False if_False r prod.case)
    have tx: "rows_text text_at fmt_double t items (i # is) =
        (case (case ?x of None \<Rightarrow> None | Some y \<Rightarrow> Some ((if i > 0 then '','' else []) @ y)) of None \<Rightarrow> None
         | Some x \<Rightarrow> (case rows_text text_at fmt_double t items is of None \<Rightarrow> None | Some y \<Rightarrow> Some (x @ y)))"
      by (simp split: option.splits)
    show ?thesis unfolding code tx by (rule p)
  qed
qed

lemma NUL_rows_text: "rows_text text_at fmt_double t items is = Some x \<Longrightarrow> NUL \<notin> set x"
proof (induction "is" arbitrary: x)
  case (Cons i "is")
  then show ?case using NUL_struct_text(1) by (fastforce split: option.splits if_splits)
qed simp

lemma NUL_list_text: "list_text text_at fmt_double list paginated = Some x \<Longrightarrow> NUL \<notin> set x"
  using NUL_rows_text [of text_at fmt_double] NUL_int_text
  by (auto simp: list_text_def page_head_def page_tail_def json_name_def split: option.splits if_splits)

definition page_end :: "RowList \<Rightarrow> bool \<Rightarrow> Sink \<Rightarrow> Sink" where
  "page_end list paginated s =
     (if paginated then
        sink_add_bytes ''}''
         (sink_add (if rl_has_more list then ''true'' else ''false'')
           (sink_add_bytes ('','' @ [DQUOTE] @ ''hasMore'' @ [DQUOTE] @ '':'')
             (sink_add_int (rl_size list)
               (sink_add_bytes ('','' @ [DQUOTE] @ ''size'' @ [DQUOTE] @ '':'')
                 (sink_add_int (rl_page list)
                   (sink_add_bytes ('','' @ [DQUOTE] @ ''page'' @ [DQUOTE] @ '':'') (sink_add_bytes '']'' s)))))))
      else sink_add_bytes '']'' s)"

lemma writes_page_end: "writes (page_end list paginated) ('']'' @ page_tail list paginated)"
proof (cases paginated)
  case False
  then show ?thesis using writes_add_bytes [of "'']''"] by (simp add: page_end_def [abs_def] page_tail_def)
next
  case True
  have flag: "cstr (if rl_has_more list then ''true'' else ''false'') = (if rl_has_more list then ''true'' else ''false'')"
    by simp
  note c = emits_comp [OF emits_comp [OF emits_comp [OF emits_comp [OF emits_comp [OF emits_comp [OF emits_comp
    [OF writes_add_bytes [of "'']''"] writes_add_bytes [of "'','' @ [DQUOTE] @ ''page'' @ [DQUOTE] @ '':''"]]
    writes_add_int [of "rl_page list"]] writes_add_bytes [of "'','' @ [DQUOTE] @ ''size'' @ [DQUOTE] @ '':''"]]
    writes_add_int [of "rl_size list"]] writes_add_bytes [of "'','' @ [DQUOTE] @ ''hasMore'' @ [DQUOTE] @ '':''"]]
    writes_add [of "if rl_has_more list then ''true'' else ''false''", unfolded flag]] writes_add_bytes [of "''}''"]]
  from c show ?thesis
    unfolding page_end_def [abs_def] page_tail_def json_name_def if_P [OF True] by (simp only: append_assoc)
qed

lemma terminated_page_end: "sink_wf s \<Longrightarrow> terminated (page_end list paginated s)"
proof -
  assume s: "sink_wf s"
  have "sink_wf (sink_add_bytes t s)" "sink_wf (sink_add t s)" "sink_wf (sink_add_int v s)" if "sink_wf s" for t v s
    using that writes_add_bytes [of t] writes_add [of t] writes_add_int [of v] by (simp_all add: emits_def)
  then show ?thesis unfolding page_end_def using s by (cases paginated) (simp_all add: terminated_add_bytes)
qed

lemma writes_page_begin:
  "writes (\<lambda>s. sink_add_bytes ''['' (if paginated then sink_add_bytes (''{'' @ [DQUOTE] @ ''items'' @ [DQUOTE] @ '':'') s else s))
    (page_head paginated @ ''['')"
proof (rule emits_comp [OF _ writes_add_bytes])
  show "writes (\<lambda>s. if paginated then sink_add_bytes (''{'' @ [DQUOTE] @ ''items'' @ [DQUOTE] @ '':'') s else s) (page_head paginated)"
    using writes_add_bytes [of "''{'' @ [DQUOTE] @ ''items'' @ [DQUOTE] @ '':''"] snk.emits_nothing
    by (cases paginated) (simp_all add: page_head_def json_name_def)
qed

text \<open>The overflow test on the size of a collection never fires within the page limit.\<close>

lemma unat_SIZE_MAX: "unat SIZE_MAX = 18446744073709551615"
  by (simp add: unsigned_minus_1_eq_mask mask_eq_exp_minus_1)

lemma page_size_fits:
  assumes "type_valid ty" "0 \<le> n" "n \<le> 100"
  shows "\<not> (of_int n :: size_t) > SIZE_MAX div of_nat (unat (ti_size (the ty)))"
proof -
  let ?sz = "ti_size (the ty)"
  obtain k where k: "n = int k" "k \<le> 100" using assms(2,3) by (metis nat_le_iff nat_0_le of_nat_numeral)
  have n: "unat (of_int n :: size_t) \<le> 100" using k by (simp add: unat_of_nat)
  have "unat ?sz < 2 ^ 16" using unsigned_less [of ?sz, where 'a = nat] by simp
  then have sz: "unat (of_nat (unat ?sz) :: size_t) = unat ?sz" "unat ?sz \<le> 2 ^ 16"
    using unat_of_nat [of "unat ?sz", where 'a = 64] by (simp_all del: of_nat_unat)
  obtain t where t: "ty = Some t" using assms(1) by (cases ty) (auto simp: type_valid_def)
  have pos: "0 < unat ?sz"
    using assms(1) t by (cases t) (auto simp: type_valid_def unat_gt_0 split: option.splits if_splits)
  have "(100 :: nat) \<le> (2 ^ 64 - 1) div 2 ^ 16" by simp
  also have "\<dots> \<le> (2 ^ 64 - 1) div unat ?sz" using sz(2) pos by (rule div_le_mono2 [rotated])
  finally have "100 \<le> unat (SIZE_MAX div (of_nat (unat ?sz) :: size_t))"
    using sz(1) by (simp add: unat_div unat_SIZE_MAX)
  with n show ?thesis by (simp add: word_less_nat_alt)
qed

text \<open>A collection is written like a structure: when the descriptor passes the checks (a valid
  type, a count within the page limit and backed by items, a sensible page), the result is the JSON
  array of the rows, wrapped with the page fields when paginated, complete and terminated if it
  fits, and otherwise -1 with the empty string.\<close>

theorem row_list_write_correct:
  assumes "out \<noteq> []" "type_valid (rl_type list)" "0 \<le> rl_count list" "rl_count list \<le> 100"
    "rl_count list = 0 \<or> rl_items list \<noteq> None"
    "paginated \<Longrightarrow> 0 \<le> rl_page list \<and> rl_count list \<le> rl_size list \<and> 0 < rl_size list \<and> rl_size list \<le> 100"
  shows "written out (list_text text_at fmt_double list paginated) (row_list_write text_at fmt_double list paginated out)"
proof -
  let ?out = "out[0 := NUL]"
  let ?s0 = "sink_init ?out (length ?out)"
  let ?t = "the (rl_type list)" and ?items = "case rl_items list of None \<Rightarrow> [] | Some m \<Rightarrow> m" and ?is = "[0..<nat (rl_count list)]"
  let ?head = "\<lambda>s. sink_add_bytes ''['' (if paginated then sink_add_bytes (''{'' @ [DQUOTE] @ ''items'' @ [DQUOTE] @ '':'') s else s)"
  let ?finish = "\<lambda>s2. (if sk_overflow (page_end list paginated s2) then - 1 else 0 :: int, page_end list paginated s2)"
  have wf: "sink_wf ?s0" using assms(1) by (intro sink_wf_init) auto
  have size: "\<not> (of_int (rl_count list) :: size_t) > SIZE_MAX div of_nat (unat (ti_size ?t))"
    using page_size_fits assms(2-4) by blast
  have head: "writes ?head (page_head paginated @ ''['')" by (rule writes_page_begin)
  obtain rc s2 where r: "row_list_items text_at fmt_double ?t ?items ?is (?head ?s0) = (rc, s2)"
    by (cases "row_list_items text_at fmt_double ?t ?items ?is (?head ?s0)")
  have p2: "produces ?s0 (case rows_text text_at fmt_double ?t ?items ?is of None \<Rightarrow> None
      | Some y \<Rightarrow> Some ((page_head paginated @ ''['') @ y)) (rc, s2)"
    using produces_after [OF head wf produces_rows] r by metis
  have fin: "produces s1 (Some ('']'' @ page_tail list paginated)) (?finish s1)" if "sink_wf s1" for s1
    using produces_writes [OF writes_page_end that] view_None_iff by (auto simp: produces_def)
  let ?res = "if rc \<noteq> 0 then (- 1, s2) else ?finish s2"
  have tx: "list_text text_at fmt_double list paginated =
      (case (case rows_text text_at fmt_double ?t ?items ?is of None \<Rightarrow> None
        | Some y \<Rightarrow> Some ((page_head paginated @ ''['') @ y)) of None \<Rightarrow> None
       | Some x \<Rightarrow> (case Some ('']'' @ page_tail list paginated) of None \<Rightarrow> None | Some y \<Rightarrow> Some (x @ y)))"
    by (simp add: list_text_def split: option.splits)
  have "produces ?s0 (list_text text_at fmt_double list paginated) (fst ?res, snd ?res)"
    unfolding prod.collapse tx by (rule produces_seq [OF p2 fin])
  then have "written ?out (list_text text_at fmt_double list paginated)
      (if fst ?res \<noteq> 0 then (- 1, (sk_buf (snd ?res))[0 := NUL]) else (0, sk_buf (snd ?res)))"
  proof (rule written_finish)
    have "sink_wf s2" using p2 by (simp add: produces_def)
    then show "terminated (snd ?res)" "\<not> sk_overflow (snd ?res)" if "fst ?res = 0"
      using that terminated_page_end by (auto split: if_splits)
  qed (use assms(1) NUL_list_text in auto)
  moreover have "row_list_write text_at fmt_double list paginated out =
      (if fst ?res \<noteq> 0 then (- 1, (sk_buf (snd ?res))[0 := NUL]) else (0, sk_buf (snd ?res)))"
    unfolding row_list_write_def Let_def page_end_def using assms size r
    by (auto split: prod.splits)
  ultimately show ?thesis by (simp add: written_def)
qed

definition demo_rows :: RowList where
  "demo_rows = \<lparr>rl_type = Some demo_type, rl_items = Some (demo_obj @ demo_obj), rl_count = 2, rl_page = 0,
     rl_size = 20, rl_has_more = True\<rparr>"

theorem row_list_write_correct_witness:
  "written (replicate 128 NUL) (list_text (\<lambda>_. []) (\<lambda>_. []) demo_rows True)
    (row_list_write (\<lambda>_. []) (\<lambda>_. []) demo_rows True (replicate 128 NUL))"
  using row_list_write_correct [of "replicate 128 NUL" demo_rows True "\<lambda>_. []" "\<lambda>_. []"] demo_type_valid
  by (simp add: demo_rows_def)

end
