(* ===== verification/Request_State.thy ===== *)
theory Request_State
  imports Type_Info
begin

text \<open>
  The failure state of a request and its report: \<open>src/runtime/runtime_error.c\<close> (without the URL
  decoder, which is in the theory \<open>Url\<close>) and the per-request body record of
  \<open>src/runtime/runtime_body.c\<close> that \<open>request_fail_reset\<close> clears. The thread-local variables are the
  fields of one record; arrays with a counter are the list of their used entries, character arrays
  the C string they hold.
\<close>

section \<open>The code\<close>

abbreviation FAIL_MESSAGE_LEN :: nat where "FAIL_MESSAGE_LEN \<equiv> 128"
abbreviation ERROR_FIELDS_MAX :: nat where "ERROR_FIELDS_MAX \<equiv> 16"
abbreviation JSON_MAX_TOKENS :: nat where "JSON_MAX_TOKENS \<equiv> 256"

text \<open>\<open>snprintf(buf, cap, "%s", text)\<close>: the text cut to the buffer.\<close>

definition snprintf_s :: "nat \<Rightarrow> string \<Rightarrow> string" where
  "snprintf_s cap t = take (cap - 1) (cstr t)"

record FieldError =
  fe_field :: string
  fe_code :: string
  fe_message :: string

record BodyField =
  bf_path :: string
  bf_offset :: nat
  bf_field :: FieldInfo
  bf_is_null :: bool

record RequestState =
  g_errors :: "FieldError list"
  g_error_truncated :: bool
  g_error_code :: string
  g_fail_status :: int
  g_fail_msg :: string
  g_body_fields :: "BodyField list"
  g_body_type :: "TypeInfo option"
  g_body_partial :: bool

definition body_reset :: "RequestState \<Rightarrow> RequestState" where
  "body_reset st = st\<lparr>g_body_fields := [], g_body_type := None, g_body_partial := False\<rparr>"

definition body_has_key :: "RequestState \<Rightarrow> string option \<Rightarrow> bool" where
  "body_has_key st path =
     (case path of None \<Rightarrow> False | Some p \<Rightarrow> list_ex (\<lambda>b. p = bf_path b) (g_body_fields st))"

definition body_is_null :: "RequestState \<Rightarrow> string option \<Rightarrow> bool" where
  "body_is_null st path =
     (case path of
        None \<Rightarrow> False
      | Some p \<Rightarrow> (case find (\<lambda>b. p = bf_path b) (g_body_fields st) of None \<Rightarrow> False | Some b \<Rightarrow> bf_is_null b))"

definition request_fail :: "int \<Rightarrow> string option \<Rightarrow> RequestState \<Rightarrow> RequestState" where
  "request_fail status message st =
     (if g_fail_status st \<noteq> 0 then st
      else
        (case message of
           None \<Rightarrow> st\<lparr>g_fail_status := status, g_fail_msg := []\<rparr>
         | Some m \<Rightarrow>
             let n = (if length m \<ge> FAIL_MESSAGE_LEN then FAIL_MESSAGE_LEN - 1 else length m)
             in st\<lparr>g_fail_status := status, g_fail_msg := take n m\<rparr>))"

definition request_failed :: "RequestState \<Rightarrow> bool" where
  "request_failed st \<longleftrightarrow> g_fail_status st \<noteq> 0"

definition request_fail_status :: "RequestState \<Rightarrow> int" where
  "request_fail_status st = g_fail_status st"

definition request_fail_message :: "RequestState \<Rightarrow> string" where
  "request_fail_message st = g_fail_msg st"

definition request_fail_reset :: "RequestState \<Rightarrow> RequestState" where
  "request_fail_reset st =
     (body_reset (st\<lparr>g_fail_status := 0, g_fail_msg := []\<rparr>))
       \<lparr>g_errors := [], g_error_truncated := False, g_error_code := []\<rparr>"

definition request_fail_code :: "int \<Rightarrow> string \<Rightarrow> string option \<Rightarrow> RequestState \<Rightarrow> RequestState" where
  "request_fail_code status code message st =
     (if request_failed st then st
      else (request_fail status message st)\<lparr>g_error_code := snprintf_s 32 code\<rparr>)"

definition field_error_add :: "string \<Rightarrow> string \<Rightarrow> string \<Rightarrow> RequestState \<Rightarrow> RequestState" where
  "field_error_add field code message st =
     (if request_failed st \<and> g_error_code st \<noteq> ''validation_failed'' then st
      else
        let st1 = request_fail_code 400 ''validation_failed'' (Some ''request validation failed'') st in
        if length (g_errors st1) \<ge> ERROR_FIELDS_MAX then st1\<lparr>g_error_truncated := True\<rparr>
        else st1\<lparr>g_errors := g_errors st1 @
               [\<lparr>fe_field = snprintf_s (NEST_DEPTH_MAX * 65) field, fe_code = snprintf_s 32 code,
                 fe_message = snprintf_s 128 message\<rparr>]\<rparr>)"

definition request_fail_field :: "string \<Rightarrow> RequestState \<Rightarrow> RequestState" where
  "request_fail_field field st = field_error_add field ''required'' ''field is required'' st"

definition error_code_for_status :: "int \<Rightarrow> string" where
  "error_code_for_status status =
     (if status = 400 then ''bad_request''
      else if status = 401 then ''unauthorized''
      else if status = 403 then ''forbidden''
      else if status = 404 then ''not_found''
      else if status = 405 then ''method_not_allowed''
      else if status = 409 then ''conflict''
      else if status = 413 then ''payload_too_large''
      else if status = 415 then ''unsupported_media_type''
      else if status = 417 then ''expectation_failed''
      else if status = 422 then ''unprocessable_content''
      else if status = 429 then ''rate_limited''
      else if status = 503 then ''unavailable''
      else if status \<ge> 500 then ''internal_error'' else ''request_failed'')"

definition sink_quoted :: "string \<Rightarrow> Sink \<Rightarrow> Sink" where
  "sink_quoted t sink = sink_put DQUOTE (sink_add_escaped t (sink_put DQUOTE sink))"

definition error_field_write :: "nat \<times> FieldError \<Rightarrow> Sink \<Rightarrow> Sink" where
  "error_field_write ie sink =
     (case ie of (i, e) \<Rightarrow>
        sink_add ''}''
         (sink_quoted (fe_message e)
           (sink_add ('','' @ json_name ''message'')
             (sink_quoted (fe_code e)
               (sink_add ('','' @ json_name ''code'')
                 (sink_quoted (fe_field e)
                   (sink_add (''{'' @ json_name ''field'') (if i > 0 then sink_add '','' sink else sink))))))))"

definition error_json_write :: "RequestState \<Rightarrow> int \<Rightarrow> string option \<Rightarrow> string \<Rightarrow> int \<times> string" where
  "error_json_write st status message out =
     (if length out = 0 then (- 1, out)
      else
        let active = (g_fail_status st = status);
            number = snprintf_s 32 (''{'' @ json_name ''status'' @ int_text status @ '','' @ json_name ''code'');
            s1 = sink_add number (sink_init out (length out));
            s2 = sink_quoted (if active \<and> g_error_code st \<noteq> [] then g_error_code st else error_code_for_status status) s1;
            s3 = sink_add ('','' @ json_name ''error'') s2;
            s4 = sink_quoted (if active then g_fail_msg st else (case message of Some m \<Rightarrow> m | None \<Rightarrow> ''request failed'')) s3;
            s5 = sink_add ('','' @ json_name ''fields'' @ ''['') s4;
            s6 = (if active then fold error_field_write (enumerate 0 (g_errors st)) s5 else s5);
            s7 = sink_add ('']'' @ '','' @ json_name ''truncated'' @
                   (if active \<and> g_error_truncated st then ''true}'' else ''false}'')) s6
        in (if sk_overflow s7 then - 1 else 0, sk_buf s7))"

section \<open>Sequences of failure reports\<close>

text \<open>One call that reports a failure; the statuses are those the assertion of \<open>request_fail\<close> allows.\<close>

inductive fail_step :: "RequestState \<Rightarrow> RequestState \<Rightarrow> bool" where
  step_fail: "100 \<le> status \<Longrightarrow> status < 600 \<Longrightarrow> fail_step st (request_fail status message st)"
| step_code: "100 \<le> status \<Longrightarrow> status < 600 \<Longrightarrow> fail_step st (request_fail_code status code message st)"
| step_field: "fail_step st (field_error_add field code message st)"

inductive fail_steps :: "RequestState \<Rightarrow> RequestState \<Rightarrow> bool" where
  steps_none: "fail_steps st st"
| steps_more: "fail_steps st st1 \<Longrightarrow> fail_step st1 st2 \<Longrightarrow> fail_steps st st2"

definition fresh :: "RequestState \<Rightarrow> bool" where
  "fresh st \<longleftrightarrow> g_errors st = [] \<and> \<not> g_error_truncated st \<and> g_error_code st = [] \<and> g_fail_status st = 0 \<and> g_fail_msg st = []"

definition field_error_wf :: "FieldError \<Rightarrow> bool" where
  "field_error_wf e \<longleftrightarrow> length (fe_field e) < 520 \<and> length (fe_code e) < 32 \<and> length (fe_message e) < 128"

definition fail_wf :: "RequestState \<Rightarrow> bool" where
  "fail_wf st \<longleftrightarrow> (g_fail_status st = 0 \<or> 100 \<le> g_fail_status st \<and> g_fail_status st < 600) \<and>
     length (g_fail_msg st) < FAIL_MESSAGE_LEN \<and> length (g_error_code st) < 32 \<and>
     length (g_errors st) \<le> ERROR_FIELDS_MAX \<and> list_all field_error_wf (g_errors st) \<and>
     (g_fail_status st = 0 \<longrightarrow> fresh st) \<and>
     (g_errors st \<noteq> [] \<longrightarrow> g_error_code st = ''validation_failed'' \<and> g_fail_status st \<noteq> 0) \<and>
     (g_error_truncated st \<longrightarrow> length (g_errors st) = ERROR_FIELDS_MAX)"

lemma snprintf_s_length: "0 < cap \<Longrightarrow> length (snprintf_s cap t) < cap"
  by (simp add: snprintf_s_def)

lemma fresh_reset: "fresh (request_fail_reset st)"
  by (simp add: fresh_def request_fail_reset_def body_reset_def)

lemma fresh_wf: "fresh st \<Longrightarrow> fail_wf st"
  by (simp add: fresh_def fail_wf_def)

lemma request_fail_sticky: "g_fail_status st \<noteq> 0 \<Longrightarrow> request_fail status m st = st"
  by (simp add: request_fail_def)

lemma request_fail_code_sticky: "g_fail_status st \<noteq> 0 \<Longrightarrow> request_fail_code status c m st = st"
  by (simp add: request_fail_code_def request_failed_def)

lemma request_fail_fields:
  assumes "g_fail_status st = 0"
  shows "g_fail_status (request_fail status m st) = status"
    "length (g_fail_msg (request_fail status m st)) < FAIL_MESSAGE_LEN"
    "g_errors (request_fail status m st) = g_errors st"
    "g_error_code (request_fail status m st) = g_error_code st"
    "g_error_truncated (request_fail status m st) = g_error_truncated st"
  using assms by (auto simp: request_fail_def Let_def split: option.splits)

lemma fail_wf_request_fail:
  assumes "fail_wf st" "100 \<le> status" "status < 600"
  shows "fail_wf (request_fail status m st)"
proof (cases "g_fail_status st = 0")
  case True
  then show ?thesis using assms by (simp add: fail_wf_def request_fail_fields fresh_def)
qed (use assms in \<open>simp add: request_fail_sticky\<close>)

lemma fail_wf_request_fail_code:
  assumes "fail_wf st" "100 \<le> status" "status < 600"
  shows "fail_wf (request_fail_code status c m st)"
proof (cases "g_fail_status st = 0")
  case True
  then show ?thesis
    using assms snprintf_s_length [of 32 c]
    by (simp add: request_fail_code_def request_failed_def fail_wf_def request_fail_fields fresh_def)
qed (use assms in \<open>simp add: request_fail_code_sticky\<close>)

lemma validation_code: "snprintf_s 32 ''validation_failed'' = ''validation_failed''"
  by (simp add: snprintf_s_def cstr_def)

lemma field_error_first:
  assumes "fail_wf st" "\<not> request_failed st \<or> g_error_code st = ''validation_failed''"
  defines "st1 \<equiv> request_fail_code 400 ''validation_failed'' (Some ''request validation failed'') st"
  shows "request_failed st1" "g_error_code st1 = ''validation_failed''" "g_errors st1 = g_errors st"
    "g_error_truncated st1 = g_error_truncated st" "fail_wf st1" "request_failed st \<Longrightarrow> st1 = st"
proof -
  show "fail_wf st1" unfolding st1_def using assms(1) by (intro fail_wf_request_fail_code) auto
  show "request_failed st1" "g_error_code st1 = ''validation_failed''" "g_errors st1 = g_errors st"
      "g_error_truncated st1 = g_error_truncated st" "request_failed st \<Longrightarrow> st1 = st"
    using assms request_fail_fields [of st 400] validation_code
    by (cases "g_fail_status st = 0"; auto simp: request_fail_code_def request_failed_def)+
qed

lemma fail_wf_field_error_add: "fail_wf st \<Longrightarrow> fail_wf (field_error_add field code message st)"
proof -
  assume wf: "fail_wf st"
  show ?thesis
  proof (cases "request_failed st \<and> g_error_code st \<noteq> ''validation_failed''")
    case True
    then show ?thesis using wf by (simp add: field_error_add_def)
  next
    case False
    then have "\<not> request_failed st \<or> g_error_code st = ''validation_failed''" by blast
    note f = field_error_first [OF wf this]
    have e: "field_error_wf \<lparr>fe_field = snprintf_s (NEST_DEPTH_MAX * 65) field, fe_code = snprintf_s 32 code,
        fe_message = snprintf_s 128 message\<rparr>"
      using snprintf_s_length [of 520 field] snprintf_s_length [of 32 code] snprintf_s_length [of 128 message]
      by (simp add: field_error_wf_def)
    then show ?thesis
      using f(1-5) False by (auto simp: field_error_add_def Let_def fail_wf_def fresh_def request_failed_def)
  qed
qed

lemma field_error_add_keeps:
  assumes "request_failed st"
  shows "g_fail_status (field_error_add f c m st) = g_fail_status st"
    "g_fail_msg (field_error_add f c m st) = g_fail_msg st"
    "g_error_code (field_error_add f c m st) = g_error_code st"
  using assms by (auto simp: field_error_add_def Let_def request_fail_code_def)

lemma fail_step_wf: "fail_step st st' \<Longrightarrow> fail_wf st \<Longrightarrow> fail_wf st'"
  by (induction rule: fail_step.induct)
    (simp_all add: fail_wf_request_fail fail_wf_request_fail_code fail_wf_field_error_add)

lemma fail_step_keeps:
  "fail_step st st' \<Longrightarrow> request_failed st \<Longrightarrow>
     request_failed st' \<and> g_fail_status st' = g_fail_status st \<and> g_fail_msg st' = g_fail_msg st \<and> g_error_code st' = g_error_code st"
  by (induction rule: fail_step.induct)
    (auto simp: request_fail_sticky request_fail_code_sticky request_failed_def field_error_add_keeps)

text \<open>C32: The first failure of a request decides its answer: once a request has failed, no sequence of
  further reports (a failure, a coded failure, a field error) changes the status, the message or
  the error code.\<close>

theorem first_failure_wins:
  assumes "fail_steps st st'" "request_failed st"
  shows "g_fail_status st' = g_fail_status st \<and> g_fail_msg st' = g_fail_msg st \<and> g_error_code st' = g_error_code st"
proof -
  from assms have "request_failed st' \<and> g_fail_status st' = g_fail_status st \<and> g_fail_msg st' = g_fail_msg st \<and>
      g_error_code st' = g_error_code st"
  proof (induction rule: fail_steps.induct)
    case (steps_more st st1 st2)
    then show ?case using fail_step_keeps [OF steps_more.hyps(2)] by simp
  qed simp
  then show ?thesis by blast
qed

definition no_failure :: RequestState where
  "no_failure = \<lparr>g_errors = [], g_error_truncated = False, g_error_code = [], g_fail_status = 0, g_fail_msg = [],
     g_body_fields = [], g_body_type = None, g_body_partial = False\<rparr>"

theorem first_failure_wins_witness:
  "g_fail_status (field_error_add ''a'' ''type'' ''m'' (request_fail 404 (Some ''gone'') no_failure)) = 404"
proof -
  let ?st = "request_fail 404 (Some ''gone'') no_failure"
  have "request_failed ?st" by (simp add: request_failed_def request_fail_def no_failure_def Let_def)
  moreover have "fail_steps ?st (field_error_add ''a'' ''type'' ''m'' ?st)"
    by (rule steps_more [OF steps_none step_field])
  ultimately show ?thesis
    using first_failure_wins by (simp add: request_fail_def no_failure_def Let_def)
qed

text \<open>The failure state stays well formed: starting from a reset request, whatever is reported, the
  status is 0 or a valid HTTP status, message, code and field entries fit their arrays, there are
  at most sixteen field errors, they occur only under the code \<open>validation_failed\<close>, and the list is
  marked truncated only when it is full.\<close>

theorem fail_state_wf:
  assumes "fail_steps (request_fail_reset st) st'"
  shows "fail_wf st'"
proof -
  have "fail_steps st0 st1 \<Longrightarrow> fail_wf st0 \<Longrightarrow> fail_wf st1" for st0 st1
    by (induction rule: fail_steps.induct) (auto intro: fail_step_wf)
  from this [OF assms] show ?thesis using fresh_wf [OF fresh_reset] by blast
qed

theorem fail_state_wf_witness: "fail_wf (field_error_add ''a'' ''type'' ''m'' (request_fail_reset no_failure))"
  using fail_state_wf [OF steps_more [OF steps_none step_field]] .

definition field_error_of :: "string \<times> string \<times> string \<Rightarrow> FieldError" where
  "field_error_of x = (case x of (f, c, m) \<Rightarrow>
     \<lparr>fe_field = snprintf_s (NEST_DEPTH_MAX * 65) f, fe_code = snprintf_s 32 c, fe_message = snprintf_s 128 m\<rparr>)"

definition add_all :: "(string \<times> string \<times> string) list \<Rightarrow> RequestState \<Rightarrow> RequestState" where
  "add_all xs st = fold (\<lambda>x. field_error_add (fst x) (fst (snd x)) (snd (snd x))) xs st"

lemma add_all_failed:
  assumes "request_failed st" "g_error_code st = ''validation_failed''" "length (g_errors st) \<le> ERROR_FIELDS_MAX"
    "g_error_truncated st \<longrightarrow> length (g_errors st) = ERROR_FIELDS_MAX"
  shows "g_errors (add_all xs st) = g_errors st @ map field_error_of (take (ERROR_FIELDS_MAX - length (g_errors st)) xs) \<and>
    g_error_truncated (add_all xs st) = (g_error_truncated st \<or> length (g_errors st) + length xs > ERROR_FIELDS_MAX) \<and>
    g_fail_status (add_all xs st) = g_fail_status st"
  using assms
proof (induction xs arbitrary: st)
  case (Cons x xs)
  let ?st = "field_error_add (fst x) (fst (snd x)) (snd (snd x)) st"
  have st: "?st = (if length (g_errors st) \<ge> ERROR_FIELDS_MAX then st\<lparr>g_error_truncated := True\<rparr>
      else st\<lparr>g_errors := g_errors st @ [field_error_of x]\<rparr>)"
    using Cons.prems(1,2) by (simp add: field_error_add_def request_fail_code_def field_error_of_def split: prod.splits)
  have step: "add_all (x # xs) st = add_all xs ?st" by (simp add: add_all_def)
  show ?case
  proof (cases "length (g_errors st) \<ge> ERROR_FIELDS_MAX")
    case True
    then show ?thesis
      using Cons.IH [of ?st] Cons.prems unfolding step st by (auto simp: request_failed_def)
  next
    case False
    then have t: "take (ERROR_FIELDS_MAX - length (g_errors st)) (x # xs) =
        x # take (ERROR_FIELDS_MAX - Suc (length (g_errors st))) xs"
      by (simp add: Suc_diff_Suc take_Cons')
    show ?thesis
      using Cons.IH [of ?st] Cons.prems False unfolding step st t by (auto simp: request_failed_def)
  qed
qed (simp add: add_all_def)

text \<open>Validation errors are all reported up to the limit: after reporting a list of field errors on
  a fresh request the response status is 400 and the recorded errors are the first sixteen of
  them in order, with the truncation flag set exactly when there were more.\<close>

theorem field_errors_collected:
  assumes "fresh st" "xs \<noteq> []"
  shows "g_fail_status (add_all xs st) = 400 \<and>
    g_errors (add_all xs st) = map field_error_of (take ERROR_FIELDS_MAX xs) \<and>
    (g_error_truncated (add_all xs st) \<longleftrightarrow> length xs > ERROR_FIELDS_MAX)"
proof -
  obtain x ys where xs: "xs = x # ys" using assms(2) by (cases xs) auto
  let ?st = "field_error_add (fst x) (fst (snd x)) (snd (snd x)) st"
  have f: "\<not> request_failed st" "g_errors st = []" "\<not> g_error_truncated st"
    using assms(1) by (auto simp: fresh_def request_failed_def)
  have st: "request_failed ?st" "g_error_code ?st = ''validation_failed''" "g_errors ?st = [field_error_of x]"
      "\<not> g_error_truncated ?st" "g_fail_status ?st = 400"
    using f validation_code
    by (simp_all add: field_error_add_def request_fail_code_def request_failed_def request_fail_def Let_def field_error_of_def
        split: prod.splits)
  have "add_all xs st = add_all ys ?st" by (simp add: add_all_def xs)
  then show ?thesis using add_all_failed [OF st(1,2), of ys] st(3-5) by (auto simp: xs numeral_eq_Suc)
qed

theorem field_errors_collected_witness:
  "g_error_truncated (add_all (replicate 17 (''a'', ''type'', ''m'')) no_failure)"
proof -
  have "fresh no_failure" by (simp add: fresh_def no_failure_def)
  then show ?thesis using field_errors_collected [of no_failure "replicate 17 (''a'', ''type'', ''m'')"] by simp
qed

section \<open>The report\<close>

text \<open>The text of an error response.\<close>

definition quoted :: "string \<Rightarrow> string" where
  "quoted t = [DQUOTE] @ json_escape (take RUNTIME_MAX_TEXT (cstr t)) @ [DQUOTE]"

definition error_field_text :: "nat \<times> FieldError \<Rightarrow> string" where
  "error_field_text ie = (case ie of (i, e) \<Rightarrow>
     (if i > 0 then '','' else []) @ (''{'' @ json_name ''field'') @ quoted (fe_field e) @
     ('','' @ json_name ''code'') @ quoted (fe_code e) @ ('','' @ json_name ''message'') @ quoted (fe_message e) @ ''}'')"

definition error_text :: "RequestState \<Rightarrow> int \<Rightarrow> string option \<Rightarrow> string" where
  "error_text st status message =
     (let active = (g_fail_status st = status) in
      (''{'' @ json_name ''status'' @ int_text status @ '','' @ json_name ''code'') @
      quoted (if active \<and> g_error_code st \<noteq> [] then g_error_code st else error_code_for_status status) @
      ('','' @ json_name ''error'') @
      quoted (if active then g_fail_msg st else (case message of Some m \<Rightarrow> m | None \<Rightarrow> ''request failed'')) @
      ('','' @ json_name ''fields'' @ ''['') @
      (if active then concat (map error_field_text (enumerate 0 (g_errors st))) else []) @
      ('']'' @ '','' @ json_name ''truncated'' @ (if active \<and> g_error_truncated st then ''true}'' else ''false}'')))"

lemma writes_sink_quoted: "writes (sink_quoted t) (quoted t)"
  unfolding sink_quoted_def [abs_def] quoted_def
  using emits_comp [OF emits_comp [OF writes_put [of DQUOTE] writes_add_escaped [of t]] writes_put [of DQUOTE]] by simp

lemma writes_literal: "NUL \<notin> set t \<Longrightarrow> writes (sink_add t) t"
  using writes_add [of t] by (simp add: cstr_id)

lemma writes_error_field: "writes (error_field_write ie) (error_field_text ie)"
proof -
  obtain i e where ie: "ie = (i, e)" by (cases ie)
  have lit: "writes (sink_add (''{'' @ json_name ''field'')) (''{'' @ json_name ''field'')"
      "writes (sink_add ('','' @ json_name ''code'')) ('','' @ json_name ''code'')"
      "writes (sink_add ('','' @ json_name ''message'')) ('','' @ json_name ''message'')"
      "writes (sink_add ''}'') ''}''"
    by (rule writes_literal, simp add: json_name_def)+
  have comma: "writes (\<lambda>s. if i > 0 then sink_add '','' s else s) (if i > 0 then '','' else [])"
    using writes_literal [of "'',''"] snk.emits_nothing by simp
  note c = emits_comp [OF emits_comp [OF emits_comp [OF emits_comp [OF emits_comp [OF emits_comp [OF emits_comp
    [OF comma lit(1)] writes_sink_quoted [of "fe_field e"]] lit(2)] writes_sink_quoted [of "fe_code e"]] lit(3)]
    writes_sink_quoted [of "fe_message e"]] lit(4)]
  from c show ?thesis
    unfolding error_field_write_def [abs_def] error_field_text_def ie prod.case by (simp only: append_assoc)
qed

lemma int_digits_length: "n < 10 ^ k \<Longrightarrow> 0 < k \<Longrightarrow> length (int_digits room n) \<le> k"
proof (induction room n arbitrary: k rule: int_digits.induct)
  case (2 room n)
  obtain j where k: "k = Suc j" using "2.prems"(2) by (cases k) auto
  have d: "n div 10 < 10 ^ j" using "2.prems"(1) k by (simp add: less_mult_imp_div_less mult.commute)
  show ?case
  proof (cases "n div 10 > 0")
    case True
    then have "0 < j" using d by (cases j) auto
    then show ?thesis using "2.IH" [OF True d] True k by simp
  qed (simp add: k)
qed simp

lemma error_number:
  assumes "100 \<le> status" "status < 600"
  shows "snprintf_s 32 (''{'' @ json_name ''status'' @ int_text status @ '','' @ json_name ''code'') =
    ''{'' @ json_name ''status'' @ int_text status @ '','' @ json_name ''code''" (is "snprintf_s 32 ?t = ?t")
proof -
  have "length (int_digits 24 (nat \<bar>status\<bar>)) \<le> 3"
    using assms by (intro int_digits_length) auto
  then have "length (int_text status) \<le> 3" using assms by (simp add: int_text_def)
  then have "length ?t \<le> 31" by (simp add: json_name_def)
  moreover have "NUL \<notin> set ?t" using NUL_int_text by (simp add: json_name_def)
  ultimately show ?thesis by (simp add: snprintf_s_def cstr_id)
qed

lemma NUL_quoted: "NUL \<notin> set (quoted t)"
  using NUL_json_escape by (simp add: quoted_def)

lemma NUL_error_text: "NUL \<notin> set (error_text st status message)"
proof -
  have "NUL \<notin> set (error_field_text ie)" for ie
    using NUL_quoted by (cases ie) (auto simp: error_field_text_def json_name_def)
  then show ?thesis
    using NUL_quoted NUL_int_text unfolding error_text_def Let_def by (auto simp: json_name_def)
qed

definition error_sink :: "RequestState \<Rightarrow> int \<Rightarrow> string option \<Rightarrow> Sink \<Rightarrow> Sink" where
  "error_sink st status message s =
     (let active = (g_fail_status st = status);
          s1 = sink_add (snprintf_s 32 (''{'' @ json_name ''status'' @ int_text status @ '','' @ json_name ''code'')) s;
          s2 = sink_quoted (if active \<and> g_error_code st \<noteq> [] then g_error_code st else error_code_for_status status) s1;
          s3 = sink_add ('','' @ json_name ''error'') s2;
          s4 = sink_quoted (if active then g_fail_msg st else (case message of Some m \<Rightarrow> m | None \<Rightarrow> ''request failed'')) s3;
          s5 = sink_add ('','' @ json_name ''fields'' @ ''['') s4
      in if active then fold error_field_write (enumerate 0 (g_errors st)) s5 else s5)"

definition error_tail :: "RequestState \<Rightarrow> int \<Rightarrow> string" where
  "error_tail st status = '']'' @ '','' @ json_name ''truncated'' @
     (if g_fail_status st = status \<and> g_error_truncated st then ''true}'' else ''false}'')"

lemma writes_error_sink:
  assumes "100 \<le> status" "status < 600"
  shows "writes (\<lambda>s. sink_add (error_tail st status) (error_sink st status message s)) (error_text st status message)"
proof -
  let ?active = "g_fail_status st = status"
  have lit: "writes (sink_add (''{'' @ json_name ''status'' @ int_text status @ '','' @ json_name ''code''))
        (''{'' @ json_name ''status'' @ int_text status @ '','' @ json_name ''code'')"
      "writes (sink_add ('','' @ json_name ''error'')) ('','' @ json_name ''error'')"
      "writes (sink_add ('','' @ json_name ''fields'' @ ''['')) ('','' @ json_name ''fields'' @ ''['')"
      "writes (sink_add (error_tail st status)) (error_tail st status)"
    by (rule writes_literal, use NUL_int_text in \<open>simp add: json_name_def error_tail_def\<close>)+
  have flds: "writes (\<lambda>s. if ?active then fold error_field_write (enumerate 0 (g_errors st)) s else s)
      (if ?active then concat (map error_field_text (enumerate 0 (g_errors st))) else [])"
    using snk.emits_fold [of "enumerate 0 (g_errors st)" error_field_write error_field_text] writes_error_field
      snk.emits_nothing by simp
  note c = emits_comp [OF emits_comp [OF emits_comp [OF emits_comp [OF emits_comp [OF emits_comp
    [OF lit(1) writes_sink_quoted [of "if ?active \<and> g_error_code st \<noteq> [] then g_error_code st else error_code_for_status status"]]
    lit(2)] writes_sink_quoted [of "if ?active then g_fail_msg st else (case message of Some m \<Rightarrow> m | None \<Rightarrow> ''request failed'')"]]
    lit(3)] flds] lit(4)]
  from c show ?thesis
    unfolding error_sink_def error_text_def Let_def error_number [OF assms] error_tail_def by (simp only: append_assoc)
qed

text \<open>The error report is complete or refused: for an HTTP status the writer returns 0 exactly when
  the JSON text of the report (status, code, message, every recorded field error, truncation
  flag) fits its buffer with the terminator, and then the buffer holds exactly that text; the
  recorded failure is used only when it is the one being reported.\<close>

theorem error_json_write_correct:
  assumes "100 \<le> status" "status < 600" "out \<noteq> []"
  shows "case error_json_write st status message out of (rc, out') \<Rightarrow> length out' = length out \<and>
    (if length (error_text st status message) < length out then rc = 0 \<and> cstr out' = error_text st status message else rc = - 1)"
proof -
  let ?s = "error_sink st status message (sink_init out (length out))"
  let ?e = "sink_add (error_tail st status) ?s"
  have code: "error_json_write st status message out = (if sk_overflow ?e then - 1 else 0, sk_buf ?e)"
    using assms(3) unfolding error_json_write_def error_sink_def error_tail_def Let_def by simp
  have wf: "sink_wf (sink_init out (length out))" using assms(3) by (intro sink_wf_init) auto
  have "writes (\<lambda>s. sink_add (error_tail st status) (error_sink st status message s)) (error_text st status message)"
    using writes_error_sink [OF assms(1,2)] .
  then have e: "sink_wf ?e" "sk_cap ?e = length out"
      "sink_view ?e = (if length (error_text st status message) < length out then Some (error_text st status message) else None)"
    using wf by (simp_all add: emits_def extend_text_def)
  have "terminated ?e"
  proof -
    have "terminated (sink_add t s)" if "sink_wf (sink_add t s)" for t s
      using that by (auto simp: sink_add_def terminated_def sink_add_bytes_def sink_wf_def length_poke poke_def split: if_splits)
    then show ?thesis using e(1) by blast
  qed
  then show ?thesis
    using e cstr_terminated [OF e(1), of "error_text st status message"] NUL_error_text view_None_iff [of ?e]
    by (auto simp: code sink_wf_def split: if_splits)
qed

theorem error_json_write_correct_witness:
  "fst (error_json_write (request_fail 404 (Some ''gone'') no_failure) 404 None (replicate 8 NUL)) = - 1"
proof -
  have "\<not> length (error_text (request_fail 404 (Some ''gone'') no_failure) 404 None) < 8"
    by (simp add: error_text_def Let_def json_name_def)
  then show ?thesis
    using error_json_write_correct [of 404 "replicate 8 NUL" "request_fail 404 (Some ''gone'') no_failure" None]
    by (simp split: prod.splits)
qed

end
