(* ===== verification/Url.thy ===== *)
theory Url
  imports Route Request_State
begin

text \<open>
  Decoding of what a request line carries: percent decoding, path and query parameters
  (\<open>url_decode\<close> and \<open>path_param_*\<close> of \<open>src/runtime/runtime_error.c\<close>, \<open>query_*\<close> of
  \<open>src/runtime/runtime_api.c\<close>) and the normalisation of the request path (\<open>split_path\<close> of
  \<open>src/server/server_http.c\<close>). Texts are C strings, without the terminator. Operations that rewrite
  a text in place return the new text, or None for the error return, after which the callers do
  not use the text.
\<close>

section \<open>The code\<close>

definition hex_digit_value :: "char \<Rightarrow> int" where
  "hex_digit_value c =
     (if 48 \<le> byte c \<and> byte c \<le> 57 then int (byte c) - 48
      else if 97 \<le> byte c \<and> byte c \<le> 102 then int (byte c) - 97 + 10
      else if 65 \<le> byte c \<and> byte c \<le> 70 then int (byte c) - 65 + 10
      else - 1)"

text \<open>The loop of \<open>url_decode\<close>: \<open>rd\<close> is the read index, \<open>rest\<close> the text from it, \<open>out\<close> what has been
  written. A character beyond the end is the terminator.\<close>

function url_decode_loop :: "nat \<Rightarrow> string \<Rightarrow> string \<Rightarrow> string option" where
  "url_decode_loop rd rest out =
     (if \<not> (rd < RUNTIME_MAX_TEXT \<and> rest \<noteq> []) then (if rd = RUNTIME_MAX_TEXT then None else Some out)
      else if hd rest = CHR ''%'' then
        let hi = (if length rest > 1 then hex_digit_value (rest ! 1) else - 1);
            lo = (if hi \<ge> 0 \<and> length rest > 2 then hex_digit_value (rest ! 2) else - 1)
        in if lo < 0 then None
           else
             let decoded = nat (hi * 16 + lo) in
             if decoded < 0x20 \<or> decoded = 0x7f then None
             else url_decode_loop (rd + 3) (drop 3 rest) (out @ [char_of decoded])
      else url_decode_loop (rd + 1) (tl rest) (out @ [hd rest]))"
  by pat_completeness auto
termination
  by (relation "measure (\<lambda>(rd, rest, out). length rest)") auto

declare url_decode_loop.simps [simp del]

definition url_decode :: "string \<Rightarrow> string option" where
  "url_decode t = url_decode_loop 0 t []"

definition path_param_int :: "RequestParams \<Rightarrow> int \<Rightarrow> int option" where
  "path_param_int p index =
     (if index < 0 \<or> index \<ge> int (length (pr_path p)) \<or> index \<ge> int PATH_PARAM_MAX then None
      else
        let s = pr_path p ! nat index in
        if s = [] then None
        else
          (case strtol10 s of (value, rest, erange) \<Rightarrow>
             if erange \<or> rest = s \<or> rest \<noteq> [] \<or> value < - (2 ^ 31) \<or> value > int INT_MAX then None
             else Some value))"

definition path_param_text :: "RequestParams \<Rightarrow> nat \<Rightarrow> string" where
  "path_param_text p index =
     (if index \<ge> length (pr_path p) \<or> index \<ge> PATH_PARAM_MAX then [] else pr_path p ! index)"

definition copy_bounded :: "string \<Rightarrow> string" where
  "copy_bounded src = take (if length src < PARAM_VALUE_LEN - 1 then length src else PARAM_VALUE_LEN - 1) src"

definition plus_to_space :: "string \<Rightarrow> string" where
  "plus_to_space s = map (\<lambda>c. if c = CHR ''+'' then SPC else c) s"

text \<open>One pair of the query: None when it is malformed.\<close>

definition query_pair :: "string \<Rightarrow> (string \<times> string) option" where
  "query_pair item =
     (case split_at (\<lambda>c. c = CHR ''='') item of
        (_, None) \<Rightarrow> None
      | (n, Some v) \<Rightarrow>
          if n = [] then None
          else
            (case (url_decode (plus_to_space n), url_decode (plus_to_space v)) of
               (Some n', Some v') \<Rightarrow>
                 if length n' \<ge> PARAM_VALUE_LEN \<or> length v' \<ge> PARAM_VALUE_LEN then None else Some (n', v')
             | _ \<Rightarrow> None))"

function query_loop :: "string \<Rightarrow> RequestParams \<Rightarrow> int \<times> RequestParams" where
  "query_loop cursor p =
     (if cursor = [] then (0, p)
      else if length (pr_query p) \<ge> QUERY_PARAM_MAX then (- 1, p\<lparr>pr_invalid := True\<rparr>)
      else
        (case split_at (\<lambda>c. c = CHR ''&'') cursor of
           (item, amp) \<Rightarrow>
             (case query_pair item of
                None \<Rightarrow> (- 1, p\<lparr>pr_invalid := True\<rparr>)
              | Some (n, v) \<Rightarrow>
                  if list_ex (\<lambda>q. fst q = n) (pr_query p) then (- 1, p\<lparr>pr_invalid := True\<rparr>)
                  else
                    let p1 = p\<lparr>pr_query := pr_query p @ [(copy_bounded n, copy_bounded v)]\<rparr> in
                    (case amp of None \<Rightarrow> (0, p1) | Some next_ \<Rightarrow> query_loop next_ p1))))"
  by pat_completeness auto
termination
  by (relation "measure (\<lambda>(cursor, p). length cursor)") (auto dest: split_at_shorter [OF sym])

declare query_loop.simps [simp del]

definition query_parse :: "RequestParams \<Rightarrow> string option \<Rightarrow> int \<times> RequestParams" where
  "query_parse p query =
     (let p0 = p\<lparr>pr_query := [], pr_invalid := False\<rparr> in
      case query of None \<Rightarrow> (0, p0) | Some q \<Rightarrow> query_loop q p0)"

definition query_index :: "RequestParams \<Rightarrow> string \<Rightarrow> nat option" where
  "query_index p name =
     find (\<lambda>i. fst (pr_query p ! i) = name) [0..<min (length (pr_query p)) QUERY_PARAM_MAX]"

definition query_text :: "RequestParams \<Rightarrow> string \<Rightarrow> string" where
  "query_text p name = (case query_index p name of None \<Rightarrow> [] | Some i \<Rightarrow> snd (pr_query p ! i))"

text \<open>\<open>Inl\<close> is the code left in \<open>*ok\<close> (-1: absent, 0: not an integer).\<close>

definition query_int :: "RequestParams \<Rightarrow> string \<Rightarrow> int + int" where
  "query_int p name =
     (case query_index p name of
        None \<Rightarrow> Inl (- 1)
      | Some i \<Rightarrow>
          (case path_param_int \<lparr>pr_path = [copy_bounded (snd (pr_query p ! i))], pr_query = [], pr_invalid = False\<rparr> 0 of
             None \<Rightarrow> Inl 0 | Some v \<Rightarrow> Inr v))"

definition query_has :: "RequestParams \<Rightarrow> string \<Rightarrow> bool" where
  "query_has p name \<longleftrightarrow> query_index p name \<noteq> None"

text \<open>\<open>split_path\<close>: the scan for an encoded slash or backslash, and the loop over the segments.\<close>

fun encoded_separator :: "string \<Rightarrow> bool" where
  "encoded_separator [] = False"
| "encoded_separator (c # r) =
     ((c = CHR ''%'' \<and> length r \<ge> 2 \<and>
        ((r ! 0 = CHR ''2'' \<and> (r ! 1 = CHR ''f'' \<or> r ! 1 = CHR ''F'')) \<or>
         (r ! 0 = CHR ''5'' \<and> (r ! 1 = CHR ''c'' \<or> r ! 1 = CHR ''C'')))) \<or>
      encoded_separator r)"

function segments_ok :: "string \<Rightarrow> bool" where
  "segments_ok segment =
     (if segment = [] then True
      else
        (case split_at (\<lambda>c. c = CHR ''/'') segment of
           (seg, slash) \<Rightarrow>
             if seg = [] \<or> seg = ''.'' \<or> seg = ''..'' then False
             else (case slash of None \<Rightarrow> True | Some r \<Rightarrow> if r = [] then False else segments_ok r)))"
  by pat_completeness auto
termination
  by (relation "measure length") (auto dest: split_at_shorter [OF sym])

declare segments_ok.simps [simp del]

definition split_path :: "string \<Rightarrow> (string \<times> string option) option" where
  "split_path target =
     (case split_at (\<lambda>c. c = CHR ''?'') target of
        (path, query) \<Rightarrow>
          if BSLASH \<in> set path then None
          else if encoded_separator path then None
          else
            (case url_decode path of
               None \<Rightarrow> None
             | Some p \<Rightarrow>
                 if BSLASH \<in> set p \<or> p = [] \<or> hd p \<noteq> CHR ''/'' then None
                 else if \<not> segments_ok (tl p) then None
                 else Some (p, query)))"

section \<open>Percent encoding\<close>

text \<open>\<open>encoding s t\<close>: \<open>s\<close> is a percent encoding of \<open>t\<close>, each character of \<open>t\<close> either itself or
  escaped.\<close>

inductive encoding :: "string \<Rightarrow> string \<Rightarrow> bool" where
  enc_nil: "encoding [] []"
| enc_raw: "c \<noteq> CHR ''%'' \<Longrightarrow> encoding s t \<Longrightarrow> encoding (c # s) (c # t)"
| enc_hex: "0 \<le> hex_digit_value a \<Longrightarrow> 0 \<le> hex_digit_value b \<Longrightarrow> d = nat (hex_digit_value a * 16 + hex_digit_value b) \<Longrightarrow>
    0x20 \<le> d \<Longrightarrow> d \<noteq> 0x7f \<Longrightarrow> encoding s t \<Longrightarrow> encoding (CHR ''%'' # a # b # s) (char_of d # t)"

inductive_cases encoding_nilE: "encoding [] t"
inductive_cases encoding_consE: "encoding (c # s) t"

lemma url_decode_loop_nil: "rd < RUNTIME_MAX_TEXT \<Longrightarrow> url_decode_loop rd [] out = Some out"
  by (simp add: url_decode_loop.simps)

lemma url_decode_loop_raw:
  "rd < RUNTIME_MAX_TEXT \<Longrightarrow> c \<noteq> CHR ''%'' \<Longrightarrow> url_decode_loop rd (c # s) out = url_decode_loop (rd + 1) s (out @ [c])"
  by (simp add: url_decode_loop.simps [of rd])

lemma url_decode_loop_short:
  "rd < RUNTIME_MAX_TEXT \<Longrightarrow> length s < 2 \<Longrightarrow> url_decode_loop rd (CHR ''%'' # s) out = None"
  by (auto simp: url_decode_loop.simps [of rd] Let_def)

definition hex_ok :: "char \<Rightarrow> char \<Rightarrow> bool" where
  "hex_ok a b \<longleftrightarrow> 0 \<le> hex_digit_value a \<and> 0 \<le> hex_digit_value b \<and>
     0x20 \<le> nat (hex_digit_value a * 16 + hex_digit_value b) \<and> nat (hex_digit_value a * 16 + hex_digit_value b) \<noteq> 0x7f"

definition hex_char :: "char \<Rightarrow> char \<Rightarrow> char" where
  "hex_char a b = char_of (nat (hex_digit_value a * 16 + hex_digit_value b))"

lemma url_decode_loop_hex:
  "rd < RUNTIME_MAX_TEXT \<Longrightarrow> url_decode_loop rd (CHR ''%'' # a # b # s) out =
     (if hex_ok a b then url_decode_loop (rd + 3) s (out @ [hex_char a b]) else None)"
  by (subst url_decode_loop.simps) (simp add: Let_def hex_ok_def hex_char_def not_less not_le)

lemma encoding_nil_iff [simp]: "encoding [] t \<longleftrightarrow> t = []"
  by (auto intro: enc_nil elim: encoding_nilE)

lemma encoding_raw_iff: "c \<noteq> CHR ''%'' \<Longrightarrow> encoding (c # s) t \<longleftrightarrow> (\<exists>u. t = c # u \<and> encoding s u)"
  by (auto intro: enc_raw elim: encoding_consE)

lemma encoding_short: "length s < 2 \<Longrightarrow> \<not> encoding (CHR ''%'' # s) t"
  by (auto elim: encoding_consE)

lemma encoding_hex_iff:
  "encoding (CHR ''%'' # a # b # s) t \<longleftrightarrow> hex_ok a b \<and> (\<exists>u. t = hex_char a b # u \<and> encoding s u)"
  unfolding hex_ok_def hex_char_def by (auto intro: enc_hex elim: encoding_consE)

lemma url_decode_loop_iff:
  "rd + length rest < RUNTIME_MAX_TEXT \<Longrightarrow> url_decode_loop rd rest out = Some r \<longleftrightarrow> (\<exists>t. encoding rest t \<and> r = out @ t)"
proof (induction rest arbitrary: rd out rule: length_induct)
  case (1 rest)
  have rd: "rd < RUNTIME_MAX_TEXT" using "1.prems" by simp
  consider (nil) "rest = []" | (raw) c s where "rest = c # s" "c \<noteq> CHR ''%''"
    | (short) s where "rest = CHR ''%'' # s" "length s < 2" | (hex) a b s where "rest = CHR ''%'' # a # b # s"
  proof (cases rest)
    case (Cons c s)
    then show ?thesis using that by (cases "c = CHR ''%''"; cases s; cases "tl s") auto
  qed (use that in auto)
  then show ?case
  proof cases
    case nil
    then show ?thesis using rd by (auto simp: url_decode_loop_nil)
  next
    case raw
    then show ?thesis
      using "1.IH" [rule_format, of s "rd + 1" "out @ [c]"] "1.prems" rd
      by (auto simp: url_decode_loop_raw encoding_raw_iff)
  next
    case short
    then show ?thesis using rd by (simp add: url_decode_loop_short encoding_short)
  next
    case hex
    then show ?thesis
      using "1.IH" [rule_format, of s "rd + 3" "out @ [hex_char a b]"] "1.prems" rd
      by (auto simp: url_decode_loop_hex encoding_hex_iff)
  qed
qed

text \<open>Percent decoding is exactly the inverse of percent encoding: on every text shorter than the
  limit the decoder succeeds precisely for the encodings of a text (each character raw, or as two
  hexadecimal digits that do not denote a control character), and returns that text.\<close>

theorem url_decode_correct:
  assumes "length s < RUNTIME_MAX_TEXT"
  shows "url_decode s = Some t \<longleftrightarrow> encoding s t"
  using url_decode_loop_iff [of 0 s "[]" t] assms by (simp add: url_decode_def)

theorem url_decode_correct_witness: "url_decode ''a%2Fb'' = Some ''a/b''"
proof -
  have hex: "hex_ok (CHR ''2'') (CHR ''F'')" "hex_char (CHR ''2'') (CHR ''F'') = CHR ''/''" by code_simp+
  have "encoding ''a%2Fb'' ''a/b''"
    using hex by (simp add: encoding_raw_iff encoding_hex_iff)
  then show ?thesis using url_decode_correct [of "''a%2Fb''" "''a/b''"] by simp
qed

lemma encoding_length: "encoding s t \<Longrightarrow> length t \<le> length s"
  by (induction rule: encoding.induct) auto

lemma encoding_append: "encoding s t \<Longrightarrow> encoding s' t' \<Longrightarrow> encoding (s @ s') (t @ t')"
  by (induction rule: encoding.induct) (auto intro: encoding.intros)

text \<open>An encoder: every character escaped.\<close>

definition percent :: "char \<Rightarrow> string" where
  "percent c = [CHR ''%'', HEX_DIGIT ! (byte c div 16), HEX_DIGIT ! (byte c mod 16)]"

definition url_encode :: "string \<Rightarrow> string" where
  "url_encode t = concat (map percent t)"

definition url_printable :: "char \<Rightarrow> bool" where
  "url_printable c \<longleftrightarrow> 0x20 \<le> byte c \<and> byte c \<noteq> 0x7f"

lemma hex_digit_value_digits: "n < 16 \<Longrightarrow> hex_digit_value (HEX_DIGIT ! n) = int n"
proof -
  have "list_all (\<lambda>n. hex_digit_value (HEX_DIGIT ! n) = int n) [0..<16]" by code_simp
  then show "n < 16 \<Longrightarrow> hex_digit_value (HEX_DIGIT ! n) = int n" by (simp add: list_all_iff)
qed

lemma encoding_url_encode: "list_all url_printable t \<Longrightarrow> encoding (url_encode t) t"
proof (induction t)
  case (Cons c t)
  have d: "byte c div 16 < 16" by (simp add: less_mult_imp_div_less)
  have v: "nat (int (byte c div 16) * 16 + int (byte c mod 16)) = byte c" by (simp add: nat_add_distrib nat_mult_distrib)
  show ?case
    using Cons hex_digit_value_digits [OF d] hex_digit_value_digits [of "byte c mod 16"] v
    by (simp add: url_encode_def percent_def encoding_hex_iff hex_ok_def hex_char_def url_printable_def byte_def del: of_nat_mod of_nat_div)
qed (simp add: url_encode_def)

section \<open>Request paths\<close>

text \<open>A normal path: its segments, each after a slash.\<close>

definition path_of :: "string list \<Rightarrow> string" where
  "path_of segs = concat (map (\<lambda>s. CHR ''/'' # s) segs)"

definition safe_segment :: "string \<Rightarrow> bool" where
  "safe_segment s \<longleftrightarrow> s \<noteq> [] \<and> s \<noteq> ''.'' \<and> s \<noteq> ''..'' \<and> CHR ''/'' \<notin> set s"

definition safe_path :: "string \<Rightarrow> bool" where
  "safe_path s \<longleftrightarrow> (\<exists>segs. list_all safe_segment segs \<and> segs \<noteq> [] \<and> s = path_of segs)"

lemma safe_path_single:
  assumes "CHR ''/'' \<notin> set s"
  shows "safe_path (CHR ''/'' # s) \<longleftrightarrow> safe_segment s"
proof -
  have "segs = [s]" if "CHR ''/'' # s = path_of segs" "segs \<noteq> []" for segs
    using that assms by (cases segs; cases "tl segs") (auto simp: path_of_def)
  moreover have "CHR ''/'' # s = path_of [s]" by (simp add: path_of_def)
  ultimately have "safe_path (CHR ''/'' # s) \<longleftrightarrow> list_all safe_segment [s]"
    unfolding safe_path_def by (metis list.distinct(1))
  then show ?thesis by simp
qed

lemma safe_path_split:
  assumes "CHR ''/'' \<notin> set seg"
  shows "safe_path (CHR ''/'' # seg @ CHR ''/'' # r) \<longleftrightarrow> safe_segment seg \<and> safe_path (CHR ''/'' # r)" (is "?L \<longleftrightarrow> ?R")
proof
  assume ?L
  then obtain g segs where g: "list_all safe_segment (g # segs)" "CHR ''/'' # seg @ CHR ''/'' # r = path_of (g # segs)"
    by (auto simp: safe_path_def neq_Nil_conv)
  have eq: "seg @ CHR ''/'' # r = g @ path_of segs" and slash: "CHR ''/'' \<notin> set g"
    using g by (auto simp: path_of_def safe_segment_def)
  have "segs \<noteq> []"
  proof
    assume "segs = []"
    then have "g = seg @ CHR ''/'' # r" using eq by (simp add: path_of_def)
    then show False using slash by simp
  qed
  then obtain h rest where h: "segs = h # rest" by (cases segs) auto
  then have e: "seg @ CHR ''/'' # r = g @ CHR ''/'' # h @ path_of rest" using eq by (simp add: path_of_def)
  have "split_at (\<lambda>c. c = CHR ''/'') (seg @ CHR ''/'' # r) = (seg, Some r)"
    using assms by (intro split_at_append) auto
  moreover have "split_at (\<lambda>c. c = CHR ''/'') (g @ CHR ''/'' # h @ path_of rest) = (g, Some (h @ path_of rest))"
    using slash by (intro split_at_append) auto
  ultimately have "seg = g" unfolding e by simp
  then show ?R using g(1) eq \<open>segs \<noteq> []\<close> by (auto simp: safe_path_def)
next
  assume ?R
  then obtain segs where "safe_segment seg" "list_all safe_segment segs" "CHR ''/'' # r = path_of segs"
    by (auto simp: safe_path_def)
  then show ?L unfolding safe_path_def by (intro exI [of _ "seg # segs"]) (auto simp: path_of_def)
qed

lemma safe_path_slash: "\<not> safe_path ''/''"
proof -
  have "segs = [] \<or> \<not> list_all safe_segment segs" if "''/'' = path_of segs" for segs
    using that by (cases segs) (auto simp: path_of_def safe_segment_def)
  then show ?thesis by (auto simp: safe_path_def)
qed

lemma segments_ok_iff: "s \<noteq> [] \<Longrightarrow> segments_ok s \<longleftrightarrow> safe_path (CHR ''/'' # s)"
proof (induction s rule: segments_ok.induct)
  case (1 s)
  obtain seg slash where sp: "split_at (\<lambda>c. c = CHR ''/'') s = (seg, slash)" by (cases "split_at (\<lambda>c. c = CHR ''/'') s")
  have code: "segments_ok s = (\<not> (seg = [] \<or> seg = ''.'' \<or> seg = ''..'') \<and>
      (case slash of None \<Rightarrow> True | Some r \<Rightarrow> r \<noteq> [] \<and> segments_ok r))"
    using "1.prems" sp by (subst segments_ok.simps) (auto split: option.splits)
  show ?case
  proof (cases slash)
    case None
    then have "seg = s" "CHR ''/'' \<notin> set s" using split_at_None [of "\<lambda>c. c = CHR ''/''" s seg] sp by auto
    then show ?thesis unfolding code using None safe_path_single by (simp add: safe_segment_def)
  next
    case (Some r)
    then have s: "s = seg @ CHR ''/'' # r" "CHR ''/'' \<notin> set seg" using split_at_Some [of "\<lambda>c. c = CHR ''/''" s seg r] sp by auto
    then have split: "safe_path (CHR ''/'' # s) \<longleftrightarrow> safe_segment seg \<and> safe_path (CHR ''/'' # r)"
      using safe_path_split by simp
    have rest: "segments_ok r \<longleftrightarrow> safe_path (CHR ''/'' # r)" if "r \<noteq> []" "safe_segment seg"
      using "1.IH" [OF "1.prems" sp [symmetric] _ Some that(1) that(1)] that(2) by (simp add: safe_segment_def)
    show ?thesis
      unfolding split code using Some rest safe_path_slash s(2) by (cases "r = []") (auto simp: safe_segment_def)
  qed
qed

text \<open>C22: The request path is normalised: for a target within the text limit, a path that
  \<open>split_path\<close> accepts is the decoding of what precedes the question mark and consists of
  segments after slashes, none of them empty, a dot or a double dot, and without a backslash
  anywhere, so that it names nothing outside the tree it is resolved in; the query is what
  follows the question mark.\<close>

theorem split_path_safe:
  assumes "split_path target = Some (p, q)" "length target < RUNTIME_MAX_TEXT"
  shows "\<exists>segs. p = (if segs = [] then ''/'' else path_of segs) \<and> list_all safe_segment segs \<and> BSLASH \<notin> set p \<and>
    (\<exists>raw. encoding raw p \<and> CHR ''?'' \<notin> set raw \<and> target = raw @ (case q of None \<Rightarrow> [] | Some r \<Rightarrow> CHR ''?'' # r))"
proof -
  obtain raw where sp: "split_at (\<lambda>c. c = CHR ''?'') target = (raw, q)" and d: "url_decode raw = Some p"
      and b: "BSLASH \<notin> set p" and h: "p \<noteq> []" "hd p = CHR ''/''" and ok: "segments_ok (tl p)"
    using assms(1) by (auto simp: split_path_def split: prod.splits if_splits option.splits)
  have raw: "CHR ''?'' \<notin> set raw" "target = raw @ (case q of None \<Rightarrow> [] | Some r \<Rightarrow> CHR ''?'' # r)"
    using split_at_None [of "\<lambda>c. c = CHR ''?''" target raw] split_at_Some [of "\<lambda>c. c = CHR ''?''" target raw] sp
    by (cases q; auto)+
  then have "length raw < RUNTIME_MAX_TEXT" using assms(2) by simp
  then have enc: "encoding raw p" using d url_decode_loop_iff [of 0 raw "[]" p] by (simp add: url_decode_def)
  obtain r where r: "p = CHR ''/'' # r" using h by (cases p) auto
  obtain segs where "list_all safe_segment segs" "p = (if segs = [] then ''/'' else path_of segs)"
  proof (cases "r = []")
    case True
    show ?thesis by (rule that [of "[]"]) (simp_all add: r True)
  next
    case False
    then obtain segs where "list_all safe_segment segs" "segs \<noteq> []" "CHR ''/'' # r = path_of segs"
      using ok segments_ok_iff [OF False] r by (auto simp: safe_path_def)
    then show ?thesis using that [of segs] r by simp
  qed
  then show ?thesis using b enc raw by blast
qed

theorem split_path_safe_witness:
  "\<exists>segs. ''/a b/c'' = (if segs = [] then ''/'' else path_of segs) \<and> list_all safe_segment segs"
proof -
  have hex: "hex_ok (CHR ''2'') (CHR ''0'')" "hex_char (CHR ''2'') (CHR ''0'') = SPC" by code_simp+
  have "encoding ''/a%20b/c'' ''/a b/c''" using hex by (simp add: encoding_raw_iff encoding_hex_iff)
  then have d: "url_decode ''/a%20b/c'' = Some ''/a b/c''"
    using url_decode_loop_iff [of 0 "''/a%20b/c''" "[]"] by (simp add: url_decode_def)
  have ok: "segments_ok ''a b/c''" by code_simp
  have "split_path ''/a%20b/c?x=1'' = Some (''/a b/c'', Some ''x=1'')"
    by (simp add: split_path_def split_at_Cons d ok)
  moreover have "length ''/a%20b/c?x=1'' < RUNTIME_MAX_TEXT" by simp
  ultimately show ?thesis using split_path_safe by blast
qed

section \<open>Query strings\<close>

text \<open>The query string of a list of parameters, and the parameters the table can hold.\<close>

fun print_query :: "(string \<times> string) list \<Rightarrow> string" where
  "print_query [] = []"
| "print_query ((k, v) # kvs) =
     url_encode k @ ''='' @ url_encode v @ (if kvs = [] then [] else CHR ''&'' # print_query kvs)"

definition storable :: "string \<times> string \<Rightarrow> bool" where
  "storable kv \<longleftrightarrow> (case kv of (k, v) \<Rightarrow> k \<noteq> [] \<and> length k < PARAM_VALUE_LEN \<and> length v < PARAM_VALUE_LEN \<and>
     list_all url_printable k \<and> list_all url_printable v)"

definition params_wf :: "RequestParams \<Rightarrow> bool" where
  "params_wf p \<longleftrightarrow> length (pr_query p) \<le> QUERY_PARAM_MAX \<and> distinct (map fst (pr_query p)) \<and>
     (\<forall>(n, v) \<in> set (pr_query p). length n < PARAM_VALUE_LEN \<and> length v < PARAM_VALUE_LEN)"

lemma url_encode_chars: "c \<in> set (url_encode t) \<Longrightarrow> c = CHR ''%'' \<or> is_digit c \<or> is_lower c"
proof -
  have "list_all (\<lambda>n. is_digit (HEX_DIGIT ! n) \<or> is_lower (HEX_DIGIT ! n)) [0..<16]" by code_simp
  then have h: "is_digit (HEX_DIGIT ! n) \<or> is_lower (HEX_DIGIT ! n)" if "n < 16" for n
    using that by (simp add: list_all_iff)
  have d: "byte d div 16 < 16" for d by (simp add: less_mult_imp_div_less)
  have "c = CHR ''%'' \<or> is_digit c \<or> is_lower c" if "c \<in> set (percent d)" for d
    using that h [OF d, of d] h [of "byte d mod 16"] by (auto simp: percent_def)
  then show "c \<in> set (url_encode t) \<Longrightarrow> c = CHR ''%'' \<or> is_digit c \<or> is_lower c"
    unfolding url_encode_def by auto
qed

lemma url_encode_separators:
  "CHR ''&'' \<notin> set (url_encode t)" "CHR ''='' \<notin> set (url_encode t)" "CHR ''+'' \<notin> set (url_encode t)"
  using url_encode_chars by (fastforce simp: is_digit_def is_lower_def byte_def)+

lemma length_url_encode: "length (url_encode t) = 3 * length t"
  by (induction t) (auto simp: url_encode_def percent_def)

lemma plus_to_space_id: "CHR ''+'' \<notin> set s \<Longrightarrow> plus_to_space s = s"
  unfolding plus_to_space_def by (rule map_idI) auto

lemma url_decode_url_encode:
  "list_all url_printable t \<Longrightarrow> length t < PARAM_VALUE_LEN \<Longrightarrow> url_decode (url_encode t) = Some t"
  using url_decode_loop_iff [of 0 "url_encode t" "[]" t] encoding_url_encode [of t]
  by (simp add: url_decode_def length_url_encode)

lemma query_pair_print:
  assumes "storable (k, v)"
  shows "query_pair (url_encode k @ ''='' @ url_encode v) = Some (k, v)"
proof -
  have "split_at (\<lambda>c. c = CHR ''='') (url_encode k @ CHR ''='' # url_encode v) = (url_encode k, Some (url_encode v))"
    using url_encode_separators(2) [of k] by (intro split_at_append) auto
  moreover have "url_encode k \<noteq> []" using assms by (cases k) (auto simp: storable_def url_encode_def percent_def)
  ultimately show ?thesis
    using assms url_decode_url_encode by (simp add: query_pair_def storable_def plus_to_space_id url_encode_separators)
qed

lemma copy_bounded_id: "length s < PARAM_VALUE_LEN \<Longrightarrow> copy_bounded s = s"
  by (simp add: copy_bounded_def)

lemma query_loop_print:
  assumes "list_all storable kvs" "distinct (map fst (pr_query p @ kvs))" "length (pr_query p) + length kvs \<le> QUERY_PARAM_MAX"
  shows "query_loop (print_query kvs) p = (0, p\<lparr>pr_query := pr_query p @ kvs\<rparr>)"
  using assms
proof (induction kvs arbitrary: p)
  case Nil
  then show ?case by (simp add: query_loop.simps)
next
  case (Cons kv kvs)
  obtain k v where kv: "kv = (k, v)" by (cases kv)
  let ?item = "url_encode k @ ''='' @ url_encode v"
  let ?p = "p\<lparr>pr_query := pr_query p @ [(k, v)]\<rparr>"
  have "CHR ''&'' \<notin> set ?item" using url_encode_separators(1) by simp
  then have sp: "split_at (\<lambda>c. c = CHR ''&'') (print_query (kv # kvs)) =
      (?item, if kvs = [] then None else Some (print_query kvs))"
  proof (cases "kvs = []")
    case True
    have "split_at (\<lambda>c. c = CHR ''&'') ?item = (?item, None)"
      using \<open>CHR ''&'' \<notin> set ?item\<close> by (intro split_at_none) auto
    then show ?thesis by (simp add: kv True)
  next
    case False
    then show ?thesis
      using split_at_append [of ?item "\<lambda>c. c = CHR ''&''" "CHR ''&''" "print_query kvs"] \<open>CHR ''&'' \<notin> set ?item\<close>
      by (auto simp: kv)
  qed
  have ok: "storable (k, v)" "\<not> list_ex (\<lambda>q. fst q = k) (pr_query p)" "copy_bounded k = k" "copy_bounded v = v"
    using Cons.prems by (auto simp: kv storable_def list_ex_iff copy_bounded_id)
  have "print_query (kv # kvs) \<noteq> []" by (simp add: kv)
  then have step: "query_loop (print_query (kv # kvs)) p =
      (case (if kvs = [] then None else Some (print_query kvs)) of None \<Rightarrow> (0, ?p) | Some r \<Rightarrow> query_loop r ?p)"
    using sp query_pair_print [OF ok(1)] ok Cons.prems(3) by (subst query_loop.simps) (simp add: Let_def)
  show ?case
    using step Cons.IH [of ?p] Cons.prems by (cases "kvs = []") (auto simp: kv)
qed

lemma query_index_find:
  assumes "length (pr_query p) \<le> QUERY_PARAM_MAX" "distinct (map fst (pr_query p))" "(k, v) \<in> set (pr_query p)"
  shows "query_text p k = v"
proof -
  obtain i where i: "i < length (pr_query p)" "pr_query p ! i = (k, v)" using assms(3) by (auto simp: in_set_conv_nth)
  have u: "j = i" if "j < length (pr_query p)" "fst (pr_query p ! j) = k" for j
    using that i assms(2) by (metis fst_conv length_map nth_eq_iff_index_eq nth_map)
  have "query_index p k = Some i"
    unfolding query_index_def find_Some_iff
  proof (intro exI [of _ i] conjI allI impI)
    show "fst (pr_query p ! ([0..<min (length (pr_query p)) QUERY_PARAM_MAX] ! j)) \<noteq> k" if "j < i" for j
      using u [of j] that i(1) assms(1) by auto
  qed (use assms(1) i in simp_all)
  then show ?thesis by (simp add: query_text_def i)
qed

text \<open>Query strings round-trip: for every list of parameters that the table can hold (at most
  twelve, distinct non-empty names, texts below 64 characters without control characters) the
  parser reads the percent-encoded query string back as exactly that list, in order, whatever
  characters the names and values contain, and each value is found under its name.\<close>

theorem query_roundtrip:
  assumes "list_all storable kvs" "distinct (map fst kvs)" "length kvs \<le> QUERY_PARAM_MAX" "(k, v) \<in> set kvs"
  shows "query_parse p (Some (print_query kvs)) = (0, p\<lparr>pr_query := kvs, pr_invalid := False\<rparr>) \<and>
    query_text (snd (query_parse p (Some (print_query kvs)))) k = v"
proof -
  have "query_loop (print_query kvs) (p\<lparr>pr_query := [], pr_invalid := False\<rparr>) = (0, p\<lparr>pr_query := kvs, pr_invalid := False\<rparr>)"
    using query_loop_print [of kvs "p\<lparr>pr_query := [], pr_invalid := False\<rparr>"] assms(1-3) by simp
  then show ?thesis using query_index_find assms(2-4) by (simp add: query_parse_def)
qed

theorem query_roundtrip_witness:
  "query_text (snd (query_parse no_params (Some (print_query [(''q'', ''a&b=c''), (''n'', ''1'')])))) ''q'' = ''a&b=c''"
  by (rule query_roundtrip [THEN conjunct2]) (simp_all add: storable_def url_printable_def byte_def)

lemma query_pair_short: "query_pair item = Some (n, v) \<Longrightarrow> length n < PARAM_VALUE_LEN \<and> length v < PARAM_VALUE_LEN"
  by (auto simp: query_pair_def split: prod.splits option.splits if_splits)

lemma query_loop_wf:
  "params_wf p \<Longrightarrow> query_loop cursor p = (rc, p') \<Longrightarrow>
     params_wf p' \<and> (rc = 0 \<and> pr_invalid p' = pr_invalid p \<or> rc = - 1 \<and> pr_invalid p') \<and> pr_path p' = pr_path p"
proof (induction cursor p rule: query_loop.induct)
  case (1 cursor p)
  show ?case
  proof (cases "cursor = [] \<or> length (pr_query p) \<ge> QUERY_PARAM_MAX")
    case True
    then show ?thesis using "1.prems" by (auto simp: query_loop.simps [of cursor] params_wf_def split: if_splits)
  next
    case False
    obtain item amp where sp: "split_at (\<lambda>c. c = CHR ''&'') cursor = (item, amp)" by (cases "split_at (\<lambda>c. c = CHR ''&'') cursor")
    show ?thesis
    proof (cases "\<exists>n v. query_pair item = Some (n, v) \<and> \<not> list_ex (\<lambda>q. fst q = n) (pr_query p)")
      case bad: False
      then have "query_loop cursor p = (- 1, p\<lparr>pr_invalid := True\<rparr>)"
        using False sp by (subst query_loop.simps) (auto split: option.splits)
      then show ?thesis using "1.prems" by (auto simp: params_wf_def)
    next
      case True
      then obtain n v where nv: "query_pair item = Some (n, v)" "\<not> list_ex (\<lambda>q. fst q = n) (pr_query p)" by blast
      have short: "length n < PARAM_VALUE_LEN" "length v < PARAM_VALUE_LEN" using query_pair_short [OF nv(1)] by auto
      let ?p = "p\<lparr>pr_query := pr_query p @ [(n, v)]\<rparr>"
      have code: "query_loop cursor p = (case amp of None \<Rightarrow> (0, ?p) | Some r \<Rightarrow> query_loop r ?p)"
        using False sp nv short by (subst query_loop.simps) (auto simp: copy_bounded_id Let_def split: option.splits)
      have wf: "params_wf ?p"
        using "1.prems"(1) False nv(2) short by (auto simp: params_wf_def list_ex_iff)
      show ?thesis
      proof (cases amp)
        case None
        then show ?thesis using code wf "1.prems"(2) by auto
      next
        case (Some r)
        have "query_loop r ?p = (rc, p')" using code Some "1.prems"(2) by simp
        moreover have "copy_bounded n = n" "copy_bounded v = v" using short by (simp_all add: copy_bounded_id)
        ultimately have "params_wf p' \<and> (rc = 0 \<and> pr_invalid p' = pr_invalid ?p \<or> rc = - 1 \<and> pr_invalid p') \<and> pr_path p' = pr_path ?p"
          using "1.IH" [OF _ _ sp [symmetric] nv(1) refl nv(2) refl Some] False wf by simp
        then show ?thesis by simp
      qed
    qed
  qed
qed

end
