(* ===== verification/Auth.thy ===== *)
theory Auth
  imports Response Request_State
begin

text \<open>
  Bearer authentication, \<open>src/runtime/auth.c\<close>: the process-wide settings and the thread-local
  identity of the current request are one record. The diagnostics printed on \<open>stderr\<close> are left
  out. Settings come from the configuration of the theory \<open>Config\<close>.
\<close>

section \<open>The code\<close>

abbreviation TOKEN_CAP :: nat where "TOKEN_CAP \<equiv> 256"

record Auth =
  g_token :: string
  g_admin_token :: string
  g_enabled :: bool
  g_user :: int
  g_admin :: int
  t_user :: int
  t_role :: string

definition token_copy :: "string \<Rightarrow> string \<Rightarrow> int \<times> string" where
  "token_copy out val =
     (let n = length val in
      if n = 0 then (0, [])
      else if n < 32 then (- 1, out)
      else if n \<ge> TOKEN_CAP then (- 1, out)
      else if list_ex (\<lambda>c. byte c < 0x21 \<or> byte c > 0x7e) val then (- 1, out)
      else (0, val))"

definition auth_init :: "(string \<Rightarrow> string option) \<Rightarrow> Entry list \<Rightarrow> Auth \<Rightarrow> int \<times> Auth" where
  "auth_init getenv es a =
     (let enabled = config_str getenv es ''security.enabled'' ''false'' in
      if enabled \<noteq> ''false'' \<and> enabled \<noteq> ''true'' then (- 1, a)
      else
        let a1 = a\<lparr>g_enabled := (enabled = ''true''), g_user := config_int getenv es ''security.user_id'' 1,
                   g_admin := config_int getenv es ''security.admin_id'' 2\<rparr> in
        if g_user a1 \<le> 0 \<or> g_admin a1 \<le> 0 then (- 1, a1)
        else
          (case token_copy (g_token a1) (config_str getenv es ''security.token'' []) of
             (rc1, tok) \<Rightarrow>
               let a2 = a1\<lparr>g_token := tok\<rparr> in
               if rc1 \<noteq> 0 then (- 1, a2)
               else
                 (case token_copy (g_admin_token a2) (config_str getenv es ''security.admin_token'' []) of
                    (rc2, adm) \<Rightarrow>
                      let a3 = a2\<lparr>g_admin_token := adm\<rparr> in
                      if rc2 \<noteq> 0 then (- 1, a3)
                      else if g_token a3 \<noteq> [] \<and> g_token a3 = g_admin_token a3 then (- 1, a3)
                      else if g_enabled a3 \<and> g_token a3 = [] \<and> g_admin_token a3 = [] then (- 1, a3)
                      else (0, a3))))"

text \<open>The comparison always runs over \<open>TOKEN_CAP\<close> positions; \<open>different\<close> is an \<open>unsigned\<close>.\<close>

definition byte_or_zero :: "string \<Rightarrow> nat \<Rightarrow> 32 word" where
  "byte_or_zero s i = (if i < length s then of_nat (byte (s ! i)) else 0)"

definition secret_equals :: "string \<Rightarrow> string \<Rightarrow> bool" where
  "secret_equals val secret =
     (let n = length secret; len = length val in
      if n = 0 \<or> len \<ge> TOKEN_CAP then False
      else
        foldl (\<lambda>different i. different OR (byte_or_zero val i XOR byte_or_zero secret i))
          (ucast ((of_nat len :: size_t) XOR of_nat n)) [0..<TOKEN_CAP] = 0)"

definition auth_reset :: "Auth \<Rightarrow> Auth" where
  "auth_reset a = a\<lparr>t_user := 0, t_role := []\<rparr>"

definition auth_bind :: "HttpRequest option \<Rightarrow> Auth \<Rightarrow> Auth" where
  "auth_bind request a0 =
     (let a = auth_reset a0 in
      case request of
        None \<Rightarrow> a
      | Some req \<Rightarrow>
          (case http_find_header (rq_headers req) ''Authorization'' of
             None \<Rightarrow> a
           | Some val \<Rightarrow>
               if length val \<le> 7 \<or> \<not> ci_eq (take 7 val) ''Bearer '' then a
               else
                 let tok = drop 7 val;
                     admin = secret_equals tok (g_admin_token a);
                     user = secret_equals tok (g_token a)
                 in if admin then a\<lparr>t_user := g_admin a, t_role := ''admin''\<rparr>
                    else if user then a\<lparr>t_user := g_user a, t_role := ''user''\<rparr>
                    else a))"

text \<open>The gate also adds a challenge header to the response and records the failure.\<close>

definition auth_gate ::
  "Auth \<Rightarrow> bool \<Rightarrow> string option \<Rightarrow> bool \<Rightarrow> Response \<Rightarrow> RequestState \<Rightarrow> int \<times> Response \<times> RequestState" where
  "auth_gate a public_route role required rs st =
     (if public_route then (0, rs, st)
      else if \<not> required \<and> \<not> g_enabled a \<and> (role = None \<or> role = Some []) then (0, rs, st)
      else if t_user a = 0 then
        (- 1, (case response_header (Some ''WWW-Authenticate'') (Some ''Bearer'') rs of None \<Rightarrow> rs | Some rs' \<Rightarrow> rs'),
         request_fail 401 (Some ''authentication required'') st)
      else if role \<noteq> None \<and> role \<noteq> Some [] \<and> role \<noteq> Some (t_role a) then
        (- 1, rs, request_fail 403 (Some ''permission denied'') st)
      else (0, rs, st))"

definition auth_user_id :: "Auth \<Rightarrow> int" where
  "auth_user_id a = t_user a"

text \<open>\<open>request_raise\<close> records the failure and leaves the handler when one is running; the flag tells
  whether control escapes.\<close>

definition request_raise :: "bool \<Rightarrow> int \<Rightarrow> string \<Rightarrow> RequestState \<Rightarrow> bool \<times> RequestState" where
  "request_raise active status message st = (active, request_fail status (Some message) st)"

definition auth_require_owner :: "bool \<Rightarrow> Auth \<Rightarrow> int \<Rightarrow> RequestState \<Rightarrow> bool \<times> RequestState" where
  "auth_require_owner active a owner st =
     (if t_user a = 0 then request_raise active 401 ''authentication required'' st
      else if owner \<noteq> t_user a then request_raise active 403 ''permission denied'' st
      else (False, st))"

definition auth_require_role :: "bool \<Rightarrow> Auth \<Rightarrow> string option \<Rightarrow> RequestState \<Rightarrow> bool \<times> RequestState" where
  "auth_require_role active a role st =
     (if t_user a = 0 then request_raise active 401 ''authentication required'' st
      else if role = None \<or> role \<noteq> Some (t_role a) then request_raise active 403 ''permission denied'' st
      else (False, st))"

section \<open>Comparing secrets\<close>

lemma or_eq_0: "(x :: 'a::len word) OR y = 0 \<longleftrightarrow> x = 0 \<and> y = 0"
  by (metis or_eq_0_iff)

lemma foldl_or_eq_0:
  "foldl (\<lambda>(d :: 'a::len word) i. d OR f i) d0 xs = 0 \<longleftrightarrow> d0 = 0 \<and> (\<forall>i \<in> set xs. f i = 0)"
  by (induction xs arbitrary: d0) (auto simp: or_eq_0)

lemma byte_word_inj: "(of_nat (byte c) :: 32 word) = of_nat (byte d) \<longleftrightarrow> c = d"
proof
  assume "(of_nat (byte c) :: 32 word) = of_nat (byte d)"
  then have "unat (of_nat (byte c) :: 32 word) = unat (of_nat (byte d) :: 32 word)" by simp
  moreover have "byte c < 2 ^ 32" "byte d < 2 ^ 32" by (rule less_trans [OF byte_less], simp)+
  ultimately show "c = d" by (simp add: unat_of_nat)
qed simp

lemma xor_eq_0: "(x :: 'a::len word) XOR y = 0 \<longleftrightarrow> x = y"
  by (metis xor.assoc xor.left_neutral xor.right_neutral xor_self_eq)

lemma length_xor_eq_0:
  assumes "len < 256" "n < 256"
  shows "(ucast ((of_nat len :: size_t) XOR of_nat n) :: 32 word) = 0 \<longleftrightarrow> len = n"
proof -
  have "unat ((of_nat len :: size_t) XOR of_nat n) = len XOR n"
    using assms by (simp add: unsigned_xor_eq unat_of_nat)
  moreover have "len XOR n < 2 ^ 8"
  proof -
    have "take_bit 8 (len XOR n) = take_bit 8 len XOR take_bit 8 n" by (rule take_bit_xor)
    also have "\<dots> = len XOR n" using assms by (simp add: take_bit_nat_eq_self)
    finally show ?thesis by (metis take_bit_nat_less_exp)
  qed
  ultimately have "unat (ucast ((of_nat len :: size_t) XOR of_nat n) :: 32 word) = len XOR n"
    by (simp add: unsigned_ucast_eq take_bit_nat_eq_self del: take_bit_xor)
  then have "(ucast ((of_nat len :: size_t) XOR of_nat n) :: 32 word) = 0 \<longleftrightarrow> len XOR n = 0"
    by (metis unsigned_0 unsigned_eq_0_iff)
  also have "\<dots> \<longleftrightarrow> len = n" by (metis xor.assoc xor.left_neutral xor.right_neutral xor_self_eq)
  finally show ?thesis .
qed

lemma secret_equals_iff:
  assumes "length secret < TOKEN_CAP"
  shows "secret_equals val secret \<longleftrightarrow> secret \<noteq> [] \<and> val = secret"
proof (cases "secret = [] \<or> length val \<ge> TOKEN_CAP")
  case True
  then show ?thesis using assms by (auto simp: secret_equals_def Let_def)
next
  case False
  then have "secret_equals val secret \<longleftrightarrow> length val = length secret \<and>
      (\<forall>i \<in> {0..<TOKEN_CAP}. byte_or_zero val i = byte_or_zero secret i)"
    using assms length_xor_eq_0 [of "length val" "length secret"]
    by (simp add: secret_equals_def Let_def foldl_or_eq_0 xor_eq_0 del: upt_conv_Cons upt_rec_numeral)
  also have "\<dots> \<longleftrightarrow> val = secret"
  proof (intro iffI)
    assume a: "length val = length secret \<and> (\<forall>i \<in> {0..<TOKEN_CAP}. byte_or_zero val i = byte_or_zero secret i)"
    then have "val ! i = secret ! i" if "i < length secret" for i
    proof -
      have "byte_or_zero val i = byte_or_zero secret i" using a that assms by simp
      then show ?thesis using a that by (simp add: byte_or_zero_def byte_word_inj)
    qed
    then show "val = secret" using a by (intro nth_equalityI) auto
  qed simp
  finally show ?thesis using False by simp
qed

section \<open>Identity and access\<close>

text \<open>The token a request presents.\<close>

definition bearer :: "HttpRequest \<Rightarrow> string option" where
  "bearer req =
     (case http_find_header (rq_headers req) ''Authorization'' of
        None \<Rightarrow> None
      | Some v \<Rightarrow> if length v > 7 \<and> ci_eq (take 7 v) ''Bearer '' then Some (drop 7 v) else None)"

definition auth_wf :: "Auth \<Rightarrow> bool" where
  "auth_wf a \<longleftrightarrow> length (g_token a) < TOKEN_CAP \<and> length (g_admin_token a) < TOKEN_CAP \<and> 0 < g_user a \<and> 0 < g_admin a \<and>
     (g_token a = [] \<or> g_token a \<noteq> g_admin_token a) \<and>
     (g_enabled a \<longrightarrow> g_token a \<noteq> [] \<or> g_admin_token a \<noteq> []) \<and>
     (\<forall>t \<in> {g_token a, g_admin_token a}. t = [] \<or> 32 \<le> length t)"

lemma token_copy_ok: "token_copy out v = (0, t) \<Longrightarrow> length t < TOKEN_CAP \<and> (t = [] \<or> 32 \<le> length t)"
  by (auto simp: token_copy_def Let_def split: if_splits)

lemma auth_init_wf: "auth_init getenv es a = (0, a') \<Longrightarrow> auth_wf a'"
  by (auto simp: auth_init_def auth_wf_def Let_def split: if_splits prod.splits dest!: token_copy_ok)

text \<open>Who a token identifies: the id and the role.\<close>

definition identity :: "Auth \<Rightarrow> string option \<Rightarrow> (int \<times> string) option" where
  "identity a tok =
     (case tok of
        None \<Rightarrow> None
      | Some t \<Rightarrow>
          if t \<noteq> [] \<and> t = g_admin_token a then Some (g_admin a, ''admin'')
          else if t \<noteq> [] \<and> t = g_token a then Some (g_user a, ''user'')
          else None)"

lemma auth_bind_identity:
  assumes "auth_wf a"
  shows "auth_bind (Some req) a =
    (case identity a (bearer req) of None \<Rightarrow> a\<lparr>t_user := 0, t_role := []\<rparr> | Some (u, r) \<Rightarrow> a\<lparr>t_user := u, t_role := r\<rparr>)"
proof -
  have s: "secret_equals v (g_admin_token a) \<longleftrightarrow> v \<noteq> [] \<and> v = g_admin_token a"
      "secret_equals v (g_token a) \<longleftrightarrow> v \<noteq> [] \<and> v = g_token a" for v
    using assms secret_equals_iff by (auto simp: auth_wf_def)
  show ?thesis
    unfolding auth_bind_def identity_def bearer_def auth_reset_def Let_def
    by (auto simp: s not_less split: option.splits)
qed

text \<open>C7: Access needs the right secret: after a successful start-up, the gate of a protected route
  (authentication required, enabled in the configuration, or a role demanded) lets a request pass
  exactly when it presents one of the configured tokens, compared in full, and that token's role
  is the demanded one; otherwise it fails the request with 401 when no token is recognised and
  with 403 when the role does not fit.\<close>

theorem auth_gate_correct:
  assumes init: "auth_init getenv es a0 = (0, a)"
    and protected: "required \<or> g_enabled a \<or> (role \<noteq> None \<and> role \<noteq> Some [])" and fresh: "g_fail_status st = 0"
    and gate: "auth_gate (auth_bind (Some req) a) False role required rs st = (rc, rs', st')"
  shows "(rc = 0 \<longleftrightarrow> (\<exists>tok u r. bearer req = Some tok \<and> identity a (Some tok) = Some (u, r) \<and>
      (role = None \<or> role = Some [] \<or> role = Some r))) \<and>
    (rc \<noteq> 0 \<longrightarrow> g_fail_status st' = (if identity a (bearer req) = None then 401 else 403)) \<and>
    (rc = 0 \<longrightarrow> st' = st \<and> rs' = rs)"
proof -
  have wf: "auth_wf a" using auth_init_wf [OF init] .
  have fail: "g_fail_status (request_fail s m st) = s" for s m using fresh request_fail_fields(1) by blast
  have gr: "g_enabled (auth_bind (Some req) a) = g_enabled a"
    using auth_bind_identity [OF wf] by (simp split: option.splits prod.splits)
  show ?thesis
  proof (cases "identity a (bearer req)")
    case None
    then have "auth_bind (Some req) a = a\<lparr>t_user := 0, t_role := []\<rparr>" using auth_bind_identity [OF wf, of req] by simp
    then have "rc = - 1" "st' = request_fail 401 (Some ''authentication required'') st"
      using gate protected by (auto simp: auth_gate_def split: if_splits)
    then show ?thesis using None fail by auto
  next
    case (Some ur)
    obtain u r where ur: "ur = (u, r)" by (cases ur)
    obtain tok where tok: "bearer req = Some tok" using Some by (auto simp: identity_def split: option.splits)
    have b: "t_user (auth_bind (Some req) a) = u" "t_role (auth_bind (Some req) a) = r"
      using auth_bind_identity [OF wf, of req] Some ur by simp_all
    have "u \<noteq> 0" using Some ur wf by (auto simp: identity_def auth_wf_def split: option.splits if_splits)
    then have "(rc, rs', st') = (if role \<noteq> None \<and> role \<noteq> Some [] \<and> role \<noteq> Some r
        then (- 1, rs, request_fail 403 (Some ''permission denied'') st) else (0, rs, st))"
      using gate protected b gr by (auto simp: auth_gate_def split: if_splits)
    then show ?thesis using Some ur tok fail by (auto split: if_splits)
  qed
qed

definition demo_settings :: "Entry list" where
  "demo_settings = [\<lparr>e_key = ''security.enabled'', e_value = ''true''\<rparr>,
     \<lparr>e_key = ''security.token'', e_value = replicate 40 (CHR ''k'')\<rparr>]"

definition no_auth :: Auth where
  "no_auth = \<lparr>g_token = [], g_admin_token = [], g_enabled = False, g_user = 0, g_admin = 0, t_user = 0, t_role = []\<rparr>"

definition demo_auth :: Auth where
  "demo_auth = \<lparr>g_token = replicate 40 (CHR ''k''), g_admin_token = [], g_enabled = True, g_user = 1, g_admin = 2,
     t_user = 0, t_role = []\<rparr>"

lemma demo_auth_init: "auth_init (\<lambda>_. None) demo_settings no_auth = (0, demo_auth)"
  by (simp add: auth_init_def config_str_def config_int_def demo_settings_def token_copy_def Let_def
      list_ex_iff byte_def no_auth_def demo_auth_def)

theorem auth_gate_correct_witness:
  "fst (auth_gate (auth_bind (Some http_request_zero) demo_auth) False None False \<lparr>rs_headers = [], rs_status = 0\<rparr> no_failure) \<noteq> 0"
proof -
  obtain rc rs' st' where g: "auth_gate (auth_bind (Some http_request_zero) demo_auth) False None False
      \<lparr>rs_headers = [], rs_status = 0\<rparr> no_failure = (rc, rs', st')" by (metis prod_cases3)
  have "bearer http_request_zero = None" by (simp add: bearer_def http_request_zero_def)
  moreover have "g_enabled demo_auth" "g_fail_status no_failure = 0" by (simp_all add: demo_auth_def no_failure_def)
  ultimately show ?thesis using auth_gate_correct [OF demo_auth_init _ _ g] g by auto
qed

end
