(* ===== verification/Conn_Queue.thy ===== *)
theory Conn_Queue
  imports Gargantua_Prelude
begin

text \<open>
  The connection queue between the accept loop and the workers, and the per-client limits, both of
  \<open>src/server/server.c\<close>. Each operation runs under its mutex, so a run of the server is a sequence of
  whole operations in some order; the queue's contract is the locale \<open>bounded_fifo\<close>, whose lemmas
  speak of every such sequence. The clock is an argument.
\<close>

section \<open>A bounded first-in first-out queue\<close>

datatype 'a queue_op = Push 'a | Pop

text \<open>A run: the items accepted, the items delivered and the final queue. \<open>push\<close> returns None when
  the queue is full, \<open>pop\<close> when there is nothing to deliver.\<close>

fun run_queue ::
  "('a \<Rightarrow> 'q \<Rightarrow> 'q option) \<Rightarrow> ('q \<Rightarrow> ('a \<times> 'q) option) \<Rightarrow> 'a queue_op list \<Rightarrow> 'q \<Rightarrow> 'a list \<times> 'a list \<times> 'q" where
  "run_queue push pop [] q = ([], [], q)"
| "run_queue push pop (Push x # ops) q =
     (case push x q of
        None \<Rightarrow> run_queue push pop ops q
      | Some q' \<Rightarrow> (case run_queue push pop ops q' of (acc, out, q'') \<Rightarrow> (x # acc, out, q'')))"
| "run_queue push pop (Pop # ops) q =
     (case pop q of
        None \<Rightarrow> run_queue push pop ops q
      | Some (x, q') \<Rightarrow> (case run_queue push pop ops q' of (acc, out, q'') \<Rightarrow> (acc, x # out, q'')))"

locale bounded_fifo =
  fixes ok :: "'q \<Rightarrow> bool" and items :: "'q \<Rightarrow> 'a list" and cap :: nat
    and push :: "'a \<Rightarrow> 'q \<Rightarrow> 'q option" and pop :: "'q \<Rightarrow> ('a \<times> 'q) option"
  assumes push_full: "ok q \<Longrightarrow> push x q = None \<longleftrightarrow> length (items q) = cap"
    and push_items: "ok q \<Longrightarrow> push x q = Some q' \<Longrightarrow> ok q' \<and> items q' = items q @ [x]"
    and pop_empty: "ok q \<Longrightarrow> pop q = None \<longleftrightarrow> items q = []"
    and pop_items: "ok q \<Longrightarrow> pop q = Some (x, q') \<Longrightarrow> ok q' \<and> items q = x # items q'"
    and items_bound: "ok q \<Longrightarrow> length (items q) \<le> cap"
begin

lemma run_fifo:
  "ok q \<Longrightarrow> run_queue push pop ops q = (acc, out, q') \<Longrightarrow> ok q' \<and> items q @ acc = out @ items q'"
proof (induction ops arbitrary: q acc out)
  case (Cons op ops)
  show ?case
  proof (cases op)
    case (Push x)
    then show ?thesis
      using Cons push_items by (fastforce split: option.splits prod.splits)
  next
    case Pop
    then show ?thesis
      using Cons pop_items by (fastforce split: option.splits prod.splits)
  qed
qed simp

text \<open>Nothing is lost, duplicated or reordered.\<close>

lemma delivered_in_order:
  assumes "ok q" "items q = []" "run_queue push pop ops q = (acc, out, q')"
  shows "out = take (length out) acc \<and> items q' = drop (length out) acc \<and> length acc - length out \<le> cap"
  using run_fifo [OF assms(1,3)] assms(2) items_bound [of q'] by auto

end

section \<open>The code\<close>

abbreviation SERVER_QUEUE :: nat where "SERVER_QUEUE \<equiv> 64"

record ConnQueue =
  cq_fds :: "int list"
  cq_ips :: "32 word list"
  cq_head :: nat
  cq_tail :: nat
  cq_count :: nat
  cq_stopping :: bool

definition queue_push :: "int \<Rightarrow> 32 word \<Rightarrow> ConnQueue \<Rightarrow> int \<times> ConnQueue" where
  "queue_push fd ip q =
     (if cq_count q < SERVER_QUEUE then
        (0, q\<lparr>cq_fds := (cq_fds q)[cq_tail q := fd], cq_ips := (cq_ips q)[cq_tail q := ip],
              cq_tail := (cq_tail q + 1) mod SERVER_QUEUE, cq_count := cq_count q + 1\<rparr>)
      else (- 1, q))"

text \<open>None: the caller waits on \<open>not_empty\<close>. The result -1 is the end of a stopping queue.\<close>

definition queue_pop :: "ConnQueue \<Rightarrow> (int \<times> 32 word option \<times> ConnQueue) option" where
  "queue_pop q =
     (if cq_count q = 0 \<and> \<not> cq_stopping q then None
      else if cq_count q > 0 then
        Some (cq_fds q ! cq_head q, Some (cq_ips q ! cq_head q),
              q\<lparr>cq_head := (cq_head q + 1) mod SERVER_QUEUE, cq_count := cq_count q - 1\<rparr>)
      else Some (- 1, None, q))"

record ClientLimit =
  cl_ip :: "32 word"
  cl_used :: bool
  cl_connections :: int
  cl_requests :: int
  cl_window :: int

text \<open>The search of \<open>client_limit\<close>: the slot of the address and the last free slot before it.\<close>

definition free_slot :: "int \<Rightarrow> ClientLimit \<Rightarrow> bool" where
  "free_slot now c \<longleftrightarrow> \<not> cl_used c \<or> (cl_connections c = 0 \<and> now - cl_window c \<ge> 60)"

fun find_slot :: "int \<Rightarrow> 32 word \<Rightarrow> ClientLimit list \<Rightarrow> nat \<Rightarrow> nat option \<Rightarrow> nat option \<times> nat option" where
  "find_slot now ip [] i free = (None, free)"
| "find_slot now ip (c # cs) i free =
     (if cl_used c \<and> cl_ip c = ip then (Some i, free)
      else find_slot now ip cs (i + 1) (if free_slot now c then Some i else free))"

definition limit_count :: "int \<Rightarrow> int \<Rightarrow> int \<Rightarrow> int \<Rightarrow> ClientLimit \<Rightarrow> int \<times> ClientLimit" where
  "limit_count conn_max req_max now action c0 =
     (let c = (if now - cl_window c0 \<ge> 60 then c0\<lparr>cl_requests := 0, cl_window := now\<rparr> else c0) in
      if action = - 1 then
        (0, if cl_connections c > 0 then c\<lparr>cl_connections := cl_connections c - 1\<rparr> else c)
      else if action = 1 \<and> cl_connections c < conn_max then (0, c\<lparr>cl_connections := cl_connections c + 1\<rparr>)
      else if action = 0 \<and> cl_requests c < req_max then (0, c\<lparr>cl_requests := cl_requests c + 1\<rparr>)
      else (- 1, c))"

definition client_limit ::
  "int \<Rightarrow> int \<Rightarrow> int option \<Rightarrow> 32 word \<Rightarrow> int \<Rightarrow> ClientLimit list \<Rightarrow> int \<times> ClientLimit list" where
  "client_limit conn_max req_max clock ip action clients =
     (case clock of
        None \<Rightarrow> (- 1, clients)
      | Some now \<Rightarrow>
          (case find_slot now ip clients 0 None of
             (slot, free) \<Rightarrow>
               let (slot', clients') =
                 (case (slot, free) of
                    (None, Some e) \<Rightarrow>
                      if action = 1 then
                        (Some e, clients[e := \<lparr>cl_ip = ip, cl_used = True, cl_connections = 0, cl_requests = 0, cl_window = now\<rparr>])
                      else (None, clients)
                  | _ \<Rightarrow> (slot, clients))
               in (case slot' of
                     None \<Rightarrow> (- 1, clients')
                   | Some i \<Rightarrow>
                       (case limit_count conn_max req_max now action (clients' ! i) of
                          (result, c) \<Rightarrow> (result, clients'[i := c])))))"

section \<open>The queue is first-in first-out\<close>

definition queue_wf :: "ConnQueue \<Rightarrow> bool" where
  "queue_wf q \<longleftrightarrow> length (cq_fds q) = SERVER_QUEUE \<and> length (cq_ips q) = SERVER_QUEUE \<and> cq_head q < SERVER_QUEUE \<and>
     cq_count q \<le> SERVER_QUEUE \<and> cq_tail q = (cq_head q + cq_count q) mod SERVER_QUEUE"

definition queue_items :: "ConnQueue \<Rightarrow> (int \<times> 32 word) list" where
  "queue_items q =
     map (\<lambda>i. (cq_fds q ! ((cq_head q + i) mod SERVER_QUEUE), cq_ips q ! ((cq_head q + i) mod SERVER_QUEUE))) [0..<cq_count q]"

definition accept_conn :: "int \<times> 32 word \<Rightarrow> ConnQueue \<Rightarrow> ConnQueue option" where
  "accept_conn x q = (case queue_push (fst x) (snd x) q of (rc, q') \<Rightarrow> if rc = 0 then Some q' else None)"

definition take_conn :: "ConnQueue \<Rightarrow> ((int \<times> 32 word) \<times> ConnQueue) option" where
  "take_conn q = (case queue_pop q of Some (fd, Some ip, q') \<Rightarrow> Some ((fd, ip), q') | _ \<Rightarrow> None)"

lemma ring_slot_free:
  assumes "h < SERVER_QUEUE" "i < n" "n < SERVER_QUEUE"
  shows "(h + i) mod SERVER_QUEUE \<noteq> (h + n) mod SERVER_QUEUE"
proof
  assume "(h + i) mod SERVER_QUEUE = (h + n) mod SERVER_QUEUE"
  then have "SERVER_QUEUE dvd (h + n) - (h + i)" by (metis assms(2) mod_eq_dvd_iff_nat add_le_cancel_left less_imp_le)
  then show False using assms by (auto dest: dvd_imp_le)
qed

lemma queue_push_items:
  assumes "queue_wf q" "accept_conn x q = Some q'"
  shows "queue_wf q' \<and> queue_items q' = queue_items q @ [x]"
proof -
  let ?t = "cq_tail q"
  have c: "cq_count q < SERVER_QUEUE" and q': "q' = q\<lparr>cq_fds := (cq_fds q)[?t := fst x], cq_ips := (cq_ips q)[?t := snd x],
      cq_tail := (?t + 1) mod SERVER_QUEUE, cq_count := cq_count q + 1\<rparr>"
    using assms(2) by (auto simp: accept_conn_def queue_push_def split: if_splits)
  have t: "?t = (cq_head q + cq_count q) mod SERVER_QUEUE" "?t < SERVER_QUEUE" using assms(1) by (auto simp: queue_wf_def)
  have "queue_wf q'" using assms(1) c t(1) by (simp add: q' queue_wf_def mod_Suc_eq)
  moreover have "?t \<noteq> (cq_head q + i) mod SERVER_QUEUE" if "i < cq_count q" for i
    using ring_slot_free [OF _ that c, of "cq_head q"] assms(1) t(1) by (simp add: queue_wf_def)
  then have "map (\<lambda>i. ((cq_fds q)[?t := fst x] ! ((cq_head q + i) mod SERVER_QUEUE), (cq_ips q)[?t := snd x] ! ((cq_head q + i) mod SERVER_QUEUE)))
      [0..<cq_count q] = queue_items q"
    unfolding queue_items_def by (intro map_cong refl) (simp add: nth_list_update_neq)
  then have "queue_items q' = queue_items q @ [x]"
    using assms(1) t(2) unfolding queue_items_def [of q'] by (simp add: q' queue_wf_def t(1) [symmetric])
  ultimately show ?thesis by blast
qed

lemma queue_pop_items:
  assumes "queue_wf q" "take_conn q = Some (x, q')"
  shows "queue_wf q' \<and> queue_items q = x # queue_items q'"
proof -
  have c: "cq_count q > 0" and x: "x = (cq_fds q ! cq_head q, cq_ips q ! cq_head q)"
      and q': "q' = q\<lparr>cq_head := (cq_head q + 1) mod SERVER_QUEUE, cq_count := cq_count q - 1\<rparr>"
    using assms(2) by (auto simp: take_conn_def queue_pop_def split: if_splits)
  have h: "cq_head q < SERVER_QUEUE" using assms(1) by (simp add: queue_wf_def)
  obtain n where n: "cq_count q = Suc n" using c by (cases "cq_count q") auto
  have "queue_wf q'" using assms(1) n by (simp add: q' queue_wf_def mod_simps)
  moreover have "[0..<cq_count q] = 0 # map Suc [0..<cq_count q - 1]"
    using c by (simp add: map_Suc_upt upt_conv_Cons)
  then have "queue_items q = x # queue_items q'"
    using h by (simp add: queue_items_def q' x mod_simps comp_def)
  ultimately show ?thesis by blast
qed

interpretation cq: bounded_fifo queue_wf queue_items SERVER_QUEUE accept_conn take_conn
proof
  fix q x q'
  show "queue_wf q \<Longrightarrow> (accept_conn x q = None) = (length (queue_items q) = SERVER_QUEUE)"
    by (auto simp: accept_conn_def queue_push_def queue_items_def queue_wf_def)
  show "queue_wf q \<Longrightarrow> (take_conn q = None) = (queue_items q = [])"
    by (auto simp: take_conn_def queue_pop_def queue_items_def)
  show "queue_wf q \<Longrightarrow> length (queue_items q) \<le> SERVER_QUEUE"
    by (simp add: queue_items_def queue_wf_def)
qed (use queue_push_items queue_pop_items in blast)+

text \<open>C26: The connection queue refines a bounded first-in first-out queue: whatever the interleaving of
  the accept loop's pushes and the workers' pops, the workers receive the accepted connections
  with their addresses in the order of acceptance, none lost and none twice, what remains queued
  is the rest of them, and never more than 64 are waiting.\<close>

theorem queue_fifo:
  assumes "queue_wf q" "cq_count q = 0" "run_queue accept_conn take_conn ops q = (accepted, delivered, q')"
  shows "delivered = take (length delivered) accepted \<and> queue_items q' = drop (length delivered) accepted \<and>
    length accepted - length delivered \<le> SERVER_QUEUE \<and> queue_wf q'"
  using cq.delivered_in_order [OF assms(1) _ assms(3)] cq.run_fifo [OF assms(1,3)] assms(2)
  by (simp add: queue_items_def)

definition queue_new :: ConnQueue where
  "queue_new = \<lparr>cq_fds = replicate SERVER_QUEUE 0, cq_ips = replicate SERVER_QUEUE 0, cq_head = 0, cq_tail = 0,
     cq_count = 0, cq_stopping = False\<rparr>"

theorem queue_fifo_witness:
  "fst (snd (run_queue accept_conn take_conn [Push (5, 1), Push (6, 2), Pop, Pop, Pop] queue_new)) = [(5, 1), (6, 2)]"
proof -
  let ?ops = "[Push (5, 1), Push (6, 2), Pop, Pop, Pop]"
  obtain acc out q' where r: "run_queue accept_conn take_conn ?ops queue_new = (acc, out, q')" by (metis prod_cases3)
  have "queue_wf queue_new" "cq_count queue_new = 0" by (simp_all add: queue_new_def queue_wf_def)
  note f = queue_fifo [OF this r]
  have "acc = [(5, 1), (6, 2)]" "length out = 2"
    using r by (auto simp: accept_conn_def take_conn_def queue_push_def queue_pop_def queue_new_def)
  then show ?thesis using f r by simp
qed

section \<open>The limits count what is open\<close>

definition slot_of :: "32 word \<Rightarrow> ClientLimit \<Rightarrow> bool" where
  "slot_of ip c \<longleftrightarrow> cl_used c \<and> cl_ip c = ip"

definition open_in :: "32 word \<Rightarrow> ClientLimit \<Rightarrow> int" where
  "open_in ip c = (if slot_of ip c then cl_connections c else 0)"

text \<open>The connections the table holds for an address.\<close>

definition open_conns :: "ClientLimit list \<Rightarrow> 32 word \<Rightarrow> int" where
  "open_conns cs ip = sum_list (map (open_in ip) cs)"

definition slot_wf :: "int \<Rightarrow> int \<Rightarrow> ClientLimit \<Rightarrow> bool" where
  "slot_wf conn_max req_max c \<longleftrightarrow> cl_used c \<longrightarrow>
     0 \<le> cl_connections c \<and> cl_connections c \<le> conn_max \<and> 0 \<le> cl_requests c \<and> cl_requests c \<le> req_max"

definition limits_wf :: "int \<Rightarrow> int \<Rightarrow> ClientLimit list \<Rightarrow> bool" where
  "limits_wf conn_max req_max cs \<longleftrightarrow> (\<forall>c \<in> set cs. slot_wf conn_max req_max c) \<and>
     (\<forall>i j. i < length cs \<longrightarrow> j < length cs \<longrightarrow> cl_used (cs ! i) \<longrightarrow> slot_of (cl_ip (cs ! i)) (cs ! j) \<longrightarrow> i = j)"

lemma find_slot_result:
  assumes "find_slot now ip cs n e = (slot, free)"
    and "\<And>j. e = Some j \<Longrightarrow> j < n"
  shows "(\<forall>i. slot = Some i \<longrightarrow> n \<le> i \<and> i < n + length cs \<and> slot_of ip (cs ! (i - n))) \<and>
    (slot = None \<longrightarrow> (\<forall>c \<in> set cs. \<not> slot_of ip c)) \<and>
    (\<forall>j. free = Some j \<longrightarrow> e = Some j \<or> n \<le> j \<and> j < n + length cs \<and> free_slot now (cs ! (j - n)))"
  using assms
proof (induction cs arbitrary: n e)
  case (Cons c cs)
  show ?case
  proof (cases "slot_of ip c")
    case True
    then show ?thesis using Cons.prems by (auto simp: slot_of_def)
  next
    case False
    let ?e = "if free_slot now c then Some n else e"
    have f: "find_slot now ip cs (n + 1) ?e = (slot, free)" using Cons.prems(1) False by (auto simp: slot_of_def)
    have e: "\<And>j. ?e = Some j \<Longrightarrow> j < n + 1" using Cons.prems(2) by (auto split: if_splits)
    have nth: "(c # cs) ! (k - n) = cs ! (k - (n + 1))" if "n + 1 \<le> k" for k
      using that by (metis Suc_diff_Suc Suc_eq_plus1 Suc_le_lessD nth_Cons_Suc)
    show ?thesis using Cons.IH [OF f e] False nth by (fastforce split: if_splits)
  qed
qed auto

lemma slot_lookup:
  assumes "find_slot now ip cs 0 None = (slot, free)"
  shows "slot = Some i \<Longrightarrow> i < length cs \<and> slot_of ip (cs ! i)"
    and "slot = None \<Longrightarrow> \<forall>c \<in> set cs. \<not> slot_of ip c"
    and "free = Some j \<Longrightarrow> j < length cs \<and> free_slot now (cs ! j)"
  using find_slot_result [OF assms] by auto

text \<open>A call either leaves the table alone, updates the slot of the address, or starts a new one.\<close>

lemma client_limit_cases:
  assumes "client_limit conn_max req_max (Some now) ip action cs = (rc, cs')"
  obtains (none) "rc = - 1" "cs' = cs" "action \<noteq> 1 \<longrightarrow> (\<forall>c \<in> set cs. \<not> slot_of ip c)"
  | (slot) i c where "i < length cs" "slot_of ip (cs ! i)" "limit_count conn_max req_max now action (cs ! i) = (rc, c)" "cs' = cs[i := c]"
  | (fresh) i c where "i < length cs" "free_slot now (cs ! i)" "\<forall>c \<in> set cs. \<not> slot_of ip c" "action = 1"
      "limit_count conn_max req_max now 1 \<lparr>cl_ip = ip, cl_used = True, cl_connections = 0, cl_requests = 0, cl_window = now\<rparr> = (rc, c)"
      "cs' = cs[i := c]"
proof -
  obtain slot free where f: "find_slot now ip cs 0 None = (slot, free)" by (cases "find_slot now ip cs 0 None")
  note look = slot_lookup [OF f]
  show thesis
  proof (cases slot)
    case (Some i)
    obtain r c where lc: "limit_count conn_max req_max now action (cs ! i) = (r, c)" by (metis surj_pair)
    have "(rc, cs') = (r, cs[i := c])" using assms by (simp add: client_limit_def f Some lc)
    then show thesis using look(1) [OF Some] lc that(2) [of i c] by simp
  next
    case none: None
    show thesis
    proof (cases "free = None \<or> action \<noteq> 1")
      case True
      then have "(rc, cs') = (- 1, cs)" using assms by (cases free) (auto simp: client_limit_def f none)
      then show thesis using look(2) [OF none] that(1) by simp
    next
      case False
      then obtain e where e: "free = Some e" "action = 1" by auto
      let ?c0 = "\<lparr>cl_ip = ip, cl_used = True, cl_connections = 0, cl_requests = 0, cl_window = now\<rparr>"
      obtain r c where lc: "limit_count conn_max req_max now 1 ?c0 = (r, c)" by (metis surj_pair)
      have "(rc, cs') = (r, cs[e := c])" using assms look(3) [OF e(1)] by (simp add: client_limit_def f none e lc)
      then show thesis using look(2) [OF none] look(3) [OF e(1)] e(2) lc that(3) [of e c] by simp
    qed
  qed
qed

lemma limit_count_result:
  assumes "limit_count conn_max req_max now action c0 = (rc, c)" "slot_wf conn_max req_max c0" "cl_used c0"
    "0 \<le> conn_max" "0 \<le> req_max"
  shows "slot_wf conn_max req_max c" "cl_used c" "cl_ip c = cl_ip c0"
    "action = 1 \<Longrightarrow> cl_connections c = cl_connections c0 + (if rc = 0 then 1 else 0)"
    "action = 0 \<Longrightarrow> cl_connections c = cl_connections c0"
    "action = - 1 \<Longrightarrow> cl_connections c = (if cl_connections c0 > 0 then cl_connections c0 - 1 else cl_connections c0)"
  using assms by (auto simp: limit_count_def slot_wf_def Let_def split: if_splits)

lemma open_conns_update:
  "i < length cs \<Longrightarrow> open_conns (cs[i := c]) ip = open_conns cs ip + open_in ip c - open_in ip (cs ! i)"
  unfolding open_conns_def by (induction cs arbitrary: i) (auto split: nat.splits)

lemma open_conns_slot:
  assumes "limits_wf conn_max req_max cs" "i < length cs" "slot_of ip (cs ! i)"
  shows "open_conns cs ip = cl_connections (cs ! i)"
proof -
  have "open_in ip (cs ! j) = 0" if "j < length cs" "j \<noteq> i" for j
    using assms that by (auto simp: limits_wf_def open_in_def slot_of_def)
  then have "open_conns cs ip = (\<Sum>j \<in> {0..<length cs}. if j = i then open_in ip (cs ! i) else 0)"
    unfolding open_conns_def sum_list_sum_nth by (intro sum.cong) auto
  then show ?thesis using assms(2,3) by (simp add: open_in_def)
qed

lemma open_conns_none: "\<forall>c \<in> set cs. \<not> slot_of ip c \<Longrightarrow> open_conns cs ip = 0"
  unfolding open_conns_def by (induction cs) (auto simp: open_in_def)

lemma open_conns_bound:
  assumes "limits_wf conn_max req_max cs" "0 \<le> conn_max"
  shows "open_conns cs ip \<le> conn_max"
proof (cases "\<exists>i < length cs. slot_of ip (cs ! i)")
  case True
  then obtain i where i: "i < length cs" "slot_of ip (cs ! i)" by blast
  then show ?thesis
    using open_conns_slot [OF assms(1) i] assms(1) nth_mem [OF i(1)] by (auto simp: limits_wf_def slot_wf_def slot_of_def)
next
  case False
  then have "\<forall>c \<in> set cs. \<not> slot_of ip c" by (auto simp: in_set_conv_nth)
  then show ?thesis using open_conns_none assms(2) by simp
qed

lemma limits_wf_update:
  assumes "limits_wf conn_max req_max cs" "i < length cs" "slot_wf conn_max req_max c"
    "\<And>j. j < length cs \<Longrightarrow> j \<noteq> i \<Longrightarrow> \<not> slot_of (cl_ip c) (cs ! j)"
  shows "limits_wf conn_max req_max (cs[i := c])"
  unfolding limits_wf_def
proof (intro conjI ballI allI impI)
  show "slot_wf conn_max req_max d" if "d \<in> set (cs[i := c])" for d
    using that assms(1,3) set_update_subset_insert [of cs i c] by (auto simp: limits_wf_def)
  show "j = k" if "j < length (cs[i := c])" "k < length (cs[i := c])" "cl_used (cs[i := c] ! j)"
    "slot_of (cl_ip (cs[i := c] ! j)) (cs[i := c] ! k)" for j k
    using that assms by (cases "j = i"; cases "k = i") (auto simp: limits_wf_def slot_of_def)
qed

text \<open>The state reached by a history of calls: the table and the connections that are open, as the
  server opens (1), closes (-1) and counts requests (0).\<close>

inductive limit_reach :: "int \<Rightarrow> int \<Rightarrow> ClientLimit list \<Rightarrow> (32 word \<Rightarrow> int) \<Rightarrow> bool" for conn_max req_max where
  reach_start: "\<forall>c \<in> set cs. \<not> cl_used c \<Longrightarrow> limit_reach conn_max req_max cs (\<lambda>_. 0)"
| reach_open: "limit_reach conn_max req_max cs op \<Longrightarrow> client_limit conn_max req_max clock ip 1 cs = (rc, cs') \<Longrightarrow>
    limit_reach conn_max req_max cs' (if rc = 0 then op(ip := op ip + 1) else op)"
| reach_request: "limit_reach conn_max req_max cs op \<Longrightarrow> client_limit conn_max req_max clock ip 0 cs = (rc, cs') \<Longrightarrow>
    limit_reach conn_max req_max cs' op"
| reach_close: "limit_reach conn_max req_max cs op \<Longrightarrow> 0 < op ip \<Longrightarrow>
    client_limit conn_max req_max (Some now) ip (- 1) cs = (rc, cs') \<Longrightarrow>
    limit_reach conn_max req_max cs' (op(ip := op ip - 1))"

text \<open>One call on a well-formed table: it stays well formed and counts the right connections.\<close>

lemma client_limit_step:
  assumes wf: "limits_wf conn_max req_max cs" and mx: "0 \<le> conn_max" "0 \<le> req_max"
    and call: "client_limit conn_max req_max (Some now) ip action cs = (rc, cs')" and act: "action \<in> {- 1, 0, 1}"
  shows "limits_wf conn_max req_max cs' \<and>
    open_conns cs' = (open_conns cs)(ip := open_conns cs ip +
      (if action = 1 then (if rc = 0 then 1 else 0) else if action = - 1 \<and> 0 < open_conns cs ip then - 1 else 0))"
  using call
proof (cases rule: client_limit_cases)
  case none
  have "open_conns cs ip = 0" if "action \<noteq> 1" using none(3) that open_conns_none by blast
  then show ?thesis using wf none(1,2) by (intro conjI ext) auto
next
  case (slot i c)
  have used: "cl_used (cs ! i)" "cl_ip (cs ! i) = ip" using slot(2) by (auto simp: slot_of_def)
  have swf: "slot_wf conn_max req_max (cs ! i)" using wf slot(1) by (simp add: limits_wf_def)
  note c = limit_count_result [OF slot(3) swf used(1) mx]
  have other: "\<not> slot_of (cl_ip c) (cs ! j)" if "j < length cs" "j \<noteq> i" for j
    using wf that slot(1) used c(3) by (auto simp: limits_wf_def)
  have "open_conns cs' k = ((open_conns cs)(ip := open_conns cs ip + (cl_connections c - cl_connections (cs ! i)))) k" for k
    using slot(1,4) used c(2,3) open_conns_update [of i cs c k] by (auto simp: open_in_def slot_of_def)
  moreover have "cl_connections (cs ! i) = open_conns cs ip" using open_conns_slot [OF wf slot(1,2)] by simp
  ultimately have "open_conns cs' = (open_conns cs)(ip := open_conns cs ip +
      (if action = 1 then (if rc = 0 then 1 else 0) else if action = - 1 \<and> 0 < open_conns cs ip then - 1 else 0))"
    using act c(4-6) by (intro ext) (auto split: if_splits)
  then show ?thesis using limits_wf_update [OF wf slot(1) c(1) other] slot(4) by simp
next
  case (fresh i c)
  let ?c0 = "\<lparr>cl_ip = ip, cl_used = True, cl_connections = 0, cl_requests = 0, cl_window = now\<rparr>"
  have "slot_wf conn_max req_max ?c0" using mx by (simp add: slot_wf_def)
  note c = limit_count_result [OF fresh(5) this _ mx]
  have other: "\<not> slot_of (cl_ip c) (cs ! j)" if "j < length cs" "j \<noteq> i" for j
    using c(3) fresh(3) that by simp
  have old: "open_in k (cs ! i) = 0" for k using fresh(2) by (auto simp: open_in_def free_slot_def slot_of_def)
  have "open_conns cs' k = ((open_conns cs)(ip := open_conns cs ip + cl_connections c)) k" for k
    using fresh(1,6) c(2,3) open_conns_update [of i cs c k] old by (auto simp: open_in_def slot_of_def)
  then have "open_conns cs' = (open_conns cs)(ip := open_conns cs ip + (if rc = 0 then 1 else 0))"
    using c(4) by (intro ext) simp
  then show ?thesis using limits_wf_update [OF wf fresh(1) c(1) other] fresh(4,6) by simp
qed

lemma limit_reach_inv:
  assumes "limit_reach conn_max req_max cs op" "0 \<le> conn_max" "0 \<le> req_max"
  shows "limits_wf conn_max req_max cs \<and> op = open_conns cs"
  using assms
proof (induction rule: limit_reach.induct)
  case (reach_start cs)
  then show ?case
    using open_conns_none [of cs] by (intro conjI ext) (auto simp: limits_wf_def slot_wf_def slot_of_def)
next
  case (reach_open cs op clock ip rc cs')
  show ?case
  proof (cases clock)
    case None
    then show ?thesis using reach_open by (auto simp: client_limit_def)
  next
    case (Some now)
    then show ?thesis using client_limit_step [of conn_max req_max cs now ip 1 rc cs'] reach_open by auto
  qed
next
  case (reach_request cs op clock ip rc cs')
  show ?case
  proof (cases clock)
    case None
    then show ?thesis using reach_request by (auto simp: client_limit_def)
  next
    case (Some now)
    then show ?thesis using client_limit_step [of conn_max req_max cs now ip 0 rc cs'] reach_request by auto
  qed
next
  case (reach_close cs op ip now rc cs')
  then show ?case using client_limit_step [of conn_max req_max cs now ip "- 1" rc cs'] by auto
qed

text \<open>C27: Client limits are enforced: whatever the history of connections, requests and closings, with
  slots reused for other addresses after a minute of inactivity, the table counts for each
  address exactly its open connections, they never exceed the configured number, and no address
  has made more counted requests in its window than allowed.\<close>

theorem client_limit_enforced:
  assumes "limit_reach conn_max req_max cs op" "0 \<le> conn_max" "0 \<le> req_max"
  shows "op ip = open_conns cs ip \<and> op ip \<le> conn_max \<and> (\<forall>c \<in> set cs. cl_used c \<longrightarrow> cl_requests c \<le> req_max)"
  using limit_reach_inv [OF assms] open_conns_bound [of conn_max req_max cs ip] assms(2)
  by (auto simp: limits_wf_def slot_wf_def)

theorem client_limit_enforced_witness:
  "fst (client_limit 1 10 (Some 5) 7 1 (snd (client_limit 1 10 (Some 5) 7 1
     [\<lparr>cl_ip = 0, cl_used = False, cl_connections = 0, cl_requests = 0, cl_window = 0\<rparr>]))) \<noteq> 0"
proof
  let ?cs = "[\<lparr>cl_ip = 0 :: 32 word, cl_used = False, cl_connections = 0, cl_requests = 0, cl_window = 0\<rparr>]"
  obtain rc1 cs1 where r1: "client_limit 1 10 (Some 5) 7 1 ?cs = (rc1, cs1)" by (metis surj_pair)
  obtain rc2 cs2 where r2: "client_limit 1 10 (Some 5) 7 1 cs1 = (rc2, cs2)" by (metis surj_pair)
  assume "fst (client_limit 1 10 (Some 5) 7 1 (snd (client_limit 1 10 (Some 5) 7 1 ?cs))) = 0"
  then have rc2: "rc2 = 0" using r1 r2 by simp
  have rc1: "rc1 = 0" using r1 by (simp add: client_limit_def free_slot_def limit_count_def Let_def split: prod.splits)
  have "limit_reach 1 10 ?cs (\<lambda>_. 0)" by (rule reach_start) simp
  from reach_open [OF reach_open [OF this r1] r2] rc1 rc2
  have "limit_reach 1 10 cs2 (\<lambda>x. if x = 7 then 2 else if x = 7 then 1 else 0)" by (simp add: fun_upd_def)
  from client_limit_enforced [OF this, of 7] show False by simp
qed

end
