(* ===== verification/Server_Send.thy ===== *)
theory Server_Send
  imports Response Sink
begin

text \<open>
  Writing responses, \<open>src/server/server.c\<close>: the reason phrases, the gathered and the plain send loops
  with partial writes, and the assembly of the response head. The socket is the list of what the
  kernel will answer to the successive calls; each iteration takes one event. A timeout, a failed
  clock and an exhausted list all make the loop give up. The thread-local response settings are
  the record \<open>Wire\<close>; the text written into \<open>response_wire\<close> so far is a string.
\<close>

section \<open>The code\<close>

abbreviation SERVER_SEND_MAX :: nat where "SERVER_SEND_MAX \<equiv> 4096"
abbreviation ROUTE_ALLOW_CAP :: nat where "ROUTE_ALLOW_CAP \<equiv> 2048"
abbreviation WIRE_CAP :: nat where "WIRE_CAP \<equiv> RESPONSE_WIRE_CAP + 8192"

datatype SendEvent = Sent nat | Interrupted | Send_failed | Timed_out

record Wire =
  response_head :: bool
  response_allow :: string
  response_origin :: string
  response_requested_headers :: string
  response_cors :: bool
  response_preflight :: bool

definition status_reason :: "int \<Rightarrow> string" where
  "status_reason status =
     (if status = 200 then ''OK'' else if status = 201 then ''Created'' else if status = 202 then ''Accepted''
      else if status = 204 then ''No Content'' else if status = 205 then ''Reset Content''
      else if status = 301 then ''Moved Permanently'' else if status = 302 then ''Found''
      else if status = 303 then ''See Other'' else if status = 304 then ''Not Modified''
      else if status = 307 then ''Temporary Redirect'' else if status = 308 then ''Permanent Redirect''
      else if status = 400 then ''Bad Request'' else if status = 401 then ''Unauthorized''
      else if status = 403 then ''Forbidden'' else if status = 404 then ''Not Found''
      else if status = 405 then ''Method Not Allowed'' else if status = 409 then ''Conflict''
      else if status = 408 then ''Request Timeout'' else if status = 413 then ''Payload Too Large''
      else if status = 417 then ''Expectation Failed'' else if status = 429 then ''Too Many Requests''
      else if status = 422 then ''Unprocessable Content'' else if status = 500 then ''Internal Server Error''
      else if status = 503 then ''Service Unavailable'' else ''Status'')"

text \<open>\<open>set_timeout_until\<close>: the time left until a deadline as seconds and microseconds, or None when it
  has passed. Times are seconds and nanoseconds; the \<open>setsockopt\<close> call is left to the events.\<close>

definition set_timeout_until :: "int \<times> int \<Rightarrow> int \<times> int \<Rightarrow> (int \<times> int) option" where
  "set_timeout_until deadline now =
     (let sec0 = fst deadline - fst now; nsec0 = snd deadline - snd now;
          (sec, nsec) = (if nsec0 < 0 then (sec0 - 1, nsec0 + 1000000000) else (sec0, nsec0))
      in if sec < 0 \<or> (sec = 0 \<and> nsec \<le> 0) then None
         else
           let usec = (nsec + 999) div 1000 in
           Some (if usec \<ge> 1000000 then (sec + 1, usec - 1000000) else (sec, usec)))"

text \<open>The two \<open>iovec\<close> entries are the slices they describe.\<close>

fun iovec_skip :: "string list \<Rightarrow> nat \<Rightarrow> nat \<Rightarrow> nat \<Rightarrow> string list" where
  "iovec_skip iov 0 i left = iov"
| "iovec_skip iov (Suc k) i left =
     (if left = 0 then iov
      else if left \<ge> length (iov ! i) then iovec_skip (iov[i := []]) k (i + 1) (left - length (iov ! i))
      else iov[i := drop left (iov ! i)])"

fun iovec_shift :: "string list \<Rightarrow> nat \<Rightarrow> string list \<times> nat" where
  "iovec_shift iov 0 = (iov, 0)"
| "iovec_shift iov (Suc n) =
     (if iov ! 0 \<noteq> [] then (iov, Suc n)
      else iovec_shift (if Suc n = 2 then iov[0 := iov ! 1] else iov) n)"

definition iovec_advance :: "string list \<Rightarrow> nat \<Rightarrow> nat \<Rightarrow> string list \<times> nat" where
  "iovec_advance iov count consumed = iovec_shift (iovec_skip iov count 0 consumed) count"

text \<open>The loop of \<open>send_header_body\<close>; the results are the return value, the bytes put on the wire and
  the remaining events. The kernel takes at most what it is offered.\<close>

fun writev_loop :: "nat \<Rightarrow> nat \<Rightarrow> nat \<Rightarrow> string list \<Rightarrow> nat \<Rightarrow> SendEvent list \<Rightarrow> int \<times> string \<times> SendEvent list" where
  "writev_loop guard sent whole iov count [] =
     (if sent < whole \<and> guard < SERVER_SEND_MAX then (- 1, [], []) else (if sent = whole then 0 else - 1, [], []))"
| "writev_loop guard sent whole iov count (ev # evs) =
     (if \<not> (sent < whole \<and> guard < SERVER_SEND_MAX) then (if sent = whole then 0 else - 1, [], ev # evs)
      else
        (case ev of
           Timed_out \<Rightarrow> (- 1, [], evs)
         | Interrupted \<Rightarrow> writev_loop guard sent whole iov count evs
         | Send_failed \<Rightarrow> (- 1, [], evs)
         | Sent n \<Rightarrow>
             let offered = concat (take count iov); w = min n (length offered) in
             if w = 0 then (- 1, [], evs)
             else
               (case iovec_advance iov count w of
                  (iov', count') \<Rightarrow>
                    (case writev_loop (guard + 1) (sent + w) whole iov' count' evs of
                       (rc, out, rest) \<Rightarrow> (rc, take w offered @ out, rest)))))"

definition send_header_body :: "string \<Rightarrow> string option \<Rightarrow> nat \<Rightarrow> SendEvent list \<Rightarrow> int \<times> string \<times> SendEvent list" where
  "send_header_body header body blen evs =
     (let count = (if body \<noteq> None \<and> blen > 0 then 2 else 1);
          iov = [header, if count = 2 then take blen (the body) else []];
          whole = length header + (if count = 2 then blen else 0)
      in writev_loop 0 0 whole iov count evs)"

fun send_loop :: "nat \<Rightarrow> string \<Rightarrow> SendEvent list \<Rightarrow> int \<times> string \<times> SendEvent list" where
  "send_loop guard data [] = (if data = [] then 0 else - 1, [], [])"
| "send_loop guard data (ev # evs) =
     (if \<not> (data \<noteq> [] \<and> guard < SERVER_SEND_MAX) then (if data = [] then 0 else - 1, [], ev # evs)
      else
        (case ev of
           Timed_out \<Rightarrow> (- 1, [], evs)
         | Interrupted \<Rightarrow> send_loop guard data evs
         | Send_failed \<Rightarrow> (- 1, [], evs)
         | Sent n \<Rightarrow>
             let w = min n (length data) in
             if w = 0 then (- 1, [], evs)
             else (case send_loop (guard + 1) (drop w data) evs of (rc, out, rest) \<Rightarrow> (rc, take w data @ out, rest))))"

definition send_all :: "string \<Rightarrow> SendEvent list \<Rightarrow> int \<times> string \<times> SendEvent list" where
  "send_all buf evs = send_loop 0 buf evs"

text \<open>\<open>header_append\<close>: the text written so far and the formatted text.\<close>

definition header_append :: "nat \<Rightarrow> string \<Rightarrow> string \<Rightarrow> string option" where
  "header_append cap header formatted =
     (if length header \<ge> cap then None
      else if length formatted \<ge> cap - length header then None
      else Some (header @ formatted))"

abbreviation CRLF :: string where "CRLF \<equiv> [CR, LF]"

definition write_cors_headers ::
  "(string \<Rightarrow> string option) \<Rightarrow> Entry list \<Rightarrow> Wire \<Rightarrow> nat \<Rightarrow> string \<Rightarrow> int \<Rightarrow> string option" where
  "write_cors_headers getenv es w cap header status =
     (case (if response_cors w then
              header_append cap header (''Vary: Origin'' @
                (if response_preflight w then '', Access-Control-Request-Method, Access-Control-Request-Headers'' else []) @ CRLF)
            else Some header) of
        None \<Rightarrow> None
      | Some h1 \<Rightarrow>
          if response_origin w = [] then Some h1
          else
            let credentials = (if config_str getenv es ''cors.credentials'' ''false'' = ''true''
                               then ''Access-Control-Allow-Credentials: true'' @ CRLF else []) in
            (case header_append cap h1 (''Access-Control-Allow-Origin: '' @ response_origin w @ CRLF @
                    ''Access-Control-Expose-Headers: Location'' @ CRLF @ credentials) of
               None \<Rightarrow> None
             | Some h2 \<Rightarrow>
                 if \<not> response_preflight w \<or> status \<noteq> 204 then Some h2
                 else
                   header_append cap h2 (''Access-Control-Allow-Methods: '' @ response_allow w @ CRLF @
                     (if response_requested_headers w \<noteq> [] then ''Access-Control-Allow-Headers: '' else []) @
                     response_requested_headers w @ (if response_requested_headers w \<noteq> [] then CRLF else []))))"

text \<open>The response head, as \<open>send_bytes\<close> assembles it.\<close>

definition response_head_text ::
  "(string \<Rightarrow> string option) \<Rightarrow> Entry list \<Rightarrow> Wire \<Rightarrow> Response \<Rightarrow> int \<Rightarrow> string \<Rightarrow> nat \<Rightarrow> bool \<Rightarrow> string option" where
  "response_head_text getenv es w rs status content_type blen keep_alive =
     (case header_append WIRE_CAP [] (''HTTP/1.1 '' @ int_text status @ '' '' @ status_reason status @ CRLF @
             ''Content-Type: '' @ content_type @ CRLF @ ''X-Content-Type-Options: nosniff'' @ CRLF @
             ''Referrer-Policy: no-referrer'' @ CRLF @ ''Connection: '' @ (if keep_alive then ''keep-alive'' else ''close'') @ CRLF) of
        None \<Rightarrow> None
      | Some h1 \<Rightarrow>
          (case (if status \<noteq> 204 \<and> status \<noteq> 304
                 then header_append WIRE_CAP h1 (''Content-Length: '' @ int_text (int blen) @ CRLF) else Some h1) of
             None \<Rightarrow> None
           | Some h2 \<Rightarrow>
               (case response_write (WIRE_CAP - length h2) status rs of
                  None \<Rightarrow> None
                | Some block \<Rightarrow>
                    let h3 = h2 @ block in
                    (case (if response_allow w \<noteq> [] then header_append WIRE_CAP h3 (''Allow: '' @ response_allow w @ CRLF)
                           else Some h3) of
                       None \<Rightarrow> None
                     | Some h4 \<Rightarrow>
                         (case write_cors_headers getenv es w WIRE_CAP h4 status of
                            None \<Rightarrow> None
                          | Some h5 \<Rightarrow> if length h5 + 2 \<ge> WIRE_CAP then None else Some (h5 @ CRLF))))))"

definition send_bytes ::
  "(string \<Rightarrow> string option) \<Rightarrow> Entry list \<Rightarrow> Wire \<Rightarrow> Response \<Rightarrow> int \<Rightarrow> string \<Rightarrow> string \<Rightarrow> nat \<Rightarrow> bool \<Rightarrow> SendEvent list \<Rightarrow>
   int \<times> string \<times> SendEvent list" where
  "send_bytes getenv es w rs status content_type body blen keep_alive evs =
     (case response_head_text getenv es w rs status content_type blen keep_alive of
        None \<Rightarrow> (- 1, [], evs)
      | Some header \<Rightarrow>
          (case send_header_body header (Some body) (if response_head w then 0 else blen) evs of
             (rc, out, rest) \<Rightarrow> (if rc \<noteq> 0 then - 1 else if keep_alive then 0 else - 1, out, rest)))"

section \<open>Partial writes\<close>

lemma send_loop_prefix: "send_loop guard data evs = (rc, out, rest) \<Longrightarrow> \<exists>t. data = out @ t \<and> (rc = 0 \<longleftrightarrow> t = [])"
proof (induction guard data evs arbitrary: out rc rest rule: send_loop.induct)
  case (2 guard data ev evs)
  show ?case
  proof (cases "data \<noteq> [] \<and> guard < SERVER_SEND_MAX")
    case False
    then show ?thesis using "2.prems" by (auto split: if_splits)
  next
    case True
    show ?thesis
    proof (cases ev)
      case (Sent n)
      let ?w = "min n (length data)"
      show ?thesis
      proof (cases "?w = 0")
        case w0: True
        then show ?thesis using "2.prems" True Sent by (auto simp: Let_def)
      next
        case False
        obtain rc' out' rest' where r: "send_loop (guard + 1) (drop ?w data) evs = (rc', out', rest')" by (metis prod_cases3)
        then have "rc = rc'" "out = take ?w data @ out'" using "2.prems" True Sent False by (auto simp: Let_def)
        moreover obtain t where "drop ?w data = out' @ t" "rc' = 0 \<longleftrightarrow> t = []"
          using "2.IH"(1) [OF _ Sent refl False r] True by auto
        ultimately show ?thesis by (metis append.assoc append_take_drop_id)
      qed
    qed (use "2.prems" "2.IH"(2) True in auto)
  qed
qed (auto split: if_splits)

definition offered :: "string list \<Rightarrow> nat \<Rightarrow> string" where
  "offered iov count = concat (take count iov)"

lemma iovec_advance_offered:
  assumes "length iov = 2" "count \<le> 2" "w \<le> length (offered iov count)"
  shows "case iovec_advance iov count w of (iov', count') \<Rightarrow>
    length iov' = 2 \<and> count' \<le> 2 \<and> offered iov' count' = drop w (offered iov count)"
proof -
  obtain a b where iov: "iov = [a, b]" using assms(1) by (auto simp: numeral_2_eq_2 length_Suc_conv)
  consider "count = 0" | "count = 1" | "count = 2" using assms(2) by linarith
  then show ?thesis
    using assms(3) by cases (auto simp: iov iovec_advance_def offered_def numeral_2_eq_2)
qed

lemma writev_loop_Sent:
  assumes "sent < whole" "guard < SERVER_SEND_MAX"
  shows "writev_loop guard sent whole iov count (Sent n # evs) =
    (let w = min n (length (offered iov count)) in
     if w = 0 then (- 1, [], evs)
     else
       (case iovec_advance iov count w of
          (iov', count') \<Rightarrow>
            (case writev_loop (Suc guard) (sent + w) whole iov' count' evs of
               (rc, out, rest) \<Rightarrow> (rc, take w (offered iov count) @ out, rest))))"
  unfolding offered_def writev_loop.simps
  by (simp only: assms simp_thms if_False SendEvent.case Suc_eq_plus1 Let_def)

lemma writev_loop_prefix:
  assumes "length iov = 2" "count \<le> 2" "sent + length (offered iov count) = whole"
    "writev_loop guard sent whole iov count evs = (rc, out, rest)"
  shows "\<exists>t. offered iov count = out @ t \<and> (rc = 0 \<longleftrightarrow> t = [])"
  using assms
proof (induction guard sent whole iov count evs arbitrary: out rc rest rule: writev_loop.induct)
  case (1 guard sent whole iov count)
  then show ?case by (cases "offered iov count = []") (auto split: if_splits)
next
  case (2 guard sent whole iov count ev evs)
  show ?case
  proof (cases "sent < whole \<and> guard < SERVER_SEND_MAX")
    case False
    then show ?thesis using "2.prems" by (cases "offered iov count = []") (auto split: if_splits)
  next
    case True
    then have ne: "offered iov count \<noteq> []" using "2.prems"(3) by auto
    show ?thesis
    proof (cases ev)
      case (Sent n)
      let ?data = "offered iov count" and ?w = "min n (length (offered iov count))"
      show ?thesis
      proof (cases "?w = 0")
        case w0: True
        then have "rc = - 1 \<and> out = []" using "2.prems"(4) True Sent by (simp add: Let_def offered_def)
        then show ?thesis using ne by simp
      next
        case False
        obtain iov' count' where a: "iovec_advance iov count ?w = (iov', count')" by (metis surj_pair)
        have adv: "length iov' = 2" "count' \<le> 2" "offered iov' count' = drop ?w ?data"
          using iovec_advance_offered [OF "2.prems"(1,2), of ?w] a by auto
        obtain rc' out' rest' where r: "writev_loop (Suc guard) (sent + ?w) whole iov' count' evs = (rc', out', rest')"
          by (metis prod_cases3)
        have "writev_loop guard sent whole iov count (ev # evs) = (rc', take ?w ?data @ out', rest')"
          using True unfolding Sent writev_loop_Sent [OF conjunct1 [OF True] conjunct2 [OF True]] Let_def if_not_P [OF False] a by (simp add: r)
        then have res: "rc = rc'" "out = take ?w ?data @ out'" using "2.prems"(4) by auto
        have "sent + ?w + length (offered iov' count') = whole" using adv(3) "2.prems"(3) by simp
        moreover have "\<not> \<not> (sent < whole \<and> guard < SERVER_SEND_MAX)" using True by simp
        ultimately obtain t where "offered iov' count' = out' @ t" "rc' = 0 \<longleftrightarrow> t = []"
          using "2.IH"(1) [OF _ Sent refl refl _ a [symmetric, unfolded offered_def] adv(1,2)] False r
          unfolding offered_def Suc_eq_plus1 by blast
        then show ?thesis using res adv(3) by (metis append.assoc append_take_drop_id)
      qed
    qed (use "2.prems" "2.IH"(2) True ne in auto)
  qed
qed

text \<open>What \<open>send_header_body\<close> is to put on the wire.\<close>

lemma send_header_body_prefix:
  assumes "send_header_body header (Some body) blen evs = (rc, out, rest)" "blen \<le> length body"
  shows "\<exists>t. header @ take blen body = out @ t \<and> (rc = 0 \<longleftrightarrow> t = [])"
proof -
  let ?count = "if blen > 0 then 2 else 1 :: nat"
  let ?iov = "[header, if ?count = 2 then take blen body else []]"
  have o: "offered ?iov ?count = header @ take blen body" by (simp add: offered_def numeral_2_eq_2)
  have "writev_loop 0 0 (length header + (if ?count = 2 then blen else 0)) ?iov ?count evs = (rc, out, rest)"
    using assms(1) by (simp add: send_header_body_def Let_def split: if_splits)
  from writev_loop_prefix [OF _ _ _ this] o assms(2) show ?thesis by auto
qed

section \<open>The response head\<close>

definition crlf_lines :: "string list \<Rightarrow> string" where
  "crlf_lines ls = concat (map (\<lambda>l. l @ CRLF) ls)"

definition safe_line :: "string \<Rightarrow> bool" where
  "safe_line l \<longleftrightarrow> l \<noteq> [] \<and> CR \<notin> set l"

lemma crlf_lines_append [simp]: "crlf_lines (xs @ ys) = crlf_lines xs @ crlf_lines ys"
  by (simp add: crlf_lines_def)

lemma crlf_lines_simps [simp]: "crlf_lines [] = []" "crlf_lines (l # ls) = l @ CR # LF # crlf_lines ls"
  by (simp_all add: crlf_lines_def)

lemma header_end_after_lines:
  "list_all safe_line ls \<Longrightarrow> header_end (CR # LF # crlf_lines ls @ CR # LF # r) = Some (length (crlf_lines ls) + 4)"
proof (induction ls)
  case Nil
  then show ?case by (simp add: header_end_crlf)
next
  case (Cons l ls)
  then show ?case using header_end_line [of l "CR # LF # crlf_lines ls @ CR # LF # r"] by (simp add: safe_line_def)
qed

lemma header_end_lines:
  assumes "list_all safe_line ls" "ls \<noteq> []"
  shows "header_end (crlf_lines ls @ CR # LF # r) = Some (length (crlf_lines ls @ CRLF))"
proof -
  obtain l ks where ls: "ls = l # ks" using assms(2) by (cases ls) auto
  have "CR \<notin> set l" using assms(1) ls by (simp add: safe_line_def)
  then have "header_end (l @ CR # LF # crlf_lines ks @ CR # LF # r) =
      map_option ((+) (length l)) (header_end (CR # LF # crlf_lines ks @ CR # LF # r))"
    by (rule header_end_skip)
  then show ?thesis using header_end_after_lines [of ks r] assms(1) ls by simp
qed

text \<open>A head under construction: complete lines, none of them empty or with a carriage return.\<close>

definition head_ok :: "string list \<Rightarrow> string \<Rightarrow> bool" where
  "head_ok must h \<longleftrightarrow> (\<exists>ls. list_all safe_line ls \<and> ls \<noteq> [] \<and> h = crlf_lines ls \<and> set must \<subseteq> set ls)"

lemma head_ok_append:
  assumes "head_ok must h" "header_append cap h (crlf_lines ks) = Some h'" "list_all safe_line ks" "set must' \<subseteq> set must \<union> set ks"
  shows "head_ok must' h'"
proof -
  obtain ls where "list_all safe_line ls" "ls \<noteq> []" "h = crlf_lines ls" "set must \<subseteq> set ls"
    using assms(1) by (auto simp: head_ok_def)
  moreover have "h' = h @ crlf_lines ks" using assms(2) by (simp add: header_append_def split: if_splits)
  ultimately show ?thesis using assms(3,4) unfolding head_ok_def by (intro exI [of _ "ls @ ks"]) auto
qed

lemma head_ok_fields:
  assumes "head_ok must h" "resp_inv rs" "response_write cap status rs = Some block"
  shows "head_ok must (h @ block)"
proof -
  have "response_write_loop cap status hs out = Some r \<Longrightarrow> list_all resp_header_ok hs \<Longrightarrow>
      \<exists>ks. list_all safe_line ks \<and> r = out @ crlf_lines ks" for hs out r
  proof (induction hs arbitrary: out)
    case Nil
    then show ?case by (intro exI [of _ "[]"]) simp
  next
    case (Cons x hs)
    show ?case
    proof (cases "status \<ge> 400 \<and> ci_eq (rh_name x) ''Location''")
      case True
      then show ?thesis using Cons by (auto split: if_splits)
    next
      case False
      then obtain ks where ks: "list_all safe_line ks" "r = (out @ response_line x) @ crlf_lines ks"
        using Cons.IH [of "out @ response_line x"] Cons.prems by (auto split: if_splits)
      have "safe_line (rh_name x @ '': '' @ rh_value x)"
        using Cons.prems(2) is_token_char_not_CR(1) value_char_not_CR(1) by (auto simp: safe_line_def resp_header_ok_def)
      then show ?thesis
        using ks by (intro exI [of _ "(rh_name x @ '': '' @ rh_value x) # ks"]) (simp add: response_line_def)
    qed
  qed
  then obtain ks where "list_all safe_line ks" "block = crlf_lines ks"
    using assms(2,3) by (fastforce simp: response_write_def resp_inv_def split: if_splits)
  then show ?thesis
    using assms(1) unfolding head_ok_def by (metis append_is_Nil_conv crlf_lines_append list_all_append le_supI1 set_append)
qed

definition wire_safe :: "Wire \<Rightarrow> bool" where
  "wire_safe w \<longleftrightarrow> CR \<notin> set (response_allow w) \<and> CR \<notin> set (response_origin w) \<and> CR \<notin> set (response_requested_headers w)"

text \<open>The lines the assembly appends, group by group.\<close>

definition vary_line :: "Wire \<Rightarrow> string" where
  "vary_line w = ''Vary: Origin'' @
     (if response_preflight w then '', Access-Control-Request-Method, Access-Control-Request-Headers'' else [])"

definition grant_lines :: "(string \<Rightarrow> string option) \<Rightarrow> Entry list \<Rightarrow> Wire \<Rightarrow> string list" where
  "grant_lines getenv es w =
     [''Access-Control-Allow-Origin: '' @ response_origin w, ''Access-Control-Expose-Headers: Location''] @
     (if config_str getenv es ''cors.credentials'' ''false'' = ''true'' then [''Access-Control-Allow-Credentials: true''] else [])"

definition preflight_lines :: "Wire \<Rightarrow> string list" where
  "preflight_lines w = (''Access-Control-Allow-Methods: '' @ response_allow w) #
     (if response_requested_headers w \<noteq> [] then [''Access-Control-Allow-Headers: '' @ response_requested_headers w] else [])"

lemma cors_texts:
  "''Vary: Origin'' @ (if response_preflight w then '', Access-Control-Request-Method, Access-Control-Request-Headers'' else []) @ CRLF =
     crlf_lines [vary_line w]"
  "''Access-Control-Allow-Origin: '' @ response_origin w @ CRLF @ ''Access-Control-Expose-Headers: Location'' @ CRLF @
     (if config_str getenv es ''cors.credentials'' ''false'' = ''true'' then ''Access-Control-Allow-Credentials: true'' @ CRLF else []) =
     crlf_lines (grant_lines getenv es w)"
  "''Access-Control-Allow-Methods: '' @ response_allow w @ CRLF @
     (if response_requested_headers w \<noteq> [] then ''Access-Control-Allow-Headers: '' else []) @
     response_requested_headers w @ (if response_requested_headers w \<noteq> [] then CRLF else []) = crlf_lines (preflight_lines w)"
  by (simp_all add: vary_line_def grant_lines_def preflight_lines_def)

lemma safe_cors_lines:
  assumes "wire_safe w"
  shows "list_all safe_line [vary_line w]" "list_all safe_line (grant_lines getenv es w)" "list_all safe_line (preflight_lines w)"
  using assms by (auto simp: safe_line_def wire_safe_def vary_line_def grant_lines_def preflight_lines_def)

lemma head_ok_cors:
  assumes "head_ok must h" "wire_safe w" "write_cors_headers getenv es w cap h status = Some h'"
  shows "head_ok must h'"
proof -
  note eq = assms(3) [unfolded write_cors_headers_def Let_def cors_texts]
  note safe = safe_cors_lines [OF assms(2)]
  obtain h1 where h1: "(if response_cors w then header_append cap h (crlf_lines [vary_line w]) else Some h) = Some h1"
      and r1: "(if response_origin w = [] then Some h1
        else case header_append cap h1 (crlf_lines (grant_lines getenv es w)) of None \<Rightarrow> None
          | Some h2 \<Rightarrow> if \<not> response_preflight w \<or> status \<noteq> 204 then Some h2
              else header_append cap h2 (crlf_lines (preflight_lines w))) = Some h'"
    using eq by (cases "if response_cors w then header_append cap h (crlf_lines [vary_line w]) else Some h") auto
  have ok1: "head_ok must h1"
    using h1 head_ok_append [OF assms(1) _ safe(1), of cap h1 must] assms(1) by (auto split: if_splits)
  show ?thesis
  proof (cases "response_origin w = []")
    case True
    then show ?thesis using r1 ok1 by simp
  next
    case False
    then obtain h2 where h2: "header_append cap h1 (crlf_lines (grant_lines getenv es w)) = Some h2"
        and r2: "(if \<not> response_preflight w \<or> status \<noteq> 204 then Some h2 else header_append cap h2 (crlf_lines (preflight_lines w))) = Some h'"
      using r1 by (cases "header_append cap h1 (crlf_lines (grant_lines getenv es w))") auto
    have ok2: "head_ok must h2" using head_ok_append [OF ok1 h2 safe(2)] by blast
    then show ?thesis using r2 head_ok_append [OF ok2 _ safe(3), of cap h' must] by (auto split: if_splits)
  qed
qed

lemma CR_int_text: "CR \<notin> set (int_text v)"
proof -
  have "\<not> is_digit CR" by (simp add: is_digit_def byte_def)
  then show ?thesis using int_digits_digits by (auto simp: int_text_def)
qed

definition length_line :: "int \<Rightarrow> nat \<Rightarrow> string list" where
  "length_line status blen = (if status \<noteq> 204 \<and> status \<noteq> 304 then [''Content-Length: '' @ int_text (int blen)] else [])"

definition first_lines :: "int \<Rightarrow> string \<Rightarrow> bool \<Rightarrow> string list" where
  "first_lines status content_type keep_alive =
     [''HTTP/1.1 '' @ int_text status @ '' '' @ status_reason status, ''Content-Type: '' @ content_type,
      ''X-Content-Type-Options: nosniff'', ''Referrer-Policy: no-referrer'',
      ''Connection: '' @ (if keep_alive then ''keep-alive'' else ''close'')]"

lemma head_texts:
  "''HTTP/1.1 '' @ int_text status @ '' '' @ status_reason status @ CRLF @ ''Content-Type: '' @ content_type @ CRLF @
     ''X-Content-Type-Options: nosniff'' @ CRLF @ ''Referrer-Policy: no-referrer'' @ CRLF @ ''Connection: '' @
     (if keep_alive then ''keep-alive'' else ''close'') @ CRLF = crlf_lines (first_lines status content_type keep_alive)"
  "''Content-Length: '' @ int_text (int blen) @ CRLF = crlf_lines [''Content-Length: '' @ int_text (int blen)]"
  "''Allow: '' @ response_allow w @ CRLF = crlf_lines [''Allow: '' @ response_allow w]"
  by (simp_all add: first_lines_def)

lemma safe_first_lines: "CR \<notin> set content_type \<Longrightarrow> list_all safe_line (first_lines status content_type keep_alive)"
proof -
  have "CR \<notin> set (status_reason status)" by (simp add: status_reason_def)
  then show "CR \<notin> set content_type \<Longrightarrow> list_all safe_line (first_lines status content_type keep_alive)"
    using CR_int_text by (simp add: safe_line_def first_lines_def)
qed

lemma head_text_ok:
  assumes "resp_inv rs" "wire_safe w" "CR \<notin> set content_type"
    "response_head_text getenv es w rs status content_type blen keep_alive = Some h"
  shows "\<exists>ls. list_all safe_line ls \<and> ls \<noteq> [] \<and> h = crlf_lines ls @ CRLF \<and> set (length_line status blen) \<subseteq> set ls"
proof -
  let ?len = "''Content-Length: '' @ int_text (int blen)" and ?allow = "''Allow: '' @ response_allow w"
  let ?first = "first_lines status content_type keep_alive"
  note eq = assms(4) [unfolded response_head_text_def Let_def head_texts]
  obtain h1 where 1: "header_append WIRE_CAP [] (crlf_lines ?first) = Some h1"
    using eq by (cases "header_append WIRE_CAP [] (crlf_lines ?first)") auto
  obtain h2 where 2: "(if status \<noteq> 204 \<and> status \<noteq> 304 then header_append WIRE_CAP h1 (crlf_lines [?len]) else Some h1) = Some h2"
    using eq [unfolded 1 option.case]
    by (cases "if status \<noteq> 204 \<and> status \<noteq> 304 then header_append WIRE_CAP h1 (crlf_lines [?len]) else Some h1") (simp_all only: option.case)
  obtain block where 3: "response_write (WIRE_CAP - length h2) status rs = Some block"
    using eq [unfolded 1 option.case 2] by (cases "response_write (WIRE_CAP - length h2) status rs") (simp_all only: option.case)
  obtain h4 where 4: "(if response_allow w \<noteq> [] then header_append WIRE_CAP (h2 @ block) (crlf_lines [?allow]) else Some (h2 @ block)) = Some h4"
    using eq [unfolded 1 option.case 2 3]
    by (cases "if response_allow w \<noteq> [] then header_append WIRE_CAP (h2 @ block) (crlf_lines [?allow]) else Some (h2 @ block)") (simp_all only: option.case)
  obtain h5 where 5: "write_cors_headers getenv es w WIRE_CAP h4 status = Some h5" and 6: "h = h5 @ CRLF"
    using eq [unfolded 1 option.case 2 3 4] by (cases "write_cors_headers getenv es w WIRE_CAP h4 status") (auto split: if_splits)
  have "h1 = crlf_lines ?first" using 1 by (simp add: header_append_def split: if_splits)
  then have ok1: "head_ok [] h1"
    unfolding head_ok_def using safe_first_lines [OF assms(3)] by (intro exI [of _ ?first]) (auto simp: first_lines_def)
  have ok2: "head_ok (length_line status blen) h2"
    using 2 ok1 head_ok_append [OF ok1, of WIRE_CAP "[?len]" h2 "[?len]"] CR_int_text
    by (auto simp: safe_line_def length_line_def split: if_splits)
  note ok3 = head_ok_fields [OF ok2 assms(1) 3]
  have "head_ok (length_line status blen) h4"
    using 4 ok3 head_ok_append [OF ok3, of WIRE_CAP "[?allow]" h4 "length_line status blen"] assms(2)
    by (auto simp: safe_line_def wire_safe_def split: if_splits)
  from head_ok_cors [OF this assms(2) 5] show ?thesis unfolding head_ok_def 6 by auto
qed

lemma sent_bytes_framed:
  assumes "response_reach rs" "wire_safe w" "CR \<notin> set content_type" "blen \<le> length body"
    "send_bytes getenv es w rs status content_type body blen keep_alive evs = (rc, out, rest)"
  shows "(out = [] \<and> rc = - 1) \<or>
    (\<exists>head content t. content = (if response_head w then [] else take blen body) \<and> head @ content = out @ t \<and>
       header_end (head @ content) = Some (length head) \<and>
       (\<exists>ls. head = crlf_lines ls @ CRLF \<and> list_all safe_line ls \<and> set (length_line status blen) \<subseteq> set ls) \<and>
       (rc = 0 \<longleftrightarrow> t = [] \<and> keep_alive))"
proof (cases "response_head_text getenv es w rs status content_type blen keep_alive")
  case None
  then show ?thesis using assms(5) by (simp add: send_bytes_def)
next
  case (Some h)
  let ?n = "if response_head w then 0 else blen"
  let ?content = "if response_head w then [] else take blen body"
  obtain ls where ls: "list_all safe_line ls" "ls \<noteq> []" "h = crlf_lines ls @ CRLF" "set (length_line status blen) \<subseteq> set ls"
    using head_text_ok [OF response_reach_inv [OF assms(1)] assms(2,3) Some] by blast
  obtain rc1 out1 rest1 where s: "send_header_body h (Some body) ?n evs = (rc1, out1, rest1)" by (metis prod_cases3)
  then have res: "rc = (if rc1 \<noteq> 0 then - 1 else if keep_alive then 0 else - 1)" "out = out1"
    using assms(5) Some by (auto simp: send_bytes_def)
  have n: "take ?n body = ?content" "?n \<le> length body" using assms(4) by simp_all
  obtain t where t: "h @ ?content = out1 @ t" "rc1 = 0 \<longleftrightarrow> t = []"
    using send_header_body_prefix [OF s n(2)] unfolding n(1) by blast
  have "header_end (h @ ?content) = Some (length h)" using header_end_lines [OF ls(1,2), of ?content] ls(3) by simp
  moreover have "rc = 0 \<longleftrightarrow> t = [] \<and> keep_alive" using res(1) t(2) by simp
  ultimately have "?content = ?content \<and> h @ ?content = out @ t \<and> header_end (h @ ?content) = Some (length h) \<and>
      (\<exists>ls. h = crlf_lines ls @ CRLF \<and> list_all safe_line ls \<and> set (length_line status blen) \<subseteq> set ls) \<and>
      (rc = 0 \<longleftrightarrow> t = [] \<and> keep_alive)"
    using t(1) ls(1,3,4) unfolding res(2) by blast
  then show ?thesis by blast
qed

text \<open>C23: Responses are framed correctly whatever the kernel does: with settings that hold no carriage
  return and any headers a handler set, what \<open>send_bytes\<close> puts on the wire is a prefix of one
  message, a head of non-empty lines whose first empty line is its end, followed by the body
  (nothing for a HEAD request), under every sequence of partial writes and interruptions; the
  head states the body's length unless the status forbids it; and the call reports success only
  when the whole message was sent and the connection is to be kept.\<close>

theorem send_bytes_framed:
  assumes "response_reach rs" "wire_safe w" "CR \<notin> set content_type" "blen \<le> length body"
    "send_bytes getenv es w rs status content_type body blen keep_alive evs = (rc, out, rest)"
  shows "(out = [] \<and> rc = - 1) \<or>
    (\<exists>head content t. content = (if response_head w then [] else take blen body) \<and> head @ content = out @ t \<and>
       header_end (head @ content) = Some (length head) \<and>
       (\<exists>ls. head = crlf_lines ls @ CRLF \<and> list_all safe_line ls \<and> set (length_line status blen) \<subseteq> set ls) \<and>
       (rc = 0 \<longleftrightarrow> t = [] \<and> keep_alive))"
  using assms by (rule sent_bytes_framed)

definition plain_wire :: Wire where
  "plain_wire = \<lparr>response_head = False, response_allow = [], response_origin = [], response_requested_headers = [],
     response_cors = False, response_preflight = False\<rparr>"

theorem send_bytes_framed_witness:
  "\<exists>rc out rest. send_bytes (\<lambda>_. None) [] plain_wire (response_reset demo_response) 200 ''text/plain'' ''hi'' 2 True
      [Sent 3, Interrupted, Sent 1000] = (rc, out, rest) \<and>
    ((out = [] \<and> rc = - 1) \<or> (\<exists>head t. head @ ''hi'' = out @ t \<and> header_end (head @ ''hi'') = Some (length head) \<and> (rc = 0 \<longleftrightarrow> t = [])))"
proof -
  obtain rc out rest where s: "send_bytes (\<lambda>_. None) [] plain_wire (response_reset demo_response) 200 ''text/plain'' ''hi'' 2 True
      [Sent 3, Interrupted, Sent 1000] = (rc, out, rest)" by (metis prod_cases3)
  have "wire_safe plain_wire" "\<not> response_head plain_wire" by (simp_all add: plain_wire_def wire_safe_def)
  with send_bytes_framed [OF reach_reset _ _ _ s] s show ?thesis by (auto simp: numeral_2_eq_2)
qed

end
