(* ===== verification/Cors.thy ===== *)
theory Cors
  imports Server_Send Request_State
begin

text \<open>
  The request-header helpers, the CORS decisions and the small responses of
  \<open>src/server/server_http.c\<close>. Character arrays are the C strings they hold; the loops over a
  comma-separated list work on the suffix of the list that is still to be read.
\<close>

section \<open>The code\<close>

abbreviation ERROR_CAP :: nat where "ERROR_CAP \<equiv> 16384"

definition JSON_CONTENT_TYPE :: string where
  "JSON_CONTENT_TYPE = ''application/json; charset=utf-8''"

definition send_response ::
  "(string \<Rightarrow> string option) \<Rightarrow> Entry list \<Rightarrow> Wire \<Rightarrow> Response \<Rightarrow> RequestState \<Rightarrow> int \<Rightarrow> string \<Rightarrow> string \<Rightarrow> bool \<Rightarrow> SendEvent list \<Rightarrow>
   int \<times> string \<times> SendEvent list" where
  "send_response getenv es w rs st status content_type body keep_alive evs =
     (let error = error_json_write st status (Some body) (replicate ERROR_CAP NUL) in
      if status \<ge> 400 \<and> fst error \<noteq> 0 then (- 1, [], evs)
      else
        let body' = (if status \<ge> 400 then cstr (snd error) else body);
            content_type' = (if status \<ge> 400 then JSON_CONTENT_TYPE else content_type);
            blen = (if status = 204 \<or> status = 205 \<or> status = 304 then 0 else length body')
        in send_bytes getenv es w rs status content_type' body' blen keep_alive evs)"

definition list_separator :: "char \<Rightarrow> bool" where
  "list_separator c \<longleftrightarrow> c = SPC \<or> c = TAB \<or> c = CHR '',''"

function header_has_token :: "string \<Rightarrow> string \<Rightarrow> bool" where
  "header_has_token value wanted =
     (if value = [] then False
      else
        let s = dropWhile list_separator value;
            tok = rstrip is_blank (takeWhile (\<lambda>c. c \<noteq> CHR '','') s)
        in if length tok = length wanted \<and> ci_eq tok wanted then True
           else header_has_token (dropWhile (\<lambda>c. c \<noteq> CHR '','') s) wanted)"
  by pat_completeness auto
termination
proof (relation "measure (\<lambda>(v, w). length v)", goal_cases)
  case (2 v wanted s tok)
  have le: "length (dropWhile p xs) \<le> length xs" for p :: "char \<Rightarrow> bool" and xs by (rule length_dropWhile_le)
  obtain c r where c: "v = c # r" using 2(1) by (cases v) auto
  show ?case
  proof (cases "list_separator c")
    case True
    then have "length s \<le> length r" using 2(2) c le by simp
    then show ?thesis using le [of "\<lambda>c. c \<noteq> CHR '',''" s] c by simp
  next
    case False
    then have "s = c # r" "c \<noteq> CHR '',''" using 2(2) c by (auto simp: list_separator_def)
    then show ?thesis using le [of "\<lambda>c. c \<noteq> CHR '',''" r] c by simp
  qed
qed simp

declare header_has_token.simps [simp del]

definition request_header_has_token :: "HttpRequest \<Rightarrow> string \<Rightarrow> string \<Rightarrow> bool" where
  "request_header_has_token req name wanted \<longleftrightarrow>
     list_ex (\<lambda>h. length (h_name h) = length name \<and> ci_eq (h_name h) name \<and> header_has_token (h_value h) wanted)
       (take HTTP_MAX_HEADERS (rq_headers req))"

text \<open>The result is -1, 0 or 1 and the text left in the buffer.\<close>

fun single_value_loop :: "string \<Rightarrow> nat \<Rightarrow> HttpHeader list \<Rightarrow> bool \<Rightarrow> string \<Rightarrow> int \<times> string" where
  "single_value_loop name cap [] found out = (if found then 1 else 0, out)"
| "single_value_loop name cap (h # hs) found out =
     (if length (h_name h) \<noteq> length name \<or> \<not> ci_eq (h_name h) name then single_value_loop name cap hs found out
      else if found \<or> length (h_value h) \<ge> cap then (- 1, out)
      else if \<not> response_value (Some (cstr (h_value h))) then (- 1, cstr (h_value h))
      else single_value_loop name cap hs True (cstr (h_value h)))"

definition header_single_value :: "HttpRequest \<Rightarrow> string \<Rightarrow> nat \<Rightarrow> int \<times> string" where
  "header_single_value req name cap = single_value_loop name cap (take HTTP_MAX_HEADERS (rq_headers req)) False []"

function list_contains :: "string \<Rightarrow> string \<Rightarrow> bool \<Rightarrow> bool" where
  "list_contains list value exact =
     (if list = [] then False
      else
        (case split_at (\<lambda>c. c = CHR '','') (dropWhile is_blank list) of
           (item, next_) \<Rightarrow>
             let tok = rstrip is_blank item in
             if length value > 0 \<and> length tok = length value \<and> (if exact then tok = value else ci_eq tok value) then True
             else (case next_ of None \<Rightarrow> False | Some r \<Rightarrow> list_contains r value exact)))"
  by pat_completeness auto
termination
  by (relation "measure (\<lambda>(l, v, e). length l)")
    (auto dest!: split_at_shorter [OF sym] intro: less_le_trans [OF _ length_dropWhile_le])

declare list_contains.simps [simp del]

definition cors_prepare ::
  "(string \<Rightarrow> string option) \<Rightarrow> Entry list \<Rightarrow> HttpRequest \<Rightarrow> Wire \<Rightarrow> Wire" where
  "cors_prepare getenv es req w =
     (let origins = config_str getenv es ''cors.origins'' [];
          w1 = w\<lparr>response_cors := (origins \<noteq> [])\<rparr>
      in if response_cors w1 then
           (case header_single_value req ''Origin'' RESPONSE_VALUE_CAP of
              (found, origin) \<Rightarrow>
                if found = 1 \<and> origin \<noteq> ''*'' \<and> list_contains origins origin True then w1\<lparr>response_origin := origin\<rparr>
                else w1)
         else w1)"

text \<open>The loop over the requested headers: 0 when every one is allowed, otherwise the status.\<close>

function preflight_headers :: "string \<Rightarrow> string \<Rightarrow> int" where
  "preflight_headers allowed names =
     (case split_at (\<lambda>c. c = CHR '','') names of
        (item, comma) \<Rightarrow>
          let name = rstrip is_blank (dropWhile is_blank item) in
          if \<not> response_token (Some name) then 400
          else if \<not> list_contains allowed name False then 403
          else (case comma of None \<Rightarrow> 0 | Some r \<Rightarrow> preflight_headers allowed r))"
  by pat_completeness auto
termination
  by (relation "measure (\<lambda>(a, names). length names)") (auto dest: split_at_shorter [OF sym])

declare preflight_headers.simps [simp del]

definition cors_preflight ::
  "(string \<Rightarrow> string option) \<Rightarrow> Entry list \<Rightarrow> HttpRequest \<Rightarrow> string \<Rightarrow> Wire \<Rightarrow> int \<times> Wire" where
  "cors_preflight getenv es req allow w =
     (case (header_single_value req ''Access-Control-Request-Method'' HTTP_MAX_METHOD,
            header_single_value req ''Access-Control-Request-Headers'' RESPONSE_VALUE_CAP) of
        ((m, meth), (h, requested)) \<Rightarrow>
          if \<not> response_cors w \<or> rq_method req \<noteq> ''OPTIONS'' \<or> (m = 0 \<and> h = 0) then (0, w)
          else
            let w1 = w\<lparr>response_preflight := True\<rparr> in
            if m \<noteq> 1 \<or> h < 0 \<or> \<not> response_token (Some meth) then (400, w1)
            else if response_origin w1 = [] \<or> \<not> list_contains allow meth True then (403, w1)
            else if h = 1 then
              let verdict = preflight_headers (config_str getenv es ''cors.headers'' []) requested in
              if verdict \<noteq> 0 then (verdict, w1)
              else
                (case header_single_value req ''Access-Control-Request-Headers'' RESPONSE_VALUE_CAP of
                   (h2, again) \<Rightarrow>
                     let w2 = w1\<lparr>response_requested_headers := again\<rparr> in
                     if h2 \<noteq> 1 then (400, w2) else (204, w2))
            else (204, w1))"

definition is_health_path :: "string \<Rightarrow> bool" where
  "is_health_path path \<longleftrightarrow> path = ''/health/live'' \<or> path = ''/health/ready''"

text \<open>\<open>stopping\<close> is \<open>g_stop\<close>, \<open>db_ready\<close> what the database layer answers. The results are the return
  value, the status, the new settings and what was sent.\<close>

definition serve_health ::
  "(string \<Rightarrow> string option) \<Rightarrow> Entry list \<Rightarrow> Response \<Rightarrow> RequestState \<Rightarrow> bool \<Rightarrow> bool \<Rightarrow> HttpRequest \<Rightarrow> string \<Rightarrow> bool \<Rightarrow>
   SendEvent list \<Rightarrow> Wire \<Rightarrow> int \<times> int \<times> Wire \<times> string" where
  "serve_health getenv es rs st stopping db_ready req path keep_alive evs w =
     (if rq_method req \<noteq> ''GET'' \<and> rq_method req \<noteq> ''HEAD'' then
        let w1 = w\<lparr>response_allow := ''GET, HEAD, OPTIONS''\<rparr>;
            status = (if rq_method req = ''OPTIONS'' then 204 else 405)
        in (case send_response getenv es w1 rs st status JSON_CONTENT_TYPE [] keep_alive evs of
              (rc, out, _) \<Rightarrow> (rc, status, w1, out))
      else
        let live = (path = ''/health/live'');
            up = (live \<or> (\<not> stopping \<and> db_ready));
            status = (if up then 200 else 503);
            word = (if up then ''up'' else ''down'')
        in (case send_response getenv es w rs st status JSON_CONTENT_TYPE (''{'' @ json_name ''status'' @ [DQUOTE] @ word @ [DQUOTE] @ ''}'')
                   keep_alive evs of
              (rc, out, _) \<Rightarrow> (rc, status, w, out)))"

text \<open>The results are the return value, whether the request was handled, its status, the settings and
  what was sent.\<close>

definition serve_preflight ::
  "(string \<Rightarrow> string option) \<Rightarrow> Entry list \<Rightarrow> Response \<Rightarrow> RequestState \<Rightarrow> HttpRequest \<Rightarrow> bool \<Rightarrow> SendEvent list \<Rightarrow> Wire \<Rightarrow>
   int \<times> bool \<times> int \<times> Wire \<times> string" where
  "serve_preflight getenv es rs st req keep_alive evs w =
     (if rq_method req \<noteq> ''OPTIONS'' then (0, False, 0, w, [])
      else
        (case cors_preflight getenv es req (response_allow w) w of
           (preflight, w1) \<Rightarrow>
             if preflight = 0 then (0, False, 0, w1, [])
             else
               let w2 = (if preflight \<noteq> 204 then w1\<lparr>response_origin := []\<rparr> else w1) in
               (case send_response getenv es w2 rs st preflight JSON_CONTENT_TYPE
                       (if preflight = 204 then [] else ''preflight rejected'') keep_alive evs of
                  (rc, out, _) \<Rightarrow> (rc, True, preflight, w2, out))))"

section \<open>Comma-separated lists\<close>

definition trim_blank :: "string \<Rightarrow> string" where
  "trim_blank s = rstrip is_blank (dropWhile is_blank s)"

function elements :: "string \<Rightarrow> string list" where
  "elements s =
     (case split_at (\<lambda>c. c = CHR '','') s of
        (item, None) \<Rightarrow> [trim_blank item] | (item, Some r) \<Rightarrow> trim_blank item # elements r)"
  by pat_completeness auto
termination
  by (relation "measure length") (auto dest: split_at_shorter [OF sym])

declare elements.simps [simp del]

lemma split_at_skip_blank:
  "split_at (\<lambda>c. c = CHR '','') (dropWhile is_blank s) =
     (case split_at (\<lambda>c. c = CHR '','') s of (item, r) \<Rightarrow> (dropWhile is_blank item, r))"
proof (induction s)
  case (Cons c s)
  obtain item r where sp: "split_at (\<lambda>c. c = CHR '','') s = (item, r)" by fastforce
  show ?case
  proof (cases "is_blank c")
    case True
    then have c: "c \<noteq> CHR '',''" by (auto simp: is_blank_def)
    have "split_at (\<lambda>c. c = CHR '','') (c # s) = (c # item, r)" using c sp by (simp add: split_at_Cons)
    moreover have "split_at (\<lambda>c. c = CHR '','') (dropWhile is_blank s) = (dropWhile is_blank item, r)"
      using Cons.IH sp by simp
    ultimately show ?thesis using True by simp
  next
    case no: False
    show ?thesis
    proof (cases "c = CHR '',''")
      case True
      then show ?thesis using no by (simp add: split_at_Cons)
    next
      case False
      have "split_at (\<lambda>c. c = CHR '','') (c # s) = (c # item, r)" using False sp by (simp add: split_at_Cons)
      then show ?thesis using no by simp
    qed
  qed
qed simp

lemma elements_Nil: "elements [] = [[]]"
  by (simp add: elements.simps [of "[]"] trim_blank_def)

lemma list_contains_iff:
  "list_contains list v exact \<longleftrightarrow> v \<noteq> [] \<and> (\<exists>e \<in> set (elements list). if exact then e = v else ci_eq e v)"
proof (induction list v exact rule: list_contains.induct)
  case (1 list v exact)
  show ?case
  proof (cases "list = []")
    case True
    have "ci_eq [] v \<Longrightarrow> v = []" using ci_eq_length [of "[]" v] by simp
    then show ?thesis using True by (auto simp: list_contains.simps [of "[]"] elements_Nil split: if_splits)
  next
    case False
    obtain item r where sp: "split_at (\<lambda>c. c = CHR '','') list = (item, r)" by (cases "split_at (\<lambda>c. c = CHR '','') list")
    let ?eq = "\<lambda>e. if exact then e = v else ci_eq e v"
    have len: "?eq e \<Longrightarrow> length e = length v" for e using ci_eq_length by (auto split: if_splits)
    have code: "list_contains list v exact \<longleftrightarrow> (v \<noteq> [] \<and> ?eq (trim_blank item)) \<or>
        (case r of None \<Rightarrow> False | Some s \<Rightarrow> list_contains s v exact)"
      using False sp len [of "trim_blank item"]
      by (subst list_contains.simps) (auto simp: split_at_skip_blank trim_blank_def Let_def split: option.splits)
    show ?thesis
    proof (cases r)
      case None
      then show ?thesis unfolding code using sp by (auto simp: elements.simps [of list])
    next
      case (Some s)
      have els: "elements list = trim_blank item # elements s" using sp Some by (simp add: elements.simps [of list])
      show ?thesis
      proof (cases "v \<noteq> [] \<and> ?eq (trim_blank item)")
        case True
        then show ?thesis unfolding code els by auto
      next
        case no: False
        have "list_contains s v exact \<longleftrightarrow> v \<noteq> [] \<and> (\<exists>e \<in> set (elements s). ?eq e)"
        proof (rule "1.IH")
          show "list \<noteq> []" by (rule False)
          show "(dropWhile is_blank item, r) = split_at (\<lambda>c. c = CHR '','') (dropWhile is_blank list)"
            by (simp add: split_at_skip_blank sp)
        qed (use no Some in \<open>auto simp: trim_blank_def\<close>)
        then show ?thesis unfolding code els using no Some by auto
      qed
    qed
  qed
qed

section \<open>Headers that occur once\<close>

definition header_named :: "string \<Rightarrow> HttpHeader \<Rightarrow> bool" where
  "header_named name h \<longleftrightarrow> length (h_name h) = length name \<and> ci_eq (h_name h) name"

definition headers_named :: "HttpRequest \<Rightarrow> string \<Rightarrow> HttpHeader list" where
  "headers_named req name = filter (header_named name) (take HTTP_MAX_HEADERS (rq_headers req))"

text \<open>The request has exactly one header of that name, it fits and its text \<open>v\<close> has no control
  characters.\<close>

definition only_header :: "HttpRequest \<Rightarrow> string \<Rightarrow> nat \<Rightarrow> string \<Rightarrow> bool" where
  "only_header req name cap v \<longleftrightarrow>
     (\<exists>h. headers_named req name = [h] \<and> length (h_value h) < cap \<and> v = cstr (h_value h) \<and> response_value (Some v))"

lemma single_value_loop_named:
  "single_value_loop name cap (h # hs) found out =
     (if \<not> header_named name h then single_value_loop name cap hs found out
      else if found \<or> length (h_value h) \<ge> cap then (- 1, out)
      else if \<not> response_value (Some (cstr (h_value h))) then (- 1, cstr (h_value h))
      else single_value_loop name cap hs True (cstr (h_value h)))"
  by (simp add: header_named_def)

declare single_value_loop.simps (2) [simp del]

lemma single_value_loop_found:
  "single_value_loop name cap hs True out =
     (if filter (header_named name) hs = [] then 1 else - 1, out)"
  by (induction hs) (simp_all add: single_value_loop_named)

lemma single_value_loop_start:
  "single_value_loop name cap hs False out =
     (case filter (header_named name) hs of
        [] \<Rightarrow> (0, out)
      | h # t \<Rightarrow>
          if length (h_value h) \<ge> cap then (- 1, out)
          else if \<not> response_value (Some (cstr (h_value h))) then (- 1, cstr (h_value h))
          else (if t = [] then 1 else - 1, cstr (h_value h)))"
  by (induction hs) (simp_all add: single_value_loop_named single_value_loop_found)

lemma header_single_value_one: "header_single_value req name cap = (1, v) \<longleftrightarrow> only_header req name cap v"
  by (auto simp: header_single_value_def single_value_loop_start only_header_def headers_named_def
      split: list.splits if_splits)

lemma header_single_value_zero: "fst (header_single_value req name cap) = 0 \<longleftrightarrow> headers_named req name = []"
  by (auto simp: header_single_value_def single_value_loop_start headers_named_def split: list.splits)

lemma header_single_value_range: "fst (header_single_value req name cap) \<in> {- 1, 0, 1}"
  by (auto simp: header_single_value_def single_value_loop_start split: list.splits)

section \<open>Cross-origin requests\<close>

lemma list_contains_exact: "list_contains list v True \<longleftrightarrow> v \<noteq> [] \<and> v \<in> set (elements list)"
  by (simp add: list_contains_iff)

lemma response_token_nonempty: "response_token (Some n) \<Longrightarrow> n \<noteq> []"
  by (auto simp: response_token_def)

lemma preflight_headers_zero:
  "preflight_headers allowed names = 0 \<longleftrightarrow>
     (\<forall>n \<in> set (elements names). response_token (Some n) \<and> (\<exists>a \<in> set (elements allowed). ci_eq a n))"
proof (induction allowed names rule: preflight_headers.induct)
  case (1 allowed names)
  obtain item r where sp: "split_at (\<lambda>c. c = CHR '','') names = (item, r)" by fastforce
  let ?n = "trim_blank item"
  have code: "preflight_headers allowed names =
      (if \<not> response_token (Some ?n) then 400
       else if \<not> list_contains allowed ?n False then 403
       else case r of None \<Rightarrow> 0 | Some s \<Rightarrow> preflight_headers allowed s)"
    using sp by (simp add: preflight_headers.simps [of allowed names] trim_blank_def Let_def)
  have els: "elements names = ?n # (case r of None \<Rightarrow> [] | Some s \<Rightarrow> elements s)"
    using sp by (simp add: elements.simps [of names] split: option.splits)
  show ?case
  proof (cases "response_token (Some ?n) \<and> list_contains allowed ?n False")
    case ok: True
    then have hd: "\<exists>a \<in> set (elements allowed). ci_eq a ?n" by (simp add: list_contains_iff)
    show ?thesis
    proof (cases r)
      case None
      then show ?thesis unfolding code els using ok hd by simp
    next
      case (Some s)
      have "preflight_headers allowed s = 0 \<longleftrightarrow>
          (\<forall>n \<in> set (elements s). response_token (Some n) \<and> (\<exists>a \<in> set (elements allowed). ci_eq a n))"
        by (rule "1.IH" [OF sp [symmetric] refl _ _ Some]) (use ok in \<open>simp_all add: trim_blank_def\<close>)
      then show ?thesis unfolding code els using ok hd Some by simp
    qed
  next
    case bad: False
    then have "\<not> (response_token (Some ?n) \<and> (\<exists>a \<in> set (elements allowed). ci_eq a ?n))"
      using response_token_nonempty by (auto simp: list_contains_iff)
    then show ?thesis unfolding code els using bad by auto
  qed
qed

lemma preflight_headers_status: "preflight_headers allowed names \<noteq> 204"
proof (induction allowed names rule: preflight_headers.induct)
  case (1 allowed names)
  then show ?case
    by (subst preflight_headers.simps) (auto simp: Let_def split: prod.splits option.splits)
qed

text \<open>The response settings for the origin of a request: the single \<open>Origin\<close> header, when the
  configuration lists it.\<close>

definition origin_granted :: "string \<Rightarrow> HttpRequest \<Rightarrow> string \<Rightarrow> bool" where
  "origin_granted origins req origin \<longleftrightarrow>
     only_header req ''Origin'' RESPONSE_VALUE_CAP origin \<and> origin \<noteq> [] \<and> origin \<noteq> ''*'' \<and> origin \<in> set (elements origins)"

lemma cors_prepare_origin:
  assumes "response_origin w = []" "o' \<noteq> []"
  shows "response_origin (cors_prepare getenv es req w) = o' \<longleftrightarrow>
           origin_granted (config_str getenv es ''cors.origins'' []) req o'"
proof -
  obtain f v where hv: "header_single_value req ''Origin'' RESPONSE_VALUE_CAP = (f, v)" by fastforce
  have one: "f = 1 \<and> v = x \<longleftrightarrow> only_header req ''Origin'' RESPONSE_VALUE_CAP x" for x
    using header_single_value_one [of req "''Origin''" RESPONSE_VALUE_CAP x] hv by simp
  have eq: "o' \<in> set (elements []) \<Longrightarrow> False" using assms(2) by (simp add: elements_Nil)
  show ?thesis
  proof (cases "config_str getenv es ''cors.origins'' [] = []")
    case True
    then show ?thesis using assms eq by (auto simp: cors_prepare_def origin_granted_def Let_def)
  next
    case False
    then have "response_origin (cors_prepare getenv es req w) =
        (if f = 1 \<and> v \<noteq> ''*'' \<and> list_contains (config_str getenv es ''cors.origins'' []) v True then v else [])"
      using hv assms(1) by (simp add: cors_prepare_def Let_def)
    then show ?thesis
      using assms(2) one [of o'] unfolding origin_granted_def list_contains_exact by (auto split: if_splits)
  qed
qed

lemma cors_prepare_enabled:
  "response_cors (cors_prepare getenv es req w) \<longleftrightarrow> config_str getenv es ''cors.origins'' [] \<noteq> []"
  by (auto simp: cors_prepare_def Let_def split: prod.splits)

definition headers_granted :: "string \<Rightarrow> HttpRequest \<Rightarrow> bool" where
  "headers_granted allowed req \<longleftrightarrow>
     headers_named req ''Access-Control-Request-Headers'' = [] \<or>
     (\<exists>requested. only_header req ''Access-Control-Request-Headers'' RESPONSE_VALUE_CAP requested \<and>
        (\<forall>n \<in> set (elements requested). response_token (Some n) \<and> (\<exists>a \<in> set (elements allowed). ci_eq a n)))"

lemma cors_preflight_204:
  "fst (cors_preflight getenv es req allow w) = 204 \<longleftrightarrow>
     response_cors w \<and> rq_method req = ''OPTIONS'' \<and> response_origin w \<noteq> [] \<and>
     (\<exists>meth. only_header req ''Access-Control-Request-Method'' HTTP_MAX_METHOD meth \<and> response_token (Some meth) \<and>
        meth \<in> set (elements allow)) \<and>
     headers_granted (config_str getenv es ''cors.headers'' []) req"
proof -
  obtain m meth where hm: "header_single_value req ''Access-Control-Request-Method'' HTTP_MAX_METHOD = (m, meth)" by fastforce
  obtain h rqd where hh: "header_single_value req ''Access-Control-Request-Headers'' RESPONSE_VALUE_CAP = (h, rqd)" by fastforce
  have one_m: "only_header req ''Access-Control-Request-Method'' HTTP_MAX_METHOD x \<longleftrightarrow> m = 1 \<and> x = meth" for x
    using header_single_value_one [of req "''Access-Control-Request-Method''" HTTP_MAX_METHOD x] hm by auto
  have one_h: "only_header req ''Access-Control-Request-Headers'' RESPONSE_VALUE_CAP x \<longleftrightarrow> h = 1 \<and> x = rqd" for x
    using header_single_value_one [of req "''Access-Control-Request-Headers''" RESPONSE_VALUE_CAP x] hh by auto
  have zero_h: "headers_named req ''Access-Control-Request-Headers'' = [] \<longleftrightarrow> h = 0"
    using header_single_value_zero [of req "''Access-Control-Request-Headers''" RESPONSE_VALUE_CAP] hh by simp
  have rng: "h = - 1 \<or> h = 0 \<or> h = 1"
    using header_single_value_range [of req "''Access-Control-Request-Headers''" RESPONSE_VALUE_CAP] hh by auto
  let ?v = "preflight_headers (config_str getenv es ''cors.headers'' []) rqd"
  have hg: "headers_granted (config_str getenv es ''cors.headers'' []) req \<longleftrightarrow> h = 0 \<or> (h = 1 \<and> ?v = 0)"
    unfolding headers_granted_def one_h zero_h preflight_headers_zero by auto
  have code: "fst (cors_preflight getenv es req allow w) =
      (if \<not> response_cors w \<or> rq_method req \<noteq> ''OPTIONS'' \<or> (m = 0 \<and> h = 0) then 0
       else if m \<noteq> 1 \<or> h < 0 \<or> \<not> response_token (Some meth) then 400
       else if response_origin w = [] \<or> \<not> list_contains allow meth True then 403
       else if h = 1 then (if ?v \<noteq> 0 then ?v else 204) else 204)"
    using hm hh by (simp add: cors_preflight_def Let_def)
  show ?thesis
    unfolding code one_m hg list_contains_exact
    using rng preflight_headers_status response_token_nonempty by auto
qed

section \<open>Preflight requests are answered as configured\<close>

text \<open>C28: A preflight request is granted (status 204) exactly when it is an \<open>OPTIONS\<close> request, its
  single \<open>Origin\<close> header is an origin of the configured list other than the star, its single requested
  method is a method the route allows, and each of the headers it asks for is a token of the configured
  list, up to case; the origin that is then echoed is that one and no other.\<close>

theorem cors_grants_configured:
  assumes "response_origin w = []"
  shows "(fst (cors_preflight getenv es req allow (cors_prepare getenv es req w)) = 204 \<longleftrightarrow>
           rq_method req = ''OPTIONS'' \<and>
           (\<exists>origin. origin_granted (config_str getenv es ''cors.origins'' []) req origin) \<and>
           (\<exists>meth. only_header req ''Access-Control-Request-Method'' HTTP_MAX_METHOD meth \<and> response_token (Some meth) \<and>
              meth \<in> set (elements allow)) \<and>
           headers_granted (config_str getenv es ''cors.headers'' []) req) \<and>
         (let echoed = response_origin (snd (cors_preflight getenv es req allow (cors_prepare getenv es req w))) in
          echoed = [] \<or> origin_granted (config_str getenv es ''cors.origins'' []) req echoed)"
proof -
  let ?w = "cors_prepare getenv es req w" and ?origins = "config_str getenv es ''cors.origins'' []"
  have ex: "response_origin ?w \<noteq> [] \<longleftrightarrow> (\<exists>origin. origin_granted ?origins req origin)"
    using cors_prepare_origin [OF assms] by (metis origin_granted_def)
  have "origin_granted [] req x \<Longrightarrow> False" for x by (auto simp: origin_granted_def elements_Nil)
  then have on: "response_origin ?w \<noteq> [] \<Longrightarrow> response_cors ?w" unfolding ex cors_prepare_enabled by metis
  have keep: "response_origin (snd (cors_preflight getenv es req allow ?w)) = response_origin ?w"
    by (simp add: cors_preflight_def Let_def split: prod.splits)
  show ?thesis
    unfolding cors_preflight_204 ex [symmetric] Let_def keep
    using on cors_prepare_origin [OF assms] by blast
qed

definition demo_preflight :: HttpRequest where
  "demo_preflight =
     \<lparr>rq_method = ''OPTIONS'', rq_path = ''/'', rq_minor = 1,
      rq_headers = [\<lparr>h_name = ''origin'', h_value = ''https://a''\<rparr>,
        \<lparr>h_name = ''Access-Control-Request-Method'', h_value = ''PUT''\<rparr>,
        \<lparr>h_name = ''Access-Control-Request-Headers'', h_value = ''x-one, X-Two''\<rparr>],
      rq_body = None, rq_body_len = 0, rq_content_length = 0, rq_header_len = 0, rq_message_len = 0\<rparr>"

definition demo_cors :: "Entry list" where
  "demo_cors = [\<lparr>e_key = ''cors.origins'', e_value = ''https://b, https://a''\<rparr>,
     \<lparr>e_key = ''cors.headers'', e_value = ''X-One,x-two''\<rparr>]"

lemma demo_preflight_204:
  "fst (cors_preflight (\<lambda>_. None) demo_cors demo_preflight ''GET, PUT''
     (cors_prepare (\<lambda>_. None) demo_cors demo_preflight plain_wire)) = 204"
  by code_simp

theorem cors_grants_configured_witness:
  "response_origin plain_wire = [] \<and>
   (\<exists>origin. origin_granted (config_str (\<lambda>_. None) demo_cors ''cors.origins'' []) demo_preflight origin) \<and>
   headers_granted (config_str (\<lambda>_. None) demo_cors ''cors.headers'' []) demo_preflight"
proof -
  have w: "response_origin plain_wire = []" by (simp add: plain_wire_def)
  show ?thesis
    using cors_grants_configured [OF w, of "\<lambda>_. None" demo_cors demo_preflight "''GET, PUT''"] demo_preflight_204 w by blast
qed

end
