(* ===== verification/Read_Request.thy ===== *)
theory Read_Request
  imports Dyn_Buf Http Server_Send "HOL-Library.Sublist"
begin

text \<open>
  The reading side of a connection (\<open>read_request\<close> and \<open>handle_expect_continue\<close> of
  \<open>src/server/server_http.c\<close>): the loop that receives into the request buffer until the parser has a
  verdict. What the socket delivers is a list of events; a delivery larger than the room offered stays
  with the socket for the next call, and a socket with no further events lets the deadline pass.
\<close>

section \<open>The code\<close>

datatype RecvEvent = Received string | Recv_interrupted | Recv_failed | Recv_closed

abbreviation SERVER_BODY_MAX :: nat where "SERVER_BODY_MAX \<equiv> 8 * 1024 * 1024"
abbreviation SERVER_READ_STEPS :: nat where "SERVER_READ_STEPS \<equiv> 4096"

definition interim :: string where
  "interim = ''HTTP/1.1 100 Continue'' @ [CR, LF, CR, LF]"

text \<open>The results are the return value, the new \<open>already_sent\<close> and what was sent.\<close>

definition handle_expect_continue ::
  "HttpRequest \<Rightarrow> HttpParseResult \<Rightarrow> bool \<Rightarrow> SendEvent list \<Rightarrow> int \<times> bool \<times> string \<times> SendEvent list" where
  "handle_expect_continue req parsed already sevs =
     (if rq_header_len req = 0 \<or> already then (0, already, [], sevs)
      else
        (case http_find_header (take HTTP_MAX_HEADERS (rq_headers req)) ''Expect'' of
           None \<Rightarrow> (0, already, [], sevs)
         | Some expect \<Rightarrow>
             if rq_minor req \<noteq> 1 \<or> length expect \<noteq> 12 \<or> \<not> ci_eq expect ''100-continue'' then (- 3, already, [], sevs)
             else if parsed \<noteq> HTTP_PARSE_OK then
               (case send_all interim sevs of
                  (rc, out, rest) \<Rightarrow> if rc \<noteq> 0 then (- 1, already, out, rest) else (0, True, out, rest))
             else (0, True, [], sevs)))"

text \<open>The part of the loop that looks at the bytes received so far; \<open>None\<close> goes on reading.\<close>

definition read_parse ::
  "string \<Rightarrow> HttpRequest \<Rightarrow> bool \<Rightarrow> SendEvent list \<Rightarrow> int option \<times> HttpRequest \<times> bool \<times> string \<times> SendEvent list" where
  "read_parse buf req already sevs =
     (if buf = [] then (None, req, already, [], sevs)
      else
        (case http_parse_request buf of
           (pr, req1) \<Rightarrow>
             if pr = HTTP_PARSE_ERROR then (Some (- 1), req1, already, [], sevs)
             else if rq_header_len req1 > 0 \<and> rq_content_length req1 \<ge> 0 \<and> rq_content_length req1 > int SERVER_BODY_MAX
             then (Some (- 2), req1, already, [], sevs)
             else
               (case handle_expect_continue req1 pr already sevs of
                  (rc, already1, out, rest) \<Rightarrow>
                    if rc \<noteq> 0 then (Some rc, req1, already1, out, rest)
                    else if pr = HTTP_PARSE_OK then
                      (Some (if rq_body_len req1 > SERVER_BODY_MAX then - 2 else 1), req1, already1, out, rest)
                    else (None, req1, already1, out, rest))))"

text \<open>\<open>recv(sock, buf->data + buf->len, buf->cap - buf->len - 1, 0)\<close> with \<open>d\<close> waiting, and the NUL
  written behind the received bytes: how many bytes came, the buffer, and what still waits.\<close>

definition recv_into :: "DynBuf \<Rightarrow> string \<Rightarrow> mem_error + (nat \<times> DynBuf \<times> string)" where
  "recv_into b d =
     (case db_data b of
        None \<Rightarrow> Inl Out_of_bounds
      | Some blk \<Rightarrow>
          let xs = block_bytes blk; at = unat (db_len b);
              got = min (length d) (unat (db_cap b - db_len b - 1)) in
          if got = 0 then Inr (0, b, d)
          else if at + got < length xs then
            Inr (got, b\<lparr>db_data := Some (set_block_bytes blk (take at xs @ take got d @ NUL # drop (at + got + 1) xs)),
                        db_len := db_len b + of_nat got\<rparr>, drop got d)
          else Inl Out_of_bounds)"

record ReadOutcome =
  ro_rc :: int
  ro_buf :: DynBuf
  ro_req :: HttpRequest
  ro_sent :: string
  ro_recv :: "RecvEvent list"
  ro_send :: "SendEvent list"

definition stop_reading ::
  "int \<Rightarrow> DynBuf \<Rightarrow> HttpRequest \<Rightarrow> string \<Rightarrow> RecvEvent list \<Rightarrow> SendEvent list \<Rightarrow> mem_error + ReadOutcome" where
  "stop_reading rc b req sent revs sevs =
     Inr \<lparr>ro_rc = rc, ro_buf = b, ro_req = req, ro_sent = sent, ro_recv = revs, ro_send = sevs\<rparr>"

text \<open>The first argument counts the steps the guard still allows; \<open>env n\<close> is the allocator in that
  step.\<close>

primrec read_loop ::
  "nat \<Rightarrow> (nat \<Rightarrow> alloc_env) \<Rightarrow> DynBuf \<Rightarrow> HttpRequest \<Rightarrow> bool \<Rightarrow> string \<Rightarrow> RecvEvent list \<Rightarrow> SendEvent list \<Rightarrow>
   mem_error + ReadOutcome" where
  "read_loop 0 env b req already sent revs sevs = stop_reading (- 1) b req sent revs sevs"
| "read_loop (Suc n) env b req already sent revs sevs =
     (case read_parse (contents b) req already sevs of
        (Some rc, req1, already1, out, sevs1) \<Rightarrow> stop_reading rc b req1 (sent @ out) revs sevs1
      | (None, req1, already1, out, sevs1) \<Rightarrow>
          ebind (dynbuf_reserve (env n) b (db_len b + DYNBUF_MIN_CHUNK + 1))
            (\<lambda>(rc, b1).
               if rc \<noteq> 0 then stop_reading (if db_truncated b1 then - 2 else - 1) b1 req1 (sent @ out) revs sevs1
               else
                 (case revs of
                    [] \<Rightarrow> stop_reading (- 1) b1 req1 (sent @ out) [] sevs1
                  | Recv_closed # rest \<Rightarrow>
                      stop_reading (if db_len b1 = 0 then 0 else - 1) b1 req1 (sent @ out) rest sevs1
                  | Recv_failed # rest \<Rightarrow> stop_reading (- 1) b1 req1 (sent @ out) rest sevs1
                  | Recv_interrupted # rest \<Rightarrow> read_loop n env b1 req1 already1 (sent @ out) rest sevs1
                  | Received d # rest \<Rightarrow>
                      ebind (recv_into b1 d)
                        (\<lambda>(got, b2, left).
                           if got = 0 then
                             stop_reading (if db_len b2 = 0 then 0 else - 1) b2 req1 (sent @ out) rest sevs1
                           else
                             read_loop n env b2 req1 already1 (sent @ out)
                               (if left = [] then rest else Received left # rest) sevs1))))"

definition read_request ::
  "(nat \<Rightarrow> alloc_env) \<Rightarrow> DynBuf \<Rightarrow> HttpRequest \<Rightarrow> RecvEvent list \<Rightarrow> SendEvent list \<Rightarrow> mem_error + ReadOutcome" where
  "read_request env b req revs sevs = read_loop SERVER_READ_STEPS env b req False [] revs sevs"

section \<open>The bytes that were received\<close>

fun stream :: "RecvEvent list \<Rightarrow> string" where
  "stream [] = []"
| "stream (Received d # evs) = d @ stream evs"
| "stream (_ # evs) = stream evs"

lemma stream_left:
  "take got d @ stream (if drop got d = [] then rest else Received (drop got d) # rest) = d @ stream rest"
  using append_take_drop_id [of got d] by (cases "drop got d = []") (simp_all flip: append_assoc)

text \<open>A successful reservation leaves room for a chunk and the terminator.\<close>

lemma reserved_room:
  assumes inv: "dynbuf_inv b" and fit: "db_len b + DYNBUF_MIN_CHUNK + 1 \<le> db_cap b"
    and nowrap: "unat (db_len b) + 8193 < 2 ^ 64"
  shows "unat (db_cap b - db_len b - 1) = unat (db_cap b) - unat (db_len b) - 1"
    and "unat (db_len b) + 8193 \<le> unat (db_cap b)"
proof -
  have n: "unat (db_len b + DYNBUF_MIN_CHUNK + 1) = unat (db_len b) + 8193"
    using nowrap by (simp add: unat_word_ariths)
  then show le: "unat (db_len b) + 8193 \<le> unat (db_cap b)" using fit by (simp add: word_le_nat_alt)
  have "unat (db_cap b - db_len b) = unat (db_cap b) - unat (db_len b)"
    using le by (intro unat_sub_no_wrap) (simp add: word_le_nat_alt)
  moreover have "unat (db_cap b - db_len b - 1) = unat (db_cap b - db_len b) - unat (1 :: 64 word)"
    using le calculation by (intro unat_sub_no_wrap) (simp add: word_le_nat_alt)
  ultimately show "unat (db_cap b - db_len b - 1) = unat (db_cap b) - unat (db_len b) - 1" by simp
qed

lemma recv_into_ok:
  assumes inv: "dynbuf_inv b" and fit: "db_len b + DYNBUF_MIN_CHUNK + 1 \<le> db_cap b"
    and nowrap: "unat (db_len b) + 8193 < 2 ^ 64"
  obtains got b' where "recv_into b d = Inr (got, b', drop got d)" "dynbuf_inv b'" "contents b' = contents b @ take got d"
    "got \<le> length d" "got = 0 \<longleftrightarrow> d = []" "min (length d) 8192 \<le> got" "db_max b' = db_max b"
proof -
  note room = reserved_room [OF assms]
  obtain blk where blk: "db_data b = Some blk" "length (block_bytes blk) = unat (db_cap b)"
    using inv room(2) by (cases "db_data b") (auto simp: dynbuf_inv_def intro: block_matches_length)
  define got where "got = min (length d) (unat (db_cap b - db_len b - 1))"
  have got: "got \<le> length d" "unat (db_len b) + got < unat (db_cap b)" "min (length d) 8192 \<le> got" "got = 0 \<longleftrightarrow> d = []"
    using room by (auto simp: got_def min_def split: if_splits)
  have cap: "unat (db_cap b) < 2 ^ 64" by (rule order_less_le_trans [OF unsigned_less]) simp
  have len: "unat (db_len b + of_nat got) = unat (db_len b) + got"
    using got(2) cap by (simp add: unat_word_ariths unat_of_nat)
  define b' where "b' = (if got = 0 then b
     else b\<lparr>db_data := Some (set_block_bytes blk (take (unat (db_len b)) (block_bytes blk) @ take got d @ NUL #
                              drop (unat (db_len b) + got + 1) (block_bytes blk))),
            db_len := db_len b + of_nat got\<rparr>)"
  have "recv_into b d = Inr (got, b', drop got d)"
    using blk got(2) unfolding recv_into_def b'_def by (simp add: Let_def got_def [symmetric])
  moreover have "dynbuf_inv b'"
    using inv blk got len unfolding b'_def dynbuf_inv_def by (cases blk) (auto simp: word_le_nat_alt)
  moreover have "contents b' = contents b @ take got d"
    using blk got len unfolding b'_def contents_def by (cases blk) auto
  moreover have "db_max b' = db_max b" by (simp add: b'_def)
  ultimately show ?thesis using got that by blast
qed

section \<open>What a step answers\<close>

lemma handle_expect_outcome:
  assumes "handle_expect_continue req parsed already sevs = (rc, already1, out, rest)"
  shows "rc \<in> {0, - 1, - 3}" "prefix out interim" "already \<Longrightarrow> out = [] \<and> already1" "rc = 0 \<Longrightarrow> already1 \<or> out = []"
proof -
  obtain src sout srest where s: "send_all interim sevs = (src, sout, srest)" by (metis prod_cases3)
  then have pre: "prefix sout interim" using send_loop_prefix [of 0 interim sevs src sout srest] by (auto simp: send_all_def prefix_def)
  show "rc \<in> {0, - 1, - 3}" "prefix out interim" "already \<Longrightarrow> out = [] \<and> already1" "rc = 0 \<Longrightarrow> already1 \<or> out = []"
    using assms pre s by (auto simp: handle_expect_continue_def split: if_splits option.splits)
qed

lemma read_parse_outcome:
  assumes "read_parse buf req already sevs = (verdict, req1, already1, out, rest)"
  shows "\<And>rc. verdict = Some rc \<Longrightarrow> rc \<in> {1, - 1, - 2, - 3}"
    and "verdict = Some 1 \<Longrightarrow> http_parse_request buf = (HTTP_PARSE_OK, req1) \<and> rq_body_len req1 \<le> SERVER_BODY_MAX"
    and "prefix out interim" "already \<Longrightarrow> out = [] \<and> already1" "verdict = None \<Longrightarrow> already1 \<or> out = []"
proof -
  obtain pr r1 where pr: "http_parse_request buf = (pr, r1)" by fastforce
  obtain rc1 a1 o1 s1 where h: "handle_expect_continue r1 pr already sevs = (rc1, a1, o1, s1)" by (metis prod_cases4)
  note ho = handle_expect_outcome [OF h]
  note simps = assms [unfolded read_parse_def pr h prod.case]
  show "\<And>rc. verdict = Some rc \<Longrightarrow> rc \<in> {1, - 1, - 2, - 3}" using simps ho(1) by (auto split: if_splits)
  show "verdict = Some 1 \<Longrightarrow> http_parse_request buf = (HTTP_PARSE_OK, req1) \<and> rq_body_len req1 \<le> SERVER_BODY_MAX"
    using simps ho(1) pr by (auto split: if_splits)
  show "prefix out interim" using simps ho(2) by (auto split: if_splits)
  show "already \<Longrightarrow> out = [] \<and> already1" using simps ho(3) by (auto split: if_splits)
  show "verdict = None \<Longrightarrow> already1 \<or> out = []" using simps ho(4) by (auto split: if_splits)
qed

definition read_ok :: "DynBuf \<Rightarrow> RecvEvent list \<Rightarrow> ReadOutcome \<Rightarrow> bool" where
  "read_ok b revs r \<longleftrightarrow>
     dynbuf_inv (ro_buf r) \<and> db_max (ro_buf r) = db_max b \<and>
     (\<exists>got. contents (ro_buf r) = contents b @ got \<and> got @ stream (ro_recv r) = stream revs) \<and>
     ro_rc r \<in> {1, 0, - 1, - 2, - 3} \<and>
     (ro_rc r = 1 \<longrightarrow> http_parse_request (contents (ro_buf r)) = (HTTP_PARSE_OK, ro_req r) \<and> rq_body_len (ro_req r) \<le> SERVER_BODY_MAX) \<and>
     (ro_rc r = 0 \<longrightarrow> contents (ro_buf r) = []) \<and>
     prefix (ro_sent r) interim"

lemma read_ok_stop:
  assumes "dynbuf_inv b" "rc \<in> {0, - 1, - 2, - 3}" "rc = 0 \<Longrightarrow> contents b = []" "prefix sent interim"
    "stream revs' = stream revs" "contents b = contents b0" "db_max b = db_max b0"
  shows "\<exists>r. stop_reading rc b req sent revs' sevs = Inr r \<and> read_ok b0 revs r"
  using assms by (auto simp: stop_reading_def read_ok_def)

lemma read_ok_trans:
  assumes "read_ok b1 revs1 r" "contents b1 = contents b @ got" "got @ stream revs1 = stream revs" "db_max b1 = db_max b"
  shows "read_ok b revs r"
  using assms unfolding read_ok_def by (metis append.assoc)

lemma len_nowrap:
  assumes "dynbuf_inv b" "unat (db_max b) \<le> 2 ^ 62"
  shows "unat (db_len b) + 8193 < 2 ^ 64"
proof -
  have "unat (db_len b) \<le> unat (db_cap b)" "unat (db_cap b) \<le> unat (db_max b) \<or> unat (db_cap b) \<le> 8192"
    using assms(1) by (auto simp: dynbuf_inv_def word_le_nat_alt)
  moreover have "(2 :: nat) ^ 62 + 8193 < 2 ^ 64" "8192 + 8193 < (2 :: nat) ^ 64" by simp_all
  ultimately show ?thesis using assms(2) by linarith
qed

lemma db_len_zero: "dynbuf_inv b \<Longrightarrow> db_len b = 0 \<longleftrightarrow> contents b = []"
  using length_contents [of b] by (metis length_0_conv unat_eq_zero)

lemma reserve_outcome:
  assumes inv: "dynbuf_inv b" and mx: "unat (db_max b) \<le> 2 ^ 62"
  obtains rc b1 where "dynbuf_reserve env b (db_len b + DYNBUF_MIN_CHUNK + 1) = Inr (rc, b1)" "dynbuf_inv b1"
    "contents b1 = contents b" "db_len b1 = db_len b" "db_max b1 = db_max b"
    "rc = 0 \<Longrightarrow> db_len b1 + DYNBUF_MIN_CHUNK + 1 \<le> db_cap b1"
proof (rule dynbuf_reserve_cases [OF inv, of "db_len b + DYNBUF_MIN_CHUNK + 1" env], goal_cases too_big enough refused grew)
  case too_big
  have "dynbuf_inv (b\<lparr>db_truncated := True\<rparr>)" "contents (b\<lparr>db_truncated := True\<rparr>) = contents b"
    using inv by (simp_all add: dynbuf_inv_def contents_def split: option.splits)
  then show ?thesis using that [of "- 1" "b\<lparr>db_truncated := True\<rparr>"] too_big by simp
next
  case enough
  then show ?thesis using that [of 0 b] inv by simp
next
  case refused
  then show ?thesis using that [of "- 1" b] inv by simp
next
  case (grew b')
  then show ?thesis using that [of 0 b'] by (simp add: grown_def)
qed

lemma read_loop_ok:
  assumes "dynbuf_inv b" "unat (db_max b) \<le> 2 ^ 62" "prefix sent interim" "already \<or> sent = []"
  shows "\<exists>r. read_loop n env b req already sent revs sevs = Inr r \<and> read_ok b revs r"
  using assms
proof (induction n arbitrary: b req already sent revs sevs)
  case 0
  then show ?case using read_ok_stop [of b "- 1" sent revs revs b] by simp
next
  case (Suc n)
  obtain verdict req1 already1 out sevs1 where rp: "read_parse (contents b) req already sevs = (verdict, req1, already1, out, sevs1)"
    by (metis prod_cases5)
  note po = read_parse_outcome [OF rp]
  have sent: "prefix (sent @ out) interim" using Suc.prems(3,4) po(3,4) by auto
  show ?case
  proof (cases verdict)
    case (Some rc)
    have "\<exists>r. stop_reading rc b req1 (sent @ out) revs sevs1 = Inr r \<and> read_ok b revs r"
      using po(1) [OF Some] po(2) Some Suc.prems(1) sent by (auto simp: stop_reading_def read_ok_def)
    then show ?thesis using rp Some by simp
  next
    case None
    obtain rc b1 where res: "dynbuf_reserve (env n) b (db_len b + DYNBUF_MIN_CHUNK + 1) = Inr (rc, b1)" "dynbuf_inv b1"
      "contents b1 = contents b" "db_len b1 = db_len b" "db_max b1 = db_max b"
      "rc = 0 \<Longrightarrow> db_len b1 + DYNBUF_MIN_CHUNK + 1 \<le> db_cap b1"
      using reserve_outcome [OF Suc.prems(1,2), of "env n"] by metis
    have sent1: "already1 \<or> sent @ out = []" using po(4,5) None Suc.prems(4) by auto
    have zero: "db_len b1 = 0 \<longleftrightarrow> contents b1 = []" using db_len_zero [OF res(2)] .
    have mx: "unat (db_max b1) \<le> 2 ^ 62" using res(5) Suc.prems(2) by simp
    have stop: "\<exists>r. stop_reading c b1 req1 (sent @ out) revs' sevs1 = Inr r \<and> read_ok b revs r"
      if "c \<in> {0, - 1, - 2}" "c = 0 \<Longrightarrow> contents b1 = []" "stream revs' = stream revs" for c revs'
      by (rule read_ok_stop) (use that res sent in auto)
    show ?thesis
    proof (cases "rc = 0")
      case False
      then show ?thesis using rp None res(1) stop [of "- 1" revs] stop [of "- 2" revs] by simp
    next
      case True
      show ?thesis
      proof (cases revs)
        case Nil
        then show ?thesis using rp None res(1) True stop [of "- 1" "[]"] by simp
      next
        case (Cons ev rest)
        show ?thesis
        proof (cases ev)
          case (Received d)
          obtain got b2 where rv: "recv_into b1 d = Inr (got, b2, drop got d)" "dynbuf_inv b2"
            "contents b2 = contents b1 @ take got d" "got \<le> length d" "got = 0 \<longleftrightarrow> d = []" "db_max b2 = db_max b1"
            using recv_into_ok [OF res(2) res(6) [OF True] len_nowrap [OF res(2) mx], of d] by metis
          show ?thesis
          proof (cases "got = 0")
            case z: True
            then have d: "d = []" "contents b2 = contents b1" using rv(3,5) by simp_all
            have "\<exists>r. stop_reading (if db_len b2 = 0 then 0 else - 1) b2 req1 (sent @ out) rest sevs1 = Inr r \<and> read_ok b revs r"
              by (rule read_ok_stop) (use rv d res sent Cons Received db_len_zero [OF rv(2)] in auto)
            then show ?thesis using rp None res(1) True Cons Received rv(1) z by simp
          next
            case nz: False
            let ?revs = "if drop got d = [] then rest else Received (drop got d) # rest"
            have st: "take got d @ stream ?revs = stream revs" unfolding stream_left using Cons Received by simp
            obtain r where r: "read_loop n env b2 req1 already1 (sent @ out) ?revs sevs1 = Inr r" "read_ok b2 ?revs r"
              using Suc.IH [OF rv(2) _ sent sent1] mx rv(6) by metis
            then have "read_ok b revs r"
              using read_ok_trans [OF r(2), of b "take got d" revs] st rv(3,6) res(3,5) by simp
            then show ?thesis using rp None res(1) True Cons Received rv(1) nz r(1) by simp
          qed
        next
          case Recv_interrupted
          obtain r where r: "read_loop n env b1 req1 already1 (sent @ out) rest sevs1 = Inr r" "read_ok b1 rest r"
            using Suc.IH [OF res(2) mx sent sent1] by metis
          then have "read_ok b revs r"
            using read_ok_trans [OF r(2), of b "[]" revs] res(3,5) Cons Recv_interrupted by simp
          then show ?thesis using rp None res(1) True Cons Recv_interrupted r(1) by simp
        next
          case Recv_failed
          then show ?thesis using rp None res(1) True Cons stop [of "- 1" rest] by simp
        next
          case Recv_closed
          then show ?thesis
            using rp None res(1) True Cons stop [of 0 rest] stop [of "- 1" rest] zero by (cases "db_len b1 = 0") simp_all
        qed
      qed
    qed
  qed
qed

section \<open>A request that arrives is read\<close>

lemma parse_ok_body_len:
  "http_parse_request buf = (HTTP_PARSE_OK, req) \<Longrightarrow>
     rq_body_len req = (if rq_content_length req \<ge> 0 then nat (rq_content_length req) else 0)"
  by (auto simp: http_parse_request_def http_frame_def Let_def split: if_splits option.splits prod.splits)

lemma parse_OK_frame:
  assumes "http_parse_request buf = (pr, req)" "pr \<noteq> HTTP_PARSE_ERROR" "header_end buf \<noteq> None"
  obtains p1 req1 p2 req2 where
    "parse_request_line buf (http_request_zero\<lparr>rq_content_length := - 1\<rparr>) = (Some p1, req1)"
    "parse_headers p1 no_headers_seen req1 = (Some p2, req2)" "http_frame buf p2 req2 = (pr, req)"
  using assms by (auto simp: http_parse_request_def Let_def split: if_splits option.splits prod.splits)

lemma http_frame_headers:
  assumes "http_frame buf p req = (pr, req')"
  shows "rq_headers req' = rq_headers req" "rq_content_length req' = rq_content_length req" "rq_minor req' = rq_minor req"
  using assms by (auto simp: http_frame_def Let_def split: if_splits)

text \<open>While the body is still incomplete the parser already reports the headers of the request.\<close>

lemma need_more_headers:
  assumes nm: "http_parse_request buf = (HTTP_PARSE_NEED_MORE, req)" and ok: "http_parse_request (buf @ rest) = (HTTP_PARSE_OK, req')"
  shows "rq_header_len req = 0 \<or> (rq_headers req = rq_headers req' \<and> rq_content_length req = rq_content_length req')"
proof (cases "header_end buf")
  case None
  then show ?thesis using nm by (auto simp: http_parse_request_def http_request_zero_def Let_def split: if_splits)
next
  case (Some h)
  let ?req = "http_request_zero\<lparr>rq_content_length := - 1\<rparr>"
  have he: "header_end buf \<noteq> None" "header_end (buf @ rest) \<noteq> None"
    using Some header_end_append [OF Some, of rest] by simp_all
  have neq: "HTTP_PARSE_NEED_MORE \<noteq> HTTP_PARSE_ERROR" "HTTP_PARSE_OK \<noteq> HTTP_PARSE_ERROR" by simp_all
  obtain p1 req1 p2 req2 where a: "parse_request_line buf ?req = (Some p1, req1)"
    "parse_headers p1 no_headers_seen req1 = (Some p2, req2)" "http_frame buf p2 req2 = (HTTP_PARSE_NEED_MORE, req)"
    by (rule parse_OK_frame [OF nm neq(1) he(1)])
  obtain q1 s1 q2 s2 where b: "parse_request_line (buf @ rest) ?req = (Some q1, s1)"
    "parse_headers q1 no_headers_seen s1 = (Some q2, s2)" "http_frame (buf @ rest) q2 s2 = (HTTP_PARSE_OK, req')"
    by (rule parse_OK_frame [OF ok neq(2) he(2)])
  have q1: "q1 = p1 @ rest" "s1 = req1"
    using parse_request_line_extend [OF he(1), of rest ?req] a(1) b(1) by auto
  have m: "header_end (CR # LF # p1) \<noteq> None"
    using request_line_header_end [of buf ?req p1 req1] a(1) he(1) by auto
  have "s2 = req2" using parse_headers_extend [OF m, of rest no_headers_seen req1] a(2) b(2) q1 by auto
  then show ?thesis using http_frame_headers [OF a(3)] http_frame_headers [OF b(3)] by simp
qed

definition no_expect :: "HttpRequest \<Rightarrow> bool" where
  "no_expect req \<longleftrightarrow> http_find_header (take HTTP_MAX_HEADERS (rq_headers req)) ''Expect'' = None"

lemma read_parse_progress:
  assumes whole: "http_parse_request (buf @ rest) = (HTTP_PARSE_OK, req)" and "no_expect req"
    and cl: "rq_content_length req \<le> int SERVER_BODY_MAX" and ne: "buf \<noteq> []"
  shows "(http_parse_request buf = (HTTP_PARSE_OK, req) \<and> read_parse buf req0 already sevs = (Some 1, req, already, [], sevs)) \<or>
         (\<exists>r. fst (http_parse_request buf) = HTTP_PARSE_NEED_MORE \<and> read_parse buf req0 already sevs = (None, r, already, [], sevs))"
proof (cases "fst (http_parse_request buf) = HTTP_PARSE_NEED_MORE")
  case True
  then obtain r where r: "http_parse_request buf = (HTTP_PARSE_NEED_MORE, r)" by (cases "http_parse_request buf") auto
  have h: "rq_header_len r = 0 \<or> (no_expect r \<and> rq_content_length r \<le> int SERVER_BODY_MAX)"
    using need_more_headers [OF r whole] assms(2) cl by (auto simp: no_expect_def)
  then have "handle_expect_continue r HTTP_PARSE_NEED_MORE already sevs = (0, already, [], sevs)"
    by (auto simp: handle_expect_continue_def no_expect_def)
  then have "read_parse buf req0 already sevs = (None, r, already, [], sevs)"
    using r h ne by (auto simp: read_parse_def)
  then show ?thesis using True by blast
next
  case False
  then have r: "http_parse_request buf = (HTTP_PARSE_OK, req)" using http_parse_stable [OF False, of rest] whole by simp
  have "rq_body_len req \<le> SERVER_BODY_MAX" using parse_ok_body_len [OF r] cl by auto
  moreover have "handle_expect_continue req HTTP_PARSE_OK already sevs = (0, already, [], sevs)"
    using assms(2) by (auto simp: handle_expect_continue_def no_expect_def)
  ultimately have "read_parse buf req0 already sevs = (Some 1, req, already, [], sevs)"
    using r cl ne by (auto simp: read_parse_def)
  then show ?thesis using r by blast
qed

lemma reserve_granted:
  assumes inv: "dynbuf_inv b" and "\<And>c. grants env c" "unat (db_len b) + 8193 \<le> unat (db_max b)" "unat (db_max b) \<le> 2 ^ 62"
  obtains b1 where "dynbuf_reserve env b (db_len b + DYNBUF_MIN_CHUNK + 1) = Inr (0, b1)" "grown b b1"
    "db_len b1 + DYNBUF_MIN_CHUNK + 1 \<le> db_cap b1"
proof -
  have "unat (db_len b + DYNBUF_MIN_CHUNK + 1) = unat (db_len b) + 8193"
    using len_nowrap [OF inv assms(4)] by (simp add: unat_word_ariths)
  then have need: "db_len b + DYNBUF_MIN_CHUNK + 1 \<le> db_max b" using assms(3) by (simp add: word_le_nat_alt)
  show ?thesis
  proof (rule dynbuf_reserve_cases [OF inv, of "db_len b + DYNBUF_MIN_CHUNK + 1" env], goal_cases too_big enough refused grew)
    case too_big
    then show ?thesis using need by simp
  next
    case enough
    then show ?thesis using that [of b] grown_refl [OF inv] by simp
  next
    case refused
    then show ?thesis using assms(2) by simp
  next
    case (grew b')
    then show ?thesis using that [of b'] by (simp add: grown_def)
  qed
qed

lemma read_loop_completes:
  assumes "dynbuf_inv b" "unat (db_max b) \<le> 2 ^ 62" "\<And>i c. grants (env i) c"
    and "http_parse_request (contents b @ concat pieces) = (HTTP_PARSE_OK, req)" "no_expect req"
    and "rq_content_length req \<le> int SERVER_BODY_MAX"
    and "\<And>x. x \<in> set pieces \<Longrightarrow> x \<noteq> [] \<and> length x \<le> 8192"
    and "length pieces < n" "length (contents b @ concat pieces) + 8193 \<le> unat (db_max b)"
  shows "\<exists>r. read_loop n env b req0 already sent (map Received pieces) sevs = Inr r \<and> ro_rc r = 1 \<and> ro_req r = req"
  using assms
proof (induction pieces arbitrary: n b req0)
  case Nil
  then obtain m where n: "n = Suc m" by (cases n) auto
  have "contents b \<noteq> []" using Nil.prems(4) by (auto simp: http_parse_request_def Let_def)
  then have "read_parse (contents b) req0 already sevs = (Some 1, req, already, [], sevs)"
    using read_parse_progress [of "contents b" "[]" req] Nil.prems(4,5,6) by fastforce
  then show ?case using n by (simp add: stop_reading_def)
next
  case (Cons x pieces)
  then obtain m where n: "n = Suc m" by (cases n) auto
  have x: "x \<noteq> []" "length x \<le> 8192" using Cons.prems(7) by simp_all
  have len: "unat (db_len b) + 8193 \<le> unat (db_max b)"
    using Cons.prems(9) length_contents [OF Cons.prems(1)] by simp
  obtain b1 where b1: "dynbuf_reserve (env m) b (db_len b + DYNBUF_MIN_CHUNK + 1) = Inr (0, b1)" "grown b b1"
    "db_len b1 + DYNBUF_MIN_CHUNK + 1 \<le> db_cap b1"
    using reserve_granted [OF Cons.prems(1) Cons.prems(3) len Cons.prems(2)] by metis
  have g: "dynbuf_inv b1" "contents b1 = contents b" "db_max b1 = db_max b" using b1(2) by (simp_all add: grown_def)
  have mx: "unat (db_max b1) \<le> 2 ^ 62" using g(3) Cons.prems(2) by simp
  obtain got b2 where rv: "recv_into b1 x = Inr (got, b2, drop got x)" "dynbuf_inv b2"
    "contents b2 = contents b1 @ take got x" "got \<le> length x" "got = 0 \<longleftrightarrow> x = []" "min (length x) 8192 \<le> got" "db_max b2 = db_max b1"
    using recv_into_ok [OF g(1) b1(3) len_nowrap [OF g(1) mx], of x] by metis
  have all: "got = length x" using rv(4,6) x(2) by simp
  have c2: "contents b2 = contents b @ x" using rv(3) all g(2) by simp
  have rest: "\<exists>r. read_loop m env b2 r0 already sent (map Received pieces) sevs = Inr r \<and> ro_rc r = 1 \<and> ro_req r = req" for r0
  proof (rule Cons.IH)
    show "dynbuf_inv b2" by (rule rv(2))
    show "unat (db_max b2) \<le> 2 ^ 62" using rv(7) mx by simp
    show "length (contents b2 @ concat pieces) + 8193 \<le> unat (db_max b2)" using Cons.prems(9) c2 rv(7) g(3) by simp
    show "http_parse_request (contents b2 @ concat pieces) = (HTTP_PARSE_OK, req)" using Cons.prems(4) c2 by simp
  qed (use Cons.prems n in auto)
  have go_on: "\<exists>r. read_loop n env b req0 already sent (map Received (x # pieces)) sevs = Inr r \<and> ro_rc r = 1 \<and> ro_req r = req"
    if "read_parse (contents b) req0 already sevs = (None, r1, already, [], sevs)" for r1
    using rest [of r1] that n b1(1) rv(1) all x(1) by simp
  show ?case
  proof (cases "contents b = []")
    case True
    then show ?thesis using go_on [of req0] by (simp add: read_parse_def)
  next
    case False
    have "http_parse_request (contents b @ x @ concat pieces) = (HTTP_PARSE_OK, req)" using Cons.prems(4) by simp
    from read_parse_progress [OF this Cons.prems(5,6) False, of req0 already sevs] show ?thesis
      using go_on n by (auto simp: stop_reading_def)
  qed
qed

section \<open>The reader of requests\<close>

text \<open>C8: Reading a request never touches memory outside the request buffer and keeps the buffer well
  formed, whatever the socket delivers and whenever the allocator refuses; the buffer then holds what it
  held before followed by exactly the bytes taken from the socket. The reader accepts only a complete
  request that the parser accepts with a body within the limit, reports the end of the connection only
  when nothing was received, and sends nothing but (a prefix of) one interim response.\<close>

theorem read_request_safe:
  assumes "dynbuf_inv b" "unat (db_max b) \<le> 2 ^ 62"
  shows "\<exists>r got. read_request env b req revs sevs = Inr r \<and> dynbuf_inv (ro_buf r) \<and>
    contents (ro_buf r) = contents b @ got \<and> got @ stream (ro_recv r) = stream revs \<and>
    ro_rc r \<in> {1, 0, - 1, - 2, - 3} \<and>
    (ro_rc r = 1 \<longrightarrow> http_parse_request (contents (ro_buf r)) = (HTTP_PARSE_OK, ro_req r) \<and> rq_body_len (ro_req r) \<le> SERVER_BODY_MAX) \<and>
    (ro_rc r = 0 \<longrightarrow> contents (ro_buf r) = []) \<and> prefix (ro_sent r) interim"
proof -
  obtain r where r: "read_request env b req revs sevs = Inr r" "read_ok b revs r"
    using read_loop_ok [OF assms, of "[]" False SERVER_READ_STEPS env req revs sevs] unfolding read_request_def by auto
  then obtain got where "contents (ro_buf r) = contents b @ got" "got @ stream (ro_recv r) = stream revs"
    unfolding read_ok_def by blast
  with r show ?thesis unfolding read_ok_def by blast
qed

lemma request_buffer: "dynbuf_inv (buf_new 8388608)" "unat (db_max (buf_new 8388608)) = 8388608" "contents (buf_new 8388608) = []"
proof -
  show "dynbuf_inv (buf_new 8388608)" by (rule buf_new_inv) simp
qed (simp_all add: buf_new_def contents_def)

theorem read_request_safe_witness:
  "\<exists>r. read_request (\<lambda>_. env_all) (buf_new 8388608) http_request_zero [Received ''GET '', Recv_interrupted, Received ''/''] [] = Inr r \<and>
     dynbuf_inv (ro_buf r)"
  using read_request_safe [OF request_buffer(1), of "\<lambda>_. env_all" http_request_zero] request_buffer(2) by fastforce

text \<open>C37: A complete request is always read: when the bytes of a request that the parser accepts, with
  a body within the limit and no expectation, arrive in fewer pieces than the guard allows steps, and the
  buffer may grow to hold them, the reader returns that request.\<close>

theorem read_request_completes:
  assumes "dynbuf_inv b" "unat (db_max b) \<le> 2 ^ 62" "\<And>i c. grants (env i) c"
    and "http_parse_request (contents b @ concat pieces) = (HTTP_PARSE_OK, req)" "no_expect req"
    and "rq_content_length req \<le> int SERVER_BODY_MAX"
    and "\<And>x. x \<in> set pieces \<Longrightarrow> x \<noteq> [] \<and> length x \<le> 8192"
    and "length pieces < SERVER_READ_STEPS" "length (contents b @ concat pieces) + 8193 \<le> unat (db_max b)"
  shows "\<exists>r. read_request env b req0 (map Received pieces) sevs = Inr r \<and> ro_rc r = 1 \<and> ro_req r = req"
  unfolding read_request_def using assms by (rule read_loop_completes)

definition demo_message :: string where
  "demo_message = ''GET / HTTP/1.1'' @ [CR, LF] @ ''Host: a'' @ [CR, LF, CR, LF]"

definition demo_pieces :: "string list" where
  "demo_pieces = [take 5 demo_message, drop 5 demo_message]"

definition demo_request :: HttpRequest where
  "demo_request = http_request_zero\<lparr>rq_method := ''GET'', rq_path := ''/'', rq_minor := 1,
     rq_headers := [\<lparr>h_name = ''Host'', h_value = ''a''\<rparr>], rq_content_length := - 1,
     rq_header_len := 27, rq_body := Some 27, rq_message_len := 27\<rparr>"

lemma demo_message_parsed: "http_parse_request demo_message = (HTTP_PARSE_OK, demo_request)"
  unfolding demo_message_def demo_request_def by code_simp

lemma demo_request_plain: "no_expect demo_request" "rq_content_length demo_request = - 1"
  by (simp_all add: no_expect_def demo_request_def header_name_is_def ci_eq_def)

lemma demo_pieces_concat: "concat demo_pieces = demo_message" "length demo_message = 27"
  by (simp_all add: demo_pieces_def demo_message_def)

theorem read_request_completes_witness:
  "\<exists>r. read_request (\<lambda>_. env_all) (buf_new 8388608) http_request_zero (map Received demo_pieces) [] = Inr r \<and>
     ro_rc r = 1 \<and> rq_content_length (ro_req r) = - 1"
proof -
  have "\<exists>r. read_request (\<lambda>_. env_all) (buf_new 8388608) http_request_zero (map Received demo_pieces) [] = Inr r \<and>
      ro_rc r = 1 \<and> ro_req r = demo_request"
  proof (rule read_request_completes [OF request_buffer(1)])
    show "http_parse_request (contents (buf_new 8388608) @ concat demo_pieces) = (HTTP_PARSE_OK, demo_request)"
      unfolding demo_pieces_concat request_buffer(3) by (simp add: demo_message_parsed)
    show "length (contents (buf_new 8388608) @ concat demo_pieces) + 8193 \<le> unat (db_max (buf_new 8388608))"
      unfolding demo_pieces_concat request_buffer by (simp add: demo_pieces_concat(2))
    show "grants env_all c" for c by (simp add: grants_def env_all_def)
    show "x \<noteq> [] \<and> length x \<le> 8192" if "x \<in> set demo_pieces" for x
      using that by (auto simp: demo_pieces_def demo_message_def)
  qed (use demo_request_plain request_buffer(2) in \<open>simp_all add: demo_pieces_def\<close>)
  then show ?thesis using demo_request_plain(2) by auto
qed

end
