(* ===== verification/Static_Files.thy ===== *)
theory Static_Files
  imports Config
begin

text \<open>
  Static files (\<open>src/http/static_files.c\<close>): the configured root and prefix, and the lookup that opens a
  file below the root one component at a time without following links. The file system is an argument:
  a tree of directories, files and links in which a directory handle is the list of names that leads to
  it, with the calls that may be refused as predicates.
\<close>

section \<open>The file system\<close>

datatype Node = Regular string | Directory "(string \<times> Node) list" | Symlink string | Special

record FileSystem =
  fs_tree :: Node
  fs_dup_ok :: bool
  fs_openable :: "string list \<Rightarrow> bool"
  fs_readable :: "string list \<Rightarrow> bool"

primrec node_at :: "string list \<Rightarrow> Node \<Rightarrow> Node option" where
  "node_at [] n = Some n"
| "node_at (x # xs) n =
     (case n of
        Directory es \<Rightarrow> (case map_of es x of None \<Rightarrow> None | Some m \<Rightarrow> node_at xs m)
      | _ \<Rightarrow> None)"

fun is_directory :: "Node \<Rightarrow> bool" where
  "is_directory (Directory es) \<longleftrightarrow> True"
| "is_directory _ \<longleftrightarrow> False"

fun is_link :: "Node \<Rightarrow> bool" where
  "is_link (Symlink t) \<longleftrightarrow> True"
| "is_link _ \<longleftrightarrow> False"

text \<open>\<open>openat\<close> with \<open>O_NOFOLLOW\<close> for a name without a slash; \<open>.\<close> and \<open>..\<close> have their usual meaning.\<close>

definition openat :: "FileSystem \<Rightarrow> string list \<Rightarrow> string \<Rightarrow> bool \<Rightarrow> string list option" where
  "openat fs dir name directory_only =
     (let target = (if name = ''.'' then dir else if name = ''..'' then butlast dir else dir @ [name]) in
      if name = [] \<or> \<not> fs_openable fs target then None
      else
        (case node_at target (fs_tree fs) of
           None \<Rightarrow> None
         | Some n \<Rightarrow> if is_link n \<or> (directory_only \<and> \<not> is_directory n) then None else Some target))"

section \<open>The code\<close>

abbreviation STATIC_MAX_PATH :: nat where "STATIC_MAX_PATH \<equiv> 1024"
abbreviation STATIC_MAX_BYTES :: nat where "STATIC_MAX_BYTES \<equiv> 256 * 1024"

record StaticFiles =
  root_directory :: "string list option"
  g_root :: string
  g_prefix :: string

definition content_types :: "(string \<times> string) list" where
  "content_types =
     [(''.html'', ''text/html; charset=utf-8''), (''.htm'', ''text/html; charset=utf-8''),
      (''.css'', ''text/css; charset=utf-8''), (''.mjs'', ''text/javascript; charset=utf-8''),
      (''.js'', ''text/javascript; charset=utf-8''), (''.json'', ''application/json; charset=utf-8''),
      (''.map'', ''application/json; charset=utf-8''), (''.xml'', ''application/xml; charset=utf-8''),
      (''.txt'', ''text/plain; charset=utf-8''), (''.csv'', ''text/csv; charset=utf-8''),
      (''.svg'', ''image/svg+xml''), (''.png'', ''image/png''), (''.jpg'', ''image/jpeg''),
      (''.jpeg'', ''image/jpeg''), (''.gif'', ''image/gif''), (''.webp'', ''image/webp''),
      (''.ico'', ''image/x-icon''), (''.pdf'', ''application/pdf''), (''.wasm'', ''application/wasm''),
      (''.woff2'', ''font/woff2''), (''.woff'', ''font/woff''), (''.ttf'', ''font/ttf'')]"

definition content_type_for :: "string \<Rightarrow> string" where
  "content_type_for path =
     (case find (\<lambda>(suffix, type). length path > length suffix \<and> drop (length path - length suffix) path = suffix) content_types of
        Some (suffix, type) \<Rightarrow> type
      | None \<Rightarrow> ''application/octet-stream'')"

text \<open>The components of an absolute path, as the system calls that take one resolve it.\<close>

function path_components :: "string \<Rightarrow> string list" where
  "path_components s =
     (case split_at (\<lambda>c. c = CHR ''/'') s of
        (name, None) \<Rightarrow> if name = [] then [] else [name]
      | (name, Some r) \<Rightarrow> if name = [] then path_components r else name # path_components r)"
  by pat_completeness auto
termination
  by (relation "measure length") (auto dest: split_at_shorter [OF sym])

declare path_components.simps [simp del]

definition strip_slashes :: "nat \<Rightarrow> string \<Rightarrow> string" where
  "strip_slashes keep s = take keep s @ rstrip (\<lambda>c. c = CHR ''/'') (drop keep s)"

definition static_files_init ::
  "(string \<Rightarrow> string option) \<Rightarrow> Entry list \<Rightarrow> (string \<Rightarrow> string option) \<Rightarrow> FileSystem \<Rightarrow> int \<times> StaticFiles" where
  "static_files_init getenv es realpath fs =
     (let off = \<lparr>root_directory = None, g_root = [], g_prefix = []\<rparr>;
          configured = config_str getenv es ''static.root'' []
      in if configured = [] then (0, off)
         else
           (case realpath configured of
              None \<Rightarrow> (- 1, off)
            | Some resolved \<Rightarrow>
                if \<not> (case node_at (path_components resolved) (fs_tree fs) of None \<Rightarrow> False | Some n \<Rightarrow> is_directory n)
                then (- 1, off)
                else if resolved = [] \<or> length resolved + 1 \<ge> STATIC_MAX_PATH then (- 1, off)
                else
                  let root = strip_slashes 1 resolved;
                      prefix = config_str getenv es ''static.prefix'' ''/static''
                  in if prefix = [] \<or> hd prefix \<noteq> CHR ''/'' \<or> length prefix + 1 \<ge> STATIC_MAX_PATH then (- 1, off)
                     else
                       let on = \<lparr>root_directory =
                                   (if fs_openable fs (path_components root) then Some (path_components root) else None),
                                 g_root = root, g_prefix = strip_slashes 0 prefix\<rparr>
                       in (if root_directory on = None then - 1 else 0, on)))"

definition static_files_enabled :: "StaticFiles \<Rightarrow> bool" where
  "static_files_enabled st \<longleftrightarrow> root_directory st \<noteq> None"

definition strip_prefix :: "StaticFiles \<Rightarrow> string \<Rightarrow> string option" where
  "strip_prefix st url_path =
     (if take (length (g_prefix st)) url_path \<noteq> g_prefix st then None
      else
        let rest = drop (length (g_prefix st)) url_path in
        if rest \<noteq> [] \<and> hd rest \<noteq> CHR ''/'' then None else Some rest)"

primrec open_parts :: "nat \<Rightarrow> FileSystem \<Rightarrow> string list \<Rightarrow> string \<Rightarrow> string list option" where
  "open_parts 0 fs directory part = None"
| "open_parts (Suc n) fs directory part =
     (case split_at (\<lambda>c. c = CHR ''/'') part of
        (name, slash) \<Rightarrow>
          if name = [] \<or> hd name = CHR ''.'' \<or> BSLASH \<in> set name then None
          else
            (case openat fs directory name (slash \<noteq> None) of
               None \<Rightarrow> None
             | Some target \<Rightarrow> (case slash of None \<Rightarrow> Some target | Some r \<Rightarrow> open_parts n fs target r)))"

definition open_static_path :: "FileSystem \<Rightarrow> string list \<Rightarrow> string \<Rightarrow> string list option" where
  "open_static_path fs root path = (if fs_dup_ok fs then open_parts STATIC_MAX_PATH fs root path else None)"

text \<open>The bytes of the file and its content type.\<close>

definition static_file_read ::
  "FileSystem \<Rightarrow> StaticFiles \<Rightarrow> string \<Rightarrow> nat \<Rightarrow> (string \<times> string) option" where
  "static_file_read fs st url_path cap =
     (case root_directory st of
        None \<Rightarrow> None
      | Some root \<Rightarrow>
          (case strip_prefix st url_path of
             None \<Rightarrow> None
           | Some tail \<Rightarrow>
               let rest = (if tail = [] then ''/'' else tail);
                   suffix = (if tail = [] \<or> last tail = CHR ''/'' then ''index.html'' else []);
                   candidate = (if rest \<noteq> [] \<and> hd rest = CHR ''/'' then tl rest else rest) @ suffix
               in if candidate = [] \<or> length candidate \<ge> STATIC_MAX_PATH then None
                  else
                    (case open_static_path fs root candidate of
                       None \<Rightarrow> None
                     | Some file \<Rightarrow>
                         (case node_at file (fs_tree fs) of
                            Some (Regular bytes) \<Rightarrow>
                              if length bytes > cap \<or> length bytes > STATIC_MAX_BYTES \<or> \<not> fs_readable fs file then None
                              else Some (bytes, content_type_for candidate)
                          | _ \<Rightarrow> None))))"

section \<open>Names and paths\<close>

definition safe_name :: "string \<Rightarrow> bool" where
  "safe_name n \<longleftrightarrow> n \<noteq> [] \<and> hd n \<noteq> CHR ''.'' \<and> CHR ''/'' \<notin> set n \<and> BSLASH \<notin> set n"

definition slashed :: "string list \<Rightarrow> string" where
  "slashed names = concat (map ((#) (CHR ''/'')) names)"

lemma slashed_Cons: "slashed (n # ns) = CHR ''/'' # n @ slashed ns"
  by (simp add: slashed_def)

lemma slashed_Nil [simp]: "slashed [] = []"
  by (simp add: slashed_def)

lemma slashed_tail: "ns \<noteq> [] \<Longrightarrow> CHR ''/'' # tl (slashed ns) = slashed ns"
  by (cases ns) (simp_all add: slashed_Cons)

lemma openat_safe:
  assumes "safe_name n"
  shows "openat fs dir n d = Some target \<longleftrightarrow>
    target = dir @ [n] \<and> fs_openable fs target \<and>
    (\<exists>m. node_at target (fs_tree fs) = Some m \<and> \<not> is_link m \<and> (d \<longrightarrow> is_directory m))"
proof -
  have "n \<noteq> ''.''" "n \<noteq> ''..''" "n \<noteq> []" using assms by (auto simp: safe_name_def)
  then show ?thesis by (auto simp: openat_def Let_def split: option.splits)
qed

lemma node_at_append:
  "node_at (xs @ ys) n = (case node_at xs n of None \<Rightarrow> None | Some m \<Rightarrow> node_at ys m)"
  by (induction xs arbitrary: n) (auto split: Node.splits option.splits)

lemma open_parts_sound:
  assumes "open_parts n fs dir part = Some target"
  shows "\<exists>names. names \<noteq> [] \<and> list_all safe_name names \<and> CHR ''/'' # part = slashed names \<and> target = dir @ names"
  using assms
proof (induction n arbitrary: dir part)
  case (Suc n)
  obtain name slash where sp: "split_at (\<lambda>c. c = CHR ''/'') part = (name, slash)" by fastforce
  have noslash: "CHR ''/'' \<notin> set name" using fst_split_at [of "\<lambda>c. c = CHR ''/''" part] sp by (auto dest: set_takeWhileD)
  let ?bad = "name = [] \<or> hd name = CHR ''.'' \<or> BSLASH \<in> set name"
  have ok: "\<not> ?bad" using Suc.prems sp by (cases ?bad) simp_all
  obtain t where t: "openat fs dir name (slash \<noteq> None) = Some t"
      "(case slash of None \<Rightarrow> Some t | Some r \<Rightarrow> open_parts n fs t r) = Some target"
    using Suc.prems sp ok by (cases "openat fs dir name (slash \<noteq> None)") simp_all
  have safe: "safe_name name" using ok noslash unfolding safe_name_def by blast
  then have t1: "t = dir @ [name]" using openat_safe t(1) by blast
  show ?case
  proof (cases slash)
    case None
    then have "part = name" using split_at_None [of "\<lambda>c. c = CHR ''/''" part name] sp by simp
    then show ?thesis using None t(2) t1 safe by (intro exI [of _ "[name]"]) (simp add: slashed_Cons)
  next
    case (Some r)
    have "split_at (\<lambda>c. c = CHR ''/'') part = (name, Some r)" using sp Some by simp
    from split_at_Some [OF this] have "part = name @ CHR ''/'' # r" by blast
    moreover obtain names where "names \<noteq> []" "list_all safe_name names" "CHR ''/'' # r = slashed names" "target = t @ names"
      using Suc.IH [of t r] t(2) Some by auto
    ultimately show ?thesis using t1 safe by (intro exI [of _ "name # names"]) (simp add: slashed_Cons)
  qed
qed simp

lemma open_parts_target:
  assumes "open_parts n fs dir part = Some target"
  shows "\<exists>m. node_at target (fs_tree fs) = Some m \<and> \<not> is_link m"
  using assms
proof (induction n arbitrary: dir part)
  case (Suc n)
  obtain name slash where sp: "split_at (\<lambda>c. c = CHR ''/'') part = (name, slash)" by fastforce
  let ?bad = "name = [] \<or> hd name = CHR ''.'' \<or> BSLASH \<in> set name"
  have ok: "\<not> ?bad" using Suc.prems sp by (cases ?bad) simp_all
  obtain t where t: "openat fs dir name (slash \<noteq> None) = Some t"
      "(case slash of None \<Rightarrow> Some t | Some r \<Rightarrow> open_parts n fs t r) = Some target"
    using Suc.prems sp ok by (cases "openat fs dir name (slash \<noteq> None)") simp_all
  show ?case
  proof (cases slash)
    case None
    then show ?thesis using t by (auto simp: openat_def Let_def split: if_splits option.splits)
  next
    case (Some r)
    then show ?thesis using Suc.IH t(2) by simp
  qed
qed simp

lemma open_parts_complete:
  assumes "names \<noteq> []" "list_all safe_name names" "\<And>p. fs_openable fs p" "length names \<le> n"
    and "node_at (dir @ names) (fs_tree fs) = Some (Regular bytes)"
  shows "open_parts n fs dir (tl (slashed names)) = Some (dir @ names)"
  using assms
proof (induction names arbitrary: dir n)
  case (Cons name names)
  then obtain m where n: "n = Suc m" by (cases n) auto
  have safe: "safe_name name" using Cons.prems(2) by simp
  then have ok: "\<not> (name = [] \<or> hd name = CHR ''.'' \<or> BSLASH \<in> set name)" "\<forall>c \<in> set name. c \<noteq> CHR ''/''"
    by (auto simp: safe_name_def)
  obtain d where d: "node_at (dir @ [name]) (fs_tree fs) = Some d" "node_at names d = Some (Regular bytes)"
    using Cons.prems(5) node_at_append [of "dir @ [name]" names "fs_tree fs"] by (auto split: option.splits)
  show ?case
  proof (cases names)
    case Nil
    then have "openat fs dir name False = Some (dir @ [name])" using openat_safe [OF safe] Cons.prems(3) d by auto
    moreover have "split_at (\<lambda>c. c = CHR ''/'') name = (name, None)" using ok(2) by (intro split_at_none) simp
    ultimately show ?thesis using n Nil ok(1) by (simp add: slashed_Cons)
  next
    case more: (Cons name' names')
    have "is_directory d" "\<not> is_link d" using d(2) more by (cases d; simp)+
    then have oa: "openat fs dir name True = Some (dir @ [name])" using openat_safe [OF safe] Cons.prems(3) d(1) by auto
    have "split_at (\<lambda>c. c = CHR ''/'') (name @ CHR ''/'' # tl (slashed names)) = (name, Some (tl (slashed names)))"
      using ok(2) by (intro split_at_append) simp_all
    moreover have "tl (slashed (name # names)) = name @ CHR ''/'' # tl (slashed names)"
      using slashed_tail [of names] more by (simp add: slashed_Cons)
    moreover have "open_parts m fs (dir @ [name]) (tl (slashed names)) = Some ((dir @ [name]) @ names)"
      by (rule Cons.IH) (use more Cons.prems n in auto)
    ultimately show ?thesis using n ok(1) oa by simp
  qed
qed simp

lemma last_slashed:
  assumes "names \<noteq> []" "list_all safe_name names"
  shows "last (slashed names) \<noteq> CHR ''/''"
proof -
  obtain ns n where ns: "names = ns @ [n]" using assms(1) by (metis append_butlast_last_id)
  have n: "n \<noteq> []" "CHR ''/'' \<notin> set n" using assms(2) ns by (auto simp: safe_name_def)
  then have "last n \<noteq> CHR ''/''" using last_in_set [OF n(1)] by (intro notI) simp
  moreover have "slashed names = slashed ns @ CHR ''/'' # n" by (simp add: ns slashed_def)
  ultimately show ?thesis using n(1) by simp
qed

lemma length_slashed: "list_all safe_name names \<Longrightarrow> 2 * length names \<le> length (slashed names)"
proof (induction names)
  case (Cons n names)
  then obtain c m where "n = c # m" by (auto simp: safe_name_def neq_Nil_conv)
  with Cons show ?case by (simp add: slashed_Cons)
qed simp

lemma strip_prefix_Some:
  "strip_prefix st url = Some tail \<longleftrightarrow> url = g_prefix st @ tail \<and> (tail = [] \<or> hd tail = CHR ''/'')"
proof
  assume a: "strip_prefix st url = Some tail"
  then have "take (length (g_prefix st)) url = g_prefix st" "tail = drop (length (g_prefix st)) url" "tail = [] \<or> hd tail = CHR ''/''"
    by (auto simp: strip_prefix_def Let_def split: if_splits)
  then show "url = g_prefix st @ tail \<and> (tail = [] \<or> hd tail = CHR ''/'')" by (metis append_take_drop_id)
qed (auto simp: strip_prefix_def)

section \<open>What is served\<close>

text \<open>C19: Only files below the configured root are served: the bytes sent are those of a regular file
  reached from the root directory through names that are not hidden, have no separator and no backslash,
  without following a link, and not larger than the limits; the URL is the configured prefix followed by
  those names, or the directory of an \<open>index.html\<close>.\<close>

theorem static_file_confined:
  assumes "static_file_read fs st url cap = Some (bytes, ctype)"
  shows "\<exists>root names. root_directory st = Some root \<and> names \<noteq> [] \<and> list_all safe_name names \<and>
    node_at (root @ names) (fs_tree fs) = Some (Regular bytes) \<and> length bytes \<le> cap \<and> length bytes \<le> STATIC_MAX_BYTES \<and>
    (url = g_prefix st @ slashed names \<or> url @ ''index.html'' = g_prefix st @ slashed names \<or>
     url @ ''/index.html'' = g_prefix st @ slashed names) \<and>
    ctype = content_type_for (tl (slashed names))"
proof -
  obtain root tail where r: "root_directory st = Some root" "strip_prefix st url = Some tail"
    using assms by (auto simp: static_file_read_def split: option.splits)
  define suffix where "suffix = (if tail = [] \<or> last tail = CHR ''/'' then ''index.html'' else [])"
  define candidate where "candidate = (if tail = [] then [] else tl tail) @ suffix"
  have url: "url = g_prefix st @ tail" and tl: "tail \<noteq> [] \<Longrightarrow> CHR ''/'' # tl tail = tail"
    using r(2) unfolding strip_prefix_Some by (auto simp: neq_Nil_conv)
  have cand: "(if (if tail = [] then ''/'' else tail) \<noteq> [] \<and> hd (if tail = [] then ''/'' else tail) = CHR ''/''
      then List.tl (if tail = [] then ''/'' else tail) else (if tail = [] then ''/'' else tail)) @ suffix = candidate"
    using r(2) unfolding strip_prefix_Some candidate_def by auto
  obtain target where f: "open_static_path fs root candidate = Some target" "node_at target (fs_tree fs) = Some (Regular bytes)"
      "length bytes \<le> cap" "length bytes \<le> STATIC_MAX_BYTES" "ctype = content_type_for candidate"
    using assms unfolding static_file_read_def r option.case Let_def suffix_def [symmetric] cand
    by (auto split: if_splits option.splits Node.splits)
  obtain names where n: "names \<noteq> []" "list_all safe_name names" "CHR ''/'' # candidate = slashed names" "target = root @ names"
    using open_parts_sound [of STATIC_MAX_PATH fs root candidate target] f(1) by (auto simp: open_static_path_def split: if_splits)
  have "url = g_prefix st @ slashed names \<or> url @ ''index.html'' = g_prefix st @ slashed names \<or>
      url @ ''/index.html'' = g_prefix st @ slashed names"
    using url tl n(3) unfolding candidate_def suffix_def
    by (cases "tail = []"; cases "last tail = CHR ''/''") (simp_all flip: append_Cons)
  moreover have "candidate = List.tl (slashed names)" using n(3) by (metis list.sel(3))
  ultimately show ?thesis using r(1) n f by blast
qed

definition demo_fs :: FileSystem where
  "demo_fs = \<lparr>fs_tree = Directory [(''srv'', Directory [(''a'', Directory [(''index.html'', Regular ''hi'')]), (''l'', Symlink ''/etc'')])],
     fs_dup_ok = True, fs_openable = (\<lambda>_. True), fs_readable = (\<lambda>_. True)\<rparr>"

definition demo_static :: StaticFiles where
  "demo_static = \<lparr>root_directory = Some [''srv''], g_root = ''/srv'', g_prefix = ''/static''\<rparr>"

lemma demo_static_read: "static_file_read demo_fs demo_static ''/static/a/'' 100 = Some (''hi'', ''text/html; charset=utf-8'')"
proof -
  have "open_parts STATIC_MAX_PATH demo_fs [''srv''] (tl (slashed [''a'', ''index.html''])) = Some ([''srv''] @ [''a'', ''index.html''])"
    by (rule open_parts_complete) (simp_all add: demo_fs_def safe_name_def)
  then show ?thesis
    by (simp add: static_file_read_def open_static_path_def strip_prefix_def demo_fs_def demo_static_def slashed_def
        content_type_for_def content_types_def Let_def)
qed

theorem static_file_confined_witness:
  "\<exists>names. list_all safe_name names \<and> node_at ([''srv''] @ names) (fs_tree demo_fs) = Some (Regular ''hi'')"
  using static_file_confined [OF demo_static_read] by (auto simp: demo_static_def)

text \<open>Every file below the root with an acceptable name and size is available at the prefix followed
  by its path.\<close>

theorem static_file_available:
  assumes "root_directory st = Some root" "names \<noteq> []" "list_all safe_name names"
    and "node_at (root @ names) (fs_tree fs) = Some (Regular bytes)"
    and "length bytes \<le> cap" "length bytes \<le> STATIC_MAX_BYTES" "length (slashed names) \<le> STATIC_MAX_PATH"
    and "fs_dup_ok fs" "\<And>p. fs_openable fs p" "fs_readable fs (root @ names)"
  shows "static_file_read fs st (g_prefix st @ slashed names) cap = Some (bytes, content_type_for (tl (slashed names)))"
proof -
  let ?t = "slashed names"
  obtain n ns where ns: "names = n # ns" "n \<noteq> []" using assms(2,3) by (cases names) (auto simp: safe_name_def)
  then have t: "?t \<noteq> []" "hd ?t = CHR ''/''" "tl ?t \<noteq> []" by (simp_all add: slashed_Cons)
  have "length names \<le> STATIC_MAX_PATH" using length_slashed [OF assms(3)] assms(7) by simp
  from open_parts_complete [OF assms(2,3,9) this assms(4)]
  have "open_static_path fs root (tl ?t) = Some (root @ names)" using assms(8) by (simp add: open_static_path_def)
  moreover have "strip_prefix st (g_prefix st @ ?t) = Some ?t" using t by (simp add: strip_prefix_Some)
  moreover have "length (tl ?t) < STATIC_MAX_PATH" using assms(7) t(1) by (cases ?t) simp_all
  ultimately show ?thesis
    using assms(1,4,5,6,10) t last_slashed [OF assms(2,3)] by (simp add: static_file_read_def Let_def)
qed

theorem static_file_available_witness:
  "static_file_read demo_fs demo_static (g_prefix demo_static @ slashed [''a'', ''index.html'']) 100 =
     Some (''hi'', content_type_for (tl (slashed [''a'', ''index.html''])))"
  by (rule static_file_available [of _ "[''srv'']"])
    (simp_all add: demo_fs_def demo_static_def safe_name_def slashed_def)

end
