(* ===== verification/Template.thy ===== *)
theory Template
  imports Request_State Config Arena
begin

text \<open>
  Templates (\<open>src/http/template.c\<close>) with the field access and the request allocation they use from
  \<open>src/runtime/runtime_api.c\<close>. A template is a text with \<open>{{name}}\<close> holes and at most one repeated
  block between \<open>{{#each}}\<close> and \<open>{{/each}}\<close>. The file system is reached through two arguments,
  \<open>realpath\<close> and \<open>file_bytes\<close> (the contents of a regular file that can be read); \<open>text_at\<close> and
  \<open>fmt_double\<close> are those of the JSON writer.
\<close>

section \<open>The code\<close>

abbreviation TEMPLATE_MAX_PATH :: nat where "TEMPLATE_MAX_PATH \<equiv> 1024"
abbreviation TEMPLATE_MAX_BYTES :: nat where "TEMPLATE_MAX_BYTES \<equiv> 128 * 1024"
abbreviation TEMPLATE_MAX_OUT :: nat where "TEMPLATE_MAX_OUT \<equiv> 256 * 1024"
abbreviation TEMPLATE_MAX_VALUE :: nat where "TEMPLATE_MAX_VALUE \<equiv> 1024"

text \<open>The offset of the first occurrence.\<close>

fun find_bytes :: "string \<Rightarrow> string \<Rightarrow> nat option" where
  "find_bytes [] needle = None"
| "find_bytes (c # h) needle =
     (if needle = [] \<or> length (c # h) < length needle then None
      else if take (length needle) (c # h) = needle then Some 0
      else map_option Suc (find_bytes h needle))"

record Writer =
  w_out :: string
  w_cap :: nat
  w_used :: nat
  w_overflow :: bool

definition write_raw :: "string \<Rightarrow> Writer \<Rightarrow> Writer" where
  "write_raw t w =
     (if w_overflow w then w
      else if length t \<ge> w_cap w - w_used w then w\<lparr>w_overflow := True\<rparr>
      else w\<lparr>w_out := (poke (w_out w) (w_used w) t)[w_used w + length t := NUL], w_used := w_used w + length t\<rparr>)"

definition html_char :: "char \<Rightarrow> string" where
  "html_char c =
     (if c = CHR ''&'' then ''&amp;'' else if c = CHR ''<'' then ''&lt;'' else if c = CHR ''>'' then ''&gt;''
      else if c = DQUOTE then ''&quot;'' else if c = CHR 0x27 then ''&#39;'' else [c])"

fun write_escaped_loop :: "string \<Rightarrow> Writer \<Rightarrow> Writer" where
  "write_escaped_loop [] w = w"
| "write_escaped_loop (c # t) w = (if w_overflow w then w else write_escaped_loop t (write_raw (html_char c) w))"

definition write_escaped :: "string \<Rightarrow> Writer \<Rightarrow> Writer" where
  "write_escaped t w = write_escaped_loop (cstr t) w"

text \<open>The root directory; \<open>is_dir\<close> is what \<open>stat\<close> says of a path.\<close>

definition template_init ::
  "(string \<Rightarrow> string option) \<Rightarrow> Entry list \<Rightarrow> (string \<Rightarrow> string option) \<Rightarrow> (string \<Rightarrow> bool) \<Rightarrow> int \<times> string" where
  "template_init getenv es realpath is_dir =
     (let configured = config_str getenv es ''templates.root'' [] in
      if configured = [] then (0, [])
      else
        (case realpath configured of
           None \<Rightarrow> (- 1, [])
         | Some resolved \<Rightarrow>
             if \<not> is_dir resolved then (- 1, [])
             else
               let troot = take 1 resolved @ rstrip (\<lambda>c. c = CHR ''/'') (drop 1 resolved) in
               if troot = [] \<or> length troot + 1 \<ge> TEMPLATE_MAX_PATH then (- 1, []) else (0, troot)))"

definition template_enabled :: "string \<Rightarrow> bool" where
  "template_enabled troot \<longleftrightarrow> troot \<noteq> []"

definition name_char :: "char \<Rightarrow> bool" where
  "name_char c \<longleftrightarrow> is_lower c \<or> is_upper c \<or> is_digit c \<or> c = CHR ''.'' \<or> c = CHR ''_'' \<or> c = CHR ''-''"

fun name_ok_loop :: "string \<Rightarrow> bool" where
  "name_ok_loop [] \<longleftrightarrow> True"
| "name_ok_loop (c # r) \<longleftrightarrow> name_char c \<and> \<not> (c = CHR ''.'' \<and> r \<noteq> [] \<and> hd r = CHR ''.'') \<and> name_ok_loop r"

definition name_safe :: "string \<Rightarrow> bool" where
  "name_safe name \<longleftrightarrow> name \<noteq> [] \<and> length name \<le> 128 \<and> name_ok_loop name"

definition load_template ::
  "(string \<Rightarrow> string option) \<Rightarrow> (string \<Rightarrow> string option) \<Rightarrow> string \<Rightarrow> string \<Rightarrow> nat \<Rightarrow> string option" where
  "load_template realpath file_bytes troot name cap =
     (if \<not> template_enabled troot \<or> \<not> name_safe name then None
      else
        let candidate = troot @ ''/'' @ name in
        if length candidate \<ge> TEMPLATE_MAX_PATH then None
        else
          (case realpath candidate of
             None \<Rightarrow> None
           | Some resolved \<Rightarrow>
               if take (length troot) resolved \<noteq> troot \<or> take 1 (drop (length troot) resolved) \<noteq> ''/'' then None
               else
                 (case file_bytes resolved of
                    None \<Rightarrow> None
                  | Some bytes \<Rightarrow> if length bytes \<ge> cap then None else Some bytes)))"

definition field_text ::
  "(size_t \<Rightarrow> string) \<Rightarrow> (64 word \<Rightarrow> string) \<Rightarrow> TypeInfo option \<Rightarrow> memory option \<Rightarrow> string \<Rightarrow> nat \<Rightarrow> string option" where
  "field_text text_at fmt_double type row name cap =
     (case (type, row) of
        (Some t, Some obj) \<Rightarrow>
          if cap = 0 then None
          else
            (case find (\<lambda>f. fi_name f = Some name) (fields_of t) of
               None \<Rightarrow> None
             | Some f0 \<Rightarrow>
                 if field_is_null f0 obj then Some []
                 else
                   let f = field_scalar f0;
                       written =
                         (case fi_kind f of
                            FIELD_STR \<Rightarrow> Some (let v = read_str obj (fi_offset f) in if v \<noteq> 0 then cstr (text_at v) else [])
                          | FIELD_INT \<Rightarrow> Some (int_text (read_int obj (fi_offset f)))
                          | FIELD_LONG \<Rightarrow> Some (int_text (read_long obj (fi_offset f)))
                          | FIELD_DOUBLE \<Rightarrow> Some (fmt_double (read_double obj (fi_offset f)))
                          | FIELD_BOOL \<Rightarrow> Some (if read_bool obj (fi_offset f) then ''true'' else ''false'')
                          | FIELD_OBJECT \<Rightarrow> None)
                   in (case written of None \<Rightarrow> None | Some v \<Rightarrow> if length v \<ge> cap then None else Some v))
      | _ \<Rightarrow> None)"

text \<open>What \<open>write_row\<close> puts in a hole: None leaves it empty.\<close>

definition hole_value ::
  "(size_t \<Rightarrow> string) \<Rightarrow> (64 word \<Rightarrow> string) \<Rightarrow> TypeInfo option \<Rightarrow> memory option \<Rightarrow> int \<Rightarrow> int \<Rightarrow> string \<Rightarrow> string option" where
  "hole_value text_at fmt_double type row index rows_count key =
     (if key = ''index'' then Some (int_text index)
      else if key = ''count'' then Some (int_text rows_count)
      else if row \<noteq> None then field_text text_at fmt_double type row key TEMPLATE_MAX_VALUE
      else None)"

text \<open>The first argument is \<open>hole_value\<close> with everything but the key; \<open>block\<close> is the part still to be
  written. The closing braces are behind the opening ones, so the subtraction does not wrap.\<close>

function write_row :: "(string \<Rightarrow> string option) \<Rightarrow> string \<Rightarrow> Writer \<Rightarrow> Writer" where
  "write_row value_of block w =
     (if block = [] \<or> w_overflow w then w
      else
        (case find_bytes block ''{{'' of
           None \<Rightarrow> write_raw block w
         | Some i \<Rightarrow>
             let w1 = write_raw (take i block) w; hole = drop i block in
             (case find_bytes hole ''}}'' of
                None \<Rightarrow> write_raw hole w1
              | Some j \<Rightarrow>
                  let key = cstr (take (min (j - 2) 63) (drop 2 hole));
                      w2 = (case value_of key of None \<Rightarrow> w1 | Some v \<Rightarrow> write_escaped v w1)
                  in write_row value_of (drop (j + 2) hole) w2)))"
  by pat_completeness auto
termination
  by (relation "measure (\<lambda>(v, block, w). length block)") auto

declare write_row.simps [simp del]

text \<open>The rows of the repeated block.\<close>

fun write_rows :: "(int \<Rightarrow> string \<Rightarrow> string option) \<Rightarrow> string \<Rightarrow> nat list \<Rightarrow> Writer \<Rightarrow> Writer" where
  "write_rows value_of block [] w = w"
| "write_rows value_of block (i # is) w = write_rows value_of block is (write_row (value_of (int i)) block w)"

definition finish :: "Writer \<Rightarrow> RequestState \<Rightarrow> string \<times> RequestState" where
  "finish w st =
     (if w_overflow w then ([], request_fail 500 (Some ''rendered page exceeds the response limit'') st)
      else (cstr (w_out w), st))"

definition request_alloc ::
  "chunk_env \<Rightarrow> Arena option \<Rightarrow> size_t \<Rightarrow> RequestState \<Rightarrow> nat option \<times> Arena option \<times> RequestState" where
  "request_alloc env arena sz st =
     (case (case arena of
              Some a \<Rightarrow>
                if ar_max a \<noteq> 0 \<and> sz > 0 then (case arena_alloc env a sz of (m, a') \<Rightarrow> (m, Some a')) else (None, arena)
            | None \<Rightarrow> (None, None)) of
        (None, arena') \<Rightarrow> (None, arena', request_fail 500 (Some ''request allocation failed'') st)
      | (Some m, arena') \<Rightarrow> (Some m, arena', st))"

text \<open>\<open>memory0\<close> is what the allocated buffer holds.\<close>

definition render_page ::
  "(size_t \<Rightarrow> string) \<Rightarrow> (64 word \<Rightarrow> string) \<Rightarrow> string \<Rightarrow> RowList \<Rightarrow> string \<Rightarrow> Writer" where
  "render_page text_at fmt_double source rows memory0 =
     (let w = \<lparr>w_out = memory0[0 := NUL], w_cap = TEMPLATE_MAX_OUT, w_used = 0, w_overflow = False\<rparr>;
          plain = hole_value text_at fmt_double (rl_type rows) None 0 (rl_count rows);
          whole = write_row plain source w
      in case (find_bytes source ''{{#each}}'', find_bytes source ''{{/each}}'') of
           (Some a, Some b) \<Rightarrow>
             if b < a then whole
             else
               let block = take (b - (a + 9)) (drop (a + 9) source);
                   w1 = write_row plain (take a source) w;
                   w2 = (case (rl_type rows, rl_items rows) of
                           (Some t, Some items) \<Rightarrow>
                             write_rows
                               (\<lambda>i. hole_value text_at fmt_double (rl_type rows) (Some (drop (nat i * unat (ti_size t)) items)) i (rl_count rows))
                               block [0..<min (nat (rl_count rows)) PAGE_MAX] w1
                         | _ \<Rightarrow> w1)
               in write_row plain (drop (b + 9) source) w2
         | _ \<Rightarrow> whole)"

definition render_template ::
  "(size_t \<Rightarrow> string) \<Rightarrow> (64 word \<Rightarrow> string) \<Rightarrow> (string \<Rightarrow> string option) \<Rightarrow> (string \<Rightarrow> string option) \<Rightarrow> string \<Rightarrow>
   chunk_env \<Rightarrow> Arena option \<Rightarrow> string \<Rightarrow> string option \<Rightarrow> RowList \<Rightarrow> RequestState \<Rightarrow> string \<times> Arena option \<times> RequestState" where
  "render_template text_at fmt_double realpath file_bytes troot env arena memory0 name rows st =
     (case name of
        None \<Rightarrow> ([], arena, request_fail 500 (Some ''template name missing'') st)
      | Some n \<Rightarrow>
          (case load_template realpath file_bytes troot n TEMPLATE_MAX_BYTES of
             None \<Rightarrow> ([], arena, request_fail 500 (Some ''template not found or too large'') st)
           | Some source \<Rightarrow>
               (case request_alloc env arena (of_nat TEMPLATE_MAX_OUT) st of
                  (None, arena', st') \<Rightarrow> ([], arena', st')
                | (Some m, arena', st') \<Rightarrow>
                    (case finish (render_page text_at fmt_double source rows memory0) st' of (page, st'') \<Rightarrow> (page, arena', st'')))))"

section \<open>The template writer is a bounded output\<close>

definition writer_wf :: "Writer \<Rightarrow> bool" where
  "writer_wf w \<longleftrightarrow> length (w_out w) = w_cap w \<and> w_used w < w_cap w \<and> w_out w ! w_used w = NUL"

definition writer_view :: "Writer \<Rightarrow> string option" where
  "writer_view w = (if w_overflow w then None else Some (take (w_used w) (w_out w)))"

abbreviation puts :: "(Writer \<Rightarrow> Writer) \<Rightarrow> string \<Rightarrow> bool" where
  "puts \<equiv> emits writer_wf writer_view w_cap"

interpretation tw: bounded_writer writer_wf writer_view w_cap write_raw
proof
  fix w t u
  assume wf: "writer_wf w"
  show "writer_wf (write_raw t w)" "w_cap (write_raw t w) = w_cap w"
    using wf by (auto simp: write_raw_def writer_wf_def length_poke)
  show "writer_view (write_raw t w) = extend_text (w_cap w) (writer_view w) t"
    using wf by (auto simp: write_raw_def writer_wf_def writer_view_def extend_text_def poke_def)
  show "writer_view w = Some u \<Longrightarrow> length u < w_cap w"
    using wf by (auto simp: writer_wf_def writer_view_def split: if_splits)
qed

lemma full_iff: "w_overflow w \<longleftrightarrow> writer_view w = None"
  by (simp add: writer_view_def)

definition html_escape :: "string \<Rightarrow> string" where
  "html_escape t = concat (map html_char t)"

lemma puts_escaped_loop: "puts (write_escaped_loop t) (html_escape t)"
proof (induction t)
  case Nil
  show ?case using tw.emits_nothing by (simp add: html_escape_def)
next
  case (Cons c t)
  have "puts (\<lambda>w. write_escaped_loop t (write_raw (html_char c) w)) (html_char c @ html_escape t)"
    by (rule emits_comp [OF tw.emits_add Cons])
  from tw.emits_unless_full [OF this, of w_overflow] show ?case
    by (simp add: full_iff html_escape_def)
qed

lemma puts_escaped: "puts (write_escaped v) (html_escape (cstr v))"
  unfolding write_escaped_def by (rule puts_escaped_loop)

section \<open>Escaping\<close>

text \<open>Reading the five entities back.\<close>

fun html_unescape :: "string \<Rightarrow> string" where
  "html_unescape [] = []"
| "html_unescape (c # t) =
     (if c \<noteq> CHR ''&'' then c # html_unescape t
      else if take 4 t = ''amp;'' then CHR ''&'' # html_unescape (drop 4 t)
      else if take 3 t = ''lt;'' then CHR ''<'' # html_unescape (drop 3 t)
      else if take 3 t = ''gt;'' then CHR ''>'' # html_unescape (drop 3 t)
      else if take 5 t = ''quot;'' then DQUOTE # html_unescape (drop 5 t)
      else if take 4 t = ''#39;'' then CHR 0x27 # html_unescape (drop 4 t)
      else c # html_unescape t)"

definition markup :: "char set" where
  "markup = {CHR ''<'', CHR ''>'', DQUOTE, CHR 0x27}"

lemma html_unescape_char: "html_unescape (html_char c @ t) = c # html_unescape t"
  by (simp add: html_char_def)

lemma html_escape_roundtrip: "html_unescape (html_escape t) = t"
  by (induction t) (simp_all add: html_escape_def html_unescape_char)

lemma html_char_no_markup: "set (html_char c) \<inter> markup = {}"
  by (simp add: html_char_def markup_def)

lemma html_escape_no_markup: "set (html_escape t) \<inter> markup = {}"
  using html_char_no_markup by (auto simp: html_escape_def)

section \<open>What a template says\<close>

datatype Piece = Lit string | Hole string

lemma find_bytes_bound: "find_bytes h needle = Some i \<Longrightarrow> i + length needle \<le> length h \<and> take (length needle) (drop i h) = needle"
proof (induction h needle arbitrary: i rule: find_bytes.induct)
  case (2 c h needle)
  then show ?case by (cases i) (auto split: if_splits)
qed simp

function pieces :: "string \<Rightarrow> Piece list" where
  "pieces block =
     (if block = [] then []
      else
        (case find_bytes block ''{{'' of
           None \<Rightarrow> [Lit block]
         | Some i \<Rightarrow>
             (case find_bytes (drop i block) ''}}'' of
                None \<Rightarrow> [Lit block]
              | Some j \<Rightarrow> Lit (take i block) # Hole (take (j - 2) (drop (i + 2) block)) # pieces (drop (i + j + 2) block))))"
  by pat_completeness auto
termination
  by (relation "measure length") auto

declare pieces.simps [simp del]

primrec piece_source :: "Piece \<Rightarrow> string" where
  "piece_source (Lit t) = t"
| "piece_source (Hole k) = ''{{'' @ k @ ''}}''"

lemma drop_split: "drop i xs = take k (drop i xs) @ drop (i + k) xs"
  by (metis append_take_drop_id drop_drop add.commute)

text \<open>The pieces are the template: nothing is lost or moved.\<close>

lemma find_bytes_first: "find_bytes h needle = Some j \<Longrightarrow> k < j \<Longrightarrow> take (length needle) (drop k h) \<noteq> needle"
proof (induction h needle arbitrary: j k rule: find_bytes.induct)
  case (2 c h needle)
  then show ?case by (cases k) (auto split: if_splits)
qed simp

lemma closing_after_opening:
  assumes "take 2 t = ''{{''" "find_bytes t ''}}'' = Some j"
  shows "2 \<le> j"
proof -
  obtain r where t: "t = CHR ''{'' # CHR ''{'' # r" using assms(1) by (auto simp: take_2_iff)
  have "take 2 (drop j t) = ''}}''" using find_bytes_bound [OF assms(2)] by (simp add: numeral_2_eq_2)
  then show ?thesis unfolding t by (cases j rule: nat.exhaust; cases "j - 1") (auto simp: numeral_2_eq_2)
qed

lemma pieces_source: "concat (map piece_source (pieces block)) = block"
proof (induction block rule: pieces.induct)
  case (1 block)
  show ?case
  proof (cases "block = [] \<or> find_bytes block ''{{'' = None")
    case True
    then show ?thesis by (subst pieces.simps) auto
  next
    case False
    then obtain i where i: "block \<noteq> []" "find_bytes block ''{{'' = Some i" by auto
    show ?thesis
    proof (cases "find_bytes (drop i block) ''}}''")
      case None
      then show ?thesis using i by (subst pieces.simps) simp
    next
      case (Some j)
      have op: "take 2 (drop i block) = ''{{''" using find_bytes_bound [OF i(2)] by (simp add: numeral_2_eq_2)
      have j: "2 \<le> j" by (rule closing_after_opening [OF op Some])
      have cl: "take 2 (drop j (drop i block)) = ''}}''" using find_bytes_bound [OF Some] by (simp add: numeral_2_eq_2)
      let ?mid = "take (j - 2) (drop (i + 2) block)" and ?rest = "drop (i + j + 2) block"
      have ij: "i + 2 + (j - 2) = i + j" using j by simp
      have "block = take i block @ drop i block" by simp
      also have "drop i block = ''{{'' @ drop (i + 2) block" using drop_split [of i block 2] op by simp
      also have "drop (i + 2) block = ?mid @ drop (i + j) block" by (rule drop_split [of "i + 2" block "j - 2", unfolded ij])
      also have "drop (i + j) block = ''}}'' @ ?rest" using drop_split [of "i + j" block 2] cl by (simp add: add.commute)
      finally have block: "block = take i block @ ''{{'' @ ?mid @ ''}}'' @ ?rest" .
      have rest: "concat (map piece_source (pieces ?rest)) = ?rest" by (rule "1.IH" [OF i(1,2) Some])
      have pcs: "pieces block = Lit (take i block) # Hole ?mid # pieces ?rest"
        using i Some by (subst pieces.simps) simp
      show ?thesis unfolding pcs list.map concat.simps piece_source.simps rest using block by simp
    qed
  qed
qed

section \<open>The page\<close>

primrec piece_text :: "(string \<Rightarrow> string option) \<Rightarrow> Piece \<Rightarrow> string" where
  "piece_text value_of (Lit t) = t"
| "piece_text value_of (Hole k) = (case value_of (cstr (take 63 k)) of None \<Rightarrow> [] | Some v \<Rightarrow> html_escape (cstr v))"

definition row_text :: "(string \<Rightarrow> string option) \<Rightarrow> string \<Rightarrow> string" where
  "row_text value_of block = concat (map (piece_text value_of) (pieces block))"

lemma puts_row: "puts (write_row value_of block) (row_text value_of block)"
proof (induction block rule: pieces.induct)
  case (1 block)
  show ?case
  proof (cases "block = []")
    case True
    then have "write_row value_of block = (\<lambda>w. w)" by (auto simp: write_row.simps [of value_of "[]"])
    then show ?thesis using True tw.emits_nothing by (simp add: row_text_def pieces.simps [of "[]"])
  next
    case False
    show ?thesis
    proof (cases "find_bytes block ''{{''")
      case None
      then have "write_row value_of block = (\<lambda>w. if w_overflow w then w else write_raw block w)"
        using False by (auto simp: write_row.simps [of value_of block])
      moreover have "row_text value_of block = block" using False None by (simp add: row_text_def pieces.simps [of block])
      ultimately show ?thesis using tw.emits_unless_full [OF tw.emits_add, of w_overflow block] full_iff by simp
    next
      case i: (Some i)
      let ?open = "drop i block"
      show ?thesis
      proof (cases "find_bytes ?open ''}}''")
        case None
        then have "write_row value_of block = (\<lambda>w. if w_overflow w then w else write_raw ?open (write_raw (take i block) w))"
          using False i by (auto simp: write_row.simps [of value_of block])
        moreover have "row_text value_of block = take i block @ ?open"
          using False i None by (simp add: row_text_def pieces.simps [of block])
        moreover have "puts (\<lambda>w. write_raw ?open (write_raw (take i block) w)) (take i block @ ?open)"
          by (rule emits_comp [OF tw.emits_add tw.emits_add])
        ultimately show ?thesis using tw.emits_unless_full [of _ _ w_overflow] full_iff by simp
      next
        case j: (Some j)
        let ?k = "take (j - 2) (drop (i + 2) block)" and ?rest = "drop (i + j + 2) block"
        let ?hole = "\<lambda>w. case value_of (cstr (take 63 ?k)) of None \<Rightarrow> w | Some v \<Rightarrow> write_escaped v w"
        have key: "take (min (j - 2) 63) (drop 2 ?open) = take 63 ?k" by (simp add: min.commute add.commute)
        have "puts ?hole (piece_text value_of (Hole ?k))"
          using tw.emits_nothing puts_escaped by (simp split: option.split)
        from emits_comp [OF emits_comp [OF tw.emits_add this] "1.IH" [OF False i j]]
        have "puts (\<lambda>w. write_row value_of ?rest (?hole (write_raw (take i block) w)))
            ((take i block @ piece_text value_of (Hole ?k)) @ row_text value_of ?rest)" .
        moreover have "write_row value_of block =
            (\<lambda>w. if w_overflow w then w else write_row value_of ?rest (?hole (write_raw (take i block) w)))"
          using False i j key by (auto simp: write_row.simps [of value_of block] Let_def add.commute add.left_commute)
        moreover have "row_text value_of block = (take i block @ piece_text value_of (Hole ?k)) @ row_text value_of ?rest"
          using False i j by (simp add: row_text_def pieces.simps [of block])
        ultimately show ?thesis using tw.emits_unless_full [of _ _ w_overflow] full_iff by simp
      qed
    qed
  qed
qed

lemma puts_rows: "puts (write_rows value_of block is) (concat (map (\<lambda>i. row_text (value_of (int i)) block) is))"
proof (induction "is")
  case Nil
  then show ?case using tw.emits_nothing by simp
next
  case (Cons i "is")
  from emits_comp [OF puts_row Cons] show ?case by simp
qed

definition page_text ::
  "(size_t \<Rightarrow> string) \<Rightarrow> (64 word \<Rightarrow> string) \<Rightarrow> string \<Rightarrow> RowList \<Rightarrow> string" where
  "page_text text_at fmt_double source rows =
     (let plain = hole_value text_at fmt_double (rl_type rows) None 0 (rl_count rows) in
      case (find_bytes source ''{{#each}}'', find_bytes source ''{{/each}}'') of
        (Some a, Some b) \<Rightarrow>
          if b < a then row_text plain source
          else
            row_text plain (take a source) @
            (case (rl_type rows, rl_items rows) of
               (Some t, Some items) \<Rightarrow>
                 concat (map (\<lambda>i. row_text (hole_value text_at fmt_double (rl_type rows)
                                (Some (drop (i * unat (ti_size t)) items)) (int i) (rl_count rows)) (take (b - (a + 9)) (drop (a + 9) source)))
                   [0..<min (nat (rl_count rows)) PAGE_MAX])
             | _ \<Rightarrow> []) @
            row_text plain (drop (b + 9) source)
      | _ \<Rightarrow> row_text plain source)"

definition writer_start :: "string \<Rightarrow> Writer" where
  "writer_start memory0 = \<lparr>w_out = memory0[0 := NUL], w_cap = TEMPLATE_MAX_OUT, w_used = 0, w_overflow = False\<rparr>"

lemma render_page_emits:
  "\<exists>f. puts f (page_text text_at fmt_double source rows) \<and> render_page text_at fmt_double source rows memory0 = f (writer_start memory0)"
proof -
  let ?plain = "hole_value text_at fmt_double (rl_type rows) None 0 (rl_count rows)"
  let ?w = "writer_start memory0"
  consider (each) a b where "find_bytes source ''{{#each}}'' = Some a" "find_bytes source ''{{/each}}'' = Some b" "\<not> b < a"
    | (plain) "render_page text_at fmt_double source rows memory0 = write_row ?plain source ?w"
        "page_text text_at fmt_double source rows = row_text ?plain source"
    by (cases "find_bytes source ''{{#each}}''"; cases "find_bytes source ''{{/each}}''")
      (fastforce simp: render_page_def page_text_def writer_start_def Let_def)+
  then show ?thesis
  proof cases
    case each
    let ?block = "take (b - (a + 9)) (drop (a + 9) source)"
    let ?val = "\<lambda>t items i. hole_value text_at fmt_double (rl_type rows) (Some (drop (nat i * unat (ti_size t)) items)) i (rl_count rows)"
    define middle where "middle = (case (rl_type rows, rl_items rows) of
         (Some t, Some items) \<Rightarrow> write_rows (?val t items) ?block [0..<min (nat (rl_count rows)) PAGE_MAX] | _ \<Rightarrow> (\<lambda>w. w))"
    define mtext where "mtext = (case (rl_type rows, rl_items rows) of
         (Some t, Some items) \<Rightarrow> concat (map (\<lambda>i. row_text (?val t items (int i)) ?block) [0..<min (nat (rl_count rows)) PAGE_MAX])
       | _ \<Rightarrow> [])"
    have rows: "puts (write_rows (?val t items) ?block is) (concat (map (\<lambda>i. row_text (?val t items (int i)) ?block) is))"
      for t items "is" by (rule puts_rows)
    have m: "puts middle mtext"
      using rows tw.emits_nothing
      by (cases "rl_type rows"; cases "rl_items rows") (simp_all only: middle_def mtext_def option.case prod.case)
    have "render_page text_at fmt_double source rows memory0 =
        write_row ?plain (drop (b + 9) source) (middle (write_row ?plain (take a source) ?w))"
      using each by (simp add: render_page_def middle_def writer_start_def Let_def split: option.split)
    moreover have "page_text text_at fmt_double source rows = (row_text ?plain (take a source) @ mtext) @ row_text ?plain (drop (b + 9) source)"
      using each by (simp add: page_text_def mtext_def Let_def split: option.split)
    ultimately show ?thesis using emits_comp [OF emits_comp [OF puts_row m] puts_row] by fastforce
  next
    case plain
    then show ?thesis using puts_row by metis
  qed
qed

lemma cstr_upto: "u @ NUL # r = x \<Longrightarrow> cstr x = cstr u"
  by (induction u arbitrary: x) (auto simp: cstr_def)

lemma finish_view:
  assumes "writer_wf w"
  shows "finish w st =
    (case writer_view w of
       None \<Rightarrow> ([], request_fail 500 (Some ''rendered page exceeds the response limit'') st)
     | Some u \<Rightarrow> (cstr u, st))"
proof -
  have "take (w_used w) (w_out w) @ NUL # drop (Suc (w_used w)) (w_out w) = w_out w"
    using assms by (metis Cons_nth_drop_Suc append_take_drop_id writer_wf_def)
  then show ?thesis by (auto simp: finish_def writer_view_def dest: cstr_upto)
qed

section \<open>Rendering\<close>

text \<open>C38: A value put into a page cannot change its markup: the bytes written for it contain no angle
  bracket and no quote, and reading the entities back gives the value.\<close>

theorem template_values_inert:
  assumes "writer_wf w" "writer_view (write_escaped v w) = Some u"
  shows "\<exists>old e. writer_view w = Some old \<and> u = old @ e \<and> set e \<inter> markup = {} \<and> html_unescape e = cstr v"
proof -
  have "extend_text (w_cap w) (writer_view w) (html_escape (cstr v)) = Some u"
    using puts_escaped [of v] assms by (simp add: emits_def)
  then obtain old where "writer_view w = Some old" "u = old @ html_escape (cstr v)"
    by (auto simp: extend_text_def split: option.splits if_splits)
  then show ?thesis using html_escape_no_markup html_escape_roundtrip by blast
qed

definition demo_writer :: Writer where
  "demo_writer = \<lparr>w_out = replicate 40 NUL, w_cap = 40, w_used = 0, w_overflow = False\<rparr>"

theorem template_values_inert_witness:
  "\<exists>e. writer_view (write_escaped ''<b>&'' demo_writer) = Some e \<and> set e \<inter> markup = {} \<and> html_unescape e = ''<b>&''"
proof -
  have wf: "writer_wf demo_writer" "writer_view demo_writer = Some []" "w_cap demo_writer = 40"
    by (simp_all add: writer_wf_def writer_view_def demo_writer_def)
  have c: "cstr ''<b>&'' = ''<b>&''" by (simp add: cstr_def)
  have "writer_view (write_escaped ''<b>&'' demo_writer) = Some (html_escape ''<b>&'')"
    using puts_escaped [of "''<b>&''"] wf c by (simp add: emits_def extend_text_def html_escape_def html_char_def)
  from template_values_inert [OF wf(1) this] this c wf(2) show ?thesis by auto
qed

text \<open>C11: A rendered page is the template with every hole replaced by its escaped value, outside the
  repeated block once and inside it once per row; when it does not fit the response it is refused with
  status 500 and nothing of it is returned.\<close>

theorem render_template_correct:
  assumes "load_template realpath file_bytes troot n TEMPLATE_MAX_BYTES = Some source"
    and "request_alloc env arena (of_nat TEMPLATE_MAX_OUT) st = (Some m, arena', st)"
    and "length memory0 = TEMPLATE_MAX_OUT"
  shows "render_template text_at fmt_double realpath file_bytes troot env arena memory0 (Some n) rows st =
    (let page = page_text text_at fmt_double source rows in
     if length page < TEMPLATE_MAX_OUT then (cstr page, arena', st)
     else ([], arena', request_fail 500 (Some ''rendered page exceeds the response limit'') st))"
proof -
  obtain f where f: "puts f (page_text text_at fmt_double source rows)"
      "render_page text_at fmt_double source rows memory0 = f (writer_start memory0)"
    using render_page_emits by blast
  have start: "writer_wf (writer_start memory0)" "writer_view (writer_start memory0) = Some []"
      "w_cap (writer_start memory0) = TEMPLATE_MAX_OUT"
    using assms(3) by (simp_all add: writer_start_def writer_wf_def writer_view_def)
  have "writer_wf (f (writer_start memory0))" using f(1) start(1) by (simp add: emits_def)
  then show ?thesis
    using assms(1,2) f(2) finish_view tw.emits_result [OF f(1) start(1,2)] start(3)
    by (simp add: render_template_def Let_def)
qed

definition demo_arena :: Arena where
  "demo_arena =
     \<lparr>ar_head = [\<lparr>ch_addr = 64, ch_cap = 262144, ch_used = 0, ch_bytes = 262208, ch_mapped = True, ch_mem = []\<rparr>],
      ar_spare = None, ar_used = 0, ar_max = 262144, ar_peak = 0, ar_refusals = 0\<rparr>"

definition demo_rows :: RowList where
  "demo_rows = \<lparr>rl_type = None, rl_items = None, rl_count = 2, rl_page = 0, rl_size = 20, rl_has_more = False\<rparr>"

lemma demo_alloc:
  "\<exists>a. request_alloc (env_at 64) (Some demo_arena) (of_nat TEMPLATE_MAX_OUT) st = (Some 112, a, st)"
proof -
  have "round_up 262144 = 262144" by (simp add: round_up_def)
  then show ?thesis
    by (simp add: request_alloc_def demo_arena_def arena_alloc_def Let_def take_from_def chunk_base_def)
qed

lemma demo_template:
  "load_template (\<lambda>p. Some p) (\<lambda>p. if p = ''/t/a.html'' then Some ''n={{count}}'' else None) ''/t'' ''a.html'' TEMPLATE_MAX_BYTES =
     Some ''n={{count}}''"
  by (simp add: load_template_def template_enabled_def name_safe_def name_char_def is_lower_def is_upper_def is_digit_def byte_def Let_def)

lemma demo_pieces: "pieces ''n={{count}}'' = [Lit ''n='', Hole ''count'']"
  by (simp add: pieces.simps [of "''n={{count}}''"] pieces.simps [of "[]"])

lemma demo_count: "int_text 2 = ''2''"
  by code_simp

lemma demo_page: "page_text text_at fmt_double ''n={{count}}'' demo_rows = ''n=2''"
proof -
  have "hole_value text_at fmt_double None None 0 2 ''count'' = Some ''2''"
    by (simp add: hole_value_def demo_count)
  then have "row_text (hole_value text_at fmt_double None None 0 2) ''n={{count}}'' = ''n=2''"
    by (simp add: row_text_def demo_pieces cstr_def html_escape_def html_char_def)
  moreover have "find_bytes ''n={{count}}'' ''{{#each}}'' = None" by simp
  ultimately show ?thesis by (simp add: page_text_def demo_rows_def Let_def)
qed

theorem render_template_correct_witness:
  "\<exists>a. render_template (\<lambda>_. []) (\<lambda>_. []) (\<lambda>p. Some p) (\<lambda>p. if p = ''/t/a.html'' then Some ''n={{count}}'' else None) ''/t''
     (env_at 64) (Some demo_arena) (replicate TEMPLATE_MAX_OUT NUL) (Some ''a.html'') demo_rows no_failure = (''n=2'', a, no_failure)"
proof -
  obtain a where a: "request_alloc (env_at 64) (Some demo_arena) (of_nat TEMPLATE_MAX_OUT) no_failure = (Some 112, a, no_failure)"
    using demo_alloc by blast
  show ?thesis
    using render_template_correct [where text_at = "\<lambda>_. []" and fmt_double = "\<lambda>_. []" and rows = demo_rows,
        OF demo_template a length_replicate]
    by (simp add: demo_page Let_def cstr_def)
qed

end
