(* ===== verification/Ddl.thy ===== *)
theory Ddl
  imports Request_State
begin

text \<open>
  Table creation and field validation (\<open>src/runtime/runtime_ddl.c\<close>): the checks a type passes before
  it becomes a table, the statement written for it, and the rules a structure's fields are checked
  against. \<open>fmt_ldouble\<close> is the text \<open>printf("%.21Lg")\<close> gives for a bound; a double is compared with a
  bound through the rational number its bits stand for.
\<close>

section \<open>The code: tables\<close>

abbreviation KNOWN_FLAGS :: "32 word" where "KNOWN_FLAGS \<equiv> 15"

definition overlap :: "FieldInfo \<Rightarrow> FieldInfo \<Rightarrow> bool" where
  "overlap f g \<longleftrightarrow> unat (fi_offset f) < unat (fi_offset g) + unat (fi_size g) \<and> unat (fi_offset g) < unat (fi_offset f) + unat (fi_size f)"

text \<open>The result is the verdict and the new count of keys; \<open>before\<close> are the fields with a smaller index.\<close>

definition ddl_field_valid :: "FieldInfo list \<Rightarrow> FieldInfo \<Rightarrow> nat \<Rightarrow> bool \<times> nat" where
  "ddl_field_valid before f keys =
     (if fi_kind f = FIELD_OBJECT \<or> fi_nested f \<noteq> None \<or> fi_flags f AND NOT KNOWN_FLAGS \<noteq> 0 then (False, keys)
      else if has_flag (fi_flags f) FIELD_PRIMARY_KEY \<and> (fi_kind f \<noteq> FIELD_INT \<or> has_flag (fi_flags f) FIELD_NULLABLE)
      then (False, keys)
      else
        let keys1 = (if has_flag (fi_flags f) FIELD_PRIMARY_KEY then keys + 1 else keys) in
        if has_flag (fi_flags f) FIELD_PRIMARY_KEY \<and> keys1 > 1 then (False, keys1)
        else if (fi_references f \<noteq> None \<or> fi_reference_key f \<noteq> None) \<and>
          (fi_kind f \<noteq> FIELD_INT \<or> \<not> is_safe_identifier (fi_references f) \<or> \<not> is_safe_identifier (fi_reference_key f))
        then (False, keys1)
        else (\<not> list_ex (\<lambda>g. fi_name f = fi_name g \<or> overlap f g) before, keys1))"

fun ddl_fields_valid :: "FieldInfo list \<Rightarrow> FieldInfo list \<Rightarrow> nat \<Rightarrow> bool" where
  "ddl_fields_valid before [] keys = True"
| "ddl_fields_valid before (f # fs) keys =
     (case ddl_field_valid before f keys of
        (ok, keys1) \<Rightarrow> if \<not> ok then False else ddl_fields_valid (before @ [f]) fs keys1)"

definition ddl_type_valid :: "TypeInfo \<Rightarrow> bool" where
  "ddl_type_valid type = ddl_fields_valid [] (fields_of type) 0"

definition sql_column_type :: "FieldKind \<Rightarrow> string" where
  "sql_column_type kind =
     (case kind of
        FIELD_STR \<Rightarrow> '' TEXT'' | FIELD_LONG \<Rightarrow> '' BIGINT'' | FIELD_DOUBLE \<Rightarrow> '' DOUBLE PRECISION''
      | FIELD_BOOL \<Rightarrow> '' BOOLEAN'' | _ \<Rightarrow> '' INTEGER'')"

definition str_of :: "string option \<Rightarrow> string" where
  "str_of s = (case s of None \<Rightarrow> [] | Some t \<Rightarrow> t)"

definition not_null_column :: "FieldInfo \<Rightarrow> bool" where
  "not_null_column f \<longleftrightarrow>
     has_flag (fi_flags f) FIELD_NOT_NULL \<or> (fi_kind f \<noteq> FIELD_STR \<and> \<not> has_flag (fi_flags f) FIELD_NULLABLE)"

definition ddl_write_column :: "FieldInfo \<Rightarrow> Sink \<Rightarrow> int \<times> Sink" where
  "ddl_write_column f sink =
     (let s1 = sink_add (sql_column_type (fi_kind f)) (sink_add [DQUOTE] (sink_add (str_of (fi_name f)) (sink_add [DQUOTE] sink))) in
      if has_flag (fi_flags f) FIELD_PRIMARY_KEY \<and> fi_kind f \<noteq> FIELD_INT then (- 1, s1)
      else
        let s2 = (if has_flag (fi_flags f) FIELD_PRIMARY_KEY then sink_add '' PRIMARY KEY'' s1 else s1);
            s3 = (if not_null_column f then sink_add '' NOT NULL'' s2 else s2);
            s4 = (if has_flag (fi_flags f) FIELD_UNIQUE then sink_add '' UNIQUE'' s3 else s3);
            s5 = (case fi_references f of
                    None \<Rightarrow> s4
                  | Some r \<Rightarrow>
                      sink_add (DQUOTE # '')'')
                       (sink_add (str_of (fi_reference_key f))
                         (sink_add ([DQUOTE] @ ''('' @ [DQUOTE]) (sink_add r (sink_add ('' REFERENCES '' @ [DQUOTE]) s4)))))
        in (0, s5))"

fun ddl_write_columns :: "FieldInfo list \<Rightarrow> bool \<Rightarrow> Sink \<Rightarrow> int \<times> Sink" where
  "ddl_write_columns [] first sink = (0, sink)"
| "ddl_write_columns (f # fs) first sink =
     (case ddl_write_column f (if first then sink else sink_add '', '' sink) of
        (rc, s1) \<Rightarrow> if rc \<noteq> 0 then (- 1, s1) else ddl_write_columns fs False s1)"

text \<open>The results are the return value and the destination array.\<close>

definition create_table_sql_write :: "TypeInfo option \<Rightarrow> string \<Rightarrow> int \<times> string" where
  "create_table_sql_write type out =
     (if length out = 0 then (- 1, out)
      else
        let out1 = out[0 := NUL] in
        case type of
          None \<Rightarrow> (- 1, out1)
        | Some t \<Rightarrow>
            if \<not> type_valid type \<or> \<not> ddl_type_valid t then (- 1, out1)
            else
              let s1 = sink_add (DQUOTE # '' ('') (sink_add (str_of (ti_name t))
                         (sink_add (''CREATE TABLE IF NOT EXISTS '' @ [DQUOTE]) (sink_init out1 (length out1)))) in
              (case ddl_write_columns (take RUNTIME_MAX_FIELDS (fields_of t)) True s1 of
                 (rc, s2) \<Rightarrow>
                   if rc \<noteq> 0 then (- 1, (sk_buf s2)[0 := NUL])
                   else
                     let s3 = sink_add '');'' s2 in
                     if sk_overflow s3 then (- 1, (sk_buf s3)[0 := NUL]) else (0, sk_buf s3)))"

section \<open>The statement of a table\<close>

definition quoted_name :: "string \<Rightarrow> string" where
  "quoted_name n = [DQUOTE] @ n @ [DQUOTE]"

definition column_text :: "FieldInfo \<Rightarrow> string" where
  "column_text f =
     quoted_name (str_of (fi_name f)) @ sql_column_type (fi_kind f) @
     (if has_flag (fi_flags f) FIELD_PRIMARY_KEY then '' PRIMARY KEY'' else []) @
     (if not_null_column f then '' NOT NULL'' else []) @
     (if has_flag (fi_flags f) FIELD_UNIQUE then '' UNIQUE'' else []) @
     (case fi_references f of
        None \<Rightarrow> []
      | Some r \<Rightarrow> '' REFERENCES '' @ quoted_name r @ ''('' @ quoted_name (str_of (fi_reference_key f)) @ '')'')"

primrec comma_separated :: "string list \<Rightarrow> string" where
  "comma_separated [] = []"
| "comma_separated (c # cs) = c @ concat (map (\<lambda>d. '', '' @ d) cs)"

definition table_text :: "TypeInfo \<Rightarrow> string" where
  "table_text t =
     ''CREATE TABLE IF NOT EXISTS '' @ quoted_name (str_of (ti_name t)) @ '' ('' @
     comma_separated (map column_text (fields_of t)) @ '');''"

text \<open>What the table checks establish.\<close>

definition table_field_ok :: "FieldInfo \<Rightarrow> bool" where
  "table_field_ok f \<longleftrightarrow>
     fi_kind f \<noteq> FIELD_OBJECT \<and> fi_nested f = None \<and> fi_flags f AND NOT KNOWN_FLAGS = 0 \<and>
     (has_flag (fi_flags f) FIELD_PRIMARY_KEY \<longrightarrow> fi_kind f = FIELD_INT \<and> \<not> has_flag (fi_flags f) FIELD_NULLABLE) \<and>
     (fi_references f \<noteq> None \<or> fi_reference_key f \<noteq> None \<longrightarrow>
        fi_kind f = FIELD_INT \<and> is_safe_identifier (fi_references f) \<and> is_safe_identifier (fi_reference_key f))"

definition clash :: "FieldInfo \<Rightarrow> FieldInfo \<Rightarrow> bool" where
  "clash f g \<longleftrightarrow> fi_name f = fi_name g \<or> overlap f g"

definition key_count :: "FieldInfo list \<Rightarrow> nat" where
  "key_count fs = length (filter (\<lambda>f. has_flag (fi_flags f) FIELD_PRIMARY_KEY) fs)"

lemma clash_sym: "clash f g = clash g f"
  by (auto simp: clash_def overlap_def)

lemma ddl_field_valid_iff:
  assumes "keys \<le> 1"
  shows "fst (ddl_field_valid before f keys) \<longleftrightarrow>
    table_field_ok f \<and> keys + key_count [f] \<le> 1 \<and> (\<forall>g \<in> set before. \<not> clash f g)"
  and "fst (ddl_field_valid before f keys) \<Longrightarrow> snd (ddl_field_valid before f keys) = keys + key_count [f]"
  using assms by (auto simp: ddl_field_valid_def table_field_ok_def key_count_def clash_def Let_def list_ex_iff split: if_splits)

lemma ddl_fields_valid_iff:
  "keys \<le> 1 \<Longrightarrow> ddl_fields_valid before fs keys \<longleftrightarrow>
     list_all table_field_ok fs \<and> keys + key_count fs \<le> 1 \<and>
     (\<forall>f \<in> set fs. \<forall>g \<in> set before. \<not> clash f g) \<and> sorted_wrt (\<lambda>f g. \<not> clash f g) fs"
proof (induction fs arbitrary: before keys)
  case Nil
  then show ?case by (simp add: key_count_def)
next
  case (Cons f fs)
  obtain ok keys1 where v: "ddl_field_valid before f keys = (ok, keys1)" by fastforce
  note iff = ddl_field_valid_iff [OF Cons.prems, of before f, unfolded v fst_conv snd_conv]
  have kc: "key_count (f # fs) = key_count [f] + key_count fs" by (simp add: key_count_def)
  show ?case
  proof (cases ok)
    case False
    then show ?thesis using v iff(1) kc by auto
  next
    case True
    then have k: "keys1 = keys + key_count [f]" "keys1 \<le> 1" using iff by simp_all
    show ?thesis
      using True v iff(1) Cons.IH [OF k(2), of "before @ [f]"] k kc
      by (auto simp: clash_sym [of f])
  qed
qed

section \<open>Writing the statement\<close>

lemma writes_lit: "NUL \<notin> set t \<Longrightarrow> writes (sink_add t) t"
  using writes_add [of t] by (simp add: cstr_id)

lemma writes_when: "writes f t \<Longrightarrow> writes (\<lambda>s. if b then f s else s) (if b then t else [])"
  using snk.emits_nothing by simp

lemma safe_identifier_chars:
  assumes "is_safe_identifier (Some n)"
  shows "NUL \<notin> set n" "DQUOTE \<notin> set n"
proof -
  obtain c r where n: "n = c # r" "ident_start c" "list_all ident_char r"
    using assms by (cases n) (auto simp: is_safe_identifier_def)
  have "ident_char c" using n(2) by (auto simp: ident_start_def ident_char_def)
  then have all: "\<forall>x \<in> set n. ident_char x" using n by (auto simp: list_all_iff)
  have "\<not> ident_char NUL" "\<not> ident_char DQUOTE"
    by (simp_all add: ident_char_def is_upper_def is_lower_def is_digit_def byte_def)
  then show "NUL \<notin> set n" "DQUOTE \<notin> set n" using all by blast+
qed

lemma safe_identifier_str: "is_safe_identifier m \<Longrightarrow> NUL \<notin> set (str_of m)"
  by (cases m) (simp add: is_safe_identifier_def, simp add: str_of_def safe_identifier_chars(1))

lemma safe_identifier_Some: "is_safe_identifier m \<Longrightarrow> \<exists>n. m = Some n"
  by (cases m) (auto simp: is_safe_identifier_def)

lemma writes_column:
  assumes ok: "table_field_ok f" and nm: "is_safe_identifier (fi_name f)"
  shows "writes (\<lambda>s. snd (ddl_write_column f s)) (column_text f)" and "fst (ddl_write_column f s) = 0"
proof -
  have pk: "has_flag (fi_flags f) FIELD_PRIMARY_KEY \<Longrightarrow> fi_kind f = FIELD_INT" using ok by (simp add: table_field_ok_def)
  show "fst (ddl_write_column f s) = 0" using pk by (auto simp: ddl_write_column_def Let_def)
  have ty: "NUL \<notin> set (sql_column_type k)" for k by (simp add: sql_column_type_def split: FieldKind.split)
  have q: "NUL \<notin> set [DQUOTE]" by simp
  have a: "writes (\<lambda>s. sink_add (sql_column_type (fi_kind f)) (sink_add [DQUOTE] (sink_add (str_of (fi_name f)) (sink_add [DQUOTE] s))))
      ((([DQUOTE] @ str_of (fi_name f)) @ [DQUOTE]) @ sql_column_type (fi_kind f))"
    by (intro emits_comp writes_lit q ty safe_identifier_str nm)
  let ?w = "\<lambda>b t. \<lambda>s. if b then sink_add t s else s"
  have opt: "writes (?w b t) (if b then t else [])" if "NUL \<notin> set t" for b t
    using writes_when [OF writes_lit [OF that]] .
  have refs: "writes (\<lambda>s. case fi_references f of None \<Rightarrow> s
       | Some r \<Rightarrow> sink_add (DQUOTE # '')'') (sink_add (str_of (fi_reference_key f))
           (sink_add ([DQUOTE] @ ''('' @ [DQUOTE]) (sink_add r (sink_add ('' REFERENCES '' @ [DQUOTE]) s)))))
      (case fi_references f of None \<Rightarrow> []
       | Some r \<Rightarrow> '' REFERENCES '' @ quoted_name r @ ''('' @ quoted_name (str_of (fi_reference_key f)) @ '')'')"
  proof (cases "fi_references f")
    case None
    then show ?thesis using snk.emits_nothing by simp
  next
    case (Some r)
    then have safe: "is_safe_identifier (Some r)" "is_safe_identifier (fi_reference_key f)"
      using ok by (auto simp: table_field_ok_def)
    have "writes (\<lambda>s. sink_add (DQUOTE # '')'') (sink_add (str_of (fi_reference_key f))
           (sink_add ([DQUOTE] @ ''('' @ [DQUOTE]) (sink_add r (sink_add ('' REFERENCES '' @ [DQUOTE]) s)))))
        ((((('' REFERENCES '' @ [DQUOTE]) @ r) @ ([DQUOTE] @ ''('' @ [DQUOTE])) @ str_of (fi_reference_key f)) @ DQUOTE # '')'')"
      by (intro emits_comp writes_lit safe_identifier_str safe safe_identifier_chars(1) [OF safe(1)]) simp_all
    then show ?thesis using Some by (simp add: quoted_name_def)
  qed
  have n: "NUL \<notin> set '' PRIMARY KEY''" "NUL \<notin> set '' NOT NULL''" "NUL \<notin> set '' UNIQUE''" by simp_all
  have nb: "(has_flag (fi_flags f) FIELD_PRIMARY_KEY \<and> fi_kind f \<noteq> FIELD_INT) = False" using pk by auto
  show "writes (\<lambda>s. snd (ddl_write_column f s)) (column_text f)"
    using emits_comp [OF emits_comp [OF emits_comp [OF emits_comp [OF a opt [OF n(1)]] opt [OF n(2)]] opt [OF n(3)]] refs]
    unfolding ddl_write_column_def column_text_def quoted_name_def [of "str_of (fi_name f)"] Let_def nb if_False snd_conv append_assoc .
qed

text \<open>The list of columns, with a separator before each but the first.\<close>

fun columns_text :: "FieldInfo list \<Rightarrow> bool \<Rightarrow> string" where
  "columns_text [] first = []"
| "columns_text (f # fs) first = ((if \<not> first then '', '' else []) @ column_text f) @ columns_text fs False"

lemma columns_text_separated: "columns_text fs True = comma_separated (map column_text fs)"
proof -
  have "columns_text fs False = concat (map (\<lambda>d. '', '' @ d) (map column_text fs))" for fs
    by (induction fs) simp_all
  then show ?thesis by (cases fs) simp_all
qed

lemma writes_columns:
  assumes "list_all table_field_ok fs" "list_all (\<lambda>f. is_safe_identifier (fi_name f)) fs"
  shows "writes (\<lambda>s. snd (ddl_write_columns fs first s)) (columns_text fs first)"
  and "fst (ddl_write_columns fs first s) = 0"
  using assms
proof (induction fs arbitrary: first s)
  case Nil
  {
    case 1
    then show ?case using snk.emits_nothing by simp
  next
    case 2
    then show ?case by simp
  }
next
  case (Cons f fs)
  let ?ok = "list_all table_field_ok (f # fs) \<and> list_all (\<lambda>f. is_safe_identifier (fi_name f)) (f # fs)"
  have col: "writes (\<lambda>s. snd (ddl_write_column f s)) (column_text f)" "fst (ddl_write_column f t) = 0" if ?ok for t
    using that writes_column [of f] by simp_all
  have step: "ddl_write_columns (f # fs) b t =
      ddl_write_columns fs False (snd (ddl_write_column f (if \<not> b then sink_add '', '' t else t)))" if ?ok for b t
    using col(2) [OF that] by (cases b) (simp_all add: case_prod_beta)
  {
    case 1
    then have ok: ?ok by simp
    have sep: "writes (\<lambda>s. if \<not> first then sink_add '', '' s else s) (if \<not> first then '', '' else [])"
      by (rule writes_when, rule writes_lit) simp
    have "writes (\<lambda>s. snd (ddl_write_columns fs False s)) (columns_text fs False)"
      using Cons.IH(1) ok by simp
    from emits_comp [OF emits_comp [OF sep col(1) [OF ok]] this]
    show ?case by (simp only: step [OF ok] columns_text.simps)
  next
    case 2
    then have ok: ?ok by simp
    show ?case unfolding step [OF ok] using Cons.IH(2) ok by simp
  }
qed

lemma terminated_after_add: "sink_wf s \<Longrightarrow> terminated (sink_add t s)"
  by (auto simp: terminated_def sink_add_def sink_add_bytes_def sink_wf_def length_poke)

lemma type_valid_names:
  "fst (fields_valid sz fs depth remaining) \<Longrightarrow> list_all (\<lambda>f. is_safe_identifier (fi_name f)) fs"
proof (induction fs arbitrary: remaining)
  case (Cons f fs)
  obtain name kind offset fsz flags nested refs rkey rules where
    f: "f = FieldInfo name kind offset fsz flags nested refs rkey rules" by (cases f)
  show ?case using Cons unfolding f by (auto simp: Let_def split: prod.splits if_splits)
qed simp

lemma type_valid_table:
  assumes "type_valid (Some t)"
  shows "is_safe_identifier (ti_name t)" "list_all (\<lambda>f. is_safe_identifier (fi_name f)) (fields_of t)"
    "length (fields_of t) \<le> RUNTIME_MAX_FIELDS"
proof -
  obtain name sz flds where t: "t = TypeInfo name sz flds" by (cases t)
  obtain fs where fs: "flds = Some fs" "is_safe_identifier name" "length fs \<le> RUNTIME_MAX_FIELDS"
      "fst (fields_valid sz fs 0 (RUNTIME_MAX_TYPES - 1))"
    using assms unfolding type_valid_def t by (auto split: option.splits if_splits)
  then show "is_safe_identifier (ti_name t)" "list_all (\<lambda>f. is_safe_identifier (fi_name f)) (fields_of t)"
    "length (fields_of t) \<le> RUNTIME_MAX_FIELDS"
    using type_valid_names by (simp_all add: t fields_of_def)
qed

definition table_ok :: "TypeInfo option \<Rightarrow> bool" where
  "table_ok type \<longleftrightarrow>
     (case type of
        None \<Rightarrow> False
      | Some t \<Rightarrow>
          type_valid type \<and> list_all table_field_ok (fields_of t) \<and> key_count (fields_of t) \<le> 1 \<and>
          sorted_wrt (\<lambda>f g. \<not> clash f g) (fields_of t))"

lemma column_text_no_NUL:
  assumes "table_field_ok f" "is_safe_identifier (fi_name f)"
  shows "NUL \<notin> set (column_text f)"
proof -
  have "NUL \<notin> set (sql_column_type k)" for k by (simp add: sql_column_type_def split: FieldKind.split)
  moreover have "NUL \<notin> set (str_of (fi_name f))" by (rule safe_identifier_str [OF assms(2)])
  moreover have "NUL \<notin> set r" "NUL \<notin> set (str_of (fi_reference_key f))" if "fi_references f = Some r" for r
    using assms(1) that safe_identifier_chars(1) safe_identifier_str by (auto simp: table_field_ok_def)
  ultimately show ?thesis by (cases "fi_references f") (simp_all add: column_text_def quoted_name_def)
qed

lemma columns_text_no_NUL:
  "list_all table_field_ok fs \<Longrightarrow> list_all (\<lambda>f. is_safe_identifier (fi_name f)) fs \<Longrightarrow> NUL \<notin> set (columns_text fs first)"
  by (induction fs arbitrary: first) (simp_all add: column_text_no_NUL)

text \<open>C20: The table statement is written exactly for a valid table type whose text fits the buffer: its
  fields are scalars with known flags, at most one integer key, references that name safe identifiers and
  no two fields with one name or overlapping storage. The buffer then holds the statement with every name
  quoted and its columns in order; in every other case the call fails and leaves the empty string.\<close>

theorem create_table_correct:
  assumes "out \<noteq> []" "create_table_sql_write type out = (rc, out')"
  shows "if table_ok type \<and> length (table_text (the type)) < length out
         then rc = 0 \<and> cstr out' = table_text (the type) else rc = - 1 \<and> cstr out' = []"
proof -
  have empty: "cstr (xs[0 := NUL]) = []" if "length xs = length out" for xs
  proof -
    have "xs \<noteq> []" using that assms(1) by auto
    then show ?thesis by (rule cstr_NUL_first)
  qed
  have ok_iff: "table_ok type \<longleftrightarrow> (case type of None \<Rightarrow> False | Some t \<Rightarrow> type_valid type \<and> ddl_type_valid t)"
    by (auto simp: table_ok_def ddl_type_valid_def ddl_fields_valid_iff split: option.split)
  show ?thesis
  proof (cases "table_ok type")
    case False
    then show ?thesis using assms empty [of out] ok_iff by (auto simp: create_table_sql_write_def Let_def split: option.splits)
  next
    case True
    then obtain t where t: "type = Some t" "type_valid (Some t)" "ddl_type_valid t" "list_all table_field_ok (fields_of t)"
      using ok_iff by (auto simp: table_ok_def split: option.splits)
    note names = type_valid_table [OF t(2)]
    let ?head = "\<lambda>s. sink_add (DQUOTE # '' ('') (sink_add (str_of (ti_name t)) (sink_add (''CREATE TABLE IF NOT EXISTS '' @ [DQUOTE]) s))"
    let ?cols = "\<lambda>s. snd (ddl_write_columns (fields_of t) True s)"
    let ?s0 = "sink_init (out[0 := NUL]) (length out)"
    have head: "writes ?head (((''CREATE TABLE IF NOT EXISTS '' @ [DQUOTE]) @ str_of (ti_name t)) @ DQUOTE # '' ('')"
      by (intro emits_comp writes_lit safe_identifier_str names(1)) simp_all
    have end_: "writes (sink_add '');'') '');''" by (rule writes_lit) simp
    have tt: "((((''CREATE TABLE IF NOT EXISTS '' @ [DQUOTE]) @ str_of (ti_name t)) @ DQUOTE # '' ('') @ columns_text (fields_of t) True) @ '');'' =
        table_text t"
      by (simp add: table_text_def quoted_name_def columns_text_separated)
    have w: "writes (\<lambda>s. sink_add '');'' (?cols (?head s))) (table_text t)"
      using emits_comp [OF emits_comp [OF head writes_columns(1) [OF t(4) names(2), of True]] end_] unfolding tt .
    have s0: "sink_wf ?s0" "sink_view ?s0 = Some []" "sk_cap ?s0 = length out" using assms(1) by (simp_all add: sink_wf_init)
    let ?s3 = "sink_add '');'' (?cols (?head ?s0))"
    have wf2: "sink_wf (?cols (?head ?s0))"
      using emits_comp [OF head writes_columns(1) [OF t(4) names(2), of True]] s0(1) by (simp add: emits_def)
    have wf3: "sink_wf ?s3" "sk_cap ?s3 = length out" using w s0 by (simp_all add: emits_def)
    have view: "sink_view ?s3 = (if length (table_text t) < length out then Some (table_text t) else None)"
      using snk.emits_result [OF w s0(1,2)] s0(3) by simp
    obtain s2 where dw: "ddl_write_columns (fields_of t) True (?head ?s0) = (0, s2)"
      using writes_columns(2) [OF t(4) names(2), of True "?head ?s0"] by (cases "ddl_write_columns (fields_of t) True (?head ?s0)") simp
    have "create_table_sql_write type out =
        (case ddl_write_columns (fields_of t) True (?head ?s0) of
           (rc, s2) \<Rightarrow>
             if rc \<noteq> 0 then (- 1, (sk_buf s2)[0 := NUL])
             else if sk_overflow (sink_add '');'' s2) then (- 1, (sk_buf (sink_add '');'' s2))[0 := NUL])
             else (0, sk_buf (sink_add '');'' s2)))"
      using t names(3) assms(1) by (simp add: create_table_sql_write_def Let_def split: prod.split)
    then have res: "(rc, out') = (if sk_overflow ?s3 then (- 1, (sk_buf ?s3)[0 := NUL]) else (0, sk_buf ?s3))"
      unfolding assms(2) dw prod.case snd_conv by (simp only: simp_thms if_False)
    have nn: "NUL \<notin> set (table_text t)"
      using columns_text_no_NUL [OF t(4) names(2), of True] safe_identifier_str [OF names(1)]
      by (simp add: table_text_def quoted_name_def columns_text_separated)
    show ?thesis
    proof (cases "length (table_text t) < length out")
      case fits: True
      then have "\<not> sk_overflow ?s3" using view by (auto simp: sink_view_def)
      moreover have "cstr (sk_buf ?s3) = table_text t"
        using cstr_terminated [OF wf3(1) terminated_after_add [OF wf2] _ nn] view fits by simp
      ultimately show ?thesis using res fits True t(1) by simp
    next
      case False
      then have "sk_overflow ?s3" using view by (auto simp: sink_view_def split: if_splits)
      then show ?thesis using res False t(1) empty [of "sk_buf ?s3"] wf3 by (simp add: sink_wf_def)
    qed
  qed
qed

definition demo_table :: TypeInfo where
  "demo_table = TypeInfo (Some ''Item'') 24 (Some
     [FieldInfo (Some ''id'') FIELD_INT 0 4 FIELD_PRIMARY_KEY None None None no_rules,
      FieldInfo (Some ''name'') FIELD_STR 8 8 FIELD_NOT_NULL None None None no_rules,
      FieldInfo (Some ''owner'') FIELD_INT 16 4 0 None (Some ''User'') (Some ''id'') no_rules])"

lemma demo_table_ok: "table_ok (Some demo_table)"
proof -
  have "type_valid (Some demo_table)"
    unfolding type_valid_def demo_table_def
    by (simp add: is_safe_identifier_def ident_start_def ident_char_def is_upper_def is_lower_def byte_def
        field_storage_size_def has_flag_def)
  moreover
  have "list_all table_field_ok (fields_of demo_table)" "key_count (fields_of demo_table) \<le> 1"
    by (simp_all add: demo_table_def fields_of_def table_field_ok_def key_count_def has_flag_def is_safe_identifier_def
        ident_start_def ident_char_def is_upper_def is_lower_def byte_def)
  moreover have "sorted_wrt (\<lambda>f g. \<not> clash f g) (fields_of demo_table)"
    by (simp add: demo_table_def fields_of_def clash_def overlap_def)
  ultimately show ?thesis by (simp add: table_ok_def)
qed

theorem create_table_correct_witness:
  "fst (create_table_sql_write (Some demo_table) (replicate 200 NUL)) = 0"
proof -
  obtain rc out' where r: "create_table_sql_write (Some demo_table) (replicate 200 NUL) = (rc, out')" by fastforce
  have "length (table_text demo_table) < 200"
    by (simp add: table_text_def quoted_name_def demo_table_def fields_of_def column_text_def str_of_def sql_column_type_def
        not_null_column_def has_flag_def)
  then show ?thesis using create_table_correct [OF _ r] demo_table_ok r by simp
qed

end
