(* ===== verification/Validation.thy ===== *)
theory Validation
  imports Ddl
begin

text \<open>
  Validation of request bodies (\<open>email_valid\<close>, \<open>field_validate\<close>, \<open>validate_struct\<close> of
  \<open>src/runtime/runtime_ddl.c\<close>). \<open>text_at\<close> is the text at an address, as for the JSON writer;
  \<open>fmt_ldouble\<close> is the text \<open>printf("%.21Lg")\<close> gives for a bound. A double is compared with a bound
  through the rational number its bits stand for, which a \<open>long double\<close> holds exactly.
\<close>

section \<open>The code\<close>

definition is_alnum :: "char \<Rightarrow> bool" where
  "is_alnum c \<longleftrightarrow> is_lower c \<or> is_upper c \<or> is_digit c"

definition local_char :: "char \<Rightarrow> bool" where
  "local_char c \<longleftrightarrow> is_alnum c \<or> c \<in> set (''.!#$%&'' @ [CHR 0x27] @ ''*+-/=?^_`{|}~'')"

fun local_loop :: "string \<Rightarrow> bool" where
  "local_loop [] = True"
| "local_loop (c # r) =
     (if \<not> local_char c then False
      else if c = CHR ''.'' \<and> r \<noteq> [] \<and> hd r = CHR ''.'' then False
      else local_loop r)"

text \<open>The loop over the domain: the previous character, the length of the current label and whether a
  dot was seen; None is a rejection.\<close>

fun domain_loop :: "string \<Rightarrow> char \<Rightarrow> nat \<Rightarrow> bool \<Rightarrow> (nat \<times> bool) option" where
  "domain_loop [] prev label dot = Some (label, dot)"
| "domain_loop (c # r) prev label dot =
     (if c = CHR ''.'' then
        if label = 0 \<or> prev = CHR ''-'' then None else domain_loop r c 0 True
      else if \<not> (is_alnum c \<or> c = CHR ''-'') \<or> (label = 0 \<and> c = CHR ''-'') \<or> label + 1 > 63 then None
      else domain_loop r c (label + 1) dot)"

definition email_valid :: "string \<Rightarrow> bool" where
  "email_valid t =
     (if length t > 254 then False
      else
        (case split_at (\<lambda>c. c = CHR ''@'') t of
           (local, None) \<Rightarrow> False
         | (local, Some domain) \<Rightarrow>
             if local = [] \<or> length local > 64 \<or> CHR ''@'' \<in> set domain then False
             else if hd local = CHR ''.'' \<or> last local = CHR ''.'' then False
             else if \<not> local_loop local then False
             else
               (case domain_loop domain (CHR ''@'') 0 False of
                  None \<Rightarrow> False
                | Some (label, dot) \<Rightarrow> dot \<and> label > 0 \<and> last domain \<noteq> CHR ''-'')))"

section \<open>Email addresses\<close>

fun parts :: "string \<Rightarrow> string list" where
  "parts [] = [[]]"
| "parts (c # s) =
     (if c = CHR ''.'' then [] # parts s else (case parts s of p # ps \<Rightarrow> (c # p) # ps | [] \<Rightarrow> [[c]]))"

lemma parts_nonempty: "parts s \<noteq> []"
  by (induction s) (auto split: list.splits)

lemma parts_Cons: "c \<noteq> CHR ''.'' \<Longrightarrow> parts (c # s) = (c # hd (parts s)) # tl (parts s)"
  using parts_nonempty [of s] by (cases "parts s") simp_all

lemma parts_dot: "parts (CHR ''.'' # s) = [] # parts s"
  by simp

declare parts.simps (2) [simp del] parts_dot [simp] parts_Cons [simp]

definition atom_char :: "char \<Rightarrow> bool" where
  "atom_char c \<longleftrightarrow> local_char c \<and> c \<noteq> CHR ''.''"

definition label_ok :: "string \<Rightarrow> bool" where
  "label_ok l \<longleftrightarrow>
     l \<noteq> [] \<and> length l \<le> 63 \<and> (\<forall>c \<in> set l. is_alnum c \<or> c = CHR ''-'') \<and> hd l \<noteq> CHR ''-'' \<and> last l \<noteq> CHR ''-''"

text \<open>An address: dot-separated atoms, one \<open>@\<close>, at least two dot-separated labels.\<close>

definition email_address :: "string \<Rightarrow> bool" where
  "email_address t \<longleftrightarrow>
     length t \<le> 254 \<and>
     (\<exists>local domain. t = local @ CHR ''@'' # domain \<and> CHR ''@'' \<notin> set local \<and> CHR ''@'' \<notin> set domain \<and>
        length local \<le> 64 \<and> (\<forall>a \<in> set (parts local). a \<noteq> [] \<and> (\<forall>c \<in> set a. atom_char c)) \<and>
        length (parts domain) \<ge> 2 \<and> (\<forall>l \<in> set (parts domain). label_ok l))"

lemma hd_parts_empty: "s \<noteq> [] \<Longrightarrow> hd (parts s) = [] \<longleftrightarrow> hd s = CHR ''.''"
proof (cases s)
  case (Cons c r)
  then show ?thesis by (cases "c = CHR ''.''") simp_all
qed simp

lemma parts_Nil_last: "s \<noteq> [] \<Longrightarrow> last s = CHR ''.'' \<Longrightarrow> [] \<in> set (tl (parts s))"
proof (induction s)
  case (Cons c s)
  show ?case
  proof (cases "s = []")
    case True
    then show ?thesis using Cons.prems by simp
  next
    case False
    then have "[] \<in> set (tl (parts s))" using Cons by simp
    then show ?thesis using list.set_sel(2) [OF parts_nonempty, of "[]" s] by (cases "c = CHR ''.''") simp_all
  qed
qed simp

definition atoms :: "string \<Rightarrow> bool" where
  "atoms a \<longleftrightarrow> (\<forall>c \<in> set a. atom_char c)"

lemma local_loop_parts:
  assumes "s \<noteq> []" "last s \<noteq> CHR ''.''"
  shows "local_loop s \<longleftrightarrow> atoms (hd (parts s)) \<and> (\<forall>a \<in> set (tl (parts s)). a \<noteq> [] \<and> atoms a)"
  using assms
proof (induction s)
  case (Cons c r)
  have dot: "local_char (CHR ''.'')" by (simp add: local_char_def)
  show ?case
  proof (cases "c = CHR ''.''")
    case True
    then have r: "r \<noteq> []" "last r \<noteq> CHR ''.''" using Cons.prems by (cases r; simp)+
    have "local_loop (c # r) \<longleftrightarrow> hd (parts r) \<noteq> [] \<and> local_loop r"
      using True r(1) dot hd_parts_empty [OF r(1)] by simp
    moreover have "parts r = hd (parts r) # tl (parts r)" using parts_nonempty [of r] by simp
    then have "(\<forall>a \<in> set (parts r). a \<noteq> [] \<and> atoms a) \<longleftrightarrow>
        (hd (parts r) \<noteq> [] \<and> atoms (hd (parts r))) \<and> (\<forall>a \<in> set (tl (parts r)). a \<noteq> [] \<and> atoms a)"
      by (metis list.set_intros(1,2) set_ConsD)
    ultimately show ?thesis using Cons.IH [OF r] True by (auto simp: atoms_def)
  next
    case False
    have ll: "local_loop (c # r) \<longleftrightarrow> atom_char c \<and> local_loop r" using False by (simp add: atom_char_def)
    show ?thesis
    proof (cases "r = []")
      case True
      then show ?thesis using ll False by (simp add: atoms_def)
    next
      case r: False
      then have "last r \<noteq> CHR ''.''" using Cons.prems by simp
      from Cons.IH [OF r this] show ?thesis unfolding ll parts_Cons [OF False] by (auto simp: atoms_def)
    qed
  qed
qed simp

definition label_chars :: "string \<Rightarrow> bool" where
  "label_chars l \<longleftrightarrow> (\<forall>c \<in> set l. is_alnum c \<or> c = CHR ''-'') \<and> (l \<noteq> [] \<longrightarrow> hd l \<noteq> CHR ''-'') \<and> length l \<le> 63"

lemma label_ok_split: "label_ok l \<longleftrightarrow> l \<noteq> [] \<and> label_chars l \<and> last l \<noteq> CHR ''-''"
  by (auto simp: label_ok_def label_chars_def)

lemma label_chars_prefix: "label_chars (a @ b) \<Longrightarrow> label_chars a"
  by (cases a) (auto simp: label_chars_def)

lemma domain_loop_spec:
  assumes "label_chars cur" "cur \<noteq> [] \<Longrightarrow> prev = last cur"
  shows "(case domain_loop s prev (length cur) dot of None \<Rightarrow> False | Some (l, d) \<Rightarrow> d \<and> l > 0 \<and> last (cur @ s) \<noteq> CHR ''-'') \<longleftrightarrow>
    (dot \<or> 2 \<le> length (parts s)) \<and> label_ok (cur @ hd (parts s)) \<and> (\<forall>l \<in> set (tl (parts s)). label_ok l)"
  using assms
proof (induction s arbitrary: cur prev dot)
  case Nil
  then show ?case by (auto simp: label_ok_split)
next
  case (Cons c r)
  show ?case
  proof (cases "c = CHR ''.''")
    case True
    have ne: "parts r = hd (parts r) # tl (parts r)" using parts_nonempty [of r] by simp
    have len: "2 \<le> length ([] # parts r)" using parts_nonempty [of r] by (cases "parts r") simp_all
    have ok: "label_ok cur \<longleftrightarrow> \<not> (length cur = 0 \<or> prev = CHR ''-'')" using Cons.prems by (auto simp: label_ok_split)
    have lst: "r \<noteq> [] \<Longrightarrow> last (cur @ c # r) = last ([] @ r)" by simp
    have chars: "label_chars []" by (simp add: label_chars_def)
    have IH: "(case domain_loop r c 0 True of None \<Rightarrow> False | Some (l, d) \<Rightarrow> d \<and> l > 0 \<and> last r \<noteq> CHR ''-'') \<longleftrightarrow>
        label_ok (hd (parts r)) \<and> (\<forall>l \<in> set (tl (parts r)). label_ok l)"
      using Cons.IH [OF chars, of c True, unfolded append_Nil list.size] by simp
    have all: "(\<forall>l \<in> set (parts r). label_ok l) \<longleftrightarrow> label_ok (hd (parts r)) \<and> (\<forall>l \<in> set (tl (parts r)). label_ok l)"
      by (subst ne) simp
    show ?thesis
    proof (cases "label_ok cur")
      case False
      then show ?thesis using True ok by auto
    next
      case True2: True
      have step: "domain_loop (c # r) prev (length cur) dot = domain_loop r c 0 True" using True True2 ok by auto
      have "(case domain_loop r c 0 True of None \<Rightarrow> False | Some (l, d) \<Rightarrow> d \<and> l > 0 \<and> last (cur @ c # r) \<noteq> CHR ''-'') \<longleftrightarrow>
          (case domain_loop r c 0 True of None \<Rightarrow> False | Some (l, d) \<Rightarrow> d \<and> l > 0 \<and> last r \<noteq> CHR ''-'')"
      proof (cases "r = []")
        case False
        then have e: "last (cur @ c # r) = last r" by simp
        show ?thesis unfolding e ..
      qed simp
      then show ?thesis unfolding step IH using True True2 len all by simp
    qed
  next
    case False
    let ?bad = "\<not> (is_alnum c \<or> c = CHR ''-'') \<or> (length cur = 0 \<and> c = CHR ''-'') \<or> length cur + 1 > 63"
    have lc: "label_chars (cur @ [c]) \<longleftrightarrow> \<not> ?bad" using Cons.prems(1) by (cases cur) (auto simp: label_chars_def)
    have p: "parts (c # r) = (c # hd (parts r)) # tl (parts r)" by (rule parts_Cons [OF False])
    have len: "length (parts (c # r)) = length (parts r)" unfolding p using parts_nonempty [of r] by (cases "parts r") simp_all
    show ?thesis
    proof (cases ?bad)
      case True
      then have "\<not> label_ok (cur @ c # hd (parts r))"
        using lc label_chars_prefix [of "cur @ [c]" "hd (parts r)"] by (auto simp: label_ok_split)
      moreover have "domain_loop (c # r) prev (length cur) dot = None" using True False by auto
      ultimately show ?thesis unfolding p by simp
    next
      case good: False
      then have st: "domain_loop (c # r) prev (length cur) dot = domain_loop r c (length (cur @ [c])) dot" using False by auto
      have e: "last (cur @ c # r) = last ((cur @ [c]) @ r)" by simp
      have h: "cur @ hd (parts (c # r)) = (cur @ [c]) @ hd (parts r)" "tl (parts (c # r)) = tl (parts r)" by (simp_all add: p)
      show ?thesis unfolding st e len h by (rule Cons.IH) (use lc good in auto)
    qed
  qed
qed

lemma email_address_check: "email_valid t \<longleftrightarrow> email_address t"
proof -
  let ?at = "\<lambda>c. c = CHR ''@''"
  obtain local dom where sp: "split_at ?at t = (local, dom)" by fastforce
  have la: "CHR ''@'' \<notin> set local" using fst_split_at [of ?at t] sp by (auto dest: set_takeWhileD)
  show ?thesis
  proof (cases dom)
    case None
    then have "CHR ''@'' \<notin> set t" using split_at_None [of ?at t local] sp by auto
    then have "\<not> email_address t" unfolding email_address_def by auto
    then show ?thesis using sp None by (simp add: email_valid_def)
  next
    case (Some domain)
    then have t: "t = local @ CHR ''@'' # domain" using split_at_Some [of ?at t local domain] sp by auto
    have uniq: "t = l @ CHR ''@'' # d \<Longrightarrow> CHR ''@'' \<notin> set l \<Longrightarrow> l = local \<and> d = domain" for l d
      using split_at_append [of l ?at "CHR ''@''" d] sp Some by auto
    have loc: "(\<forall>a \<in> set (parts local). a \<noteq> [] \<and> (\<forall>c \<in> set a. atom_char c)) \<longleftrightarrow>
        local \<noteq> [] \<and> hd local \<noteq> CHR ''.'' \<and> last local \<noteq> CHR ''.'' \<and> local_loop local"
    proof (cases "local = []")
      case False
      have ps: "set (parts local) = insert (hd (parts local)) (set (tl (parts local)))"
        using parts_nonempty [of local] by (metis list.exhaust_sel list.simps(15))
      show ?thesis
      proof (cases "last local = CHR ''.''")
        case True
        then show ?thesis using parts_Nil_last [OF False] ps by auto
      next
        case last: False
        show ?thesis unfolding ps using False last hd_parts_empty [OF False] local_loop_parts [OF False last]
          by (auto simp: atoms_def)
      qed
    qed simp
    have lab: "label_chars []" by (simp add: label_chars_def)
    have dm: "(case domain_loop domain (CHR ''@'') 0 False of None \<Rightarrow> False | Some (l, d) \<Rightarrow> d \<and> l > 0 \<and> last domain \<noteq> CHR ''-'') \<longleftrightarrow>
        2 \<le> length (parts domain) \<and> (\<forall>l \<in> set (parts domain). label_ok l)"
    proof -
      have ps: "set (parts domain) = insert (hd (parts domain)) (set (tl (parts domain)))"
        using parts_nonempty [of domain] by (metis list.exhaust_sel list.simps(15))
      show ?thesis
        using domain_loop_spec [OF lab, of "CHR ''@''" domain False, unfolded append_Nil list.size] unfolding ps by simp
    qed
    have addr: "email_address t \<longleftrightarrow> length t \<le> 254 \<and> CHR ''@'' \<notin> set domain \<and> length local \<le> 64 \<and>
        (\<forall>a \<in> set (parts local). a \<noteq> [] \<and> (\<forall>c \<in> set a. atom_char c)) \<and>
        2 \<le> length (parts domain) \<and> (\<forall>l \<in> set (parts domain). label_ok l)"
      unfolding email_address_def using uniq t la by blast
    have code: "email_valid t \<longleftrightarrow> length t \<le> 254 \<and> CHR ''@'' \<notin> set domain \<and> length local \<le> 64 \<and>
        (local \<noteq> [] \<and> hd local \<noteq> CHR ''.'' \<and> last local \<noteq> CHR ''.'' \<and> local_loop local) \<and>
        (case domain_loop domain (CHR ''@'') 0 False of None \<Rightarrow> False | Some (l, d) \<Rightarrow> d \<and> l > 0 \<and> last domain \<noteq> CHR ''-'')"
      unfolding email_valid_def sp Some by auto
    show ?thesis unfolding code addr loc dm by blast
  qed
qed

text \<open>C39: The address check accepts exactly the addresses of the form \<open>atoms@labels\<close>: non-empty atoms
  joined by dots, at most 64 characters, one at sign, and two or more labels of at most 63 letters, digits
  and inner hyphens.\<close>

theorem email_valid_iff: "email_valid t \<longleftrightarrow> email_address t"
  by (rule email_address_check)

section \<open>The code: fields and structures\<close>

definition double_val :: "64 word \<Rightarrow> rat" where
  "double_val d =
     (let e = unat (drop_bit 52 d AND 0x7FF); m = unat (d AND 0xFFFFFFFFFFFFF);
          v = (if e = 0 then of_nat m / 2 ^ 1074
               else if e \<ge> 1075 then of_nat (2 ^ 52 + m) * 2 ^ (e - 1075)
               else of_nat (2 ^ 52 + m) / 2 ^ (1075 - e))
      in if drop_bit 63 d = 0 then v else - v)"

definition code_points :: "string \<Rightarrow> nat" where
  "code_points t = length (filter (\<lambda>c. byte c div 64 \<noteq> 2) (take RUNTIME_MAX_TEXT t))"

definition size_message :: "FieldRules \<Rightarrow> string" where
  "size_message r = ''length must be between '' @ int_text (int (fr_size_min r)) @ '' and '' @ int_text (int (fr_size_max r)) @
     '' Unicode code points''"

definition field_validate ::
  "(size_t \<Rightarrow> string) \<Rightarrow> (rat \<Rightarrow> string) \<Rightarrow> FieldInfo \<Rightarrow> memory \<Rightarrow> string \<Rightarrow> RequestState \<Rightarrow> int \<times> RequestState" where
  "field_validate text_at fmt_ldouble f0 obj path st =
     (let fail = (\<lambda>code message. (- 1, field_error_add path code (snprintf_s 128 message) st)) in
      if field_is_null f0 obj then
        (if has_flag (fi_flags f0) FIELD_NOT_NULL then fail ''not_null'' ''must not be null'' else (0, st))
      else
        let f = field_scalar f0; r = fi_rules f;
            rule = (\<lambda>b. has_flag (fr_flags r) b)
        in if fi_kind f = FIELD_STR then
             (let v = read_str obj (fi_offset f) in
              if v = 0 then
                (if has_flag (fi_flags f) FIELD_NOT_NULL then fail ''not_null'' ''must not be null'' else (0, st))
              else
                let t = cstr (text_at v); n = code_points t in
                if rule RULE_SIZE \<and> (n < fr_size_min r \<or> n > fr_size_max r) then fail ''size'' (size_message r)
                else if rule RULE_EMAIL \<and> \<not> email_valid t then fail ''email'' ''must be a valid email address''
                else (0, st))
           else if (fi_kind f = FIELD_INT \<or> fi_kind f = FIELD_LONG) \<and> (rule RULE_MIN \<or> rule RULE_MAX) then
             (let v = (if fi_kind f = FIELD_INT then read_int obj (fi_offset f) else read_long obj (fi_offset f)) in
              if rule RULE_MIN \<and> v < fr_min_int r then fail ''min'' (''must be at least '' @ int_text (fr_min_int r))
              else if rule RULE_MAX \<and> v > fr_max_int r then fail ''max'' (''must not exceed '' @ int_text (fr_max_int r))
              else (0, st))
           else if rule RULE_MIN \<or> rule RULE_MAX then
             (let bounded = (fi_kind f = FIELD_DOUBLE \<longrightarrow> isfinite (read_double obj (fi_offset f)));
                  v = (if fi_kind f = FIELD_DOUBLE then double_val (read_double obj (fi_offset f)) else 0) in
              if \<not> bounded \<or> (rule RULE_MIN \<and> v < fr_min r) then fail ''min'' (''must be at least '' @ fmt_ldouble (fr_min r))
              else if rule RULE_MAX \<and> v > fr_max r then fail ''max'' (''must not exceed '' @ fmt_ldouble (fr_max r))
              else (0, st))
           else (0, st))"

definition join_path :: "string \<Rightarrow> string option \<Rightarrow> string" where
  "join_path prefix name = prefix @ (if prefix \<noteq> [] then ''.'' else []) @ str_of name"

abbreviation PATH_CAP :: nat where "PATH_CAP \<equiv> NEST_DEPTH_MAX * 65"

text \<open>The results are the return value, the field in \<open>*bad\<close> and the request's failures. A null \<open>nested\<close>
  pointer is not reached: the caller checks the type first.\<close>

fun validate_nested ::
  "(size_t \<Rightarrow> string) \<Rightarrow> (rat \<Rightarrow> string) \<Rightarrow> TypeInfo \<Rightarrow> memory \<Rightarrow> string option \<Rightarrow> nat \<Rightarrow> string \<Rightarrow> RequestState \<Rightarrow>
   int \<times> string option \<times> RequestState"
  and validate_fields ::
  "(size_t \<Rightarrow> string) \<Rightarrow> (rat \<Rightarrow> string) \<Rightarrow> FieldInfo list \<Rightarrow> bool \<Rightarrow> memory \<Rightarrow> string option \<Rightarrow> nat \<Rightarrow> string \<Rightarrow> RequestState \<Rightarrow>
   int \<times> string option \<times> RequestState" where
  "validate_nested text_at fmt_ldouble (TypeInfo name sz flds) obj bad depth prefix st =
     (if depth \<ge> NEST_DEPTH_MAX then (- 1, bad, st)
      else
        (case flds of
           None \<Rightarrow> (0, bad, st)
         | Some fs \<Rightarrow> validate_fields text_at fmt_ldouble fs False obj bad depth prefix st))"
| "validate_fields text_at fmt_ldouble [] failed obj bad depth prefix st = (if failed then - 1 else 0, bad, st)"
| "validate_fields text_at fmt_ldouble (FieldInfo name kind offset fsz flags nested refs rkey rules # fs) failed obj bad depth prefix st =
     (let path = join_path prefix name in
      if length path \<ge> PATH_CAP then (- 1, bad, st)
      else
        (case (if kind = FIELD_OBJECT then
                 (case nested of
                    None \<Rightarrow> (- 1, bad, st)
                  | Some t \<Rightarrow> validate_nested text_at fmt_ldouble t (drop (unat offset) obj) bad (depth + 1) path st)
               else
                 (case field_validate text_at fmt_ldouble (FieldInfo name kind offset fsz flags nested refs rkey rules) obj path st of
                    (rc, st1) \<Rightarrow> (rc, bad, st1))) of
           (rc, bad1, st1) \<Rightarrow>
             validate_fields text_at fmt_ldouble fs (failed \<or> rc \<noteq> 0) obj
               (if rc \<noteq> 0 \<and> kind \<noteq> FIELD_OBJECT then name else bad1) depth prefix st1))"

definition validate_struct ::
  "(size_t \<Rightarrow> string) \<Rightarrow> (rat \<Rightarrow> string) \<Rightarrow> TypeInfo option \<Rightarrow> memory option \<Rightarrow> RequestState \<Rightarrow>
   int \<times> string option \<times> RequestState" where
  "validate_struct text_at fmt_ldouble type obj st =
     (case (obj, type) of
        (Some ob, Some t) \<Rightarrow>
          if type_valid type then validate_nested text_at fmt_ldouble t ob None 0 [] st else (- 1, None, st)
      | _ \<Rightarrow> (- 1, None, st))"

definition text_write :: "string option \<Rightarrow> string \<Rightarrow> int \<times> string" where
  "text_write t out =
     (case t of
        None \<Rightarrow> (0, out[0 := NUL])
      | Some x \<Rightarrow>
          if length x \<ge> length out then (- 1, out[0 := NUL])
          else (0, x @ NUL # drop (length x + 1) out))"

section \<open>What the rules mean\<close>

definition field_ok :: "(size_t \<Rightarrow> string) \<Rightarrow> FieldInfo \<Rightarrow> memory \<Rightarrow> bool" where
  "field_ok text_at f0 obj \<longleftrightarrow>
     (let f = field_scalar f0; r = fi_rules f; rule = (\<lambda>b. has_flag (fr_flags r) b) in
      if field_is_null f0 obj then \<not> has_flag (fi_flags f0) FIELD_NOT_NULL
      else
        case fi_kind f of
          FIELD_STR \<Rightarrow>
            if read_str obj (fi_offset f) = 0 then \<not> has_flag (fi_flags f) FIELD_NOT_NULL
            else
              let t = cstr (text_at (read_str obj (fi_offset f))) in
              (rule RULE_SIZE \<longrightarrow> fr_size_min r \<le> code_points t \<and> code_points t \<le> fr_size_max r) \<and>
              (rule RULE_EMAIL \<longrightarrow> email_address t)
        | FIELD_INT \<Rightarrow>
            (rule RULE_MIN \<longrightarrow> fr_min_int r \<le> read_int obj (fi_offset f)) \<and> (rule RULE_MAX \<longrightarrow> read_int obj (fi_offset f) \<le> fr_max_int r)
        | FIELD_LONG \<Rightarrow>
            (rule RULE_MIN \<longrightarrow> fr_min_int r \<le> read_long obj (fi_offset f)) \<and> (rule RULE_MAX \<longrightarrow> read_long obj (fi_offset f) \<le> fr_max_int r)
        | FIELD_DOUBLE \<Rightarrow>
            let d = read_double obj (fi_offset f) in
            (rule RULE_MIN \<or> rule RULE_MAX \<longrightarrow> isfinite d) \<and>
            (rule RULE_MIN \<longrightarrow> fr_min r \<le> double_val d) \<and> (rule RULE_MAX \<longrightarrow> double_val d \<le> fr_max r)
        | _ \<Rightarrow> (rule RULE_MIN \<longrightarrow> fr_min r \<le> 0) \<and> (rule RULE_MAX \<longrightarrow> 0 \<le> fr_max r))"

text \<open>The fields of a structure that hold values, with their paths and the offset of the structure they
  are fields of; and all the paths.\<close>

fun leaves :: "TypeInfo \<Rightarrow> string \<Rightarrow> nat \<Rightarrow> (string \<times> nat \<times> FieldInfo) list"
  and field_leaves :: "FieldInfo list \<Rightarrow> string \<Rightarrow> nat \<Rightarrow> (string \<times> nat \<times> FieldInfo) list" where
  "leaves (TypeInfo name sz flds) prefix base = (case flds of None \<Rightarrow> [] | Some fs \<Rightarrow> field_leaves fs prefix base)"
| "field_leaves [] prefix base = []"
| "field_leaves (FieldInfo name kind offset fsz flags nested refs rkey rules # fs) prefix base =
     (if kind = FIELD_OBJECT then
        (case nested of None \<Rightarrow> [] | Some t \<Rightarrow> leaves t (join_path prefix name) (base + unat offset))
      else [(join_path prefix name, base, FieldInfo name kind offset fsz flags nested refs rkey rules)]) @
     field_leaves fs prefix base"

fun paths_fit :: "TypeInfo \<Rightarrow> string \<Rightarrow> bool"
  and field_paths_fit :: "FieldInfo list \<Rightarrow> string \<Rightarrow> bool" where
  "paths_fit (TypeInfo name sz flds) prefix = (case flds of None \<Rightarrow> True | Some fs \<Rightarrow> field_paths_fit fs prefix)"
| "field_paths_fit [] prefix = True"
| "field_paths_fit (FieldInfo name kind offset fsz flags nested refs rkey rules # fs) prefix =
     (length (join_path prefix name) < PATH_CAP \<and>
      (kind = FIELD_OBJECT \<longrightarrow> (case nested of None \<Rightarrow> True | Some t \<Rightarrow> paths_fit t (join_path prefix name))) \<and>
      field_paths_fit fs prefix)"

lemma field_error_fails: "request_failed (field_error_add path code m st)"
  by (auto simp: field_error_add_def request_fail_code_def request_failed_def request_fail_def Let_def split: option.splits)

lemma field_validate_spec:
  assumes "field_validate text_at fmt_ldouble f obj path st = (rc, st')"
  shows "rc = 0 \<longleftrightarrow> field_ok text_at f obj" "rc = 0 \<Longrightarrow> st' = st" "rc \<noteq> 0 \<Longrightarrow> rc = - 1 \<and> request_failed st'"
proof -
  show "rc = 0 \<longleftrightarrow> field_ok text_at f obj"
  proof (cases "field_is_null f obj")
    case True
    then show ?thesis using assms by (auto simp: field_validate_def field_ok_def Let_def split: if_splits)
  next
    case False
    then show ?thesis using assms unfolding field_validate_def field_ok_def Let_def
      by (cases "fi_kind (field_scalar f)") (auto simp: email_address_check split: if_splits)
  qed
  show "rc = 0 \<Longrightarrow> st' = st" "rc \<noteq> 0 \<Longrightarrow> rc = - 1 \<and> request_failed st'"
    using assms field_error_fails unfolding field_validate_def Let_def by (auto split: if_splits)
qed

section \<open>Validating a structure\<close>

definition verdict :: "bool \<Rightarrow> bool \<Rightarrow> RequestState \<Rightarrow> int \<times> string option \<times> RequestState \<Rightarrow> bool" where
  "verdict ok failed st res \<longleftrightarrow>
     (case res of
        (rc, bad, st') \<Rightarrow>
          (rc = 0 \<longleftrightarrow> ok \<and> \<not> failed) \<and> (ok \<longrightarrow> st' = st) \<and> (\<not> ok \<longrightarrow> request_failed st') \<and> rc \<in> {0, - 1} \<and>
          (request_failed st \<longrightarrow> request_failed st'))"

lemma field_error_keeps_failed: "request_failed st \<Longrightarrow> request_failed (field_error_add path code m st)"
  by (rule field_error_fails)

lemma verdict_trans:
  assumes "verdict ok1 False st (rc, bad1, st1)" "verdict ok2 (failed \<or> rc \<noteq> 0) st1 res"
  shows "verdict (ok1 \<and> ok2) failed st res"
  using assms by (cases res) (auto simp: verdict_def)

lemma validate_nested_verdict:
  "fst (type_valid_nested (Some t) depth remaining) \<Longrightarrow> paths_fit t prefix \<Longrightarrow>
     verdict (\<forall>(p, b, f) \<in> set (leaves t prefix base). field_ok text_at f (drop b obj0)) False st
       (validate_nested text_at fmt_ldouble t (drop base obj0) bad depth prefix st)"
  "fst (fields_valid sz fs depth remaining) \<Longrightarrow> field_paths_fit fs prefix \<Longrightarrow>
     verdict (\<forall>(p, b, f) \<in> set (field_leaves fs prefix base). field_ok text_at f (drop b obj0)) failed st
       (validate_fields text_at fmt_ldouble fs failed (drop base obj0) bad depth prefix st)"
proof (induction t prefix base and fs prefix base arbitrary: depth remaining bad st and depth remaining bad st sz failed
    rule: leaves_field_leaves.induct)
  case (1 name sz flds prefix base)
  then obtain fs where fs: "flds = Some fs" "fst (fields_valid sz fs depth (remaining - 1))" "\<not> depth \<ge> NEST_DEPTH_MAX"
    by (auto split: option.splits if_splits)
  show ?case using "1.IH" [OF fs(1) fs(2), of False st bad] "1.prems"(2) fs(1,3) by simp
next
  case (2 prefix base)
  then show ?case by (simp add: verdict_def)
next
  case (3 name kind offset fsz flags nested refs rkey rules fs prefix base)
  let ?f = "FieldInfo name kind offset fsz flags nested refs rkey rules" and ?path = "join_path prefix name"
  let ?nv = "if kind = FIELD_OBJECT then type_valid_nested nested (depth + 1) remaining else (True, remaining)"
  have v: "fst ?nv" "fst (fields_valid sz fs depth (snd ?nv))"
    using "3.prems"(1) by (auto simp: Let_def split: prod.splits if_splits)
  have fit: "length ?path < PATH_CAP" "field_paths_fit fs prefix" using "3.prems"(2) by simp_all
  let ?first = "if kind = FIELD_OBJECT then (case nested of None \<Rightarrow> (- 1, bad, st)
      | Some t \<Rightarrow> validate_nested text_at fmt_ldouble t (drop (unat offset) (drop base obj0)) bad (depth + 1) ?path st)
    else (case field_validate text_at fmt_ldouble ?f (drop base obj0) ?path st of (rc, st1) \<Rightarrow> (rc, bad, st1))"
  let ?leaves = "if kind = FIELD_OBJECT then (case nested of None \<Rightarrow> [] | Some t \<Rightarrow> leaves t ?path (base + unat offset))
      else [(?path, base, ?f)]"
  let ?ok = "\<lambda>ls. \<forall>(p, b, f) \<in> set ls. field_ok text_at f (drop b obj0)"
  have first: "verdict (?ok ?leaves) False st ?first"
  proof (cases "kind = FIELD_OBJECT")
    case obj: True
    then obtain t where t: "nested = Some t" using v(1) by (cases nested) (auto split: if_splits)
    have "fst (type_valid_nested (Some t) (depth + 1) remaining)" "paths_fit t ?path"
      using v(1) obj t "3.prems"(2) by simp_all
    from "3.IH"(1) [OF obj t this, of st bad] show ?thesis using obj t by (simp add: drop_drop add.commute)
  next
    case False
    obtain rc st1 where fv: "field_validate text_at fmt_ldouble ?f (drop base obj0) ?path st = (rc, st1)" by fastforce
    show ?thesis using field_validate_spec [OF fv] False fv by (auto simp: verdict_def)
  qed
  obtain rc bad1 st1 where r: "?first = (rc, bad1, st1)" by (metis prod_cases3)
  have rest: "verdict (?ok (field_leaves fs prefix base)) (failed \<or> rc \<noteq> 0) st1
      (validate_fields text_at fmt_ldouble fs (failed \<or> rc \<noteq> 0) (drop base obj0)
        (if rc \<noteq> 0 \<and> kind \<noteq> FIELD_OBJECT then name else bad1) depth prefix st1)"
    using "3.IH"(2) v(2) fit(2) by blast
  have code: "validate_fields text_at fmt_ldouble (?f # fs) failed (drop base obj0) bad depth prefix st =
      validate_fields text_at fmt_ldouble fs (failed \<or> rc \<noteq> 0) (drop base obj0)
        (if rc \<noteq> 0 \<and> kind \<noteq> FIELD_OBJECT then name else bad1) depth prefix st1"
    using fit(1) r unfolding validate_fields.simps Let_def by simp
  have ls: "field_leaves (?f # fs) prefix base = ?leaves @ field_leaves fs prefix base" by simp
  have "?ok (field_leaves (?f # fs) prefix base) = (?ok ?leaves \<and> ?ok (field_leaves fs prefix base))"
    unfolding ls by (simp only: set_append ball_Un)
  then show ?case unfolding code using verdict_trans [OF first [unfolded r] rest] by simp
qed

text \<open>C12: A structure of a valid type passes validation exactly when each of its value fields, at any
  depth, satisfies its rules (presence, size in code points, e-mail form, bounds); nothing is reported for
  a structure that passes, and one that does not leaves the request failed.\<close>

theorem validate_struct_correct:
  assumes "type_valid (Some t)" "paths_fit t []" "validate_struct text_at fmt_ldouble (Some t) (Some obj) st = (rc, bad, st')"
  shows "(rc = 0 \<longleftrightarrow> (\<forall>(p, b, f) \<in> set (leaves t [] 0). field_ok text_at f (drop b obj))) \<and>
    (rc = 0 \<longrightarrow> st' = st) \<and> (rc \<noteq> 0 \<longrightarrow> rc = - 1 \<and> request_failed st')"
proof -
  have "fst (type_valid_nested (Some t) 0 RUNTIME_MAX_TYPES)" using assms(1) by (simp add: type_valid_def)
  from validate_nested_verdict(1) [OF this assms(2), of 0 text_at obj st fmt_ldouble None]
  show ?thesis using assms(1,3) by (auto simp: validate_struct_def verdict_def)
qed

definition demo_rules :: FieldRules where
  "demo_rules = \<lparr>fr_flags = RULE_MIN, fr_min = 0, fr_max = 0, fr_size_min = 0, fr_size_max = 0, fr_min_int = 5, fr_max_int = 0\<rparr>"

definition demo_ruled :: TypeInfo where
  "demo_ruled = TypeInfo (Some ''Age'') 4 (Some [FieldInfo (Some ''years'') FIELD_INT 0 4 0 None None None demo_rules])"

theorem validate_struct_correct_witness:
  "fst (validate_struct (\<lambda>_. []) (\<lambda>_. []) (Some demo_ruled) (Some [CHR 0x07, NUL, NUL, NUL]) no_failure) = 0"
proof -
  obtain rc bad st' where r:
    "validate_struct (\<lambda>_. []) (\<lambda>_. []) (Some demo_ruled) (Some [CHR 0x07, NUL, NUL, NUL]) no_failure = (rc, bad, st')"
    by (metis prod_cases3)
  have tv: "type_valid (Some demo_ruled)"
    unfolding type_valid_def demo_ruled_def
    by (simp add: is_safe_identifier_def ident_start_def ident_char_def is_upper_def is_lower_def byte_def
        field_storage_size_def has_flag_def)
  have pf: "paths_fit demo_ruled []" by (simp add: demo_ruled_def join_path_def str_of_def)
  have rd: "read_int [CHR 0x07, NUL, NUL, NUL] 0 = 7"
    by (simp add: read_int_def bytes_at_def le_val_def byte_def)
  have "\<forall>(p, b, f) \<in> set (leaves demo_ruled [] 0). field_ok (\<lambda>_. []) f (drop b [CHR 0x07, NUL, NUL, NUL])"
    using rd by (simp add: demo_ruled_def demo_rules_def field_ok_def field_is_null_def field_scalar_def has_flag_def Let_def)
  then show ?thesis using validate_struct_correct [OF tv pf r] r by simp
qed

end
