(* ===== verification/Database.thy ===== *)
theory Database
  imports Auth
begin

text \<open>
  Database access and transactions: the connection lock, the transaction depth and the statement
  functions of \<open>src/db/db_sqlite.c\<close>, and the transaction and dispatch functions of
  \<open>src/runtime/runtime_api.c\<close> above them. SQLite is an argument: a record of the library functions the
  code calls, over a connection and a statement type of its own. The session is what one thread sees: the
  shared connection (used under the lock), its thread-local counters, whether it holds the lock, whether
  a handler is running (\<open>g_escape\<close>) and the failure state of its request. The outcomes of
  \<open>pthread_mutex_trylock\<close> are events.
\<close>

section \<open>The library interface\<close>

text \<open>\<open>sa_kind\<close> is None for \<open>FIELD_KIND_COUNT\<close>, the null argument.\<close>

record SqlArg =
  sa_kind :: "FieldKind option"
  sa_i :: int
  sa_l :: int
  sa_d :: "64 word"
  sa_s :: "string option"

text \<open>What a parameter is bound to, by one of the five \<open>sqlite3_bind_*\<close> functions.\<close>

datatype SqlValue = Bind_null | Bind_text string | Bind_int int | Bind_int64 int | Bind_double "64 word"

record ('c, 's) Sqlite =
  sq_exec :: "string \<Rightarrow> 'c \<Rightarrow> bool \<times> 'c"
  sq_errcode :: "'c \<Rightarrow> int"
  sq_autocommit :: "'c \<Rightarrow> bool"
  sq_prepare :: "string \<Rightarrow> 'c \<Rightarrow> bool \<times> 's option \<times> string"
  sq_params :: "'s \<Rightarrow> nat"
  sq_bind :: "'s \<Rightarrow> nat \<Rightarrow> SqlValue \<Rightarrow> bool \<times> 's"
  sq_step :: "'s \<Rightarrow> 'c \<Rightarrow> int \<times> 's \<times> 'c"
  sq_finalize :: "'s \<Rightarrow> 'c \<Rightarrow> bool"
  sq_changes :: "'c \<Rightarrow> int"
  sq_rowid :: "'c \<Rightarrow> int"
  sq_text :: "'s \<Rightarrow> string option"
  sq_readonly :: "'s \<Rightarrow> bool"
  sq_columns :: "'s \<Rightarrow> nat"
  sq_integer :: "'s \<Rightarrow> nat \<Rightarrow> int option"

abbreviation SQLITE_ROW :: int where "SQLITE_ROW \<equiv> 100"
abbreviation SQLITE_DONE :: int where "SQLITE_DONE \<equiv> 101"
abbreviation DB_MAX_ARGS :: nat where "DB_MAX_ARGS \<equiv> 64"
abbreviation DB_MAX_SQL :: nat where "DB_MAX_SQL \<equiv> 8192"

section \<open>The code: the connection\<close>

record 'c Session =
  g_db :: "'c option"
  t_depth :: nat
  t_failed_level :: nat
  db_locked :: bool
  g_last_id :: int
  g_escape :: bool
  se_fail :: RequestState

definition fail_with :: "int \<Rightarrow> string \<Rightarrow> string \<Rightarrow> ('c, 'z) Session_scheme \<Rightarrow> ('c, 'z) Session_scheme" where
  "fail_with status code message s = s\<lparr>se_fail := request_fail_code status code (Some message) (se_fail s)\<rparr>"

definition db_failure :: "('c, 's) Sqlite \<Rightarrow> ('c, 'z) Session_scheme \<Rightarrow> ('c, 'z) Session_scheme" where
  "db_failure api s =
     (if \<not> g_escape s then s
      else
        let code = (case g_db s of None \<Rightarrow> 1 | Some c \<Rightarrow> sq_errcode api c); base = code mod 256 in
        if code = 2067 \<or> code = 1555 then fail_with 409 ''unique_conflict'' ''a record with this value already exists'' s
        else if code = 787 then fail_with 409 ''reference_conflict'' ''operation conflicts with a related record'' s
        else if base = 19 then fail_with 409 ''constraint_conflict'' ''operation violates a database constraint'' s
        else if base = 5 \<or> base = 6 \<or> base = 9 \<or> base = 13
        then fail_with 503 ''database_unavailable'' ''database temporarily unavailable'' s
        else fail_with 500 ''database_error'' ''database operation failed'' s)"

text \<open>One round of the waiting loop: the lock is taken, is busy with time left, or the wait is over. A
  thread whose events run out waited in vain. The outer None is a clock that does not answer.\<close>

datatype TryEvent = Try_ok | Try_busy | Try_over

fun lock_loop :: "nat \<Rightarrow> TryEvent list \<Rightarrow> ('c, 'z) Session_scheme \<Rightarrow> int \<times> ('c, 'z) Session_scheme" where
  "lock_loop 0 tries s = (- 1, s)"
| "lock_loop (Suc n) (Try_ok # tries) s = (0, s\<lparr>db_locked := True\<rparr>)"
| "lock_loop (Suc n) (Try_busy # tries) s = lock_loop n tries s"
| "lock_loop (Suc n) _ s =
     (- 1, if g_escape s then fail_with 503 ''database_unavailable'' ''database temporarily unavailable'' s else s)"

definition db_lock :: "nat \<Rightarrow> TryEvent list option \<Rightarrow> ('c, 'z) Session_scheme \<Rightarrow> int \<times> ('c, 'z) Session_scheme" where
  "db_lock busy_ms tries s =
     (if t_depth s > 0 then (0, s)
      else (case tries of None \<Rightarrow> (- 1, s) | Some evs \<Rightarrow> lock_loop (busy_ms + 1) evs s))"

definition db_unlock :: "('c, 'z) Session_scheme \<Rightarrow> ('c, 'z) Session_scheme" where
  "db_unlock s = (if t_depth s = 0 then s\<lparr>db_locked := False\<rparr> else s)"

definition sqlite_authorizer :: "int \<Rightarrow> string option \<Rightarrow> bool \<Rightarrow> int" where
  "sqlite_authorizer action a control =
     (if (action = 22 \<or> action = 32) \<and> \<not> control then 1
      else if action = 24 \<or> action = 25 then 1
      else
        (case a of
           Some name \<Rightarrow>
             if action = 19 \<and> (ci_eq name ''foreign_keys'' \<or> ci_eq name ''writable_schema'' \<or> ci_eq name ''journal_mode'') then 1 else 0
         | None \<Rightarrow> 0))"

section \<open>The code: statements\<close>

text \<open>A statement that fails inside a transaction poisons the current level.\<close>

definition mark_failed :: "('c, 'z) Session_scheme \<Rightarrow> ('c, 'z) Session_scheme" where
  "mark_failed s = (if t_depth s \<noteq> 0 \<and> t_failed_level s = 0 then s\<lparr>t_failed_level := t_depth s\<rparr> else s)"

definition sql_space :: "char \<Rightarrow> bool" where
  "sql_space c \<longleftrightarrow> c = SPC \<or> c = TAB \<or> c = CR \<or> c = LF"

definition bind_value :: "SqlArg \<Rightarrow> SqlValue option" where
  "bind_value a =
     (case sa_kind a of
        None \<Rightarrow> Some Bind_null
      | Some k \<Rightarrow>
          if k = FIELD_STR then Some (case sa_s a of Some t \<Rightarrow> Bind_text t | None \<Rightarrow> Bind_null)
          else if k = FIELD_INT \<or> k = FIELD_BOOL then Some (Bind_int (sa_i a))
          else if k = FIELD_LONG then Some (Bind_int64 (sa_l a))
          else if k = FIELD_DOUBLE \<and> isfinite (sa_d a) then Some (Bind_double (sa_d a))
          else None)"

fun bind_arguments :: "('c, 's) Sqlite \<Rightarrow> nat \<Rightarrow> SqlArg list \<Rightarrow> 's \<Rightarrow> 's option" where
  "bind_arguments api i [] st = Some st"
| "bind_arguments api i (a # args) st =
     (if i \<ge> DB_MAX_ARGS then Some st
      else
        (case bind_value a of
           None \<Rightarrow> None
         | Some v \<Rightarrow>
             (case sq_bind api st (i + 1) v of
                (ok, st1) \<Rightarrow> if ok then bind_arguments api (i + 1) args st1 else None)))"

definition prepare_statement ::
  "('c, 's) Sqlite \<Rightarrow> string \<Rightarrow> SqlArg list \<Rightarrow> ('c, 'z) Session_scheme \<Rightarrow> 's option \<times> ('c, 'z) Session_scheme" where
  "prepare_statement api sql args s =
     (case g_db s of
        None \<Rightarrow> (None, mark_failed s)
      | Some c \<Rightarrow>
          if length sql \<ge> DB_MAX_SQL then (None, mark_failed s)
          else if t_depth s > 0 \<and> sq_autocommit api c then (None, mark_failed s)
          else
            (case sq_prepare api sql c of
               (False, _, _) \<Rightarrow> (None, mark_failed (db_failure api s))
             | (True, None, _) \<Rightarrow> (None, mark_failed s)
             | (True, Some st, tail) \<Rightarrow>
                 if dropWhile sql_space tail \<noteq> [] then (None, mark_failed s)
                 else if sq_params api st \<noteq> length args then (None, mark_failed s)
                 else (case bind_arguments api 0 args st of None \<Rightarrow> (None, mark_failed s) | Some st1 \<Rightarrow> (Some st1, s))))"

definition is_insert :: "string \<Rightarrow> bool" where
  "is_insert sql \<longleftrightarrow>
     (let t = dropWhile sql_space sql in
      ci_eq (take 6 t) ''INSERT'' \<and> (\<exists>c r. drop 6 t = c # r \<and> sql_space c))"

definition db_execute ::
  "('c, 's) Sqlite \<Rightarrow> nat \<Rightarrow> TryEvent list option \<Rightarrow> string option \<Rightarrow> SqlArg list \<Rightarrow> ('c, 'z) Session_scheme \<Rightarrow> int \<times> ('c, 'z) Session_scheme" where
  "db_execute api busy_ms tries sql args s =
     (case sql of
        None \<Rightarrow> (- 1, s)
      | Some q \<Rightarrow>
          if length args > DB_MAX_ARGS then (- 1, s)
          else
            (case db_lock busy_ms tries s of
               (rc, s1) \<Rightarrow>
                 if rc \<noteq> 0 then (- 1, s1)
                 else
                   (case prepare_statement api q args (s1\<lparr>g_last_id := - 1\<rparr>) of
                      (None, s2) \<Rightarrow> (- 1, db_unlock s2)
                    | (Some st, s2) \<Rightarrow>
                        (case g_db s2 of
                           None \<Rightarrow> (- 1, db_unlock s2)
                         | Some c \<Rightarrow>
                             (case sq_step api st c of
                                (code, st1, c1) \<Rightarrow>
                                  let s3 = s2\<lparr>g_db := Some c1\<rparr> in
                                  if code \<noteq> SQLITE_DONE \<and> code \<noteq> SQLITE_ROW then (- 1, db_unlock (db_failure api (mark_failed s3)))
                                  else
                                    let s4 =
                                      (if sq_changes api c1 > 0 \<and>
                                          (case sq_text api st1 of None \<Rightarrow> False | Some actual \<Rightarrow> is_insert actual) \<and>
                                          - (2 ^ 31) \<le> sq_rowid api c1 \<and> sq_rowid api c1 \<le> 2 ^ 31 - 1
                                       then s3\<lparr>g_last_id := sq_rowid api c1\<rparr> else s3)
                                    in (sq_changes api c1, db_unlock s4))))))"

definition db_last_id :: "('c, 'z) Session_scheme \<Rightarrow> int" where
  "db_last_id s = g_last_id s"

text \<open>The condition on the one row an insert returns; the second component is the connection.\<close>

definition inserted_id :: "('c, 's) Sqlite \<Rightarrow> 's \<Rightarrow> 'c \<Rightarrow> int \<times> 'c" where
  "inserted_id api st c =
     (if sq_readonly api st \<or> sq_columns api st \<noteq> 1 then (- 1, c)
      else
        (case sq_step api st c of
           (code, st1, c1) \<Rightarrow>
             if code \<noteq> SQLITE_ROW then (- 1, c1)
             else
               (case sq_integer api st1 0 of
                  None \<Rightarrow> (- 1, c1)
                | Some v \<Rightarrow>
                    if \<not> (v > 0 \<and> v \<le> 2 ^ 31 - 1) then (- 1, c1)
                    else
                      (case sq_step api st1 c1 of
                         (code2, st2, c2) \<Rightarrow> if code2 = SQLITE_DONE \<and> sq_changes api c2 = 1 then (v, c2) else (- 1, c2)))))"

text \<open>What follows the row: the failure of the statement or of its finalization, and the identifier.\<close>

definition insert_result :: "('c, 's) Sqlite \<Rightarrow> bool \<Rightarrow> int \<Rightarrow> ('c, 'z) Session_scheme \<Rightarrow> int \<times> ('c, 'z) Session_scheme" where
  "insert_result api finalized v s =
     (let s1 = (if v < 0 then db_failure api s else s);
          new_id = (if finalized then v else - 1);
          s2 = (if finalized then s1 else db_failure api s1);
          s3 = (if new_id < 0 then mark_failed s2 else s2)
      in (new_id, s3\<lparr>g_last_id := new_id\<rparr>))"

definition db_insert_id ::
  "('c, 's) Sqlite \<Rightarrow> nat \<Rightarrow> TryEvent list option \<Rightarrow> string option \<Rightarrow> SqlArg list \<Rightarrow> ('c, 'z) Session_scheme \<Rightarrow> int \<times> ('c, 'z) Session_scheme" where
  "db_insert_id api busy_ms tries sql args s0 =
     (let s = s0\<lparr>g_last_id := - 1\<rparr> in
      case sql of
        None \<Rightarrow> (- 1, s)
      | Some q \<Rightarrow>
          if length args > DB_MAX_ARGS \<or> length q \<ge> DB_MAX_SQL \<or> \<not> is_insert q then (- 1, s)
          else
            (case db_lock busy_ms tries s of
               (rc, s1) \<Rightarrow>
                 if rc \<noteq> 0 then (- 1, s1)
                 else
                   (case prepare_statement api q args s1 of
                      (None, s2) \<Rightarrow> (- 1, db_unlock s2)
                    | (Some st, s2) \<Rightarrow>
                        (case g_db s2 of
                           None \<Rightarrow> (- 1, db_unlock s2)
                         | Some c \<Rightarrow>
                             (case inserted_id api st c of
                                (v, c1) \<Rightarrow>
                                  (case insert_result api (sq_finalize api st c1) v (s2\<lparr>g_db := Some c1\<rparr>) of
                                     (new_id, s3) \<Rightarrow> (new_id, db_unlock s3)))))))"

section \<open>The code: transactions\<close>

definition run_control_statement :: "('c, 's) Sqlite \<Rightarrow> string \<Rightarrow> ('c, 'z) Session_scheme \<Rightarrow> int \<times> ('c, 'z) Session_scheme" where
  "run_control_statement api sql s =
     (case g_db s of
        None \<Rightarrow> (- 1, db_failure api s)
      | Some c \<Rightarrow>
          (case sq_exec api sql c of
             (ok, c1) \<Rightarrow>
               let s1 = s\<lparr>g_db := Some c1\<rparr> in if ok then (0, s1) else (- 1, db_failure api s1)))"

definition autocommit :: "('c, 's) Sqlite \<Rightarrow> ('c, 'z) Session_scheme \<Rightarrow> bool" where
  "autocommit api s = (case g_db s of None \<Rightarrow> True | Some c \<Rightarrow> sq_autocommit api c)"

definition savepoint :: "nat \<Rightarrow> string" where
  "savepoint n = ''wrap_sp_'' @ int_text (int n)"

definition db_begin :: "('c, 's) Sqlite \<Rightarrow> nat \<Rightarrow> TryEvent list option \<Rightarrow> ('c, 'z) Session_scheme \<Rightarrow> int \<times> ('c, 'z) Session_scheme" where
  "db_begin api busy_ms tries s =
     (if t_depth s \<ge> 16 then (- 1, s)
      else
        (case db_lock busy_ms tries s of
           (rc, s1) \<Rightarrow>
             if rc \<noteq> 0 then (- 1, s1)
             else if g_db s1 = None \<or> (t_depth s1 > 0 \<and> autocommit api s1) then (- 1, db_unlock s1)
             else
               (case run_control_statement api
                       (if t_depth s1 = 0 then ''BEGIN IMMEDIATE'' else ''SAVEPOINT '' @ savepoint (t_depth s1 + 1)) s1 of
                  (rc2, s2) \<Rightarrow> if rc2 \<noteq> 0 then (- 1, db_unlock s2) else (0, s2\<lparr>t_depth := t_depth s2 + 1\<rparr>))))"

definition db_commit :: "('c, 's) Sqlite \<Rightarrow> ('c, 'z) Session_scheme \<Rightarrow> int \<times> ('c, 'z) Session_scheme" where
  "db_commit api s =
     (if t_depth s = 0 \<or> t_failed_level s \<noteq> 0 \<or> g_db s = None \<or> autocommit api s then (- 1, s)
      else
        (case run_control_statement api (if t_depth s = 1 then ''COMMIT'' else ''RELEASE '' @ savepoint (t_depth s)) s of
           (rc, s1) \<Rightarrow> if rc \<noteq> 0 then (- 1, s1) else (0, db_unlock (s1\<lparr>t_depth := t_depth s1 - 1\<rparr>))))"

definition db_rollback :: "('c, 's) Sqlite \<Rightarrow> ('c, 'z) Session_scheme \<Rightarrow> int \<times> ('c, 'z) Session_scheme" where
  "db_rollback api s =
     (if t_depth s = 0 \<or> g_db s = None then (- 1, s)
      else
        (case (if \<not> autocommit api s then
                 run_control_statement api
                   (if t_depth s = 1 then ''ROLLBACK''
                    else ''ROLLBACK TO '' @ savepoint (t_depth s) @ ''; RELEASE '' @ savepoint (t_depth s)) s
               else (0, s)) of
           (rc, s1) \<Rightarrow>
             if rc \<noteq> 0 then (rc, s1)
             else
               let s2 = (if t_failed_level s1 \<ge> t_depth s1 then s1\<lparr>t_failed_level := 0\<rparr> else s1);
                   s3 = (if autocommit api s2 then s2\<lparr>t_depth := 0\<rparr> else s2\<lparr>t_depth := t_depth s2 - 1\<rparr>)
               in (0, db_unlock s3)))"

definition db_abort_all :: "('c, 's) Sqlite \<Rightarrow> ('c, 'z) Session_scheme \<Rightarrow> ('c, 'z) Session_scheme" where
  "db_abort_all api s =
     (if t_depth s = 0 then s
      else
        (case run_control_statement api ''ROLLBACK'' s of
           (rc, s1) \<Rightarrow>
             let s2 = (if rc \<noteq> 0 \<and> \<not> autocommit api s1 then s1\<lparr>g_db := None\<rparr> else s1)
             in db_unlock (s2\<lparr>t_depth := 0, t_failed_level := 0\<rparr>)))"

definition db_depth :: "('c, 'z) Session_scheme \<Rightarrow> nat" where
  "db_depth s = t_depth s"

definition db_ready :: "nat \<Rightarrow> TryEvent list option \<Rightarrow> ('c, 'z) Session_scheme \<Rightarrow> bool \<times> ('c, 'z) Session_scheme" where
  "db_ready busy_ms tries s =
     (case db_lock busy_ms tries s of
        (rc, s1) \<Rightarrow> if rc \<noteq> 0 then (False, s1) else (g_db s1 \<noteq> None, db_unlock s1))"

definition db_close :: "('c, 's) Sqlite \<Rightarrow> nat \<Rightarrow> TryEvent list option \<Rightarrow> ('c, 'z) Session_scheme \<Rightarrow> ('c, 'z) Session_scheme" where
  "db_close api busy_ms tries s =
     (case db_lock busy_ms tries (db_abort_all api s) of
        (rc, s1) \<Rightarrow> if rc \<noteq> 0 then s1 else db_unlock (s1\<lparr>g_db := None\<rparr>))"

section \<open>The code: transactions of a handler\<close>

record Transaction =
  tx_active :: bool
  tx_level :: nat

text \<open>\<open>raise_in\<close> is \<open>request_raise\<close> on the session; the flag of each result tells whether control leaves
  the handler.\<close>

definition raise_in :: "int \<Rightarrow> string \<Rightarrow> ('c, 'z) Session_scheme \<Rightarrow> bool \<times> ('c, 'z) Session_scheme" where
  "raise_in status message s =
     (case request_raise (g_escape s) status message (se_fail s) of (esc, st) \<Rightarrow> (esc, s\<lparr>se_fail := st\<rparr>))"

definition transaction_begin ::
  "('c, 's) Sqlite \<Rightarrow> nat \<Rightarrow> TryEvent list option \<Rightarrow> ('c, 'z) Session_scheme \<Rightarrow> bool \<times> Transaction \<times> ('c, 'z) Session_scheme" where
  "transaction_begin api busy_ms tries s =
     (let none = \<lparr>tx_active = False, tx_level = 0\<rparr> in
      if request_failed (se_fail s) then (False, none, s)
      else
        (case db_begin api busy_ms tries s of
           (rc, s1) \<Rightarrow>
             if rc \<noteq> 0 then (case raise_in 503 ''could not begin transaction'' s1 of (esc, s2) \<Rightarrow> (esc, none, s2))
             else (False, \<lparr>tx_active = True, tx_level = db_depth s1\<rparr>, s1)))"

definition transaction_live :: "Transaction option \<Rightarrow> bool" where
  "transaction_live t = (case t of None \<Rightarrow> False | Some tx \<Rightarrow> tx_active tx)"

definition transaction_end ::
  "('c, 's) Sqlite \<Rightarrow> Transaction option \<Rightarrow> ('c, 'z) Session_scheme \<Rightarrow> bool \<times> Transaction option \<times> ('c, 'z) Session_scheme" where
  "transaction_end api t s =
     (case t of
        None \<Rightarrow> (False, t, s)
      | Some tx \<Rightarrow>
          if \<not> tx_active tx then (False, t, s)
          else
            let t1 = Some (tx\<lparr>tx_active := False\<rparr>) in
            if tx_level tx \<noteq> db_depth s then
              (case raise_in 500 ''transaction scope mismatch'' (db_abort_all api s) of (esc, s1) \<Rightarrow> (esc, t1, s1))
            else if request_failed (se_fail s) then
              (case db_rollback api s of (rc, s1) \<Rightarrow> (False, t1, if rc \<noteq> 0 then db_abort_all api s1 else s1))
            else
              (case db_commit api s of
                 (rc, s1) \<Rightarrow>
                   if rc \<noteq> 0 then
                     (case raise_in 500 ''could not commit transaction'' (db_abort_all api s1) of (esc, s2) \<Rightarrow> (esc, t1, s2))
                   else (False, t1, s1)))"

definition transaction_cleanup ::
  "('c, 's) Sqlite \<Rightarrow> Transaction option \<Rightarrow> ('c, 'z) Session_scheme \<Rightarrow> bool \<times> Transaction option \<times> ('c, 'z) Session_scheme" where
  "transaction_cleanup api t s =
     (case t of
        None \<Rightarrow> (False, t, s)
      | Some tx \<Rightarrow>
          if \<not> tx_active tx then (False, t, s)
          else
            let t1 = Some (tx\<lparr>tx_active := False\<rparr>); s1 = db_abort_all api s in
            if request_failed (se_fail s1) then (False, t1, s1)
            else (case raise_in 500 ''transaction exited before commit'' s1 of (esc, s2) \<Rightarrow> (esc, t1, s2)))"

text \<open>A handler answers whether it escaped, its return value and the session it leaves.\<close>

definition dispatch_route ::
  "('c, 's) Sqlite \<Rightarrow> (('c, 'z) Session_scheme \<Rightarrow> bool \<times> int \<times> ('c, 'z) Session_scheme) option \<Rightarrow> nat \<Rightarrow> ('c, 'z) Session_scheme \<Rightarrow> int \<times> ('c, 'z) Session_scheme" where
  "dispatch_route api handler cap s =
     (case handler of
        None \<Rightarrow> (- 1, s)
      | Some run \<Rightarrow>
          if g_escape s \<or> cap = 0 then (- 1, s)
          else
            (case run (s\<lparr>g_escape := True\<rparr>) of
               (escaped, rc, s1) \<Rightarrow>
                 let s2 = s1\<lparr>g_escape := False\<rparr>;
                     s3 = (if db_depth s2 > 0 then
                             let a = db_abort_all api s2 in
                             if request_failed (se_fail a) then a
                             else a\<lparr>se_fail := request_fail 500 (Some ''unfinished transaction rolled back'') (se_fail a)\<rparr>
                           else s2)
                 in (if escaped then 0 else rc, s3)))"

definition dispatch_task ::
  "('c, 's) Sqlite \<Rightarrow> (('c, 'z) Session_scheme \<Rightarrow> ('c, 'z) Session_scheme) option \<Rightarrow> ('c, 'z) Session_scheme \<Rightarrow> int \<times> ('c, 'z) Session_scheme" where
  "dispatch_task api handler s =
     (case handler of
        None \<Rightarrow> (- 1, s)
      | Some run \<Rightarrow>
          if g_escape s then (- 1, s)
          else
            let s1 = (run (s\<lparr>g_escape := True\<rparr>))\<lparr>g_escape := False\<rparr>;
                s2 = (if db_depth s1 > 0 then
                        let a = db_abort_all api s1
                        in a\<lparr>se_fail := request_fail 500 (Some ''unfinished task transaction rolled back'') (se_fail a)\<rparr>
                      else s1)
            in (if request_failed (se_fail s2) then - 1 else 0, s2))"

definition transaction_abort_if_open :: "('c, 's) Sqlite \<Rightarrow> ('c, 'z) Session_scheme \<Rightarrow> ('c, 'z) Session_scheme" where
  "transaction_abort_if_open api s = db_abort_all api s"

section \<open>The lock and the depth\<close>

text \<open>Between calls a thread holds the connection lock exactly while it has a transaction open.\<close>

definition session_ok :: "('c, 'z) Session_scheme \<Rightarrow> bool" where
  "session_ok s \<longleftrightarrow> (db_locked s \<longleftrightarrow> t_depth s > 0) \<and> t_depth s \<le> 16 \<and> (t_depth s > 0 \<longrightarrow> g_db s \<noteq> None)"

definition held :: "('c, 'z) Session_scheme \<Rightarrow> bool" where
  "held s \<longleftrightarrow> db_locked s \<and> t_depth s \<le> 16 \<and> (t_depth s > 0 \<longrightarrow> g_db s \<noteq> None)"

named_theorems db_frame

lemma db_failure_frame [db_frame]:
  "t_depth (db_failure api s) = t_depth s" "t_failed_level (db_failure api s) = t_failed_level s"
  "g_db (db_failure api s) = g_db s" "db_locked (db_failure api s) = db_locked s" "g_escape (db_failure api s) = g_escape s"
  by (simp_all add: db_failure_def fail_with_def Let_def)

lemma mark_failed_frame [db_frame]:
  "t_depth (mark_failed s) = t_depth s" "g_db (mark_failed s) = g_db s" "db_locked (mark_failed s) = db_locked s"
  "g_escape (mark_failed s) = g_escape s"
  by (simp_all add: mark_failed_def)

lemma db_unlock_frame [db_frame]:
  "t_depth (db_unlock s) = t_depth s" "g_db (db_unlock s) = g_db s" "t_failed_level (db_unlock s) = t_failed_level s"
  "g_escape (db_unlock s) = g_escape s"
  by (simp_all add: db_unlock_def)

lemma fail_with_frame [db_frame]:
  "t_depth (fail_with a b c s) = t_depth s" "t_failed_level (fail_with a b c s) = t_failed_level s"
  "g_db (fail_with a b c s) = g_db s" "db_locked (fail_with a b c s) = db_locked s" "g_escape (fail_with a b c s) = g_escape s"
  by (simp_all add: fail_with_def)

lemma held_unlock: "held s \<Longrightarrow> session_ok (db_unlock s)"
  by (auto simp: held_def session_ok_def db_unlock_def)

lemma lock_loop_outcome:
  assumes "lock_loop n tries s = (rc, s1)"
  shows "(rc = 0 \<and> s1 = s\<lparr>db_locked := True\<rparr>) \<or>
    (rc = - 1 \<and> db_locked s1 = db_locked s \<and> t_depth s1 = t_depth s \<and> g_db s1 = g_db s \<and>
     t_failed_level s1 = t_failed_level s \<and> g_escape s1 = g_escape s)"
  using assms
  by (induction n tries s rule: lock_loop.induct) (auto simp: db_frame split: if_splits)

lemma db_lock_outcome:
  assumes "db_lock busy_ms tries s = (rc, s1)" "session_ok s"
  shows "(rc = 0 \<and> held s1 \<and> t_depth s1 = t_depth s \<and> g_db s1 = g_db s \<and> t_failed_level s1 = t_failed_level s \<and> g_escape s1 = g_escape s) \<or>
    (rc = - 1 \<and> session_ok s1 \<and> t_depth s = 0 \<and> t_depth s1 = 0 \<and> g_db s1 = g_db s \<and> t_failed_level s1 = t_failed_level s \<and> g_escape s1 = g_escape s)"
proof (cases "t_depth s > 0")
  case True
  then show ?thesis using assms by (auto simp: db_lock_def held_def session_ok_def)
next
  case False
  show ?thesis
  proof (cases tries)
    case None
    then show ?thesis using assms False by (auto simp: db_lock_def)
  next
    case (Some evs)
    then have "lock_loop (busy_ms + 1) evs s = (rc, s1)" using assms(1) False by (simp add: db_lock_def)
    from lock_loop_outcome [OF this] show ?thesis using assms(2) False by (auto simp: session_ok_def held_def)
  qed
qed

lemma run_control_frame:
  assumes "run_control_statement api sql s = (rc, s1)"
  shows "t_depth s1 = t_depth s" "t_failed_level s1 = t_failed_level s" "db_locked s1 = db_locked s" "g_escape s1 = g_escape s"
    "g_db s1 = map_option (\<lambda>c. snd (sq_exec api sql c)) (g_db s)" "rc \<in> {0, - 1}"
  using assms by (auto simp: run_control_statement_def db_frame Let_def split: option.splits prod.splits if_splits)

lemma prepare_frame:
  assumes "prepare_statement api sql args s = (st, s1)"
  shows "t_depth s1 = t_depth s" "db_locked s1 = db_locked s" "g_escape s1 = g_escape s" "g_db s1 = g_db s"
    "st \<noteq> None \<Longrightarrow> s1 = s \<and> \<not> (t_depth s > 0 \<and> autocommit api s)"
    "st = None \<Longrightarrow> t_failed_level s1 = t_failed_level (mark_failed s)"
  using assms
  by (auto simp: prepare_statement_def db_frame mark_failed_def autocommit_def
      split: option.splits prod.splits if_splits bool.splits)

lemma db_begin_ok:
  assumes "session_ok s" "db_begin api busy_ms tries s = (rc, s')"
  shows "session_ok s'" "rc = 0 \<Longrightarrow> t_depth s' = t_depth s + 1" "rc \<noteq> 0 \<Longrightarrow> t_depth s' = t_depth s"
    "t_failed_level s' = t_failed_level s" "g_escape s' = g_escape s"
proof -
  obtain rc1 s1 where l: "db_lock busy_ms tries s = (rc1, s1)" by fastforce
  note lo = db_lock_outcome [OF l assms(1)]
  let ?sql = "if t_depth s1 = 0 then ''BEGIN IMMEDIATE'' else ''SAVEPOINT '' @ savepoint (t_depth s1 + 1)"
  obtain rc2 s2 where r: "run_control_statement api ?sql s1 = (rc2, s2)" by fastforce
  note rf = run_control_frame [OF r]
  have deep: "t_depth s \<ge> 16 \<Longrightarrow> rc = - 1 \<and> s' = s" using assms(2) by (simp add: db_begin_def)
  have nolock: "t_depth s < 16 \<Longrightarrow> rc1 \<noteq> 0 \<Longrightarrow> rc = - 1 \<and> s' = s1" using assms(2) l by (simp add: db_begin_def)
  have rest: "t_depth s < 16 \<Longrightarrow> rc1 = 0 \<Longrightarrow>
      (if g_db s1 = None \<or> (t_depth s1 > 0 \<and> autocommit api s1) then rc = - 1 \<and> s' = db_unlock s1
       else if rc2 \<noteq> 0 then rc = - 1 \<and> s' = db_unlock s2 else rc = 0 \<and> s' = s2\<lparr>t_depth := t_depth s2 + 1\<rparr>)"
    using assms(2) l r by (auto simp: db_begin_def not_le split: if_splits)
  have h2: "held s1 \<Longrightarrow> g_db s1 \<noteq> None \<Longrightarrow> held s2" using rf by (auto simp: held_def)
  consider "t_depth s \<ge> 16" | "t_depth s < 16" "rc1 \<noteq> 0" | "t_depth s < 16" "rc1 = 0" by linarith
  then have "session_ok s' \<and> (rc = 0 \<longrightarrow> t_depth s' = t_depth s + 1) \<and> (rc \<noteq> 0 \<longrightarrow> t_depth s' = t_depth s) \<and>
      t_failed_level s' = t_failed_level s \<and> g_escape s' = g_escape s"
  proof cases
    case 1
    then show ?thesis using deep assms(1) by simp
  next
    case 2
    then show ?thesis using nolock lo by auto
  next
    case 3
    then have h: "held s1" "t_depth s1 = t_depth s" "t_failed_level s1 = t_failed_level s" "g_escape s1 = g_escape s" using lo by auto
    show ?thesis
    proof (cases "g_db s1 = None \<or> (t_depth s1 > 0 \<and> autocommit api s1)")
      case True
      then have "rc = - 1" "s' = db_unlock s1" using rest 3 by simp_all
      then show ?thesis using held_unlock [OF h(1)] h by (simp add: db_frame)
    next
      case False
      then have h2: "held s2" using h2 h(1) by blast
      show ?thesis
      proof (cases "rc2 = 0")
        case True
        then have "rc = 0" "s' = s2\<lparr>t_depth := t_depth s2 + 1\<rparr>" using rest 3 False by auto
        then show ?thesis using h h2 rf 3 False by (auto simp: session_ok_def held_def)
      next
        case bad: False
        then have "rc = - 1" "s' = db_unlock s2" using rest 3 False by auto
        then show ?thesis using held_unlock [OF h2] h rf by (simp add: db_frame)
      qed
    qed
  qed
  then show "session_ok s'" "rc = 0 \<Longrightarrow> t_depth s' = t_depth s + 1" "rc \<noteq> 0 \<Longrightarrow> t_depth s' = t_depth s"
    "t_failed_level s' = t_failed_level s" "g_escape s' = g_escape s" by simp_all
qed

lemma db_commit_ok:
  assumes "session_ok s" "db_commit api s = (rc, s')"
  shows "session_ok s'"
  using assms run_control_frame [of api _ s]
  by (auto simp: db_commit_def session_ok_def db_unlock_def split: prod.splits if_splits)

lemma db_rollback_ok:
  assumes "session_ok s" "db_rollback api s = (rc, s')"
  shows "session_ok s'"
proof (cases "t_depth s = 0 \<or> g_db s = None")
  case True
  then show ?thesis using assms by (simp add: db_rollback_def)
next
  case False
  let ?sql = "if t_depth s = 1 then ''ROLLBACK'' else ''ROLLBACK TO '' @ savepoint (t_depth s) @ ''; RELEASE '' @ savepoint (t_depth s)"
  obtain rc1 s1 where r: "(if \<not> autocommit api s then run_control_statement api ?sql s else (0, s)) = (rc1, s1)" by fastforce
  have f: "t_depth s1 = t_depth s" "db_locked s1 = db_locked s" "g_db s1 \<noteq> None"
    using r False run_control_frame [of api ?sql s rc1 s1] by (auto split: if_splits)
  have ok1: "session_ok s1" using assms(1) f by (simp add: session_ok_def)
  show ?thesis
  proof (cases "rc1 = 0")
    case bad: False
    then have "s' = s1" using assms(2) r False by (simp add: db_rollback_def)
    then show ?thesis using ok1 by simp
  next
    case True
    let ?s2 = "if t_failed_level s1 \<ge> t_depth s1 then s1\<lparr>t_failed_level := 0\<rparr> else s1"
    let ?s3 = "if autocommit api ?s2 then ?s2\<lparr>t_depth := 0\<rparr> else ?s2\<lparr>t_depth := t_depth ?s2 - 1\<rparr>"
    have "s' = db_unlock ?s3" using assms(2) r False True by (simp add: db_rollback_def Let_def)
    moreover have "held ?s3" using ok1 f False by (auto simp: held_def session_ok_def)
    ultimately show ?thesis using held_unlock by blast
  qed
qed

lemma db_abort_all_ok:
  assumes "session_ok s"
  shows "session_ok (db_abort_all api s)" "t_depth (db_abort_all api s) = 0" "g_escape (db_abort_all api s) = g_escape s"
proof -
  obtain rc s1 where r: "run_control_statement api ''ROLLBACK'' s = (rc, s1)" by fastforce
  let ?s2 = "if rc \<noteq> 0 \<and> \<not> autocommit api s1 then s1\<lparr>g_db := None\<rparr> else s1"
  have code: "db_abort_all api s = (if t_depth s = 0 then s else db_unlock (?s2\<lparr>t_depth := 0, t_failed_level := 0\<rparr>))"
    unfolding db_abort_all_def r prod.case Let_def ..
  show "session_ok (db_abort_all api s)" "t_depth (db_abort_all api s) = 0" "g_escape (db_abort_all api s) = g_escape s"
    unfolding code using assms run_control_frame(4) [OF r] by (auto simp: session_ok_def db_unlock_def)
qed

lemma inserted_id_outcome: "fst (inserted_id api st c) = - 1 \<or> fst (inserted_id api st c) > 0"
  by (auto simp: inserted_id_def split: prod.splits option.splits)

lemma db_execute_ok:
  assumes "session_ok s" "db_execute api busy_ms tries sql args s = (rc, s')"
  shows "session_ok s' \<and> t_depth s' = t_depth s \<and> g_escape s' = g_escape s \<and>
    (t_failed_level s \<noteq> 0 \<longrightarrow> t_failed_level s' = t_failed_level s)"
proof (cases "sql = None \<or> length args > DB_MAX_ARGS")
  case True
  then show ?thesis using assms by (auto simp: db_execute_def split: option.splits)
next
  case False
  then obtain q where q: "sql = Some q" "\<not> length args > DB_MAX_ARGS" by auto
  obtain rc1 s1 where l: "db_lock busy_ms tries s = (rc1, s1)" by fastforce
  note lo = db_lock_outcome [OF l assms(1)]
  show ?thesis
  proof (cases "rc1 = 0")
    case False
    then show ?thesis using assms(2) q l lo by (auto simp: db_execute_def)
  next
    case True
    then have h: "held s1" "t_depth s1 = t_depth s" "t_failed_level s1 = t_failed_level s" "g_escape s1 = g_escape s" using lo by auto
    obtain st s2 where p: "prepare_statement api q args (s1\<lparr>g_last_id := - 1\<rparr>) = (st, s2)" by fastforce
    note pf = prepare_frame [OF p]
    have h2: "held s2" "t_depth s2 = t_depth s" "g_escape s2 = g_escape s" using h pf by (simp_all add: held_def)
    have lvl2: "t_failed_level s \<noteq> 0 \<Longrightarrow> t_failed_level s2 = t_failed_level s"
      using pf(5,6) h(3) by (cases st) (auto simp: mark_failed_def)
    show ?thesis
    proof (cases "st = None \<or> g_db s2 = None")
      case True
      then have "s' = db_unlock s2" using assms(2) q l p \<open>rc1 = 0\<close> by (auto simp: db_execute_def split: option.splits)
      then show ?thesis using held_unlock [OF h2(1)] h2 lvl2 by (simp add: db_frame)
    next
      case False
      then obtain stm c where sc: "st = Some stm" "g_db s2 = Some c" by auto
      obtain code st1 c1 where step: "sq_step api stm c = (code, st1, c1)" by (metis prod_cases3)
      define s3 where "s3 = s2\<lparr>g_db := Some c1\<rparr>"
      have h3: "held s3" using h2(1) by (simp add: held_def s3_def)
      have "\<exists>x. held x \<and> s' = db_unlock x \<and> t_depth x = t_depth s2 \<and> g_escape x = g_escape s2 \<and>
          (t_failed_level s2 \<noteq> 0 \<longrightarrow> t_failed_level x = t_failed_level s2)"
      proof (cases "code \<noteq> SQLITE_DONE \<and> code \<noteq> SQLITE_ROW")
        case True
        then have "s' = db_unlock (db_failure api (mark_failed s3))"
          using assms(2) q l p \<open>rc1 = 0\<close> sc step by (auto simp: db_execute_def s3_def Let_def)
        moreover have "held (db_failure api (mark_failed s3))" using h3 by (simp add: held_def db_frame)
        ultimately show ?thesis
          by (intro exI [of _ "db_failure api (mark_failed s3)"]) (auto simp: db_frame s3_def mark_failed_def)
      next
        case fine: False
        let ?keep = "sq_changes api c1 > 0 \<and> (case sq_text api st1 of None \<Rightarrow> False | Some actual \<Rightarrow> is_insert actual) \<and>
          - (2 ^ 31) \<le> sq_rowid api c1 \<and> sq_rowid api c1 \<le> 2 ^ 31 - 1"
        define s4 where "s4 = (if ?keep then s3\<lparr>g_last_id := sq_rowid api c1\<rparr> else s3)"
        have "(rc, s') = (sq_changes api c1, db_unlock s4)"
          unfolding s4_def using assms(2) q l p \<open>rc1 = 0\<close> sc step fine
          by (auto simp: db_execute_def s3_def Let_def)
        moreover have "held s4" using h3 by (simp add: held_def s4_def)
        ultimately show ?thesis by (intro exI [of _ s4]) (auto simp: s4_def s3_def)
      qed
      then show ?thesis using held_unlock h2 lvl2 by (auto simp: db_frame)
    qed
  qed
qed

lemma insert_result_frame:
  assumes "insert_result api finalized v s = (new_id, s1)"
  shows "t_depth s1 = t_depth s" "g_db s1 = g_db s" "db_locked s1 = db_locked s" "g_escape s1 = g_escape s"
    "t_failed_level s \<noteq> 0 \<Longrightarrow> t_failed_level s1 = t_failed_level s"
  using assms by (auto simp: insert_result_def Let_def db_frame mark_failed_def split: if_splits)

lemma db_insert_id_ok:
  assumes "session_ok s" "db_insert_id api busy_ms tries sql args s = (rc, s')"
  shows "session_ok s' \<and> t_depth s' = t_depth s \<and> g_escape s' = g_escape s \<and>
    (t_failed_level s \<noteq> 0 \<longrightarrow> t_failed_level s' = t_failed_level s)"
proof -
  define sa where "sa = s\<lparr>g_last_id := - 1\<rparr>"
  have oka: "session_ok sa" "t_depth sa = t_depth s" "g_escape sa = g_escape s" "t_failed_level sa = t_failed_level s"
    using assms(1) by (simp_all add: sa_def session_ok_def)
  show ?thesis
  proof (cases "sql = None \<or> length args > DB_MAX_ARGS \<or> length (the sql) \<ge> DB_MAX_SQL \<or> \<not> is_insert (the sql)")
    case True
    then have "s' = sa" using assms(2) by (auto simp: db_insert_id_def sa_def Let_def split: option.splits)
    then show ?thesis using oka by simp
  next
    case False
    then obtain q where q: "sql = Some q" "\<not> (length args > DB_MAX_ARGS \<or> length q \<ge> DB_MAX_SQL \<or> \<not> is_insert q)" by auto
    obtain rc1 s1 where l: "db_lock busy_ms tries sa = (rc1, s1)" by fastforce
    note lo = db_lock_outcome [OF l oka(1)]
    show ?thesis
    proof (cases "rc1 = 0")
      case False
      then have "s' = s1" using assms(2) q l by (simp add: db_insert_id_def sa_def Let_def)
      then show ?thesis using False lo oka by auto
    next
      case True
      then have h: "held s1" "t_depth s1 = t_depth s" "t_failed_level s1 = t_failed_level s" "g_escape s1 = g_escape s"
        using lo oka by auto
      obtain st s2 where p: "prepare_statement api q args s1 = (st, s2)" by fastforce
      note pf = prepare_frame [OF p]
      have h2: "held s2" "t_depth s2 = t_depth s" "g_escape s2 = g_escape s" using h pf by (simp_all add: held_def)
      have lvl2: "t_failed_level s \<noteq> 0 \<Longrightarrow> t_failed_level s2 = t_failed_level s"
        using pf(5,6) h(3) by (cases st) (auto simp: mark_failed_def)
      show ?thesis
      proof (cases "st = None \<or> g_db s2 = None")
        case True
        then have "s' = db_unlock s2" using assms(2) q l p \<open>rc1 = 0\<close>
          by (auto simp: db_insert_id_def sa_def Let_def split: option.splits)
        then show ?thesis using held_unlock [OF h2(1)] h2 lvl2 by (simp add: db_frame)
      next
        case False
        then obtain stm c where sc: "st = Some stm" "g_db s2 = Some c" by auto
        obtain v c1 where ins: "inserted_id api stm c = (v, c1)" by fastforce
        obtain new_id s3 where res: "insert_result api (sq_finalize api stm c1) v (s2\<lparr>g_db := Some c1\<rparr>) = (new_id, s3)" by fastforce
        note rf = insert_result_frame [OF res]
        have "s' = db_unlock s3"
          using assms(2) q l p \<open>rc1 = 0\<close> sc ins res by (simp add: db_insert_id_def sa_def Let_def)
        moreover have "held s3" "t_depth s3 = t_depth s" "g_escape s3 = g_escape s" using h2 rf by (simp_all add: held_def)
        moreover have "t_failed_level s \<noteq> 0 \<longrightarrow> t_failed_level s3 = t_failed_level s" using lvl2 rf(5) by simp
        ultimately show ?thesis using held_unlock by (simp add: db_frame)
      qed
    qed
  qed
qed

section \<open>Histories of calls\<close>

text \<open>The database calls a handler can make, and its own failures.\<close>

inductive db_call :: "('c, 's) Sqlite \<Rightarrow> nat \<Rightarrow> ('c, 'z) Session_scheme \<Rightarrow> ('c, 'z) Session_scheme \<Rightarrow> bool" for api busy_ms where
  call_begin: "db_begin api busy_ms tries s = (rc, s') \<Longrightarrow> db_call api busy_ms s s'"
| call_commit: "db_commit api s = (rc, s') \<Longrightarrow> db_call api busy_ms s s'"
| call_rollback: "db_rollback api s = (rc, s') \<Longrightarrow> db_call api busy_ms s s'"
| call_abort: "db_call api busy_ms s (db_abort_all api s)"
| call_execute: "db_execute api busy_ms tries sql args s = (rc, s') \<Longrightarrow> db_call api busy_ms s s'"
| call_insert: "db_insert_id api busy_ms tries sql args s = (rc, s') \<Longrightarrow> db_call api busy_ms s s'"
| call_ready: "db_ready busy_ms tries s = (ready, s') \<Longrightarrow> db_call api busy_ms s s'"
| call_tx_begin: "transaction_begin api busy_ms tries s = (esc, tx, s') \<Longrightarrow> db_call api busy_ms s s'"
| call_tx_end: "transaction_end api t s = (esc, t', s') \<Longrightarrow> db_call api busy_ms s s'"
| call_tx_cleanup: "transaction_cleanup api t s = (esc, t', s') \<Longrightarrow> db_call api busy_ms s s'"
| call_fail: "db_call api busy_ms s (s\<lparr>se_fail := request_fail status message (se_fail s)\<rparr>)"

lemma raise_in_frame:
  assumes "raise_in status m s = (esc, s')"
  shows "t_depth s' = t_depth s" "g_db s' = g_db s" "db_locked s' = db_locked s" "g_escape s' = g_escape s"
    "t_failed_level s' = t_failed_level s"
  using assms by (auto simp: raise_in_def request_raise_def)

lemma raise_in_ok: "session_ok s \<Longrightarrow> raise_in status m s = (esc, s') \<Longrightarrow> session_ok s'"
  using raise_in_frame [of status m s esc s'] by (simp add: session_ok_def)

lemma db_commit_escape: "db_commit api s = (rc, s') \<Longrightarrow> g_escape s' = g_escape s"
  using run_control_frame(4) [of api _ s] by (auto simp: db_commit_def db_frame split: prod.splits if_splits)

lemma db_rollback_escape: "db_rollback api s = (rc, s') \<Longrightarrow> g_escape s' = g_escape s"
proof (cases "t_depth s = 0 \<or> g_db s = None")
  case False
  assume a: "db_rollback api s = (rc, s')"
  let ?sql = "if t_depth s = 1 then ''ROLLBACK'' else ''ROLLBACK TO '' @ savepoint (t_depth s) @ ''; RELEASE '' @ savepoint (t_depth s)"
  obtain rc1 s1 where r: "(if \<not> autocommit api s then run_control_statement api ?sql s else (0, s)) = (rc1, s1)" by fastforce
  have "g_escape s1 = g_escape s" using r run_control_frame(4) [of api ?sql s rc1 s1] by (auto split: if_splits)
  moreover have "g_escape s' = g_escape s1"
  proof (cases "rc1 = 0")
    case True
    let ?s2 = "if t_failed_level s1 \<ge> t_depth s1 then s1\<lparr>t_failed_level := 0\<rparr> else s1"
    let ?s3 = "if autocommit api ?s2 then ?s2\<lparr>t_depth := 0\<rparr> else ?s2\<lparr>t_depth := t_depth ?s2 - 1\<rparr>"
    have "s' = db_unlock ?s3" using a r False True by (simp add: db_rollback_def Let_def)
    then show ?thesis by (simp add: db_frame)
  next
    case bad: False
    then show ?thesis using a r False by (simp add: db_rollback_def)
  qed
  ultimately show ?thesis by simp
qed (simp add: db_rollback_def)

lemma db_ready_ok:
  assumes "session_ok s" "db_ready busy_ms tries s = (ready, s')"
  shows "session_ok s' \<and> g_escape s' = g_escape s"
proof -
  obtain rc s1 where l: "db_lock busy_ms tries s = (rc, s1)" by fastforce
  show ?thesis using db_lock_outcome [OF l assms(1)] assms(2) l held_unlock [of s1]
    by (auto simp: db_ready_def db_frame)
qed

lemma transaction_end_ok:
  fixes s :: "('c, 'z) Session_scheme"
  assumes "session_ok s" "transaction_end api t s = (esc, t', s')"
  shows "session_ok s' \<and> g_escape s' = g_escape s"
proof (cases "transaction_live t")
  case False
  then show ?thesis using assms by (auto simp: transaction_end_def transaction_live_def split: option.splits)
next
  case True
  then obtain tx where tx: "t = Some tx" "tx_active tx" by (auto simp: transaction_live_def split: option.splits)
  have ab: "session_ok (db_abort_all api x)" "g_escape (db_abort_all api x) = g_escape x" if "session_ok x" for x :: "('c, 'z) Session_scheme"
    using db_abort_all_ok [OF that, of api] by simp_all
  have rs: "raise_in st m x = (e, y) \<Longrightarrow> session_ok x \<Longrightarrow> session_ok y \<and> g_escape y = g_escape x" for st m e and x y :: "('c, 'z) Session_scheme"
    using raise_in_ok raise_in_frame(4) by blast
  consider "tx_level tx \<noteq> db_depth s" | "tx_level tx = db_depth s" "request_failed (se_fail s)"
    | "tx_level tx = db_depth s" "\<not> request_failed (se_fail s)" by blast
  then show ?thesis
  proof cases
    case 1
    then have "raise_in 500 ''transaction scope mismatch'' (db_abort_all api s) = (esc, s')"
      using assms(2) tx by (auto simp: transaction_end_def split: prod.splits)
    then show ?thesis using rs ab assms(1) by metis
  next
    case 2
    obtain rc s1 where r: "db_rollback api s = (rc, s1)" by fastforce
    then have "s' = (if rc \<noteq> 0 then db_abort_all api s1 else s1)" using assms(2) tx 2 by (simp add: transaction_end_def)
    then show ?thesis using db_rollback_ok [OF assms(1) r] db_rollback_escape [OF r] ab by simp
  next
    case 3
    obtain rc s1 where r: "db_commit api s = (rc, s1)" by fastforce
    note ok1 = db_commit_ok [OF assms(1) r] db_commit_escape [OF r]
    show ?thesis
    proof (cases "rc = 0")
      case True
      then show ?thesis using assms(2) tx 3 r ok1 by (simp add: transaction_end_def)
    next
      case False
      then have "raise_in 500 ''could not commit transaction'' (db_abort_all api s1) = (esc, s')"
        using assms(2) tx 3 r by (auto simp: transaction_end_def split: prod.splits)
      then show ?thesis using rs ab ok1 by metis
    qed
  qed
qed

lemma transaction_begin_ok:
  assumes "session_ok s" "transaction_begin api busy_ms tries s = (esc, tx, s')"
  shows "session_ok s' \<and> g_escape s' = g_escape s"
proof -
  obtain rc s1 where b: "db_begin api busy_ms tries s = (rc, s1)" by fastforce
  note ok = db_begin_ok(1,5) [OF assms(1) b]
  show ?thesis
    using assms b ok raise_in_ok [OF ok(1)] raise_in_frame(4) [of 503 "''could not begin transaction''" s1]
    by (auto simp: transaction_begin_def Let_def split: if_splits prod.splits)
qed

lemma transaction_cleanup_ok:
  assumes "session_ok s" "transaction_cleanup api t s = (esc, t', s')"
  shows "session_ok s' \<and> g_escape s' = g_escape s"
  using assms db_abort_all_ok [OF assms(1), of api]
    raise_in_ok [of "db_abort_all api s" 500 "''transaction exited before commit''"]
    raise_in_frame(4) [of 500 "''transaction exited before commit''" "db_abort_all api s"]
  by (auto simp: transaction_cleanup_def Let_def split: option.splits if_splits prod.splits)

lemma db_call_ok: "db_call api busy_ms s s' \<Longrightarrow> session_ok s \<Longrightarrow> session_ok s' \<and> g_escape s' = g_escape s"
proof (induction rule: db_call.induct)
  case (call_begin tries s rc s')
  then show ?case using db_begin_ok(1,5) by metis
next
  case (call_commit s rc s')
  then show ?case using db_commit_ok db_commit_escape by metis
next
  case (call_rollback s rc s')
  then show ?case using db_rollback_ok db_rollback_escape by metis
next
  case (call_abort s)
  then show ?case using db_abort_all_ok by metis
next
  case (call_execute tries sql args s rc s')
  then show ?case using db_execute_ok by metis
next
  case (call_insert tries sql args s rc s')
  then show ?case using db_insert_id_ok by metis
next
  case (call_ready tries s ready s')
  then show ?case using db_ready_ok by metis
next
  case (call_tx_begin tries s esc tx s')
  then show ?case using transaction_begin_ok by metis
next
  case (call_tx_end t s esc t' s')
  then show ?case using transaction_end_ok by metis
next
  case (call_tx_cleanup t s esc t' s')
  then show ?case using transaction_cleanup_ok by metis
next
  case (call_fail s status message)
  then show ?case by (simp add: session_ok_def)
qed

lemma db_calls_ok:
  "(db_call api busy_ms)\<^sup>*\<^sup>* s s' \<Longrightarrow> session_ok s \<Longrightarrow> session_ok s' \<and> g_escape s' = g_escape s"
  by (induction rule: rtranclp_induct) (auto dest: db_call_ok)

section \<open>A request leaves no transaction behind\<close>

definition idle :: "('c, 'z) Session_scheme \<Rightarrow> bool" where
  "idle s \<longleftrightarrow> session_ok s \<and> t_depth s = 0 \<and> \<not> g_escape s"

lemma fail_500: "request_failed (request_fail 500 (Some m) st)"
  by (simp add: request_failed_def request_fail_def Let_def)

lemma dispatch_idle:
  assumes "idle s" "0 < cap" "run (s\<lparr>g_escape := True\<rparr>) = (escaped, rc, s1)"
    and ok1: "session_ok s1"
    and "dispatch_route api (Some run) cap s = (rc', s')"
  shows "idle s' \<and> (t_depth s1 > 0 \<longrightarrow> request_failed (se_fail s'))"
proof -
  define s2 where "s2 = s1\<lparr>g_escape := False\<rparr>"
  have ok2: "session_ok s2" "\<not> g_escape s2" "t_depth s2 = t_depth s1" using ok1 by (simp_all add: s2_def session_ok_def)
  note ab = db_abort_all_ok [OF ok2(1), of api]
  let ?a = "db_abort_all api s2"
  have s': "s' = (if t_depth s1 > 0 then
      (if request_failed (se_fail ?a) then ?a
       else ?a\<lparr>se_fail := request_fail 500 (Some ''unfinished transaction rolled back'') (se_fail ?a)\<rparr>) else s2)"
    using assms(1,2,3,5) unfolding s2_def by (auto simp: dispatch_route_def idle_def db_depth_def Let_def)
  show ?thesis
  proof (cases "t_depth s1 > 0")
    case False
    then show ?thesis using s' ok2 by (auto simp: idle_def)
  next
    case True
    have "session_ok (?a\<lparr>se_fail := f\<rparr>)" for f using ab(1) by (simp add: session_ok_def)
    then show ?thesis using s' True ab ok2(2) fail_500 by (simp add: idle_def)
  qed
qed


text \<open>A small database: a transaction flag and the number of durable changes. The statement \<open>FULL\<close> fails
  and rolls the transaction back by itself, as SQLite does when the disk is full; \<open>MISUSE\<close> has a parameter.\<close>

definition demo_api :: "(bool \<times> nat, string) Sqlite" where
  "demo_api =
     \<lparr>sq_exec = (\<lambda>sql (tx, n).
         if sql = ''BEGIN IMMEDIATE'' then (True, (True, n))
         else if sql = ''COMMIT'' then (True, (False, n + 1))
         else if sql = ''ROLLBACK'' then (True, (False, n)) else (True, (tx, n))),
      sq_errcode = (\<lambda>_. 13), sq_autocommit = (\<lambda>(tx, n). \<not> tx),
      sq_prepare = (\<lambda>sql c. (True, Some sql, [])), sq_params = (\<lambda>st. if st = ''MISUSE'' then 1 else 0),
      sq_bind = (\<lambda>st i a. (True, st)),
      sq_step = (\<lambda>st (tx, n). if st = ''FULL'' then (13, st, (False, n)) else (101, st, (tx, if tx then n else n + 1))),
      sq_finalize = (\<lambda>st c. True), sq_changes = (\<lambda>c. 1), sq_rowid = (\<lambda>c. 1), sq_text = Some, sq_readonly = (\<lambda>st. False),
      sq_columns = (\<lambda>st. 0), sq_integer = (\<lambda>st i. None)\<rparr>"

definition demo_session :: "(bool \<times> nat) Session" where
  "demo_session = \<lparr>g_db = Some (False, 0), t_depth = 0, t_failed_level = 0, db_locked = False, g_last_id = - 1,
     g_escape = False, se_fail = no_failure\<rparr>"

definition leaky_handler :: "(bool \<times> nat) Session \<Rightarrow> bool \<times> int \<times> (bool \<times> nat) Session" where
  "leaky_handler s = (False, 0, snd (db_begin demo_api 0 (Some [Try_ok]) s))"


section \<open>A failed statement is never committed\<close>

text \<open>What is relied on of SQLite: only COMMIT makes a transaction's changes durable, a statement inside
  a transaction makes nothing durable, and one that returns a row does not end the transaction.\<close>

definition durable_law :: "('c, 's) Sqlite \<Rightarrow> ('c \<Rightarrow> 'd) \<Rightarrow> bool" where
  "durable_law api durable \<longleftrightarrow>
     (\<forall>sql c. sql \<noteq> ''COMMIT'' \<longrightarrow> durable (snd (sq_exec api sql c)) = durable c) \<and>
     (\<forall>st c. \<not> sq_autocommit api c \<longrightarrow> durable (snd (snd (sq_step api st c))) = durable c) \<and>
     (\<forall>st c st1 c1. \<not> sq_autocommit api c \<longrightarrow> sq_step api st c = (SQLITE_ROW, st1, c1) \<longrightarrow> \<not> sq_autocommit api c1)"

text \<open>The calls that go on with the work: everything but giving transactions up.\<close>

inductive work_call :: "('c, 's) Sqlite \<Rightarrow> nat \<Rightarrow> ('c, 'z) Session_scheme \<Rightarrow> ('c, 'z) Session_scheme \<Rightarrow> bool" for api busy_ms where
  work_begin: "db_begin api busy_ms tries s = (rc, s') \<Longrightarrow> work_call api busy_ms s s'"
| work_commit: "db_commit api s = (rc, s') \<Longrightarrow> work_call api busy_ms s s'"
| work_execute: "db_execute api busy_ms tries sql args s = (rc, s') \<Longrightarrow> work_call api busy_ms s s'"
| work_insert: "db_insert_id api busy_ms tries sql args s = (rc, s') \<Longrightarrow> work_call api busy_ms s s'"

definition poisoned :: "('c, 'z) Session_scheme \<Rightarrow> bool" where
  "poisoned s \<longleftrightarrow> session_ok s \<and> t_depth s > 0 \<and> t_failed_level s \<noteq> 0"

lemma lock_inside: "t_depth s > 0 \<Longrightarrow> db_lock busy_ms tries s = (0, s)"
  by (simp add: db_lock_def)

lemma db_execute_connection:
  assumes "t_depth s > 0" "db_execute api busy_ms tries sql args s = (rc, s')"
  shows "g_db s' = g_db s \<or> (\<exists>c st. g_db s = Some c \<and> \<not> sq_autocommit api c \<and> g_db s' = Some (snd (snd (sq_step api st c))))"
proof (cases "sql = None \<or> length args > DB_MAX_ARGS")
  case True
  then show ?thesis using assms by (auto simp: db_execute_def split: option.splits)
next
  case False
  then obtain q where q: "sql = Some q" "\<not> length args > DB_MAX_ARGS" by auto
  obtain st s2 where p: "prepare_statement api q args (s\<lparr>g_last_id := - 1\<rparr>) = (st, s2)" by fastforce
  note pf = prepare_frame [OF p]
  show ?thesis
  proof (cases "st = None \<or> g_db s2 = None")
    case True
    then have "s' = db_unlock s2" using assms q p lock_inside [OF assms(1)] by (auto simp: db_execute_def split: option.splits)
    then show ?thesis using pf(4) by (simp add: db_frame)
  next
    case False
    then obtain stm c where sc: "st = Some stm" "g_db s2 = Some c" by auto
    obtain code st1 c1 where step: "sq_step api stm c = (code, st1, c1)" by (metis prod_cases3)
    have c: "g_db s = Some c" "\<not> sq_autocommit api c" using pf(4,5) sc assms(1) by (auto simp: autocommit_def)
    have "g_db s' = Some c1"
      using assms q p lock_inside [OF assms(1)] sc step
      by (auto simp: db_execute_def db_frame Let_def split: if_splits)
    then show ?thesis using c step by (metis snd_conv)
  qed
qed

lemma inserted_id_durable:
  assumes "durable_law api durable" "\<not> sq_autocommit api c"
  shows "durable (snd (inserted_id api st c)) = durable c"
proof -
  obtain code st1 c1 where step: "sq_step api st c = (code, st1, c1)" by (metis prod_cases3)
  obtain code2 st2 c2 where step2: "sq_step api st1 c1 = (code2, st2, c2)" by (metis prod_cases3)
  have d1: "durable c1 = durable c" using assms step unfolding durable_law_def by (metis snd_conv)
  have d2: "code = SQLITE_ROW \<Longrightarrow> durable c2 = durable c1" using assms step step2 unfolding durable_law_def by (metis snd_conv)
  show ?thesis using step step2 d1 d2 by (auto simp: inserted_id_def split: option.split)
qed

lemma db_insert_connection:
  assumes "durable_law api durable" "t_depth s > 0" "db_insert_id api busy_ms tries sql args s = (rc, s')"
  shows "map_option durable (g_db s') = map_option durable (g_db s)"
proof -
  define sa where "sa = s\<lparr>g_last_id := - 1\<rparr>"
  have d: "t_depth sa > 0" "g_db sa = g_db s" using assms(2) by (simp_all add: sa_def)
  show ?thesis
  proof (cases "sql = None \<or> length args > DB_MAX_ARGS \<or> length (the sql) \<ge> DB_MAX_SQL \<or> \<not> is_insert (the sql)")
    case True
    then have "s' = sa" using assms(3) by (auto simp: db_insert_id_def sa_def Let_def split: option.splits)
    then show ?thesis using d by simp
  next
    case False
    then obtain q where q: "sql = Some q" "\<not> (length args > DB_MAX_ARGS \<or> length q \<ge> DB_MAX_SQL \<or> \<not> is_insert q)" by auto
    obtain st s2 where p: "prepare_statement api q args sa = (st, s2)" by fastforce
    note pf = prepare_frame [OF p]
    show ?thesis
    proof (cases "st = None \<or> g_db s2 = None")
      case True
      then have "s' = db_unlock s2" using assms(3) q p lock_inside [OF d(1)]
        by (auto simp: db_insert_id_def sa_def [symmetric] Let_def split: option.splits)
      then show ?thesis using pf(4) d by (simp add: db_frame)
    next
      case False
      then obtain stm c where sc: "st = Some stm" "g_db s2 = Some c" by auto
      obtain v c1 where ins: "inserted_id api stm c = (v, c1)" by fastforce
      obtain new_id s3 where res: "insert_result api (sq_finalize api stm c1) v (s2\<lparr>g_db := Some c1\<rparr>) = (new_id, s3)" by fastforce
      have c: "g_db s = Some c" "\<not> sq_autocommit api c" using pf(4,5) sc d by (auto simp: autocommit_def)
      have "s' = db_unlock s3"
        using assms(3) q p lock_inside [OF d(1)] sc ins res by (simp add: db_insert_id_def sa_def [symmetric] Let_def)
      then have "g_db s' = Some c1" using insert_result_frame(2) [OF res] by (simp add: db_frame)
      then show ?thesis using inserted_id_durable [OF assms(1) c(2), of stm] ins c(1) by simp
    qed
  qed
qed

lemma db_begin_connection:
  assumes "durable_law api durable" "t_depth s > 0" "db_begin api busy_ms tries s = (rc, s')"
  shows "map_option durable (g_db s') = map_option durable (g_db s)"
proof -
  let ?sql = "''SAVEPOINT '' @ savepoint (t_depth s + 1)"
  obtain rc2 s2 where r: "run_control_statement api ?sql s = (rc2, s2)" by fastforce
  have "?sql \<noteq> ''COMMIT''" by simp
  then have d2: "map_option durable (g_db s2) = map_option durable (g_db s)"
    using assms(1) run_control_frame(5) [OF r] unfolding durable_law_def by (cases "g_db s") simp_all
  have "s' = s \<or> s' = db_unlock s \<or> s' = db_unlock s2 \<or> s' = s2\<lparr>t_depth := t_depth s2 + 1\<rparr>"
    using assms(2,3) r lock_inside [OF assms(2)] by (auto simp: db_begin_def split: if_splits)
  then show ?thesis using d2 by (auto simp: db_frame)
qed

lemma work_call_poisoned:
  assumes "durable_law api durable" "work_call api busy_ms s s'" "poisoned s"
  shows "poisoned s' \<and> map_option durable (g_db s') = map_option durable (g_db s)"
  using assms(2)
proof cases
  case (work_begin tries rc)
  have "session_ok s" "t_depth s > 0" "t_failed_level s \<noteq> 0" using assms(3) by (simp_all add: poisoned_def)
  then have "session_ok s'" "t_depth s' > 0" "t_failed_level s' \<noteq> 0"
    using db_begin_ok [OF \<open>session_ok s\<close> work_begin] by (cases "rc = 0"; simp)+
  then show ?thesis using db_begin_connection [OF assms(1) \<open>t_depth s > 0\<close> work_begin] by (simp add: poisoned_def)
next
  case (work_commit rc)
  then have "s' = s" using assms(3) by (simp add: db_commit_def poisoned_def)
  then show ?thesis using assms(3) by simp
next
  case (work_execute tries sql args rc)
  have "map_option durable (g_db s') = map_option durable (g_db s)"
    using db_execute_connection [OF _ work_execute] assms(1,3) unfolding durable_law_def poisoned_def by auto
  then show ?thesis using assms(3) db_execute_ok [OF _ work_execute] by (simp add: poisoned_def)
next
  case (work_insert tries sql args rc)
  then show ?thesis using assms(3) db_insert_id_ok [OF _ work_insert] db_insert_connection [OF assms(1) _ work_insert]
    by (simp add: poisoned_def)
qed


lemma demo_durable: "durable_law demo_api snd"
  by (auto simp: durable_law_def demo_api_def)

definition poisoned_session :: "(bool \<times> nat) Session" where
  "poisoned_session = demo_session\<lparr>g_db := Some (True, 7), t_depth := 1, t_failed_level := 1, db_locked := True\<rparr>"


section \<open>A failure level that outlives its transaction\<close>

text \<open>A handler that ignores a misused statement, nests a transaction and then meets a full disk, and one
  that opens and closes a transaction without doing anything wrong.\<close>

definition full_disk_handler :: "(bool \<times> nat) Session \<Rightarrow> bool \<times> int \<times> (bool \<times> nat) Session" where
  "full_disk_handler s =
     (case transaction_begin demo_api 0 (Some [Try_ok]) s of
        (_, outer, s1) \<Rightarrow>
          (case transaction_begin demo_api 0 None (snd (db_execute demo_api 0 None (Some ''MISUSE'') [] s1)) of
             (_, inner, s2) \<Rightarrow>
               (case transaction_end demo_api (Some inner) (snd (db_execute demo_api 0 None (Some ''FULL'') [] s2)) of
                  (_, _, s3) \<Rightarrow> (case transaction_end demo_api (Some outer) s3 of (esc, _, s4) \<Rightarrow> (esc, 0, s4)))))"

definition plain_handler :: "(bool \<times> nat) Session \<Rightarrow> bool \<times> int \<times> (bool \<times> nat) Session" where
  "plain_handler s =
     (case transaction_begin demo_api 0 (Some [Try_ok]) s of
        (_, tx, s1) \<Rightarrow> (case transaction_end demo_api (Some tx) s1 of (esc, _, s2) \<Rightarrow> (esc, 0, s2)))"

definition next_request :: "(bool \<times> nat) Session \<Rightarrow> (bool \<times> nat) Session" where
  "next_request s = (let a = transaction_abort_if_open demo_api s in a\<lparr>se_fail := request_fail_reset (se_fail a)\<rparr>)"

definition demo_state :: "bool \<Rightarrow> nat \<Rightarrow> nat \<Rightarrow> nat \<Rightarrow> bool \<Rightarrow> bool \<Rightarrow> RequestState \<Rightarrow> (bool \<times> nat) Session" where
  "demo_state tx n d k l e f = \<lparr>g_db = Some (tx, n), t_depth = d, t_failed_level = k, db_locked = l, g_last_id = - 1,
     g_escape = e, se_fail = f\<rparr>"

lemmas demo_defs = demo_state_def demo_api_def db_lock_def run_control_statement_def autocommit_def Let_def

lemma demo_begin_outer:
  "\<not> request_failed f \<Longrightarrow> transaction_begin demo_api 0 (Some [Try_ok]) (demo_state False n 0 k False e f) =
     (False, \<lparr>tx_active = True, tx_level = 1\<rparr>, demo_state True n 1 k True e f)"
  by (simp add: transaction_begin_def db_begin_def db_depth_def demo_defs)

lemma demo_begin_inner:
  "\<not> request_failed f \<Longrightarrow> transaction_begin demo_api 0 None (demo_state True n 1 k True e f) =
     (False, \<lparr>tx_active = True, tx_level = 2\<rparr>, demo_state True n 2 k True e f)"
  by (simp add: transaction_begin_def db_begin_def db_depth_def demo_defs)

lemma demo_misuse:
  "snd (db_execute demo_api 0 None (Some ''MISUSE'') [] (demo_state True n 1 0 True e f)) = demo_state True n 1 1 True e f"
  by (simp add: db_execute_def prepare_statement_def mark_failed_def db_unlock_def demo_defs)

lemma demo_full:
  "snd (db_execute demo_api 0 None (Some ''FULL'') [] (demo_state True n 2 1 True True f)) =
     demo_state False n 2 1 True True
       (request_fail_code 503 ''database_unavailable'' (Some ''database temporarily unavailable'') f)"
  by (simp add: db_execute_def prepare_statement_def mark_failed_def db_unlock_def db_failure_def fail_with_def demo_defs)

lemma demo_end_inner:
  "request_failed f \<Longrightarrow> transaction_end demo_api (Some \<lparr>tx_active = True, tx_level = 2\<rparr>) (demo_state False n 2 1 True e f) =
     (False, Some \<lparr>tx_active = False, tx_level = 2\<rparr>, demo_state False n 0 1 False e f)"
  by (simp add: transaction_end_def db_rollback_def db_depth_def db_unlock_def demo_defs)

lemma demo_end_outer:
  "transaction_end demo_api (Some \<lparr>tx_active = True, tx_level = 1\<rparr>) (demo_state False n 0 k False e f) =
     (fst (request_raise e 500 ''transaction scope mismatch'' f), Some \<lparr>tx_active = False, tx_level = 1\<rparr>,
      demo_state False n 0 k False e (snd (request_raise e 500 ''transaction scope mismatch'' f)))"
  by (simp add: transaction_end_def db_abort_all_def raise_in_def db_depth_def demo_defs split: prod.split)

lemma demo_end_failed:
  "\<not> request_failed f \<Longrightarrow> transaction_end demo_api (Some \<lparr>tx_active = True, tx_level = 1\<rparr>) (demo_state True n 1 1 True e f) =
     (fst (request_raise e 500 ''could not commit transaction'' f), Some \<lparr>tx_active = False, tx_level = 1\<rparr>,
      demo_state False n 0 0 False e (snd (request_raise e 500 ''could not commit transaction'' f)))"
  by (simp add: transaction_end_def db_commit_def db_abort_all_def db_unlock_def raise_in_def db_depth_def demo_defs
      split: prod.split)

lemma demo_end_good:
  "\<not> request_failed f \<Longrightarrow> transaction_end demo_api (Some \<lparr>tx_active = True, tx_level = 1\<rparr>) (demo_state True n 1 0 True e f) =
     (False, Some \<lparr>tx_active = False, tx_level = 1\<rparr>, demo_state False (n + 1) 0 0 False e f)"
  by (simp add: transaction_end_def db_commit_def db_unlock_def db_depth_def demo_defs)

lemma demo_dispatch:
  assumes "run (demo_state tx n 0 k False True f) = (esc, 0, demo_state tx' n' 0 k' False True f')"
  shows "snd (dispatch_route demo_api (Some run) 1 (demo_state tx n 0 k False False f)) = demo_state tx' n' 0 k' False False f'"
  using assms by (simp add: dispatch_route_def db_depth_def demo_state_def Let_def)

text \<open>C40: The failure level is not always cleared with its transaction: when SQLite rolls back by itself
  inside a nested transaction while the outer level is marked as failed, the rollback resets the depth but
  keeps the mark, so that the next request on the thread, which does nothing wrong, cannot commit and fails
  with status 500; without that history the same request succeeds.\<close>

theorem stale_failure_breaks_next_request:
  "let s1 = snd (dispatch_route demo_api (Some full_disk_handler) 1 demo_session);
       s2 = snd (dispatch_route demo_api (Some plain_handler) 1 (next_request s1))
   in t_depth s1 = 0 \<and> t_failed_level (next_request s1) = 1 \<and> g_fail_status (se_fail s2) = 500 \<and>
      g_fail_status (se_fail (snd (dispatch_route demo_api (Some plain_handler) 1 demo_session))) = 0"
proof -
  let ?f = "request_fail_code 503 ''database_unavailable'' (Some ''database temporarily unavailable'') no_failure"
  let ?g = "snd (request_raise True 500 ''transaction scope mismatch'' ?f)"
  let ?h = "request_fail_reset ?g"
  have nf: "\<not> request_failed no_failure" by (simp add: request_failed_def no_failure_def)
  have f: "request_failed ?f" by (simp add: request_fail_code_def request_failed_def request_fail_def no_failure_def Let_def)
  have h: "\<not> request_failed ?h" by (simp add: request_failed_def request_fail_reset_def body_reset_def)
  have init: "demo_session = demo_state False 0 0 0 False False no_failure" by (simp add: demo_session_def demo_state_def)
  have "full_disk_handler (demo_state False 0 0 0 False True no_failure) =
      (fst (request_raise True 500 ''transaction scope mismatch'' ?f), 0, demo_state False 0 0 1 False True ?g)"
    unfolding full_disk_handler_def
    by (simp add: demo_begin_outer [OF nf] demo_misuse demo_begin_inner [OF nf] demo_full demo_end_inner [OF f] demo_end_outer del: One_nat_def)
  from demo_dispatch [of full_disk_handler, OF this]
  have s1: "snd (dispatch_route demo_api (Some full_disk_handler) 1 demo_session) = demo_state False 0 0 1 False False ?g"
    by (simp add: init)
  have n: "next_request (demo_state False 0 0 1 False False ?g) = demo_state False 0 0 1 False False ?h"
    by (simp add: next_request_def transaction_abort_if_open_def db_abort_all_def demo_state_def Let_def)
  have "plain_handler (demo_state False 0 0 1 False True ?h) =
      (fst (request_raise True 500 ''could not commit transaction'' ?h), 0,
       demo_state False 0 0 0 False True (snd (request_raise True 500 ''could not commit transaction'' ?h)))"
    unfolding plain_handler_def by (simp add: demo_begin_outer [OF h] demo_end_failed [OF h] del: One_nat_def)
  from demo_dispatch [of plain_handler, OF this]
  have s2: "g_fail_status (se_fail (snd (dispatch_route demo_api (Some plain_handler) 1 (demo_state False 0 0 1 False False ?h)))) = 500"
    using h by (simp add: demo_state_def request_raise_def request_fail_def request_failed_def Let_def)
  have "plain_handler (demo_state False 0 0 0 False True no_failure) = (False, 0, demo_state False 1 0 0 False True no_failure)"
    unfolding plain_handler_def by (simp add: demo_begin_outer [OF nf] demo_end_good [OF nf] del: One_nat_def)
  from demo_dispatch [of plain_handler, OF this]
  have s3: "g_fail_status (se_fail (snd (dispatch_route demo_api (Some plain_handler) 1 demo_session))) = 0"
    by (simp add: init demo_state_def no_failure_def)
  have l: "t_depth (demo_state False 0 0 1 False False ?g) = 0" "t_failed_level (demo_state False 0 0 1 False False ?h) = 1"
    by (simp_all add: demo_state_def)
  show ?thesis unfolding s1 Let_def n using l s2 s3 by blast
qed

end
