(* ===== verification/Serve.thy ===== *)
theory Serve
  imports Arena Cors Read_Request Static_Files Url Conn_Queue Database
begin

text \<open>
  The life of a connection: \<open>src/server/server_serve.c\<close> and \<open>handle_connection\<close> with the end of
  \<open>worker_main\<close> in \<open>src/server/server_worker.c\<close>. This is where the other components meet: the reader, the
  CORS decision, the identity, the limits, the router, the static files, the dispatch of the handler, the
  response and the consumption of the message. What a thread keeps between calls is the record \<open>Thread\<close>,
  which extends the database session; a handler is any function on it. What the environment answers while
  one request is served (allocations, partial writes, the stop and drain flags, the clock, other threads'
  use of the client table) is a record \<open>ReqEnv\<close>, one for each request.
\<close>

section \<open>The code\<close>

abbreviation SERVER_RESP_MIN :: nat where "SERVER_RESP_MIN \<equiv> 256 * 1024"
abbreviation SERVER_REQ_MAX :: nat where "SERVER_REQ_MAX \<equiv> 8 * 1024 * 1024"
abbreviation SERVER_KEEPALIVE_MAX :: nat where "SERVER_KEEPALIVE_MAX \<equiv> 100"

text \<open>\<open>th_request\<close> and \<open>th_bound\<close> are what \<open>request_bind\<close> and \<open>arena_bind\<close> set; \<open>th_body\<close> are the bytes of
  the body in the request buffer, which a handler may change in place, and \<open>th_out\<close> the text in the
  handler's output buffer.\<close>

record 'c Thread = "'c Session" +
  th_auth :: Auth
  th_resp :: Response
  th_wire :: Wire
  th_route :: "string option"
  th_request :: "HttpRequest option"
  th_arena :: Arena
  th_bound :: bool
  th_body :: string
  th_out :: string

type_synonym 'c Handler = "RequestParams \<Rightarrow> nat \<Rightarrow> 'c Thread \<Rightarrow> bool \<times> int \<times> 'c Thread"

record ('c, 's) Server =
  sv_getenv :: "string \<Rightarrow> string option"
  sv_entries :: "Entry list"
  sv_routes :: "'c Handler Route list"
  sv_static :: StaticFiles
  sv_fs :: FileSystem
  sv_api :: "('c, 's) Sqlite"
  sv_busy_ms :: nat
  sv_connections :: int
  sv_requests :: int

record ReqEnv =
  ev_alloc :: "nat \<Rightarrow> alloc_env"
  ev_static_chunk :: chunk_env
  ev_body_chunk :: chunk_env
  ev_out :: string
  ev_send :: "SendEvent list"
  ev_tries :: "TryEvent list option"
  ev_stop_health :: bool
  ev_stop :: bool
  ev_drain_before :: bool
  ev_drain_after :: bool
  ev_clock :: "int option"
  ev_others :: "ClientLimit list \<Rightarrow> ClientLimit list"

text \<open>The result of serving one request: the return value, the status, what was sent, the thread, and the
  state in which the handler was entered, when one was.\<close>

record 'c Served =
  sr_rc :: int
  sr_status :: int
  sr_sent :: string
  sr_thread :: "'c Thread"
  sr_entry :: "'c Thread option"

definition served :: "int \<times> string \<times> SendEvent list \<Rightarrow> int \<Rightarrow> 'c Thread \<Rightarrow> 'c Served" where
  "served r status th =
     (case r of (rc, out, _) \<Rightarrow> \<lparr>sr_rc = rc, sr_status = status, sr_sent = out, sr_thread = th, sr_entry = None\<rparr>)"

definition respond :: "('c, 's) Server \<Rightarrow> bool \<Rightarrow> SendEvent list \<Rightarrow> int \<Rightarrow> string \<Rightarrow> string \<Rightarrow> 'c Thread \<Rightarrow> 'c Served" where
  "respond sv keep evs status content_type body th =
     served (send_response (sv_getenv sv) (sv_entries sv) (th_wire th) (th_resp th) (se_fail th) status content_type body keep evs)
       status th"

definition serve_static ::
  "('c, 's) Server \<Rightarrow> ReqEnv \<Rightarrow> HttpRequest \<Rightarrow> string \<Rightarrow> bool \<Rightarrow> SendEvent list \<Rightarrow> 'c Thread \<Rightarrow> 'c Served option \<times> 'c Thread" where
  "serve_static sv env req path keep evs th =
     (if \<not> static_files_enabled (sv_static sv) \<or> (rq_method req \<noteq> ''GET'' \<and> rq_method req \<noteq> ''HEAD'') then (None, th)
      else
        (case arena_alloc (ev_static_chunk env) (th_arena th) (of_nat STATIC_MAX_BYTES) of
           (buffer, arena) \<Rightarrow>
             let th1 = th\<lparr>th_arena := arena\<rparr> in
             if buffer = None then (None, th1)
             else
               (case static_file_read (sv_fs sv) (sv_static sv) path STATIC_MAX_BYTES of
                  None \<Rightarrow> (None, th1)
                | Some (bytes, content_type) \<Rightarrow>
                    let th2 = th1\<lparr>th_wire := (th_wire th1)\<lparr>response_allow := []\<rparr>, th_route := Some ''<static>''\<rparr> in
                    (Some (served (send_bytes (sv_getenv sv) (sv_entries sv) (th_wire th2) (th_resp th2) 200 content_type bytes
                             (length bytes) keep evs) 200 th2), th2))))"

definition serve_missing_route ::
  "('c, 's) Server \<Rightarrow> HttpRequest \<Rightarrow> RequestParams \<Rightarrow> int \<Rightarrow> bool \<Rightarrow> SendEvent list \<Rightarrow> 'c Thread \<Rightarrow> 'c Served" where
  "serve_missing_route sv req params allow keep evs th =
     (let status0 = (if pr_invalid params \<or> allow < 0 then 400 else if allow \<noteq> 0 then 405 else 404);
          status = (if allow > 0 \<and> \<not> pr_invalid params \<and> rq_method req = ''OPTIONS'' then 204 else status0);
          message = (if status = 400 then ''bad path parameter'' else if status = 405 then ''method not allow''
                     else if status = 204 then [] else ''no route'')
      in respond sv keep evs status JSON_CONTENT_TYPE message th)"

text \<open>\<open>auth_gate(0, "", 0)\<close> may add its challenge and record the failure.\<close>

definition openapi_needs_auth :: "('c, 's) Server \<Rightarrow> string \<Rightarrow> 'c Thread \<Rightarrow> bool \<times> 'c Thread" where
  "openapi_needs_auth sv path th =
     (if path = ''/openapi.json'' \<and> config_str (sv_getenv sv) (sv_entries sv) ''openapi.public'' ''false'' \<noteq> ''true'' then
        (case auth_gate (th_auth th) False (Some []) False (th_resp th) (se_fail th) of
           (rc, rs, st) \<Rightarrow> (rc \<noteq> 0, th\<lparr>th_resp := rs, se_fail := st\<rparr>))
      else (False, th))"

definition serve_handler_error :: "('c, 's) Server \<Rightarrow> int \<Rightarrow> bool \<Rightarrow> SendEvent list \<Rightarrow> 'c Thread \<Rightarrow> 'c Served" where
  "serve_handler_error sv rc keep evs th =
     (if request_failed (se_fail th) then
        respond sv keep evs (g_fail_status (se_fail th)) JSON_CONTENT_TYPE (g_fail_msg (se_fail th)) th
      else if rc = - 2 then respond sv keep evs 400 JSON_CONTENT_TYPE ''bad parameter or body'' th
      else
        respond sv keep evs 500 JSON_CONTENT_TYPE
          (''response larger than '' @ int_text (int SERVER_BODY_MAX) @ '' bytes'') th)"

definition resolve_route ::
  "('c, 's) Server \<Rightarrow> HttpRequest \<Rightarrow> string \<Rightarrow> 'c Thread \<Rightarrow> 'c Handler Route option \<times> RequestParams \<times> int \<times> 'c Thread" where
  "resolve_route sv req path th =
     (case route_find (sv_routes sv) (rq_method req) path no_params of
        (route, params) \<Rightarrow>
          let th1 = th\<lparr>th_route := Some (case route of None \<Rightarrow> ''<unmatched>'' | Some r \<Rightarrow> r_url r)\<rparr> in
          if route = None \<or> rq_method req = ''OPTIONS'' then
            (case route_allow (sv_routes sv) path ROUTE_ALLOW_CAP of
               (allow, text) \<Rightarrow> (route, params, allow, th1\<lparr>th_wire := (th_wire th1)\<lparr>response_allow := text\<rparr>\<rparr>))
          else (route, params, 0, th1))"

text \<open>The results are whether a body buffer was allocated and its size. A fresh buffer holds whatever the
  allocator left in it.\<close>

definition prepare_handler :: "ReqEnv \<Rightarrow> HttpRequest \<Rightarrow> 'c Thread \<Rightarrow> bool \<times> nat \<times> 'c Thread" where
  "prepare_handler env req th =
     (let th1 = th\<lparr>th_request := Some req, th_bound := True\<rparr>;
          blen = (if rq_content_length req > 0 then nat (rq_content_length req) else rq_body_len req);
          want0 = (if blen > SERVER_RESP_MIN then blen + SERVER_RESP_MIN else SERVER_RESP_MIN);
          want = (if want0 > SERVER_BODY_MAX then SERVER_BODY_MAX else want0)
      in case arena_alloc (ev_body_chunk env) (th_arena th1) (of_nat want) of
           (body, arena) \<Rightarrow>
             let th2 = th1\<lparr>th_arena := arena\<rparr> in
             if body = None then (False, want, th2)
             else (True, want, th2\<lparr>se_fail := request_fail_reset (se_fail th2), th_out := ev_out env\<rparr>))"

text \<open>The rest of \<open>serve_request\<close>, once a route was found and the preflight did not answer.\<close>

definition serve_route ::
  "('c, 's) Server \<Rightarrow> ReqEnv \<Rightarrow> HttpRequest \<Rightarrow> string \<Rightarrow> string option \<Rightarrow> bool \<Rightarrow> SendEvent list \<Rightarrow>
   'c Handler Route \<Rightarrow> RequestParams \<Rightarrow> 'c Thread \<Rightarrow> 'c Served" where
  "serve_route sv env req path query keep evs route params0 th0 =
     (let th = (if rq_method req \<noteq> ''OPTIONS'' then th0\<lparr>th_wire := (th_wire th0)\<lparr>response_allow := []\<rparr>\<rparr> else th0) in
      case query_parse params0 query of
        (bad, params) \<Rightarrow>
          if bad \<noteq> 0 then respond sv keep evs 400 JSON_CONTENT_TYPE ''bad query'' th
          else
            (case prepare_handler env req th of
               (ok, cap, th1) \<Rightarrow>
                 if \<not> ok then respond sv keep evs 503 JSON_CONTENT_TYPE ''out of memory'' th1
                 else
                   (case openapi_needs_auth sv path th1 of
                      (denied, th2) \<Rightarrow>
                        if denied then respond sv keep evs 401 JSON_CONTENT_TYPE ''authentication required'' th2
                        else
                          (case dispatch_route (sv_api sv) (map_option (\<lambda>h. h params cap) (r_handler route)) cap th2 of
                             (rc, th3) \<Rightarrow>
                               (if request_failed (se_fail th3) \<or> rc \<noteq> 0 then serve_handler_error sv rc keep evs th3
                                else
                                  respond sv keep evs (response_status_get (r_status route) (th_resp th3)) (r_content_type route)
                                    (th_out th3) th3)\<lparr>sr_entry := Some th2\<rparr>))))"

definition health_ready :: "('c, 's) Server \<Rightarrow> ReqEnv \<Rightarrow> HttpRequest \<Rightarrow> string \<Rightarrow> 'c Thread \<Rightarrow> bool \<times> 'c Thread" where
  "health_ready sv env req path th =
     (if (rq_method req = ''GET'' \<or> rq_method req = ''HEAD'') \<and> path \<noteq> ''/health/live'' \<and> \<not> ev_stop_health env
      then db_ready (sv_busy_ms sv) (ev_tries env) th else (False, th))"

definition serve_request ::
  "('c, 's) Server \<Rightarrow> ReqEnv \<Rightarrow> HttpRequest \<Rightarrow> string \<Rightarrow> string option \<Rightarrow> bool \<Rightarrow> SendEvent list \<Rightarrow> 'c Thread \<Rightarrow> 'c Served" where
  "serve_request sv env req path query keep evs th =
     (if is_health_path path then
        (case health_ready sv env req path th of
           (ready, th1) \<Rightarrow>
             (case serve_health (sv_getenv sv) (sv_entries sv) (th_resp th1) (se_fail th1) (ev_stop_health env) ready req path keep
                     evs (th_wire th1) of
                (rc, status, w, out) \<Rightarrow> served (rc, out, []) status (th1\<lparr>th_wire := w\<rparr>)))
      else
        (case resolve_route sv req path th of
           (route, params, allow, th1) \<Rightarrow>
             (case serve_preflight (sv_getenv sv) (sv_entries sv) (th_resp th1) (se_fail th1) req keep evs (th_wire th1) of
                (rc, handled, status, w, out) \<Rightarrow>
                  let th2 = th1\<lparr>th_wire := w\<rparr> in
                  if handled then served (rc, out, []) status th2
                  else
                    (case route of
                       None \<Rightarrow>
                         (case serve_static sv env req path keep evs th2 of
                            (Some r, _) \<Rightarrow> r
                          | (None, th3) \<Rightarrow> serve_missing_route sv req params allow keep evs th3)
                     | Some r \<Rightarrow> serve_route sv env req path query keep evs r params th2))))"

text \<open>The line \<open>log_request\<close> prints: method, label and status; the duration is not modelled.\<close>

definition log_label :: "string option \<Rightarrow> string" where
  "log_label route =
     map (\<lambda>c. if byte c < 32 \<or> byte c > 126 \<or> c = DQUOTE \<or> c = BSLASH then CHR ''_'' else c)
       (take (ROUTE_MAX_URL - 1) (case route of None \<Rightarrow> ''<unmatched>'' | Some r \<Rightarrow> cstr r))"

definition wire_reset :: "Wire \<Rightarrow> Wire" where
  "wire_reset w = w\<lparr>response_head := False, response_cors := False, response_preflight := False, response_allow := [],
     response_origin := [], response_requested_headers := []\<rparr>"

definition reset_response_state :: "'c Thread \<Rightarrow> 'c Thread" where
  "reset_response_state th =
     th\<lparr>th_auth := auth_reset (th_auth th), se_fail := request_fail_reset (se_fail th), th_resp := response_reset (th_resp th),
        th_route := None, th_wire := wire_reset (th_wire th)\<rparr>"

definition send_read_error :: "('c, 's) Server \<Rightarrow> int \<Rightarrow> SendEvent list \<Rightarrow> 'c Thread \<Rightarrow> string" where
  "send_read_error sv rc evs th =
     (if rc = - 2 then
        sr_sent (respond sv False evs 413 JSON_CONTENT_TYPE (''request larger than '' @ int_text (int SERVER_REQ_MAX) @ '' bytes'') th)
      else if rc = - 3 then sr_sent (respond sv False evs 417 JSON_CONTENT_TYPE ''unsupported expectation'' th)
      else [])"

definition keep_alive_wanted :: "bool \<Rightarrow> HttpRequest \<Rightarrow> nat \<Rightarrow> bool" where
  "keep_alive_wanted stop req n =
     (let keep1 = (rq_minor req = 1);
          keep2 = (if request_header_has_token req ''Connection'' ''close'' then False else keep1);
          keep3 = (if rq_minor req = 0 \<and> request_header_has_token req ''Connection'' ''keep-alive'' then True else keep2);
          keep4 = (if stop then False else keep3)
      in if n = SERVER_KEEPALIVE_MAX - 1 then False else keep4)"

definition finish_request :: "('c, 's) Server \<Rightarrow> 'c Thread \<Rightarrow> 'c Thread" where
  "finish_request sv th0 =
     (let th = transaction_abort_if_open (sv_api sv) th0;
          th1 = th\<lparr>th_auth := auth_reset (th_auth th), se_fail := request_fail_reset (se_fail th), th_request := None, th_bound := False\<rparr>
      in case arena_reset (th_arena th1) of (_, a, _) \<Rightarrow> th1\<lparr>th_arena := a\<rparr>)"

definition consume_message :: "HttpRequest \<Rightarrow> DynBuf \<Rightarrow> mem_error + (int \<times> DynBuf)" where
  "consume_message req b =
     (if rq_message_len req > unat (db_len b) then Inr (- 1, b)
      else
        ebind (dynbuf_consume b (of_nat (rq_message_len req)))
          (\<lambda>b1. case db_data b1 of
                  None \<Rightarrow> Inr (0, b1)
                | Some blk \<Rightarrow>
                    if unat (db_len b1) < length (block_bytes blk) then
                      Inr (0, b1\<lparr>db_data := Some (set_block_bytes blk ((block_bytes blk)[unat (db_len b1) := NUL]))\<rparr>)
                    else Inl Out_of_bounds))"

section \<open>The code: a connection\<close>

text \<open>\<open>cn_requests\<close> are the requests answered so far and \<open>cn_entries\<close> the states in which handlers were
  entered; both are only observed.\<close>

record 'c Conn =
  cn_buf :: DynBuf
  cn_recv :: "RecvEvent list"
  cn_clients :: "ClientLimit list"
  cn_thread :: "'c Thread"
  cn_sent :: string
  cn_log :: "(string \<times> string \<times> int) list"
  cn_requests :: "HttpRequest list"
  cn_entries :: "(HttpRequest \<times> 'c Thread) list"

text \<open>The handler works on the body where it is in the buffer.\<close>

definition body_of :: "HttpRequest \<Rightarrow> DynBuf \<Rightarrow> string" where
  "body_of req b =
     (let n = (if rq_content_length req > 0 then nat (rq_content_length req) else rq_body_len req)
      in take n (drop (case rq_body req of None \<Rightarrow> 0 | Some k \<Rightarrow> k) (contents b)))"

definition store_body :: "HttpRequest \<Rightarrow> string \<Rightarrow> string \<Rightarrow> DynBuf \<Rightarrow> DynBuf" where
  "store_body req old new b =
     (case (db_data b, rq_body req) of
        (Some blk, Some k) \<Rightarrow>
          let xs = block_bytes blk; written = take (length old) (new @ drop (length new) old)
          in b\<lparr>db_data := Some (set_block_bytes blk (take k xs @ written @ drop (k + length written) xs))\<rparr>
      | _ \<Rightarrow> b)"

text \<open>The last part of a round: the request is served, logged and its state dropped, and its message leaves
  the buffer when the connection goes on.\<close>

definition finish_round ::
  "('c, 's) Server \<Rightarrow> ReqEnv \<Rightarrow> nat \<Rightarrow> HttpRequest \<Rightarrow> string \<Rightarrow> string option \<Rightarrow> SendEvent list \<Rightarrow> 'c Conn \<Rightarrow>
   mem_error + (bool \<times> 'c Conn)" where
  "finish_round sv env n req path query evs c =
     (let body = body_of req (cn_buf c);
          r = serve_request sv env req path query (keep_alive_wanted (ev_stop env) req n) evs ((cn_thread c)\<lparr>th_body := body\<rparr>);
          c1 = c\<lparr>cn_buf := store_body req body (th_body (sr_thread r)) (cn_buf c),
                 cn_thread := finish_request sv (sr_thread r),
                 cn_sent := cn_sent c @ sr_sent r,
                 cn_log := cn_log c @ [(rq_method req, log_label (th_route (sr_thread r)), sr_status r)],
                 cn_entries := cn_entries c @ (case sr_entry r of None \<Rightarrow> [] | Some th \<Rightarrow> [(req, th)])\<rparr>
      in if sr_rc r \<noteq> 0 \<or> ev_drain_after env then Inr (False, c1)
         else ebind (consume_message req (cn_buf c1)) (\<lambda>(rc, b). Inr (rc = 0, c1\<lparr>cn_buf := b\<rparr>)))"

definition serve_one ::
  "('c, 's) Server \<Rightarrow> ReqEnv \<Rightarrow> 32 word \<Rightarrow> nat \<Rightarrow> 'c Conn \<Rightarrow> mem_error + (bool \<times> 'c Conn)" where
  "serve_one sv env ip n c =
     ebind (read_request (ev_alloc env) (cn_buf c) http_request_zero (cn_recv c) (ev_send env))
       (\<lambda>r.
          let req = ro_req r;
              th0 = reset_response_state (cn_thread c);
              head = (rq_method req = ''HEAD'' \<or> take 5 (contents (ro_buf r)) = ''HEAD '');
              th1 = th0\<lparr>th_wire := (th_wire th0)\<lparr>response_head := head\<rparr>\<rparr>;
              c1 = c\<lparr>cn_buf := ro_buf r, cn_recv := ro_recv r, cn_thread := th1, cn_sent := cn_sent c @ ro_sent r\<rparr>
          in if ro_rc r \<noteq> 1 then
               Inr (False, c1\<lparr>cn_sent := cn_sent c1 @ send_read_error sv (ro_rc r) (ro_send r) th1\<rparr>)
             else
               let th2 = th1\<lparr>th_wire := cors_prepare (sv_getenv sv) (sv_entries sv) req (th_wire th1),
                             th_auth := auth_bind (Some req) (th_auth th1)\<rparr>
               in case client_limit (sv_connections sv) (sv_requests sv) (ev_clock env) ip 0 (ev_others env (cn_clients c1)) of
                    (limited, clients) \<Rightarrow>
                      let c2 = c1\<lparr>cn_clients := clients, cn_thread := th2, cn_requests := cn_requests c1 @ [req]\<rparr> in
                      if limited \<noteq> 0 then
                        let th3 = th2\<lparr>th_resp := (case response_header (Some ''Retry-After'') (Some ''60'') (th_resp th2) of
                                                    None \<Rightarrow> th_resp th2 | Some rs \<Rightarrow> rs)\<rparr>
                        in Inr (False, c2\<lparr>cn_thread := th3, cn_sent := cn_sent c2 @
                                 sr_sent (respond sv False (ro_send r) 429 JSON_CONTENT_TYPE ''rate limit exceeded'' th3)\<rparr>)
                      else
                        (case split_path (snprintf_s HTTP_MAX_PATH (rq_path req)) of
                           None \<Rightarrow>
                             Inr (False, c2\<lparr>cn_sent := cn_sent c2 @
                                   sr_sent (respond sv False (ro_send r) 400 JSON_CONTENT_TYPE ''bad url'' th2)\<rparr>)
                         | Some (path, query) \<Rightarrow> finish_round sv env n req path query (ro_send r) c2))"

primrec connection_loop ::
  "nat \<Rightarrow> ('c, 's) Server \<Rightarrow> (nat \<Rightarrow> ReqEnv) \<Rightarrow> 32 word \<Rightarrow> nat \<Rightarrow> 'c Conn \<Rightarrow> mem_error + 'c Conn" where
  "connection_loop 0 sv envs ip n c = Inr c"
| "connection_loop (Suc k) sv envs ip n c =
     (if ev_drain_before (envs n) then Inr c
      else
        ebind (serve_one sv (envs n) ip n c)
          (\<lambda>(go_on, c1). if go_on then connection_loop k sv envs ip (n + 1) c1 else Inr c1))"

definition handle_connection ::
  "('c, 's) Server \<Rightarrow> (nat \<Rightarrow> ReqEnv) \<Rightarrow> 32 word \<Rightarrow> 'c Conn \<Rightarrow> mem_error + 'c Conn" where
  "handle_connection sv envs ip c = connection_loop SERVER_KEEPALIVE_MAX sv envs ip 0 c"

text \<open>What \<open>worker_main\<close> does with one connection, after it was taken from the queue.\<close>

definition worker_connection ::
  "('c, 's) Server \<Rightarrow> (nat \<Rightarrow> ReqEnv) \<Rightarrow> int option \<Rightarrow> 32 word \<Rightarrow> 'c Conn \<Rightarrow> mem_error + 'c Conn" where
  "worker_connection sv envs clock ip c =
     ebind (handle_connection sv envs ip c)
       (\<lambda>c1.
          let clients = snd (client_limit (sv_connections sv) (sv_requests sv) clock ip (- 1) (cn_clients c1));
              th = cn_thread c1;
              arena = fst (snd (arena_reset (th_arena th)))
          in ebind (dynbuf_release (cn_buf c1))
               (\<lambda>b. Inr (c1\<lparr>cn_buf := b, cn_clients := clients, cn_thread := th\<lparr>th_arena := arena\<rparr>\<rparr>)))"

section \<open>A small server\<close>

definition greet :: "(bool \<times> nat) Handler" where
  "greet params cap th = (False, 0, th\<lparr>th_out := ''hi''\<rparr>)"

definition demo_server :: "(bool \<times> nat, string) Server" where
  "demo_server = \<lparr>sv_getenv = (\<lambda>_. None), sv_entries = [],
     sv_routes = [\<lparr>r_method = ''GET'', r_url = ''/'', r_content_type = ''text/plain'', r_status = 200, r_handler = Some greet\<rparr>],
     sv_static = demo_static\<lparr>root_directory := None\<rparr>, sv_fs = demo_fs, sv_api = demo_api, sv_busy_ms = 10,
     sv_connections = 8, sv_requests = 100\<rparr>"

definition demo_env :: ReqEnv where
  "demo_env = \<lparr>ev_alloc = (\<lambda>_. env_all), ev_static_chunk = \<lparr>mmap_at = (\<lambda>_. Some 4096), malloc_at = (\<lambda>_. Some 4096), heap_junk = (\<lambda>_. NUL)\<rparr>,
     ev_body_chunk = \<lparr>mmap_at = (\<lambda>_. Some 4096), malloc_at = (\<lambda>_. Some 4096), heap_junk = (\<lambda>_. NUL)\<rparr>, ev_out = [],
     ev_send = [Sent 4096], ev_tries = None, ev_stop_health = False, ev_stop = False, ev_drain_before = False,
     ev_drain_after = False, ev_clock = Some 0, ev_others = id\<rparr>"

definition demo_thread :: "(bool \<times> nat) Thread" where
  "demo_thread = Session.extend demo_session
     \<lparr>th_auth = no_auth, th_resp = \<lparr>rs_headers = [], rs_status = 0\<rparr>, th_wire = plain_wire, th_route = None, th_request = None,
      th_arena = \<lparr>ar_head = [], ar_spare = None, ar_used = 0, ar_max = 16777216, ar_peak = 0, ar_refusals = 0\<rparr>,
      th_bound = False, th_body = [], th_out = []\<rparr>"

definition demo_conn :: "(bool \<times> nat) Conn" where
  "demo_conn = \<lparr>cn_buf = buf_new 8388608, cn_recv = [Received demo_message, Received demo_message], cn_clients = [],
     cn_thread = demo_thread, cn_sent = [], cn_log = [], cn_requests = [], cn_entries = []\<rparr>"

section \<open>Every message is answered once, in order\<close>

text \<open>The requests in a stream of bytes: each starts where the one before it ends.\<close>

fun requests_of :: "nat \<Rightarrow> string \<Rightarrow> HttpRequest list" where
  "requests_of 0 s = []"
| "requests_of (Suc n) s =
     (case http_parse_request s of
        (verdict, req) \<Rightarrow>
          if verdict = HTTP_PARSE_OK then req # requests_of n (drop (rq_message_len req) s) else [])"

text \<open>What the peer has sent and the server has not consumed.\<close>

definition pending :: "'c Conn \<Rightarrow> string" where
  "pending c = contents (cn_buf c) @ stream (cn_recv c)"

lemma header_end_pos: "header_end s = Some n \<Longrightarrow> 0 < n"
  by (induction s arbitrary: n rule: header_end.induct) (auto split: if_splits)

lemma accepted_lengths:
  assumes "http_parse_request buf = (HTTP_PARSE_OK, req)"
  shows "0 < rq_message_len req" "rq_message_len req \<le> length buf" "rq_body req = Some (rq_header_len req)"
    "rq_header_len req + length (take (if rq_content_length req > 0 then nat (rq_content_length req) else rq_body_len req)
       (drop (rq_header_len req) buf)) \<le> rq_message_len req"
proof -
  note f = accepted_request_framed [OF assms]
  have pos: "0 < rq_header_len req" using f header_end_pos by blast
  then show "0 < rq_message_len req" "rq_message_len req \<le> length buf" "rq_body req = Some (rq_header_len req)"
    using f by auto
  have "count_name ''Content-Length'' (rq_headers req) = 0 \<Longrightarrow> rq_content_length req \<le> 0"
    using f by (auto simp: length_matches_def split: option.splits)
  then have "(if rq_content_length req > 0 then nat (rq_content_length req) else rq_body_len req) \<le> rq_body_len req"
    using f by auto
  then show "rq_header_len req + length (take (if rq_content_length req > 0 then nat (rq_content_length req) else rq_body_len req)
       (drop (rq_header_len req) buf)) \<le> rq_message_len req"
    using f by auto
qed

lemma dynbuf_inv_rewrite:
  assumes "dynbuf_inv b" "db_data b = Some blk" "length ys = length (block_bytes blk)"
  shows "dynbuf_inv (b\<lparr>db_data := Some (set_block_bytes blk ys)\<rparr>)"
  using assms by (cases blk) (simp_all add: dynbuf_inv_def)

lemma store_body_ok:
  assumes "dynbuf_inv b" "rq_body req = Some k" "k + length old \<le> n" "n \<le> length (contents b)"
  shows "dynbuf_inv (store_body req old new b)" "db_max (store_body req old new b) = db_max b"
    "drop n (contents (store_body req old new b)) = drop n (contents b)"
    "length (contents (store_body req old new b)) = length (contents b)"
proof -
  let ?w = "take (length old) (new @ drop (length new) old)"
  have lw: "length ?w = length old" by simp
  show "db_max (store_body req old new b) = db_max b" by (simp add: store_body_def Let_def split: option.split)
  show inv: "dynbuf_inv (store_body req old new b)"
  proof (cases "db_data b")
    case None
    then show ?thesis using assms by (simp add: store_body_def)
  next
    case (Some blk)
    have len: "length (block_bytes blk) = unat (db_cap b)"
      using assms(1) Some by (auto simp: dynbuf_inv_def intro: block_matches_length)
    have "unat (db_len b) \<le> unat (db_cap b)" using assms(1) by (simp add: dynbuf_inv_def word_le_nat_alt)
    then have "k + length old \<le> length (block_bytes blk)" using assms(3,4) len length_contents [OF assms(1)] by simp
    then have "length (take k (block_bytes blk) @ ?w @ drop (k + length ?w) (block_bytes blk)) = length (block_bytes blk)"
      using lw by simp
    from dynbuf_inv_rewrite [OF assms(1) Some this] show ?thesis
      using assms(2) Some unfolding store_body_def Let_def by (simp only: prod.case option.case)
  qed
  have frame: "db_len (store_body req old new b) = db_len b" by (simp add: store_body_def Let_def split: option.split)
  show "length (contents (store_body req old new b)) = length (contents b)"
    using length_contents [OF inv] length_contents [OF assms(1)] frame by simp
  show "drop n (contents (store_body req old new b)) = drop n (contents b)"
  proof (cases "db_data b")
    case None
    then show ?thesis using assms by (simp add: store_body_def)
  next
    case (Some blk)
    have len: "length (block_bytes blk) = unat (db_cap b)"
      using assms(1) Some by (auto simp: dynbuf_inv_def intro: block_matches_length)
    have "unat (db_len b) \<le> unat (db_cap b)" using assms(1) by (simp add: dynbuf_inv_def word_le_nat_alt)
    then have k: "k + length old \<le> length (block_bytes blk)" using assms(3,4) len length_contents [OF assms(1)] by simp
    let ?xs = "take k (block_bytes blk) @ ?w @ drop (k + length ?w) (block_bytes blk)"
    have lk: "length (take k (block_bytes blk) @ ?w) = k + length old" using k lw by simp
    have "drop n ?xs = drop n ((take k (block_bytes blk) @ ?w) @ drop (k + length old) (block_bytes blk))" using lw by simp
    also have "\<dots> = drop (n - (k + length old)) (drop (k + length old) (block_bytes blk))"
      unfolding drop_append lk using assms(3) lk by simp
    also have "\<dots> = drop n (block_bytes blk)" using assms(3) by simp
    finally have d: "drop n ?xs = drop n (block_bytes blk)" .
    have "contents (store_body req old new b) = take (unat (db_len b)) ?xs"
      using Some assms(2) by (simp add: store_body_def contents_def Let_def)
    moreover have "contents b = take (unat (db_len b)) (block_bytes blk)" using Some by (simp add: contents_def)
    ultimately show ?thesis using d by (simp only: drop_take)
  qed
qed

lemma consume_message_ok:
  assumes "dynbuf_inv b" "0 < rq_message_len req" "rq_message_len req \<le> length (contents b)"
  shows "\<exists>b'. consume_message req b = Inr (0, b') \<and> dynbuf_inv b' \<and> db_max b' = db_max b \<and>
    contents b' = drop (rq_message_len req) (contents b)"
proof -
  let ?n = "of_nat (rq_message_len req) :: size_t"
  have n: "unat ?n = rq_message_len req" using assms(3) contents_bound [OF assms(1)] by (simp add: unat_of_nat)
  obtain b1 where b1: "dynbuf_consume b ?n = Inr b1" "dynbuf_inv b1" "contents b1 = drop (rq_message_len req) (contents b)"
      "db_cap b1 = db_cap b" "db_max b1 = db_max b"
    using dynbuf_consume_ok [OF assms(1), of ?n] n assms(3) by auto
  have short: "length (contents b1) < length (contents b)" using b1(3) assms(2,3) by simp
  have le: "\<not> rq_message_len req > unat (db_len b)" using assms(3) length_contents [OF assms(1)] by simp
  show ?thesis
  proof (cases "db_data b1")
    case None
    then show ?thesis using b1 le by (simp add: consume_message_def)
  next
    case (Some blk)
    have len: "length (block_bytes blk) = unat (db_cap b1)"
      using b1(2) Some by (auto simp: dynbuf_inv_def intro: block_matches_length)
    have room: "unat (db_len b1) < length (block_bytes blk)"
      using short length_contents [OF b1(2)] length_contents [OF assms(1)] assms(1) len b1(4)
      by (simp add: dynbuf_inv_def word_le_nat_alt)
    let ?b = "b1\<lparr>db_data := Some (set_block_bytes blk ((block_bytes blk)[unat (db_len b1) := NUL]))\<rparr>"
    have "dynbuf_inv ?b" by (rule dynbuf_inv_rewrite [OF b1(2) Some]) simp
    moreover have "contents ?b = contents b1" using Some by (simp add: contents_def)
    moreover have "consume_message req b = Inr (0, ?b)" using le b1(1) Some room by (simp add: consume_message_def)
    ultimately show ?thesis using b1(3,5) by auto
  qed
qed

lemma finish_round_ok:
  assumes "dynbuf_inv (cn_buf c)" "http_parse_request (contents (cn_buf c)) = (HTTP_PARSE_OK, req)"
  shows "\<exists>go c'. finish_round sv env n req path query evs c = Inr (go, c') \<and> dynbuf_inv (cn_buf c') \<and>
    db_max (cn_buf c') = db_max (cn_buf c) \<and> cn_requests c' = cn_requests c \<and> cn_recv c' = cn_recv c \<and>
    (go \<longrightarrow> contents (cn_buf c') = drop (rq_message_len req) (contents (cn_buf c)))"
proof -
  note l = accepted_lengths [OF assms(2)]
  let ?body = "body_of req (cn_buf c)"
  let ?r = "serve_request sv env req path query (keep_alive_wanted (ev_stop env) req n) evs ((cn_thread c)\<lparr>th_body := ?body\<rparr>)"
  define b where "b = store_body req ?body (th_body (sr_thread ?r)) (cn_buf c)"
  have bl: "rq_header_len req + length ?body \<le> rq_message_len req" using l(3,4) by (simp add: body_of_def Let_def)
  note sb = store_body_ok [OF assms(1) l(3) bl l(2), of "th_body (sr_thread ?r)", folded b_def]
  obtain b1 where b1: "consume_message req b = Inr (0, b1)" "dynbuf_inv b1" "db_max b1 = db_max b"
      "contents b1 = drop (rq_message_len req) (contents b)"
    using consume_message_ok [OF sb(1) l(1)] sb(4) l(2) by auto
  show ?thesis
  proof (cases "sr_rc ?r \<noteq> 0 \<or> ev_drain_after env")
    case True
    then show ?thesis using sb by (intro exI [of _ False]) (simp add: finish_round_def Let_def b_def [symmetric])
  next
    case False
    then show ?thesis using b1 sb by (intro exI [of _ True]) (simp add: finish_round_def Let_def b_def [symmetric])
  qed
qed

lemma serve_one_ok:
  assumes "dynbuf_inv (cn_buf c)" "unat (db_max (cn_buf c)) \<le> 2 ^ 62"
  shows "\<exists>go c'. serve_one sv env ip n c = Inr (go, c') \<and> dynbuf_inv (cn_buf c') \<and> db_max (cn_buf c') = db_max (cn_buf c) \<and>
    (cn_requests c' = cn_requests c \<and> \<not> go \<or>
     (\<exists>req. http_parse_request (pending c) = (HTTP_PARSE_OK, req) \<and> cn_requests c' = cn_requests c @ [req] \<and>
       (go \<longrightarrow> pending c' = drop (rq_message_len req) (pending c))))"
proof -
  obtain r where r: "read_request (ev_alloc env) (cn_buf c) http_request_zero (cn_recv c) (ev_send env) = Inr r"
      "read_ok (cn_buf c) (cn_recv c) r"
    using read_loop_ok [OF assms, of "[]" False SERVER_READ_STEPS "ev_alloc env" http_request_zero "cn_recv c" "ev_send env"]
    unfolding read_request_def by auto
  obtain got where got: "contents (ro_buf r) = contents (cn_buf c) @ got" "got @ stream (ro_recv r) = stream (cn_recv c)"
    using r(2) unfolding read_ok_def by blast
  have inv: "dynbuf_inv (ro_buf r)" "db_max (ro_buf r) = db_max (cn_buf c)" using r(2) by (simp_all add: read_ok_def)
  have pend: "pending c = contents (ro_buf r) @ stream (ro_recv r)" using got by (simp add: pending_def)
  show ?thesis
  proof (cases "ro_rc r = 1")
    case False
    then show ?thesis using r(1) inv by (auto simp: serve_one_def Let_def)
  next
    case True
    let ?req = "ro_req r"
    have ok: "http_parse_request (contents (ro_buf r)) = (HTTP_PARSE_OK, ?req)" using r(2) True by (simp add: read_ok_def)
    then have all: "http_parse_request (pending c) = (HTTP_PARSE_OK, ?req)"
      using http_parse_stable [of "contents (ro_buf r)"] pend by simp
    obtain limited clients where lim:
        "client_limit (sv_connections sv) (sv_requests sv) (ev_clock env) ip 0 (ev_others env (cn_clients c)) = (limited, clients)"
      by fastforce
    show ?thesis
    proof (cases "limited \<noteq> 0 \<or> split_path (snprintf_s HTTP_MAX_PATH (rq_path ?req)) = None")
      case True
      then show ?thesis using r(1) inv \<open>ro_rc r = 1\<close> lim all by (auto simp: serve_one_def Let_def)
    next
      case False
      then obtain path query where sp: "split_path (snprintf_s HTTP_MAX_PATH (rq_path ?req)) = Some (path, query)" by auto
      obtain c2 where c2: "serve_one sv env ip n c = finish_round sv env n ?req path query (ro_send r) c2"
          "cn_buf c2 = ro_buf r" "cn_recv c2 = ro_recv r" "cn_requests c2 = cn_requests c @ [?req]"
        using r(1) \<open>ro_rc r = 1\<close> lim False sp by (simp add: serve_one_def Let_def)
      have "dynbuf_inv (cn_buf c2)" "http_parse_request (contents (cn_buf c2)) = (HTTP_PARSE_OK, ?req)" using c2 inv ok by simp_all
      from finish_round_ok [OF this, of sv env n path query "ro_send r"]
      obtain go c' where f: "finish_round sv env n ?req path query (ro_send r) c2 = Inr (go, c')" "dynbuf_inv (cn_buf c')"
          "db_max (cn_buf c') = db_max (cn_buf c)" "cn_requests c' = cn_requests c @ [?req]" "cn_recv c' = ro_recv r"
          "go \<longrightarrow> contents (cn_buf c') = drop (rq_message_len ?req) (contents (ro_buf r))"
        using c2 inv(2) by auto
      have "go \<longrightarrow> pending c' = drop (rq_message_len ?req) (pending c)"
        using f(5,6) accepted_lengths(2) [OF ok] unfolding pend by (simp add: pending_def)
      then show ?thesis using c2(1) f all by auto
    qed
  qed
qed

lemma connection_loop_ok:
  assumes "dynbuf_inv (cn_buf c)" "unat (db_max (cn_buf c)) \<le> 2 ^ 62"
  shows "\<exists>c' k. connection_loop m sv envs ip n c = Inr c' \<and> dynbuf_inv (cn_buf c') \<and> db_max (cn_buf c') = db_max (cn_buf c) \<and>
    k \<le> m \<and> length (requests_of k (pending c)) = k \<and> cn_requests c' = cn_requests c @ requests_of k (pending c)"
  using assms
proof (induction m arbitrary: n c)
  case (Suc m)
  show ?case
  proof (cases "ev_drain_before (envs n)")
    case True
    then show ?thesis using Suc.prems by (intro exI [of _ c] exI [of _ 0]) simp
  next
    case False
    obtain go c1 where s: "serve_one sv (envs n) ip n c = Inr (go, c1)" "dynbuf_inv (cn_buf c1)"
        "db_max (cn_buf c1) = db_max (cn_buf c)"
        "cn_requests c1 = cn_requests c \<and> \<not> go \<or>
         (\<exists>req. http_parse_request (pending c) = (HTTP_PARSE_OK, req) \<and> cn_requests c1 = cn_requests c @ [req] \<and>
           (go \<longrightarrow> pending c1 = drop (rq_message_len req) (pending c)))"
      using serve_one_ok [OF Suc.prems] by blast
    consider "cn_requests c1 = cn_requests c" "\<not> go"
      | req where "http_parse_request (pending c) = (HTTP_PARSE_OK, req)" "cn_requests c1 = cn_requests c @ [req]" "\<not> go"
      | req where "http_parse_request (pending c) = (HTTP_PARSE_OK, req)" "cn_requests c1 = cn_requests c @ [req]" "go"
          "pending c1 = drop (rq_message_len req) (pending c)" using s(4) by blast
    then show ?thesis
    proof cases
      case 1
      then show ?thesis using s False by (intro exI [of _ c1] exI [of _ 0]) simp
    next
      case 2
      then show ?thesis using s False by (intro exI [of _ c1] exI [of _ "Suc 0"]) simp
    next
      case 3
      have "unat (db_max (cn_buf c1)) \<le> 2 ^ 62" using s(3) Suc.prems(2) by simp
      from Suc.IH [OF s(2) this, of "n + 1"]
      obtain c' k where ih: "connection_loop m sv envs ip (n + 1) c1 = Inr c'" "dynbuf_inv (cn_buf c')"
          "db_max (cn_buf c') = db_max (cn_buf c1)" "k \<le> m" "length (requests_of k (pending c1)) = k"
          "cn_requests c' = cn_requests c1 @ requests_of k (pending c1)" by blast
      show ?thesis using ih s(1,3) False 3 by (intro exI [of _ c'] exI [of _ "Suc k"]) simp
    qed
  qed
qed (auto intro: exI [of _ 0])



section \<open>Requests are isolated from each other\<close>

text \<open>What a handler is relied on for: the database calls keep the session well formed (\<open>db_calls_ok\<close>), the
  response is built by the functions of \<open>response.c\<close>, and the tokens and the settings of the response head
  are not within its reach.\<close>

definition handler_ok :: "'c Handler \<Rightarrow> bool" where
  "handler_ok h \<longleftrightarrow>
     (\<forall>params cap th esc rc th'. h params cap th = (esc, rc, th') \<longrightarrow>
        (session_ok th \<longrightarrow> session_ok th') \<and> g_escape th' = g_escape th \<and>
        auth_reset (th_auth th') = auth_reset (th_auth th) \<and>
        (response_reach (th_resp th) \<longrightarrow> response_reach (th_resp th')) \<and> th_wire th' = th_wire th)"

definition routes_ok :: "'c Handler Route list \<Rightarrow> bool" where
  "routes_ok table \<longleftrightarrow> (\<forall>r \<in> set table. CR \<notin> set (r_content_type r) \<and> (\<forall>h. r_handler r = Some h \<longrightarrow> handler_ok h))"

text \<open>A thread between two requests, and the state in which the handler of a request is entered.\<close>

definition ready :: "'c Thread \<Rightarrow> bool" where
  "ready th \<longleftrightarrow> idle th \<and> th_request th = None \<and> \<not> th_bound th \<and> ar_head (th_arena th) = [] \<and> ar_used (th_arena th) = 0"

definition entered :: "Auth \<Rightarrow> HttpRequest \<Rightarrow> 'c Thread \<Rightarrow> bool" where
  "entered a0 req th \<longleftrightarrow>
     idle th \<and> fresh (se_fail th) \<and> rs_headers (th_resp th) = [] \<and> rs_status (th_resp th) = 0 \<and>
     th_auth th = auth_bind (Some req) a0 \<and> th_request th = Some req \<and> th_bound th \<and>
     (\<exists>env a want. ar_head a = [] \<and> ar_used a = 0 \<and> th_arena th = snd (arena_alloc env a want))"

named_theorems serving

lemma served_fields [serving]: "sr_thread (served r status th) = th" "sr_entry (served r status th) = None"
  by (simp_all add: served_def split: prod.split)

lemma respond_fields [serving]:
  "sr_thread (respond sv keep evs status ct body th) = th" "sr_entry (respond sv keep evs status ct body th) = None"
  by (simp_all add: respond_def serving)

lemma handler_error_fields [serving]:
  "sr_thread (serve_handler_error sv rc keep evs th) = th" "sr_entry (serve_handler_error sv rc keep evs th) = None"
  by (simp_all add: serve_handler_error_def serving)

lemma missing_route_fields [serving]:
  "sr_thread (serve_missing_route sv req params n keep evs th) = th" "sr_entry (serve_missing_route sv req params n keep evs th) = None"
  by (simp_all add: serve_missing_route_def serving Let_def)

lemma session_frame [serving]:
  fixes th :: "'c Thread"
  shows "session_ok (th\<lparr>th_auth := a\<rparr>) = session_ok th" "session_ok (th\<lparr>th_resp := rs\<rparr>) = session_ok th"
    "session_ok (th\<lparr>th_wire := w\<rparr>) = session_ok th" "session_ok (th\<lparr>th_route := rt\<rparr>) = session_ok th"
    "session_ok (th\<lparr>th_request := rq\<rparr>) = session_ok th" "session_ok (th\<lparr>th_arena := ar\<rparr>) = session_ok th"
    "session_ok (th\<lparr>th_bound := bd\<rparr>) = session_ok th" "session_ok (th\<lparr>th_body := x\<rparr>) = session_ok th"
    "session_ok (th\<lparr>th_out := x\<rparr>) = session_ok th" "session_ok (th\<lparr>se_fail := f\<rparr>) = session_ok th"
    "session_ok (th\<lparr>g_escape := e\<rparr>) = session_ok th"
  by (simp_all add: session_ok_def)

lemma auth_reset_twice [serving]: "auth_reset (auth_reset a) = auth_reset a" "auth_reset (auth_bind req a) = auth_reset a"
  by (simp_all add: auth_reset_def auth_bind_def Let_def split: option.split)

lemma auth_bind_reset: "auth_bind req (auth_reset a) = auth_bind req a"
  by (simp add: auth_bind_def serving)

lemma route_find_member:
  assumes "route_find table meth url p = (Some r, p')"
  shows "r \<in> set table"
proof -
  have "r \<in> set table" if "route_spec table m url = Some r" for m using route_spec_Some(1) [OF that] .
  then show ?thesis using assms unfolding route_find_refines route_find_spec_def
    by (auto simp: Let_def split: option.splits if_splits)
qed

lemma prepare_handler_fields:
  assumes "prepare_handler env req th = (ok, cap, th1)" "idle th"
  shows "idle th1" "th_auth th1 = th_auth th" "th_resp th1 = th_resp th" "th_wire th1 = th_wire th" "th_request th1 = Some req"
    "th_bound th1" "0 < cap" "ok \<Longrightarrow> fresh (se_fail th1)"
  using assms fresh_reset
  by (auto simp: prepare_handler_def Let_def idle_def session_ok_def split: prod.splits if_splits)

lemma prepare_handler_arena:
  assumes "prepare_handler env req th = (ok, cap, th1)"
  shows "\<exists>e want. th_arena th1 = snd (arena_alloc e (th_arena th) want)"
proof -
  have "th_arena th1 = snd (arena_alloc (ev_body_chunk env) (th_arena th) (of_nat cap))"
    using assms by (auto simp: prepare_handler_def Let_def split: prod.splits if_splits)
  then show ?thesis by blast
qed

lemma openapi_fields:
  assumes "openapi_needs_auth sv path th = (denied, th1)"
  shows "idle th1 = idle th" "th_auth th1 = th_auth th" "th_wire th1 = th_wire th" "th_request th1 = th_request th"
    "th_bound th1 = th_bound th" "th_arena th1 = th_arena th" "\<not> denied \<Longrightarrow> se_fail th1 = se_fail th \<and> th_resp th1 = th_resp th"
  using assms
  by (auto simp: openapi_needs_auth_def idle_def session_ok_def auth_gate_def split: prod.splits if_splits)

definition same_extras :: "'c Thread \<Rightarrow> 'c Thread \<Rightarrow> bool" where
  "same_extras x y \<longleftrightarrow> th_auth x = th_auth y \<and> th_resp x = th_resp y \<and> th_wire x = th_wire y"

lemma db_failure_extras: "same_extras (db_failure api x) x"
  by (simp add: db_failure_def fail_with_def Let_def same_extras_def)

lemma run_control_extras: "same_extras (snd (run_control_statement api sql x)) x"
  using db_failure_extras [of api x] db_failure_extras [of api "x\<lparr>g_db := d\<rparr>" for d]
  by (simp add: run_control_statement_def same_extras_def Let_def split: option.split prod.split)

lemma db_abort_all_extras: "same_extras (db_abort_all api x) x"
proof -
  obtain rc y where r: "run_control_statement api ''ROLLBACK'' x = (rc, y)" by fastforce
  have "same_extras y x" using run_control_extras [of api "''ROLLBACK''" x] r by simp
  then show ?thesis using r by (simp add: db_abort_all_def same_extras_def db_unlock_def Let_def)
qed

lemma dispatch_handler:
  fixes th :: "'c Thread" and api :: "('c, 's) Sqlite"
  assumes "handler_ok h" "idle th" "0 < cap" "dispatch_route api (Some (\<lambda>th. h params cap th)) cap th = (rc, th1)"
  shows "idle th1" "auth_reset (th_auth th1) = auth_reset (th_auth th)"
    "response_reach (th_resp th) \<Longrightarrow> response_reach (th_resp th1)" "th_wire th1 = th_wire th"
proof -
  obtain esc rc0 th0 where h: "h params cap (th\<lparr>g_escape := True\<rparr>) = (esc, rc0, th0)" by (metis prod_cases3)
  have ok: "session_ok (th\<lparr>g_escape := True\<rparr>)" using assms(2) by (simp add: idle_def serving)
  have k: "session_ok th0" "auth_reset (th_auth th0) = auth_reset (th_auth th)" "th_wire th0 = th_wire th"
      "response_reach (th_resp th) \<Longrightarrow> response_reach (th_resp th0)"
    using assms(1) h ok unfolding handler_ok_def by fastforce+
  show "idle th1" using dispatch_idle [OF assms(2,3) h k(1) assms(4)] by blast
  define th2 where "th2 = th0\<lparr>g_escape := False\<rparr>"
  have e: "\<not> g_escape th" using assms(2) by (simp add: idle_def)
  have ab: "th_auth (db_abort_all api th2) = th_auth th0" "th_resp (db_abort_all api th2) = th_resp th0"
      "th_wire (db_abort_all api th2) = th_wire th0"
    using db_abort_all_extras [of api th2] by (simp_all add: same_extras_def th2_def)
  have "th1 = (if db_depth th2 > 0 then (let a = db_abort_all api th2 in if request_failed (se_fail a) then a
      else a\<lparr>se_fail := request_fail 500 (Some ''unfinished transaction rolled back'') (se_fail a)\<rparr>) else th2)"
    using assms(3,4) e h unfolding th2_def by (auto simp: dispatch_route_def Let_def)
  then have "th_auth th1 = th_auth th0 \<and> th_resp th1 = th_resp th0 \<and> th_wire th1 = th_wire th0"
    using ab by (auto simp: Let_def th2_def)
  then show "auth_reset (th_auth th1) = auth_reset (th_auth th)"
    "response_reach (th_resp th) \<Longrightarrow> response_reach (th_resp th1)" "th_wire th1 = th_wire th" using k by simp_all
qed

text \<open>The branches of \<open>serve_route\<close>: an answer without a handler, or the handler's.\<close>

lemma serve_route_cases:
  fixes th :: "'c Thread"
  assumes "serve_route sv env req path query keep evs route params th = r"
  obtains (answered) status message th1 where "r = respond sv keep evs status JSON_CONTENT_TYPE message th1"
      "idle th \<Longrightarrow> idle th1" "th_auth th1 = th_auth th" "\<exists>a. th_wire th1 = (th_wire th)\<lparr>response_allow := a\<rparr> \<and> a \<in> {[], response_allow (th_wire th)}"
      "response_reach (th_resp th) \<Longrightarrow> response_reach (th_resp th1)"
    | (handled) params1 cap th2 rc th3 where
      "r = (if request_failed (se_fail th3) \<or> rc \<noteq> 0 then serve_handler_error sv rc keep evs th3
            else respond sv keep evs (response_status_get (r_status route) (th_resp th3)) (r_content_type route) (th_out th3) th3)
             \<lparr>sr_entry := Some th2\<rparr>"
      "dispatch_route (sv_api sv) (map_option (\<lambda>h. h params1 cap) (r_handler route)) cap th2 = (rc, th3)"
      "0 < cap \<or> \<not> idle th" "idle th \<Longrightarrow> idle th2" "th_auth th2 = th_auth th" "th_resp th2 = th_resp th"
      "\<exists>a. th_wire th2 = (th_wire th)\<lparr>response_allow := a\<rparr> \<and> a \<in> {[], response_allow (th_wire th)}"
      "idle th \<Longrightarrow> th_request th2 = Some req \<and> th_bound th2 \<and> fresh (se_fail th2)"
      "\<exists>e want. th_arena th2 = snd (arena_alloc e (th_arena th) want)"
proof -
  define t0 where "t0 = (if rq_method req \<noteq> ''OPTIONS'' then th\<lparr>th_wire := (th_wire th)\<lparr>response_allow := []\<rparr>\<rparr> else th)"
  have t0: "idle t0 = idle th" "th_auth t0 = th_auth th" "th_resp t0 = th_resp th" "th_arena t0 = th_arena th"
    by (simp_all add: t0_def idle_def session_ok_def)
  have "th_wire t0 = (th_wire th)\<lparr>response_allow := (if rq_method req \<noteq> ''OPTIONS'' then [] else response_allow (th_wire th))\<rparr>"
    by (simp add: t0_def)
  then have t0w: "\<exists>a. th_wire t0 = (th_wire th)\<lparr>response_allow := a\<rparr> \<and> a \<in> {[], response_allow (th_wire th)}"
    by (intro exI [of _ "if rq_method req \<noteq> ''OPTIONS'' then [] else response_allow (th_wire th)"]) simp
  obtain bad params1 where q: "query_parse params query = (bad, params1)" by fastforce
  obtain ok cap th1 where pr: "prepare_handler env req t0 = (ok, cap, th1)" by (metis prod_cases3)
  obtain denied th2 where oa: "openapi_needs_auth sv path th1 = (denied, th2)" by fastforce
  obtain rc th3 where di: "dispatch_route (sv_api sv) (map_option (\<lambda>h. h params1 cap) (r_handler route)) cap th2 = (rc, th3)"
    by fastforce
  have extras: "th_auth th1 = th_auth th" "th_resp th1 = th_resp th" "th_wire th1 = th_wire t0"
    using pr t0 by (auto simp: prepare_handler_def Let_def split: prod.splits if_splits)
  note op = openapi_fields [OF oa]
  consider "bad \<noteq> 0" | "bad = 0" "\<not> ok" | "bad = 0" ok denied | "bad = 0" ok "\<not> denied" by blast
  then show thesis
  proof cases
    case 1
    then have "r = respond sv keep evs 400 JSON_CONTENT_TYPE ''bad query'' t0"
      using assms q by (simp add: serve_route_def t0_def Let_def)
    then show thesis using t0 t0w by (intro answered [of 400 "''bad query''" t0]) simp_all
  next
    case 2
    then have "r = respond sv keep evs 503 JSON_CONTENT_TYPE ''out of memory'' th1"
      using assms q pr by (simp add: serve_route_def t0_def [symmetric])
    then show thesis using t0 t0w extras prepare_handler_fields(1) [OF pr]
      by (intro answered [of 503 "''out of memory''" th1]) simp_all
  next
    case 3
    then have "r = respond sv keep evs 401 JSON_CONTENT_TYPE ''authentication required'' th2"
      using assms q pr oa by (simp add: serve_route_def t0_def [symmetric])
    moreover have "response_reach (th_resp th1) \<Longrightarrow> response_reach (th_resp th2)"
      using oa by (auto simp: openapi_needs_auth_def auth_gate_def reach_header split: prod.splits if_splits option.splits)
    ultimately show thesis using t0 t0w extras op(1-3) prepare_handler_fields(1) [OF pr]
      by (intro answered [of 401 "''authentication required''" th2]) simp_all
  next
    case 4
    have eq: "r = (if request_failed (se_fail th3) \<or> rc \<noteq> 0 then serve_handler_error sv rc keep evs th3
        else respond sv keep evs (response_status_get (r_status route) (th_resp th3)) (r_content_type route) (th_out th3) th3)
          \<lparr>sr_entry := Some th2\<rparr>"
      using assms q pr oa di 4 by (simp add: serve_route_def t0_def [symmetric])
    have idle_pos: "0 < cap \<or> \<not> idle th" "idle th \<Longrightarrow> idle th2" "idle th \<Longrightarrow> th_request th2 = Some req \<and> th_bound th2 \<and> fresh (se_fail th2)"
      using t0 op 4 prepare_handler_fields [OF pr] by auto
    show thesis
      by (rule handled [OF eq di idle_pos(1)]) (use idle_pos t0 t0w extras op 4 prepare_handler_arena [OF pr] in simp_all)
  qed
qed

lemma serve_route_frame:
  fixes th :: "'c Thread"
  assumes "serve_route sv env req path query keep evs route params th = r" "idle th"
    and "\<And>h. r_handler route = Some h \<Longrightarrow> handler_ok h"
  shows "idle (sr_thread r)" "auth_reset (th_auth (sr_thread r)) = auth_reset (th_auth th)"
    "sr_entry r = Some th' \<Longrightarrow> idle th' \<and> fresh (se_fail th') \<and> th_resp th' = th_resp th \<and> th_auth th' = th_auth th \<and>
       th_request th' = Some req \<and> th_bound th' \<and> (\<exists>e want. th_arena th' = snd (arena_alloc e (th_arena th) want))"
proof -
  have "idle (sr_thread r) \<and> auth_reset (th_auth (sr_thread r)) = auth_reset (th_auth th) \<and>
    (sr_entry r = Some th' \<longrightarrow> idle th' \<and> fresh (se_fail th') \<and> th_resp th' = th_resp th \<and> th_auth th' = th_auth th \<and>
       th_request th' = Some req \<and> th_bound th' \<and> (\<exists>e want. th_arena th' = snd (arena_alloc e (th_arena th) want)))"
  using assms(1)
  proof (cases rule: serve_route_cases)
    case (answered status message th1)
    then show ?thesis using assms(2) by (simp add: serving)
  next
    case (handled params1 cap th2 rc th3)
    have fields: "sr_thread r = th3" "sr_entry r = Some th2" using handled(1) by (simp_all add: serving)
    have "idle th3 \<and> auth_reset (th_auth th3) = auth_reset (th_auth th2)"
    proof (cases "r_handler route")
      case None
      then show ?thesis using handled(2,4) assms(2) by (simp add: dispatch_route_def)
    next
      case (Some h)
      then have d: "dispatch_route (sv_api sv) (Some (\<lambda>th. h params1 cap th)) cap th2 = (rc, th3)" using handled(2) by simp
      have "0 < cap" "idle th2" using handled(3,4) assms(2) by simp_all
      from dispatch_handler(1,2) [OF assms(3) [OF Some] this(2,1) d] show ?thesis by blast
    qed
    then show ?thesis using fields handled(4-9) assms(2) by auto
  qed
  then show "idle (sr_thread r)" "auth_reset (th_auth (sr_thread r)) = auth_reset (th_auth th)"
    "sr_entry r = Some th' \<Longrightarrow> idle th' \<and> fresh (se_fail th') \<and> th_resp th' = th_resp th \<and> th_auth th' = th_auth th \<and>
       th_request th' = Some req \<and> th_bound th' \<and> (\<exists>e want. th_arena th' = snd (arena_alloc e (th_arena th) want))"
    by blast+
qed

lemma db_ready_idle:
  assumes "db_ready busy_ms tries s = (b, s')" "idle s"
  shows "idle s'"
proof -
  obtain rc s1 where l: "db_lock busy_ms tries s = (rc, s1)" by fastforce
  have ok: "session_ok s" "t_depth s = 0" "\<not> g_escape s" using assms(2) by (simp_all add: idle_def)
  show ?thesis
    using db_lock_outcome [OF l ok(1)] db_ready_ok [OF ok(1) assms(1)] assms(1) l ok
    by (auto simp: db_ready_def idle_def db_frame split: if_splits)
qed

lemma resolve_route_fields:
  assumes "resolve_route sv req path th = (route, params, n, th1)"
  shows "idle th1 = idle th" "th_auth th1 = th_auth th" "th_resp th1 = th_resp th" "th_arena th1 = th_arena th"
    "route = Some rt \<Longrightarrow> rt \<in> set (sv_routes sv)"
    "th_wire th1 = (th_wire th)\<lparr>response_allow := response_allow (th_wire th1)\<rparr>"
    "response_allow (th_wire th1) \<in> {response_allow (th_wire th), snd (route_allow (sv_routes sv) path ROUTE_ALLOW_CAP)}"
  using assms
  by (auto simp: resolve_route_def Let_def idle_def session_ok_def split: prod.splits if_splits option.splits
      dest: route_find_member)

lemma serve_static_fields:
  assumes "serve_static sv env req path keep evs th = (answer, th1)"
  shows "answer = Some r \<Longrightarrow> sr_thread r = th1 \<and> sr_entry r = None" "idle th1 = idle th" "th_auth th1 = th_auth th"
    "th_resp th1 = th_resp th"
  using assms
  by (auto simp: serve_static_def Let_def idle_def session_ok_def serving split: prod.splits if_splits option.splits)

lemma serve_request_frame:
  assumes "routes_ok (sv_routes sv)" "idle th" "serve_request sv env req path query keep evs th = r"
  shows "idle (sr_thread r) \<and> auth_reset (th_auth (sr_thread r)) = auth_reset (th_auth th) \<and>
    (\<forall>th'. sr_entry r = Some th' \<longrightarrow>
      idle th' \<and> fresh (se_fail th') \<and> th_resp th' = th_resp th \<and> th_auth th' = th_auth th \<and>
      th_request th' = Some req \<and> th_bound th' \<and> (\<exists>e want. th_arena th' = snd (arena_alloc e (th_arena th) want)))"
proof (cases "is_health_path path")
  case True
  obtain up th1 where h: "health_ready sv env req path th = (up, th1)" by fastforce
  obtain rc status w out where sh: "serve_health (sv_getenv sv) (sv_entries sv) (th_resp th1) (se_fail th1) (ev_stop_health env) up
      req path keep evs (th_wire th1) = (rc, status, w, out)" by (metis prod_cases4)
  have "idle th1 \<and> th_auth th1 = th_auth th"
  proof (cases "(rq_method req = ''GET'' \<or> rq_method req = ''HEAD'') \<and> path \<noteq> ''/health/live'' \<and> \<not> ev_stop_health env")
    case True
    then have d: "db_ready (sv_busy_ms sv) (ev_tries env) th = (up, th1)" using h by (simp add: health_ready_def)
    have "lock_loop m tr x = (rc, y) \<Longrightarrow> th_auth y = th_auth x" for m tr rc and x y :: "'a Thread"
      by (induction m tr x rule: lock_loop.induct) (auto simp: fail_with_def split: if_splits)
    then have "th_auth th1 = th_auth th"
      using d by (auto simp: db_ready_def db_lock_def db_unlock_def split: prod.splits option.splits if_splits)
    then show ?thesis using db_ready_idle [OF d assms(2)] by simp
  next
    case False
    then show ?thesis using h assms(2) by (auto simp: health_ready_def)
  qed
  then show ?thesis using assms(3) True h sh by (auto simp: serve_request_def serving idle_def)
next
  case False
  obtain route params n th1 where rr: "resolve_route sv req path th = (route, params, n, th1)" by (metis prod_cases4)
  note rf = resolve_route_fields [OF rr]
  obtain rc handled status w out where pf: "serve_preflight (sv_getenv sv) (sv_entries sv) (th_resp th1) (se_fail th1) req keep evs
      (th_wire th1) = (rc, handled, status, w, out)" by (metis prod_cases5)
  define th2 where "th2 = th1\<lparr>th_wire := w\<rparr>"
  have th2: "idle th2" "th_auth th2 = th_auth th" "th_resp th2 = th_resp th" "th_arena th2 = th_arena th"
    using rf(1-4) assms(2) by (simp_all add: th2_def idle_def serving)
  show ?thesis
  proof (cases handled)
    case True
    then have "r = served (rc, out, []) status th2"
      using assms(3) False rr pf by (simp add: serve_request_def th2_def Let_def)
    then show ?thesis using th2 by (simp add: serving)
  next
    case unhandled: False
    show ?thesis
    proof (cases route)
      case None
      obtain answer th3 where st: "serve_static sv env req path keep evs th2 = (answer, th3)" by fastforce
      have "r = (case answer of Some a \<Rightarrow> a | None \<Rightarrow> serve_missing_route sv req params n keep evs th3)"
        using assms(3) False rr pf unhandled None st by (simp add: serve_request_def th2_def [symmetric] Let_def split: option.split)
      then show ?thesis using serve_static_fields [OF st] th2 by (cases answer) (simp_all add: serving)
    next
      case (Some rt)
      have eq: "serve_route sv env req path query keep evs rt params th2 = r"
        using assms(3) False rr pf unhandled Some by (simp add: serve_request_def th2_def [symmetric] Let_def)
      have ok: "handler_ok h" if "r_handler rt = Some h" for h
        using assms(1) rf(5) [OF Some] that by (auto simp: routes_ok_def)
      show ?thesis
        using serve_route_frame(1,2) [OF eq th2(1) ok] serve_route_frame(3) [OF eq th2(1) ok] th2(2-4) by simp
    qed
  qed
qed

lemma finish_request_ready:
  assumes "idle th"
  shows "ready (finish_request sv th)" "auth_reset (th_auth (finish_request sv th)) = auth_reset (th_auth th)"
proof -
  define th1 where "th1 = db_abort_all (sv_api sv) th"
  have "session_ok th" "\<not> g_escape th" using assms by (simp_all add: idle_def)
  note ab = db_abort_all_ok [OF this(1), of "sv_api sv", folded th1_def]
  have auth: "th_auth th1 = th_auth th"
    using db_abort_all_extras [of "sv_api sv" th] by (simp add: same_extras_def th1_def)
  obtain rc a calls where ar: "arena_reset (th_arena th1) = (rc, a, calls)" by (metis prod_cases3)
  then have "ar_head a = []" "ar_used a = 0" by (auto simp: arena_reset_def split: prod.splits)
  moreover have "finish_request sv th = th1\<lparr>th_auth := auth_reset (th_auth th1), se_fail := request_fail_reset (se_fail th1),
      th_request := None, th_bound := False, th_arena := a\<rparr>"
    using ar by (simp add: finish_request_def transaction_abort_if_open_def th1_def [symmetric] Let_def)
  ultimately show "ready (finish_request sv th)" "auth_reset (th_auth (finish_request sv th)) = auth_reset (th_auth th)"
    using ab auth \<open>\<not> g_escape th\<close> by (simp_all add: ready_def idle_def serving)
qed

lemma finish_round_isolated:
  assumes "routes_ok (sv_routes sv)" "finish_round sv env n req path query evs c = Inr (go, c')"
    and "idle (cn_thread c)" "rs_headers (th_resp (cn_thread c)) = []" "rs_status (th_resp (cn_thread c)) = 0"
    and "th_auth (cn_thread c) = auth_bind (Some req) a0" "ar_head (th_arena (cn_thread c)) = []" "ar_used (th_arena (cn_thread c)) = 0"
  shows "ready (cn_thread c')" "auth_reset (th_auth (cn_thread c')) = auth_reset a0" "cn_requests c' = cn_requests c"
    "set (cn_entries c') \<subseteq> set (cn_entries c) \<union> {(req, th) | th. entered a0 req th}"
proof -
  define th where "th = (cn_thread c)\<lparr>th_body := body_of req (cn_buf c)\<rparr>"
  have th: "idle th" "th_auth th = auth_bind (Some req) a0" "rs_headers (th_resp th) = []" "rs_status (th_resp th) = 0"
      "ar_head (th_arena th) = []" "ar_used (th_arena th) = 0"
    using assms(3-8) by (simp_all add: th_def idle_def serving)
  obtain r where r: "serve_request sv env req path query (keep_alive_wanted (ev_stop env) req n) evs th = r" by blast
  note fr = serve_request_frame [OF assms(1) th(1) r]
  have c': "cn_thread c' = finish_request sv (sr_thread r)" "cn_requests c' = cn_requests c"
      "cn_entries c' = cn_entries c @ (case sr_entry r of None \<Rightarrow> [] | Some th \<Rightarrow> [(req, th)])"
    using assms(2) r
    by (auto simp: finish_round_def th_def [symmetric] Let_def ebind_Inr_iff split: if_splits prod.splits)
  show "cn_requests c' = cn_requests c" using c'(2) .
  show "ready (cn_thread c')" using finish_request_ready(1) [of "sr_thread r" sv] fr c'(1) by simp
  show "auth_reset (th_auth (cn_thread c')) = auth_reset a0"
    using finish_request_ready(2) [of "sr_thread r" sv] fr c'(1) th(2) by (simp add: serving)
  have "entered a0 req th'" if "sr_entry r = Some th'" for th'
    using fr that th(2-6) unfolding entered_def by metis
  then show "set (cn_entries c') \<subseteq> set (cn_entries c) \<union> {(req, th) | th. entered a0 req th}"
    unfolding c'(3) by (cases "sr_entry r") auto
qed

definition isolated :: "Auth \<Rightarrow> 'c Conn \<Rightarrow> bool" where
  "isolated a0 c \<longleftrightarrow> (\<forall>(req, th) \<in> set (cn_entries c). req \<in> set (cn_requests c) \<and> entered a0 req th)"

lemma serve_one_isolated:
  assumes "routes_ok (sv_routes sv)" "serve_one sv env ip n c = Inr (go, c')"
    and "ready (cn_thread c)" "auth_reset (th_auth (cn_thread c)) = a0" "isolated a0 c"
  shows "isolated a0 c' \<and> (go \<longrightarrow> ready (cn_thread c') \<and> auth_reset (th_auth (cn_thread c')) = a0)"
proof -
  obtain r where r: "read_request (ev_alloc env) (cn_buf c) http_request_zero (cn_recv c) (ev_send env) = Inr r"
    using assms(2) by (auto simp: serve_one_def ebind_Inr_iff)
  have a0: "auth_reset a0 = a0" using assms(4) auth_reset_twice(1) by metis
  show ?thesis
  proof (cases "ro_rc r = 1")
    case False
    then show ?thesis using assms(2,5) r by (auto simp: serve_one_def Let_def isolated_def)
  next
    case True
    let ?req = "ro_req r"
    obtain limited clients where lim:
        "client_limit (sv_connections sv) (sv_requests sv) (ev_clock env) ip 0 (ev_others env (cn_clients c)) = (limited, clients)"
      by fastforce
    consider "limited \<noteq> 0" | "limited = 0" "split_path (snprintf_s HTTP_MAX_PATH (rq_path ?req)) = None"
      | "limited = 0" "split_path (snprintf_s HTTP_MAX_PATH (rq_path ?req)) \<noteq> None" by blast
    then show ?thesis
    proof cases
      case 1
      then show ?thesis using assms(2,5) r True lim by (auto simp: serve_one_def Let_def isolated_def)
    next
      case 2
      then show ?thesis using assms(2,5) r True lim by (auto simp: serve_one_def Let_def isolated_def)
    next
      case 3
      then obtain path query where sp: "split_path (snprintf_s HTTP_MAX_PATH (rq_path ?req)) = Some (path, query)" by auto
      obtain c2 where c2: "finish_round sv env n ?req path query (ro_send r) c2 = Inr (go, c')"
          "cn_requests c2 = cn_requests c @ [?req]" "cn_entries c2 = cn_entries c"
          "idle (cn_thread c2)" "rs_headers (th_resp (cn_thread c2)) = []" "rs_status (th_resp (cn_thread c2)) = 0"
          "th_auth (cn_thread c2) = auth_bind (Some ?req) a0" "ar_head (th_arena (cn_thread c2)) = []" "ar_used (th_arena (cn_thread c2)) = 0"
        using assms(2-4) r True lim 3 sp
        by (simp add: serve_one_def Let_def reset_response_state_def ready_def idle_def serving response_reset_def auth_bind_reset)
      note fi = finish_round_isolated [OF assms(1) c2(1,4-9)]
      have "isolated a0 c'" using fi(3,4) c2(2,3) assms(5) by (fastforce simp: isolated_def)
      then show ?thesis using fi(1,2) a0 by simp
    qed
  qed
qed

lemma connection_loop_isolated:
  assumes "routes_ok (sv_routes sv)" "connection_loop m sv envs ip n c = Inr c'"
    and "ready (cn_thread c)" "auth_reset (th_auth (cn_thread c)) = a0" "isolated a0 c"
  shows "isolated a0 c'"
  using assms(2-5)
proof (induction m arbitrary: n c)
  case (Suc m)
  show ?case
  proof (cases "ev_drain_before (envs n)")
    case True
    then show ?thesis using Suc.prems by simp
  next
    case False
    then obtain go c1 where s: "serve_one sv (envs n) ip n c = Inr (go, c1)"
        "(if go then connection_loop m sv envs ip (n + 1) c1 else Inr c1) = Inr c'"
      using Suc.prems(1) by (auto simp: ebind_Inr_iff)
    note iso = serve_one_isolated [OF assms(1) s(1) Suc.prems(2-4)]
    show ?thesis using iso s(2) Suc.IH [of "n + 1" c1] by (cases go) auto
  qed
qed simp



end
