(* ===== verification/Serve_Framing.thy ===== *)
theory Serve_Framing
  imports Serve
begin

text \<open>
  What a connection sends. Each answer of \<open>serve_request\<close> (a static file, an error document, a health
  answer, a preflight, a handler's text) goes through \<open>send_bytes\<close>; the settings it is assembled from are
  shown to hold no carriage return whatever the request says, so that every answer is one message.
\<close>

section \<open>The settings of the response head\<close>

definition framed :: "bool \<Rightarrow> int \<Rightarrow> string \<Rightarrow> bool" where
  "framed keep rc out \<longleftrightarrow>
     (out = [] \<and> rc = - 1) \<or>
     (\<exists>head content t. head @ content = out @ t \<and> header_end (head @ content) = Some (length head) \<and>
        (rc = 0 \<longleftrightarrow> t = [] \<and> keep))"

lemma value_no_CR: "response_value (Some v) \<Longrightarrow> CR \<notin> set v"
  by (auto simp: response_value_iff value_char_def byte_def)

lemma single_value_no_CR: "header_single_value req name cap = (1, v) \<Longrightarrow> CR \<notin> set v"
  by (auto simp: header_single_value_one only_header_def dest: value_no_CR)

lemma cors_prepare_safe: "wire_safe w \<Longrightarrow> wire_safe (cors_prepare getenv es req w)"
  using single_value_no_CR [of req "''Origin''" RESPONSE_VALUE_CAP]
  by (auto simp: cors_prepare_def wire_safe_def Let_def split: prod.split)

lemma cors_preflight_safe:
  assumes "wire_safe w" "cors_preflight getenv es req allow w = (status, w')"
  shows "wire_safe w'"
proof -
  obtain m meth where m: "header_single_value req ''Access-Control-Request-Method'' HTTP_MAX_METHOD = (m, meth)" by fastforce
  obtain h requested where h: "header_single_value req ''Access-Control-Request-Headers'' RESPONSE_VALUE_CAP = (h, requested)"
    by fastforce
  have "h = 1 \<Longrightarrow> CR \<notin> set requested" using single_value_no_CR h by metis
  then show ?thesis
    using assms m h by (auto simp: cors_preflight_def wire_safe_def Let_def split: if_splits)
qed

lemma allow_loop_no_CR:
  assumes "CR \<notin> set out" "\<forall>m \<in> set ms. CR \<notin> set m"
  shows "CR \<notin> set (snd (allow_loop table url cap ms out found invalid))"
  using assms
proof (induction ms arbitrary: out found invalid)
  case (Cons m ms)
  obtain route params where rf: "route_find table m url no_params = (route, params)" by fastforce
  let ?inv = "if route = None then invalid \<or> pr_invalid params else invalid"
  let ?sep = "if length out > 0 then '', '' else []"
  have "allow_loop table url cap (m # ms) out found invalid =
      (if route = None \<and> \<not> (m = ''OPTIONS'' \<and> found) then allow_loop table url cap ms out found ?inv
       else if length out + length ?sep + length m \<ge> cap then (- 1, [])
       else allow_loop table url cap ms (out @ ?sep @ m) True ?inv)"
    by (simp only: allow_loop.simps rf prod.case Let_def)
  moreover have "CR \<notin> set (out @ ?sep @ m)" "\<forall>m \<in> set ms. CR \<notin> set m" using Cons.prems by simp_all
  ultimately show ?case using Cons.IH Cons.prems(1) by simp
qed simp

lemma route_allow_no_CR: "CR \<notin> set (snd (route_allow table url cap))"
proof -
  have "\<forall>m \<in> set allow_methods. CR \<notin> set m" by (simp add: allow_methods_def)
  from allow_loop_no_CR [OF _ this, of "[]" table url cap False False] show ?thesis unfolding route_allow_def by simp
qed

lemma content_type_for_no_CR: "CR \<notin> set (content_type_for path)"
proof -
  have "\<forall>e \<in> set content_types. CR \<notin> set (snd e)" by (simp add: content_types_def)
  then show ?thesis
    unfolding content_type_for_def by (auto simp: find_Some_iff split: option.split dest!: nth_mem)
qed

lemma JSON_CONTENT_TYPE_no_CR: "CR \<notin> set JSON_CONTENT_TYPE"
  by (simp add: JSON_CONTENT_TYPE_def)

section \<open>Every answer is one message\<close>

lemma send_bytes_one_message:
  assumes "response_reach rs" "wire_safe w" "CR \<notin> set content_type" "blen \<le> length body"
    "send_bytes getenv es w rs status content_type body blen keep evs = (rc, out, rest)"
  shows "framed keep rc out"
  using sent_bytes_framed [OF assms] unfolding framed_def by blast

lemma send_response_one_message:
  assumes "response_reach rs" "wire_safe w" "CR \<notin> set content_type"
    "send_response getenv es w rs st status content_type body keep evs = (rc, out, rest)"
  shows "framed keep rc out"
proof (cases "status \<ge> 400 \<and> fst (error_json_write st status (Some body) (replicate ERROR_CAP NUL)) \<noteq> 0")
  case True
  then show ?thesis using assms(4) by (simp add: send_response_def Let_def framed_def)
next
  case False
  let ?b = "if status \<ge> 400 then cstr (snd (error_json_write st status (Some body) (replicate ERROR_CAP NUL))) else body"
  let ?ct = "if status \<ge> 400 then JSON_CONTENT_TYPE else content_type"
  let ?n = "if status = 204 \<or> status = 205 \<or> status = 304 then 0 else length ?b"
  have s: "send_bytes getenv es w rs status ?ct ?b ?n keep evs = (rc, out, rest)"
    using assms(4) unfolding send_response_def Let_def if_not_P [OF False] .
  have "CR \<notin> set ?ct" "?n \<le> length ?b" using assms(3) JSON_CONTENT_TYPE_no_CR by simp_all
  from send_bytes_one_message [OF assms(1,2) this s] show ?thesis .
qed

lemma respond_one_message:
  assumes "response_reach (th_resp th)" "wire_safe (th_wire th)" "CR \<notin> set content_type"
    "respond sv keep evs status content_type body th = r"
  shows "framed keep (sr_rc r) (sr_sent r)"
proof -
  obtain rc out rest where s: "send_response (sv_getenv sv) (sv_entries sv) (th_wire th) (th_resp th) (se_fail th) status content_type
      body keep evs = (rc, out, rest)" by (metis prod_cases3)
  have "sr_rc r = rc" "sr_sent r = out" using assms(4) s by (auto simp: respond_def served_def)
  then show ?thesis using send_response_one_message [OF assms(1-3) s] by simp
qed

lemma handler_error_one_message:
  assumes "response_reach (th_resp th)" "wire_safe (th_wire th)" "serve_handler_error sv code keep evs th = r"
  shows "framed keep (sr_rc r) (sr_sent r)"
  using respond_one_message [OF assms(1,2) JSON_CONTENT_TYPE_no_CR] assms(3)
  by (auto simp: serve_handler_error_def split: if_splits)

lemma missing_route_one_message:
  assumes "response_reach (th_resp th)" "wire_safe (th_wire th)" "serve_missing_route sv req params n keep evs th = r"
  shows "framed keep (sr_rc r) (sr_sent r)"
  using respond_one_message [OF assms(1,2) JSON_CONTENT_TYPE_no_CR] assms(3)
  by (auto simp: serve_missing_route_def Let_def)

lemma health_one_message:
  assumes "response_reach rs" "wire_safe w" "serve_health getenv es rs st stop up req path keep evs w = (rc, status, w', out)"
  shows "framed keep rc out"
proof -
  have "wire_safe (w\<lparr>response_allow := ''GET, HEAD, OPTIONS''\<rparr>)" using assms(2) by (simp add: wire_safe_def)
  note one = send_response_one_message [OF assms(1) assms(2) JSON_CONTENT_TYPE_no_CR]
    send_response_one_message [OF assms(1) this JSON_CONTENT_TYPE_no_CR]
  show ?thesis using assms(3) one by (auto simp: serve_health_def Let_def split: if_splits prod.splits)
qed

lemma preflight_one_message:
  assumes "response_reach rs" "wire_safe w" "serve_preflight getenv es rs st req keep evs w = (rc, handled, status, w', out)"
  shows "wire_safe w'" "handled \<Longrightarrow> framed keep rc out"
proof -
  obtain v w1 where p: "cors_preflight getenv es req (response_allow w) w = (v, w1)" by fastforce
  have w1: "wire_safe w1" by (rule cors_preflight_safe [OF assms(2) p])
  let ?w2 = "if v \<noteq> 204 then w1\<lparr>response_origin := []\<rparr> else w1"
  have w2: "wire_safe ?w2" using w1 by (simp add: wire_safe_def)
  obtain rc2 out2 rest where s: "send_response getenv es ?w2 rs st v JSON_CONTENT_TYPE
      (if v = 204 then [] else ''preflight rejected'') keep evs = (rc2, out2, rest)" by (metis prod_cases3)
  have "wire_safe w' \<and> (handled \<longrightarrow> rc = rc2 \<and> out = out2)"
  proof (cases "rq_method req = ''OPTIONS'' \<and> v \<noteq> 0")
    case True
    then show ?thesis using assms(3) p s w2 unfolding serve_preflight_def Let_def by (auto split: if_splits)
  next
    case False
    then show ?thesis using assms(2,3) p w1 by (auto simp: serve_preflight_def split: if_splits)
  qed
  then show "wire_safe w'" "handled \<Longrightarrow> framed keep rc out"
    using send_response_one_message [OF assms(1) w2 JSON_CONTENT_TYPE_no_CR s] by simp_all
qed

lemma static_one_message:
  assumes "response_reach (th_resp th)" "wire_safe (th_wire th)" "serve_static sv env req path keep evs th = (answer, th1)"
  shows "answer = Some r \<Longrightarrow> framed keep (sr_rc r) (sr_sent r)" "response_reach (th_resp th1)" "wire_safe (th_wire th1)"
proof -
  show "response_reach (th_resp th1)" "wire_safe (th_wire th1)"
    using assms by (auto simp: serve_static_def Let_def wire_safe_def split: prod.splits if_splits option.splits)
  assume "answer = Some r"
  then obtain th2 bytes ct where a: "static_file_read (sv_fs sv) (sv_static sv) path STATIC_MAX_BYTES = Some (bytes, ct)"
      "r = served (send_bytes (sv_getenv sv) (sv_entries sv) (th_wire th2) (th_resp th2) 200 ct bytes (length bytes) keep evs) 200 th2"
      "th_wire th2 = (th_wire th)\<lparr>response_allow := []\<rparr>" "th_resp th2 = th_resp th"
    using assms(3) by (auto simp: serve_static_def Let_def split: prod.splits if_splits option.splits)
  have ct: "CR \<notin> set ct"
    using a(1) content_type_for_no_CR
    by (auto simp: static_file_read_def Let_def split: option.splits if_splits Node.splits)
  obtain rc out rest where s: "send_bytes (sv_getenv sv) (sv_entries sv) (th_wire th2) (th_resp th2) 200 ct bytes (length bytes) keep evs
      = (rc, out, rest)" by (metis prod_cases3)
  have "wire_safe (th_wire th2)" using assms(2) a(3) by (simp add: wire_safe_def)
  from send_bytes_one_message [OF _ this ct order.refl s] show "framed keep (sr_rc r) (sr_sent r)"
    using assms(1) a(2,4) s by (simp add: served_def)
qed

lemma wire_safe_allow:
  "wire_safe w \<Longrightarrow> w' = w\<lparr>response_allow := a\<rparr> \<Longrightarrow> CR \<notin> set a \<Longrightarrow> wire_safe w'"
  by (simp add: wire_safe_def)

lemma route_one_message:
  fixes th :: "'c Thread"
  assumes "serve_route sv env req path query keep evs route params th = r" "idle th"
    and "\<And>h. r_handler route = Some h \<Longrightarrow> handler_ok h" "CR \<notin> set (r_content_type route)"
    and "response_reach (th_resp th)" "wire_safe (th_wire th)"
  shows "framed keep (sr_rc r) (sr_sent r)"
proof -
  have allow: "CR \<notin> set a" if "a \<in> {[], response_allow (th_wire th)}" for a
    using that assms(6) by (auto simp: wire_safe_def)
  show ?thesis
    using assms(1)
  proof (cases rule: serve_route_cases)
    case (answered status message th1)
    obtain a where "th_wire th1 = (th_wire th)\<lparr>response_allow := a\<rparr>" "a \<in> {[], response_allow (th_wire th)}"
      using answered(4) by blast
    then have "wire_safe (th_wire th1)" using wire_safe_allow assms(6) allow by blast
    from respond_one_message [OF answered(5) [OF assms(5)] this JSON_CONTENT_TYPE_no_CR answered(1) [symmetric]]
    show ?thesis .
  next
    case (handled params1 cap th2 rc th3)
    obtain a where a: "th_wire th2 = (th_wire th)\<lparr>response_allow := a\<rparr>" "a \<in> {[], response_allow (th_wire th)}"
      using handled(7) by blast
    have w2: "wire_safe (th_wire th2)" using wire_safe_allow assms(6) allow a by blast
    have "response_reach (th_resp th3) \<and> th_wire th3 = th_wire th2"
    proof (cases "r_handler route")
      case None
      then show ?thesis using handled(2,6) assms(5) by (simp add: dispatch_route_def)
    next
      case (Some h)
      then have d: "dispatch_route (sv_api sv) (Some (\<lambda>th. h params1 cap th)) cap th2 = (rc, th3)" using handled(2) by simp
      have "0 < cap" "idle th2" using handled(3,4) assms(2) by simp_all
      from dispatch_handler(3,4) [OF assms(3) [OF Some] this(2,1) d] show ?thesis using handled(6) assms(5) by simp
    qed
    then have "response_reach (th_resp th3)" "wire_safe (th_wire th3)" using w2 by simp_all
    note one = handler_error_one_message [OF this refl] respond_one_message [OF this assms(4) refl]
    show ?thesis unfolding handled(1) using one by (cases "request_failed (se_fail th3) \<or> rc \<noteq> 0") simp_all
  qed
qed

lemma request_one_message:
  assumes "routes_ok (sv_routes sv)" "idle th" "response_reach (th_resp th)" "wire_safe (th_wire th)"
    and "serve_request sv env req path query keep evs th = r"
  shows "framed keep (sr_rc r) (sr_sent r)"
proof (cases "is_health_path path")
  case True
  obtain up th1 where h: "health_ready sv env req path th = (up, th1)" by fastforce
  have "lock_loop m tr x = (rc, y) \<Longrightarrow> th_resp y = th_resp x \<and> th_wire y = th_wire x" for m tr rc and x y :: "'a Thread"
    by (induction m tr x rule: lock_loop.induct) (auto simp: fail_with_def split: if_splits)
  then have same: "th_resp th1 = th_resp th" "th_wire th1 = th_wire th"
    using h by (auto simp: health_ready_def db_ready_def db_lock_def db_unlock_def split: prod.splits option.splits if_splits)
  obtain rc status w out where sh: "serve_health (sv_getenv sv) (sv_entries sv) (th_resp th1) (se_fail th1) (ev_stop_health env) up
      req path keep evs (th_wire th1) = (rc, status, w, out)" by (metis prod_cases4)
  have "sr_rc r = rc" "sr_sent r = out" using assms(5) True h sh by (auto simp: serve_request_def served_def)
  then show ?thesis using health_one_message [OF _ _ sh] assms(3,4) same by simp
next
  case False
  obtain route params n th1 where rr: "resolve_route sv req path th = (route, params, n, th1)" by (metis prod_cases4)
  note rf = resolve_route_fields [OF rr]
  have reach: "response_reach (th_resp th1)" using rf(3) assms(3) by simp
  have "CR \<notin> set (response_allow (th_wire th1))" using rf(7) assms(4) route_allow_no_CR [of "sv_routes sv" path ROUTE_ALLOW_CAP] by (auto simp: wire_safe_def)
  from wire_safe_allow [OF assms(4) rf(6) this] have safe: "wire_safe (th_wire th1)" .
  obtain rc handled status w out where pf: "serve_preflight (sv_getenv sv) (sv_entries sv) (th_resp th1) (se_fail th1) req keep evs
      (th_wire th1) = (rc, handled, status, w, out)" by (metis prod_cases5)
  note pre = preflight_one_message [OF reach safe pf]
  define th2 where "th2 = th1\<lparr>th_wire := w\<rparr>"
  have th2: "idle th2" "response_reach (th_resp th2)" "wire_safe (th_wire th2)"
    using rf(1) assms(2) reach pre(1) by (simp_all add: th2_def idle_def serving)
  show ?thesis
  proof (cases handled)
    case True
    then have "r = served (rc, out, []) status th2"
      using assms(5) False rr pf by (simp add: serve_request_def th2_def Let_def)
    then show ?thesis using pre(2) True by (simp add: served_def)
  next
    case unhandled: False
    show ?thesis
    proof (cases route)
      case None
      obtain answer th3 where st: "serve_static sv env req path keep evs th2 = (answer, th3)" by fastforce
      have "r = (case answer of Some a \<Rightarrow> a | None \<Rightarrow> serve_missing_route sv req params n keep evs th3)"
        using assms(5) False rr pf unhandled None st by (simp add: serve_request_def th2_def [symmetric] Let_def split: option.split)
      then show ?thesis
        using static_one_message [OF th2(2,3) st] missing_route_one_message [of th3 sv req params n keep evs] by (cases answer) simp_all
    next
      case (Some rt)
      have eq: "serve_route sv env req path query keep evs rt params th2 = r"
        using assms(5) False rr pf unhandled Some by (simp add: serve_request_def th2_def [symmetric] Let_def)
      have ok: "handler_ok h" if "r_handler rt = Some h" for h
        using assms(1) rf(5) [OF Some] that by (auto simp: routes_ok_def)
      have "CR \<notin> set (r_content_type rt)" using assms(1) rf(5) [OF Some] by (auto simp: routes_ok_def)
      from route_one_message [OF eq th2(1) ok this th2(2,3)] show ?thesis .
    qed
  qed
qed



end
