(* ===== verification/Object_Memory.thy ===== *)
theory Object_Memory
  imports Type_Info
begin

text \<open>
  Writing structures: the stores of \<open>src/runtime/runtime_body.c\<close> (\<open>write_int\<close> and its siblings, also the
  \<open>memcpy\<close> of \<open>src/db/db_sqlite.c\<close>), little endian at the width of the field, and what reads of the same and
  of other bytes then give. A structure is the list of its bytes, as in the theory \<open>Type_Info\<close>.
\<close>

section \<open>The code\<close>

primrec le_bytes :: "nat \<Rightarrow> nat \<Rightarrow> string" where
  "le_bytes 0 v = []"
| "le_bytes (Suc n) v = char_of (v mod 256) # le_bytes n (v div 256)"

definition write_bytes :: "memory \<Rightarrow> nat \<Rightarrow> string \<Rightarrow> memory" where
  "write_bytes obj k bs = take k obj @ bs @ drop (k + length bs) obj"

definition write_str :: "memory \<Rightarrow> 16 word \<Rightarrow> size_t \<Rightarrow> memory" where
  "write_str obj offset p = write_bytes obj (unat offset) (le_bytes 8 (unat p))"

definition write_int :: "memory \<Rightarrow> 16 word \<Rightarrow> int \<Rightarrow> memory" where
  "write_int obj offset v = write_bytes obj (unat offset) (le_bytes 4 (unat (word_of_int v :: 32 word)))"

definition write_long :: "memory \<Rightarrow> 16 word \<Rightarrow> int \<Rightarrow> memory" where
  "write_long obj offset v = write_bytes obj (unat offset) (le_bytes 8 (unat (word_of_int v :: 64 word)))"

definition write_double :: "memory \<Rightarrow> 16 word \<Rightarrow> 64 word \<Rightarrow> memory" where
  "write_double obj offset v = write_bytes obj (unat offset) (le_bytes 8 (unat v))"

definition write_bool :: "memory \<Rightarrow> 16 word \<Rightarrow> bool \<Rightarrow> memory" where
  "write_bool obj offset v = write_bytes obj (unat offset) (le_bytes 1 (if v then 1 else 0))"

section \<open>Reading what was written\<close>

lemma length_le_bytes [simp]: "length (le_bytes n v) = n"
  by (induction n arbitrary: v) auto

lemma le_val_bytes: "le_val (le_bytes n v) = v mod 256 ^ n"
proof (induction n arbitrary: v)
  case (Suc n)
  have "le_val (le_bytes (Suc n) v) = v mod 256 + 256 * (v div 256 mod 256 ^ n)"
    using Suc.IH by (simp add: le_val_def byte_def)
  also have "\<dots> = v mod (256 * 256 ^ n)" by (simp add: mod_mult2_eq)
  finally show ?case by simp
qed (simp add: le_val_def)

lemma length_write_bytes [simp]: "k + length bs \<le> length obj \<Longrightarrow> length (write_bytes obj k bs) = length obj"
  by (simp add: write_bytes_def)

lemma bytes_at_written:
  "k + length bs \<le> length obj \<Longrightarrow> bytes_at (write_bytes obj k bs) k (length bs) = bs"
  by (simp add: write_bytes_def bytes_at_def)

lemma bytes_at_elsewhere:
  assumes "k + length bs \<le> length obj" "j + n \<le> k \<or> k + length bs \<le> j"
  shows "bytes_at (write_bytes obj k bs) j n = bytes_at obj j n"
  using assms(2)
proof
  assume "j + n \<le> k"
  then show ?thesis using assms(1) by (simp add: write_bytes_def bytes_at_def take_drop)
next
  assume "k + length bs \<le> j"
  then have "drop j (write_bytes obj k bs) = drop j obj" using assms(1) by (simp add: write_bytes_def)
  then show ?thesis by (simp add: bytes_at_def)
qed

lemma read_written_str:
  assumes "unat offset + 8 \<le> length obj"
  shows "read_str (write_str obj offset p) offset = p"
proof -
  have "bytes_at (write_str obj offset p) (unat offset) 8 = le_bytes 8 (unat p)"
    using bytes_at_written [of "unat offset" "le_bytes 8 (unat p)" obj] assms by (simp add: write_str_def)
  then show ?thesis using unsigned_less [of p, where 'a = nat] by (simp add: read_str_def le_val_bytes)
qed

lemma read_written_double:
  assumes "unat offset + 8 \<le> length obj"
  shows "read_double (write_double obj offset p) offset = p"
proof -
  have "bytes_at (write_double obj offset p) (unat offset) 8 = le_bytes 8 (unat p)"
    using bytes_at_written [of "unat offset" "le_bytes 8 (unat p)" obj] assms by (simp add: write_double_def)
  then show ?thesis using unsigned_less [of p, where 'a = nat] by (simp add: read_double_def le_val_bytes)
qed

lemma sint_word_of_int:
  "- (2 ^ (LENGTH('a::len) - 1)) \<le> v \<Longrightarrow> v < 2 ^ (LENGTH('a) - 1) \<Longrightarrow> sint (word_of_int v :: 'a word) = v"
  by (transfer fixing: v) (simp add: signed_take_bit_int_eq_self)

lemma read_written_int:
  assumes "unat offset + 4 \<le> length obj" "- (2 ^ 31) \<le> v" "v < 2 ^ 31"
  shows "read_int (write_int obj offset v) offset = v"
proof -
  let ?w = "word_of_int v :: 32 word"
  have "bytes_at (write_int obj offset v) (unat offset) 4 = le_bytes 4 (unat ?w)"
    using bytes_at_written [of "unat offset" "le_bytes 4 (unat ?w)" obj] assms by (simp add: write_int_def)
  then have "read_int (write_int obj offset v) offset = sint ?w"
    using unsigned_less [of ?w, where 'a = nat] by (simp add: read_int_def le_val_bytes)
  then show ?thesis using assms(2,3) sint_word_of_int [of v, where 'a = 32] by simp
qed

lemma read_written_long:
  assumes "unat offset + 8 \<le> length obj" "- (2 ^ 63) \<le> v" "v < 2 ^ 63"
  shows "read_long (write_long obj offset v) offset = v"
proof -
  let ?w = "word_of_int v :: 64 word"
  have "bytes_at (write_long obj offset v) (unat offset) 8 = le_bytes 8 (unat ?w)"
    using bytes_at_written [of "unat offset" "le_bytes 8 (unat ?w)" obj] assms by (simp add: write_long_def)
  then have "read_long (write_long obj offset v) offset = sint ?w"
    using unsigned_less [of ?w, where 'a = nat] by (simp add: read_long_def le_val_bytes)
  then show ?thesis using assms(2,3) sint_word_of_int [of v, where 'a = 64] by simp
qed

lemma read_written_bool:
  assumes "unat offset + 1 \<le> length obj"
  shows "read_bool (write_bool obj offset v) offset = v"
proof -
  have "bytes_at (write_bool obj offset v) (unat offset) 1 = le_bytes 1 (if v then 1 else 0)"
    using bytes_at_written [of "unat offset" "le_bytes 1 (if v then 1 else 0)" obj] assms by (simp add: write_bool_def)
  then show ?thesis using le_val_bytes [of 1 "if v then 1 else 0"] unfolding read_bool_def by simp
qed

lemma bytes_at_inside:
  assumes "bytes_at x k n = bytes_at y k n" "k \<le> j" "j + m \<le> k + n"
  shows "bytes_at x j m = bytes_at y j m"
proof -
  have "bytes_at z j m = bytes_at (bytes_at z k n) (j - k) m" for z
    using assms(2,3) by (simp add: bytes_at_def drop_take min_def)
  then show ?thesis using assms(1) by simp
qed

text \<open>The reads of a field look at the bytes of the field only.\<close>

lemma reads_inside:
  assumes "bytes_at x k n = bytes_at y k n" "k \<le> unat j" "unat j + m \<le> k + n"
  shows "m = 8 \<Longrightarrow> read_str x j = read_str y j" "m = 8 \<Longrightarrow> read_double x j = read_double y j"
    "m = 8 \<Longrightarrow> read_long x j = read_long y j" "m = 4 \<Longrightarrow> read_int x j = read_int y j" "m = 1 \<Longrightarrow> read_bool x j = read_bool y j"
  using bytes_at_inside [OF assms]
  by (simp_all add: read_str_def read_double_def read_long_def read_int_def read_bool_def)

section \<open>Fields\<close>

text \<open>Where the bytes of a field are.\<close>

definition slot_ok :: "FieldInfo \<Rightarrow> nat \<Rightarrow> bool" where
  "slot_ok f n \<longleftrightarrow> 0 < field_storage_size f \<and> unat (fi_offset f) + field_storage_size f \<le> n"

text \<open>The scalar part of a nullable field lies inside it, after the presence byte.\<close>

definition scalar_size :: "FieldKind \<Rightarrow> nat" where
  "scalar_size kind = (case kind of FIELD_INT \<Rightarrow> 4 | FIELD_BOOL \<Rightarrow> 1 | FIELD_OBJECT \<Rightarrow> 0 | _ \<Rightarrow> 8)"

lemma scalar_inside:
  assumes "slot_ok f n" "n < 2 ^ 16"
  shows "fi_kind f \<noteq> FIELD_OBJECT" "fi_kind (field_scalar f) = fi_kind f"
    "unat (fi_offset f) \<le> unat (fi_offset (field_scalar f))"
    "unat (fi_offset (field_scalar f)) + scalar_size (fi_kind f) \<le> unat (fi_offset f) + field_storage_size f"
    "has_flag (fi_flags f) FIELD_NULLABLE \<Longrightarrow> unat (fi_offset f) + 1 \<le> unat (fi_offset (field_scalar f)) \<and> fi_kind f \<noteq> FIELD_STR"
    "\<not> has_flag (fi_flags f) FIELD_NULLABLE \<Longrightarrow> fi_offset (field_scalar f) = fi_offset f"
proof -
  let ?k = "unat (fi_offset f)" and ?v = "value_offset (fi_kind f)"
  show k: "fi_kind f \<noteq> FIELD_OBJECT" using assms(1) by (auto simp: slot_ok_def field_storage_size_def Let_def)
  show "fi_kind (field_scalar f) = fi_kind f" by (simp add: field_scalar_def Let_def)
  show "\<not> has_flag (fi_flags f) FIELD_NULLABLE \<Longrightarrow> fi_offset (field_scalar f) = fi_offset f" by (simp add: field_scalar_def)
  have nstr: "has_flag (fi_flags f) FIELD_NULLABLE \<Longrightarrow> fi_kind f \<noteq> FIELD_STR"
    using assms(1) by (auto simp: slot_ok_def field_storage_size_def Let_def)
  have v: "has_flag (fi_flags f) FIELD_NULLABLE \<Longrightarrow> ?v + scalar_size (fi_kind f) = field_storage_size f \<and> 1 \<le> ?v"
    using k nstr by (cases "fi_kind f") (simp_all add: field_storage_size_def value_offset_def scalar_size_def Let_def)
  have small: "has_flag (fi_flags f) FIELD_NULLABLE \<Longrightarrow> ?k + ?v < 2 ^ 16"
    using v assms by (simp add: slot_ok_def)
  have off: "has_flag (fi_flags f) FIELD_NULLABLE \<Longrightarrow> unat (fi_offset (field_scalar f)) = ?k + ?v"
  proof -
    assume n: "has_flag (fi_flags f) FIELD_NULLABLE"
    then have "fi_offset (field_scalar f) = of_nat (?k + ?v)" by (simp add: field_scalar_def Let_def)
    then show "unat (fi_offset (field_scalar f)) = ?k + ?v"
      using small n by (simp add: unat_of_nat del: of_nat_add)
  qed
  have s: "\<not> has_flag (fi_flags f) FIELD_NULLABLE \<Longrightarrow> scalar_size (fi_kind f) = field_storage_size f"
    using k by (cases "fi_kind f") (simp_all add: field_storage_size_def scalar_size_def Let_def)
  show "unat (fi_offset f) \<le> unat (fi_offset (field_scalar f))"
    "unat (fi_offset (field_scalar f)) + scalar_size (fi_kind f) \<le> unat (fi_offset f) + field_storage_size f"
    using off v s by (cases "has_flag (fi_flags f) FIELD_NULLABLE"; simp add: field_scalar_def)+
  show "has_flag (fi_flags f) FIELD_NULLABLE \<Longrightarrow> unat (fi_offset f) + 1 \<le> unat (fi_offset (field_scalar f)) \<and> fi_kind f \<noteq> FIELD_STR"
    using off v nstr by simp
qed

lemma field_reads_agree:
  assumes "slot_ok f n" "n < 2 ^ 16"
    and "bytes_at x (unat (fi_offset f)) (field_storage_size f) = bytes_at y (unat (fi_offset f)) (field_storage_size f)"
  shows "field_is_null f x = field_is_null f y"
    "fi_kind f = FIELD_INT \<Longrightarrow> read_int x (fi_offset (field_scalar f)) = read_int y (fi_offset (field_scalar f))"
    "fi_kind f = FIELD_LONG \<Longrightarrow> read_long x (fi_offset (field_scalar f)) = read_long y (fi_offset (field_scalar f))"
    "fi_kind f = FIELD_DOUBLE \<Longrightarrow> read_double x (fi_offset (field_scalar f)) = read_double y (fi_offset (field_scalar f))"
    "fi_kind f = FIELD_BOOL \<Longrightarrow> read_bool x (fi_offset (field_scalar f)) = read_bool y (fi_offset (field_scalar f))"
    "fi_kind f = FIELD_STR \<Longrightarrow> read_str x (fi_offset (field_scalar f)) = read_str y (fi_offset (field_scalar f))"
proof -
  note si = scalar_inside [OF assms(1,2)]
  note rd = reads_inside [OF assms(3) si(3) si(4)]
  show "fi_kind f = FIELD_INT \<Longrightarrow> read_int x (fi_offset (field_scalar f)) = read_int y (fi_offset (field_scalar f))"
    using rd(4) by (simp add: scalar_size_def)
  show "fi_kind f = FIELD_LONG \<Longrightarrow> read_long x (fi_offset (field_scalar f)) = read_long y (fi_offset (field_scalar f))"
    using rd(3) by (simp add: scalar_size_def)
  show "fi_kind f = FIELD_DOUBLE \<Longrightarrow> read_double x (fi_offset (field_scalar f)) = read_double y (fi_offset (field_scalar f))"
    using rd(2) by (simp add: scalar_size_def)
  show "fi_kind f = FIELD_BOOL \<Longrightarrow> read_bool x (fi_offset (field_scalar f)) = read_bool y (fi_offset (field_scalar f))"
    using rd(5) by (simp add: scalar_size_def)
  show str: "fi_kind f = FIELD_STR \<Longrightarrow> read_str x (fi_offset (field_scalar f)) = read_str y (fi_offset (field_scalar f))"
    using rd(1) by (simp add: scalar_size_def)
  have "read_bool x (fi_offset f) = read_bool y (fi_offset f)" if "has_flag (fi_flags f) FIELD_NULLABLE"
    by (rule reads_inside(5) [OF assms(3), of "fi_offset f" 1]) (use assms(1) in \<open>simp_all add: slot_ok_def\<close>)
  then show "field_is_null f x = field_is_null f y"
    using str si(6) by (auto simp: field_is_null_def)
qed

text \<open>A zeroed field that may be null is null.\<close>

lemma le_val_zero: "le_val (replicate m NUL) = 0"
  by (induction m) (simp_all add: le_val_def byte_def)

lemma zero_field_null:
  assumes "slot_ok f n" "n < 2 ^ 16"
    and "bytes_at obj (unat (fi_offset f)) (field_storage_size f) = replicate (field_storage_size f) NUL"
    and "fi_kind f = FIELD_STR \<or> has_flag (fi_flags f) FIELD_NULLABLE"
  shows "field_is_null f obj" "fi_kind f = FIELD_STR \<Longrightarrow> read_str obj (fi_offset f) = 0"
proof -
  let ?k = "unat (fi_offset f)"
  have zero: "bytes_at obj ?k m = replicate m NUL" if "m \<le> field_storage_size f" for m
  proof -
    have "bytes_at obj ?k m = take m (bytes_at obj ?k (field_storage_size f))"
      using that by (simp add: bytes_at_def min_def)
    then show ?thesis using that assms(3) by (simp add: min_def)
  qed
  show str: "fi_kind f = FIELD_STR \<Longrightarrow> read_str obj (fi_offset f) = 0"
  proof -
    assume k: "fi_kind f = FIELD_STR"
    then have "8 \<le> field_storage_size f"
      using scalar_inside(4-6) [OF assms(1,2)]
      by (cases "has_flag (fi_flags f) FIELD_NULLABLE") (simp_all add: scalar_size_def)
    then have "le_val (bytes_at obj ?k 8) = 0" using zero le_val_zero by metis
    then show "read_str obj (fi_offset f) = 0" by (simp add: read_str_def)
  qed
  have "1 \<le> field_storage_size f" using assms(1) by (simp add: slot_ok_def)
  then have "\<not> read_bool obj (fi_offset f)" using zero [of 1] le_val_zero [of 1] by (simp add: read_bool_def)
  then show "field_is_null f obj"
    using str assms(4) scalar_inside(5) [OF assms(1,2)] by (auto simp: field_is_null_def)
qed

text \<open>Memory of which only the first \<open>n\<close> bytes may have changed.\<close>

definition kept_beyond :: "nat \<Rightarrow> memory \<Rightarrow> memory \<Rightarrow> bool" where
  "kept_beyond n obj obj' \<longleftrightarrow> length obj' = length obj \<and> drop n obj' = drop n obj"

lemma kept_beyond_refl [simp]: "kept_beyond n obj obj"
  by (simp add: kept_beyond_def)

lemma kept_beyond_trans: "kept_beyond n a b \<Longrightarrow> kept_beyond n b c \<Longrightarrow> kept_beyond n a c"
  by (simp add: kept_beyond_def)

lemma write_bytes_beyond: "k + length bs \<le> n \<Longrightarrow> n \<le> length obj \<Longrightarrow> kept_beyond n obj (write_bytes obj k bs)"
  by (simp add: kept_beyond_def write_bytes_def drop_append)

lemma field_set_present_beyond:
  assumes "slot_ok f n" "n \<le> length obj"
  shows "kept_beyond n obj (field_set_present f obj)"
  using assms by (auto simp: field_set_present_def kept_beyond_def slot_ok_def)

lemma kept_beyond_mono: "kept_beyond n x y \<Longrightarrow> n \<le> m \<Longrightarrow> kept_beyond m x y"
  unfolding kept_beyond_def by (metis drop_drop le_add_diff_inverse2)

lemma kept_beyond_at:
  assumes "kept_beyond n (drop k x) y" "k + n \<le> length x"
  shows "kept_beyond (k + n) x (take k x @ y)"
  using assms by (simp add: kept_beyond_def add.commute)

text \<open>Storing the scalar of a field and its presence byte: the field is not null, what is read is what was
  stored, and no byte outside the field changes.\<close>

lemma scalar_stored:
  assumes "slot_ok f n" "n < 2 ^ 16" "n \<le> length obj"
    and "obj1 = write_bytes obj (unat (fi_offset (field_scalar f))) bs" "length bs = scalar_size (fi_kind f)"
    and "fi_kind f = FIELD_STR \<Longrightarrow> read_str obj1 (fi_offset f) \<noteq> 0"
  shows "length (field_set_present f obj1) = length obj" "\<not> field_is_null f (field_set_present f obj1)"
    "read_int (field_set_present f obj1) (fi_offset (field_scalar f)) = read_int obj1 (fi_offset (field_scalar f))"
    "read_long (field_set_present f obj1) (fi_offset (field_scalar f)) = read_long obj1 (fi_offset (field_scalar f))"
    "read_double (field_set_present f obj1) (fi_offset (field_scalar f)) = read_double obj1 (fi_offset (field_scalar f))"
    "read_bool (field_set_present f obj1) (fi_offset (field_scalar f)) = read_bool obj1 (fi_offset (field_scalar f))"
    "read_str (field_set_present f obj1) (fi_offset (field_scalar f)) = read_str obj1 (fi_offset (field_scalar f))"
    "j + m \<le> unat (fi_offset f) \<or> unat (fi_offset f) + field_storage_size f \<le> j \<Longrightarrow>
       bytes_at (field_set_present f obj1) j m = bytes_at obj j m"
proof -
  let ?o = "fi_offset (field_scalar f)" and ?k = "unat (fi_offset f)"
  note si = scalar_inside [OF assms(1,2)]
  have room: "unat ?o + scalar_size (fi_kind f) \<le> length obj" "?k + field_storage_size f \<le> length obj"
    using si(4) assms(1,3) by (auto simp: slot_ok_def)
  have len: "length obj1 = length obj" unfolding assms(4) using room assms(5) by simp
  show "length (field_set_present f obj1) = length obj" using len by (simp add: field_set_present_def)
  have pres: "field_set_present f obj1 = (if has_flag (fi_flags f) FIELD_NULLABLE then write_bytes obj1 ?k [CHR 0x01] else obj1)"
    using room(2) len assms(1) by (simp add: field_set_present_def write_bytes_def upd_conv_take_nth_drop slot_ok_def)
  have kept: "bytes_at (field_set_present f obj1) (unat ?o) q = bytes_at obj1 (unat ?o) q" for q
    using si(5) room(2) len assms(1) unfolding pres by (auto intro!: bytes_at_elsewhere simp: slot_ok_def)
  then show "read_int (field_set_present f obj1) ?o = read_int obj1 ?o" "read_long (field_set_present f obj1) ?o = read_long obj1 ?o"
    "read_double (field_set_present f obj1) ?o = read_double obj1 ?o" "read_bool (field_set_present f obj1) ?o = read_bool obj1 ?o"
    "read_str (field_set_present f obj1) ?o = read_str obj1 ?o"
    by (simp_all add: read_int_def read_long_def read_double_def read_bool_def read_str_def)
  show "\<not> field_is_null f (field_set_present f obj1)"
  proof (cases "has_flag (fi_flags f) FIELD_NULLABLE")
    case True
    have "bytes_at (write_bytes obj1 ?k [CHR 0x01]) ?k (length [CHR 0x01]) = [CHR 0x01]"
      by (rule bytes_at_written) (use room(2) len assms(1) in \<open>simp add: slot_ok_def\<close>)
    then show ?thesis using True unfolding field_is_null_def pres by (simp add: read_bool_def le_val_def byte_def)
  next
    case False
    then show ?thesis using assms(6) by (simp add: field_is_null_def pres)
  qed
  assume j: "j + m \<le> ?k \<or> ?k + field_storage_size f \<le> j"
  have "bytes_at obj1 j m = bytes_at obj j m"
    unfolding assms(4) by (rule bytes_at_elsewhere) (use j room assms(5) si(3,4) in auto)
  moreover have "bytes_at (field_set_present f obj1) j m = bytes_at obj1 j m"
    unfolding pres using j room(2) len assms(1) by (auto intro!: bytes_at_elsewhere simp: slot_ok_def)
  ultimately show "bytes_at (field_set_present f obj1) j m = bytes_at obj j m" by simp
qed

end
