(* ===== verification/Rows.thy ===== *)
theory Rows
  imports Object_Memory Database
begin

text \<open>
  Rows of a query: the second half of \<open>src/db/db_sqlite.c\<close>, from a type descriptor and the columns of the
  current row to the bytes of a structure. The columns are what \<open>sqlite3_column_name\<close>,
  \<open>sqlite3_column_type\<close> and the typed accessors answer (\<open>row_of\<close>); the conversion of an integer column to
  a double is SQLite's (\<open>to_double\<close>). Texts go to blocks of the request arena: \<open>tx_next\<close> are the answers of
  \<open>arena_alloc\<close> in order (none when no arena is bound), \<open>tx_at\<close> is the text at an address.
\<close>

section \<open>The code: one row\<close>

datatype Column = Col_null | Col_integer int | Col_float "64 word" | Col_text "string option" | Col_blob

type_synonym Row = "(string option \<times> Column) list"

record Texts =
  tx_next :: "nat option list"
  tx_at :: "nat \<Rightarrow> string"

definition arena_intern :: "string \<Rightarrow> Texts \<Rightarrow> nat option \<times> Texts" where
  "arena_intern text tx =
     (if length (cstr text) > RUNTIME_MAX_TEXT then (None, tx)
      else
        (case tx_next tx of
           [] \<Rightarrow> (None, tx)
         | None # rest \<Rightarrow> (None, tx\<lparr>tx_next := rest\<rparr>)
         | Some p # rest \<Rightarrow> (Some p, tx\<lparr>tx_next := rest, tx_at := (tx_at tx)(p := cstr text)\<rparr>)))"

definition read_text_column :: "Column \<Rightarrow> 16 word \<Rightarrow> memory \<Rightarrow> Texts \<Rightarrow> int \<times> memory \<times> Texts" where
  "read_text_column col offset obj tx =
     (case col of
        Col_text (Some text) \<Rightarrow>
          if NUL \<in> set text then (- 1, obj, tx)
          else
            (case arena_intern text tx of
               (None, tx1) \<Rightarrow> (- 1, obj, tx1)
             | (Some p, tx1) \<Rightarrow> (0, write_str obj offset (of_nat p), tx1))
      | _ \<Rightarrow> (- 1, obj, tx))"

definition read_integer_column :: "Column \<Rightarrow> FieldKind \<Rightarrow> 16 word \<Rightarrow> memory \<Rightarrow> int \<times> memory" where
  "read_integer_column col kind offset obj =
     (case col of
        Col_integer raw \<Rightarrow>
          if kind = FIELD_INT then
            if raw < - (2 ^ 31) \<or> raw > 2 ^ 31 - 1 then (- 1, obj) else (0, write_int obj offset raw)
          else if kind = FIELD_BOOL then
            if raw \<noteq> 0 \<and> raw \<noteq> 1 then (- 1, obj) else (0, write_bool obj offset (raw \<noteq> 0))
          else (0, write_long obj offset raw)
      | _ \<Rightarrow> (- 1, obj))"

definition read_double_column :: "(int \<Rightarrow> 64 word) \<Rightarrow> Column \<Rightarrow> 16 word \<Rightarrow> memory \<Rightarrow> int \<times> memory" where
  "read_double_column to_double col offset obj =
     (case (case col of Col_float d \<Rightarrow> Some d | Col_integer i \<Rightarrow> Some (to_double i) | _ \<Rightarrow> None) of
        None \<Rightarrow> (- 1, obj)
      | Some v \<Rightarrow> if \<not> isfinite v then (- 1, obj) else (0, write_double obj offset v))"

definition read_column :: "(int \<Rightarrow> 64 word) \<Rightarrow> FieldInfo \<Rightarrow> Column \<Rightarrow> memory \<Rightarrow> Texts \<Rightarrow> int \<times> memory \<times> Texts" where
  "read_column to_double f col obj tx =
     (case fi_kind f of
        FIELD_STR \<Rightarrow> read_text_column col (fi_offset f) obj tx
      | FIELD_DOUBLE \<Rightarrow> (case read_double_column to_double col (fi_offset f) obj of (rc, obj1) \<Rightarrow> (rc, obj1, tx))
      | FIELD_OBJECT \<Rightarrow> (0, obj, tx)
      | _ \<Rightarrow> (case read_integer_column col (fi_kind f) (fi_offset f) obj of (rc, obj1) \<Rightarrow> (rc, obj1, tx)))"

definition field_slot_valid :: "TypeInfo \<Rightarrow> FieldInfo \<Rightarrow> bool" where
  "field_slot_valid t f \<longleftrightarrow>
     (let need = field_storage_size f in
      \<not> (need = 0 \<or> unat (fi_size f) \<noteq> need \<or> unat (fi_offset f) > unat (ti_size t) \<or>
         need > unat (ti_size t) - unat (fi_offset f)))"

fun read_field_loop ::
  "(int \<Rightarrow> 64 word) \<Rightarrow> FieldInfo \<Rightarrow> Row \<Rightarrow> bool \<Rightarrow> memory \<Rightarrow> Texts \<Rightarrow> int \<times> memory \<times> Texts" where
  "read_field_loop to_double f [] found obj tx = (if found then 0 else - 1, obj, tx)"
| "read_field_loop to_double f ((name, col) # cols) found obj tx =
     (if name = None \<or> name \<noteq> fi_name f then read_field_loop to_double f cols found obj tx
      else if found then (- 1, obj, tx)
      else if col = Col_null then
        if has_flag (fi_flags f) FIELD_NOT_NULL \<or> (fi_kind f \<noteq> FIELD_STR \<and> \<not> has_flag (fi_flags f) FIELD_NULLABLE)
        then (- 1, obj, tx)
        else read_field_loop to_double f cols True obj tx
      else
        (case read_column to_double (field_scalar f) col obj tx of
           (rc, obj1, tx1) \<Rightarrow>
             if rc \<noteq> 0 then (- 1, obj1, tx1)
             else read_field_loop to_double f cols True (field_set_present f obj1) tx1))"

definition read_field :: "(int \<Rightarrow> 64 word) \<Rightarrow> Row \<Rightarrow> FieldInfo \<Rightarrow> memory \<Rightarrow> Texts \<Rightarrow> int \<times> memory \<times> Texts" where
  "read_field to_double row f obj tx = read_field_loop to_double f (take 64 row) False obj tx"

fun row_fields ::
  "(int \<Rightarrow> 64 word) \<Rightarrow> Row \<Rightarrow> TypeInfo \<Rightarrow> FieldInfo list \<Rightarrow> memory \<Rightarrow> Texts \<Rightarrow> int \<times> memory \<times> Texts" where
  "row_fields to_double row t [] obj tx = (0, obj, tx)"
| "row_fields to_double row t (f # fs) obj tx =
     (if \<not> field_slot_valid t f then (- 1, obj, tx)
      else
        (case read_field to_double row f obj tx of
           (rc, obj1, tx1) \<Rightarrow> if rc \<noteq> 0 then (- 1, obj1, tx1) else row_fields to_double row t fs obj1 tx1))"

definition row_to_struct :: "(int \<Rightarrow> 64 word) \<Rightarrow> Row \<Rightarrow> TypeInfo \<Rightarrow> memory \<Rightarrow> Texts \<Rightarrow> int \<times> memory \<times> Texts" where
  "row_to_struct to_double row t obj tx =
     (case ti_fields t of
        None \<Rightarrow> (- 1, obj, tx)
      | Some fs \<Rightarrow>
          if ti_size t = 0 \<or> length fs = 0 \<or> length fs > 64 then (- 1, obj, tx)
          else row_fields to_double row t (take 64 fs) (write_bytes obj 0 (replicate (unat (ti_size t)) NUL)) tx)"

section \<open>The code: table types\<close>

text \<open>\<open>type_valid\<close> of \<open>db_sqlite.c\<close>; \<open>prior\<close> are the fields before, \<open>keys\<close> the primary keys among them.\<close>

definition spans_overlap :: "FieldInfo \<Rightarrow> FieldInfo \<Rightarrow> bool" where
  "spans_overlap f other \<longleftrightarrow>
     unat (fi_offset f) < unat (fi_offset other) + unat (fi_size other) \<and>
     unat (fi_offset other) < unat (fi_offset f) + unat (fi_size f)"

fun db_fields_valid :: "16 word \<Rightarrow> FieldInfo list \<Rightarrow> nat \<Rightarrow> FieldInfo list \<Rightarrow> bool" where
  "db_fields_valid sz prior keys [] = True"
| "db_fields_valid sz prior keys (f # fs) =
     (let need = field_storage_size f; key = has_flag (fi_flags f) FIELD_PRIMARY_KEY in
      \<not> (\<not> is_safe_identifier (fi_name f) \<or> need = 0 \<or> unat (fi_size f) \<noteq> need \<or> unat (fi_offset f) > unat sz \<or>
         need > unat sz - unat (fi_offset f) \<or> fi_nested f \<noteq> None \<or>
         fi_flags f AND NOT (FIELD_PRIMARY_KEY OR FIELD_NOT_NULL OR FIELD_UNIQUE OR FIELD_NULLABLE) \<noteq> 0) \<and>
      \<not> (key \<and> (fi_kind f \<noteq> FIELD_INT \<or> has_flag (fi_flags f) FIELD_NULLABLE \<or> keys + 1 > 1)) \<and>
      \<not> ((fi_references f \<noteq> None \<or> fi_reference_key f \<noteq> None) \<and>
         (fi_kind f \<noteq> FIELD_INT \<or> \<not> is_safe_identifier (fi_references f) \<or> \<not> is_safe_identifier (fi_reference_key f))) \<and>
      list_all (\<lambda>other. fi_name f \<noteq> fi_name other \<and> \<not> spans_overlap f other) prior \<and>
      db_fields_valid sz (prior @ [f]) (if key then keys + 1 else keys) fs)"

definition db_type_valid :: "TypeInfo option \<Rightarrow> bool" where
  "db_type_valid type =
     (case type of
        None \<Rightarrow> False
      | Some t \<Rightarrow>
          (case ti_fields t of
             None \<Rightarrow> False
           | Some fs \<Rightarrow>
               is_safe_identifier (ti_name t) \<and> ti_size t \<noteq> 0 \<and> length fs \<noteq> 0 \<and> length fs \<le> 64 \<and>
               db_fields_valid (ti_size t) [] 0 fs))"

section \<open>The code: queries\<close>

abbreviation SQLITE_MAX_ROWS :: int where "SQLITE_MAX_ROWS \<equiv> 4096"

definition db_query_one ::
  "('c, 's) Sqlite \<Rightarrow> ('s \<Rightarrow> Row) \<Rightarrow> (int \<Rightarrow> 64 word) \<Rightarrow> nat \<Rightarrow> TryEvent list option \<Rightarrow> TypeInfo option \<Rightarrow> memory option \<Rightarrow>
   string option \<Rightarrow> SqlArg list \<Rightarrow> Texts \<Rightarrow> ('c, 'z) Session_scheme \<Rightarrow>
   int \<times> memory option \<times> Texts \<times> ('c, 'z) Session_scheme" where
  "db_query_one api row_of to_double busy_ms tries type out sql args tx s =
     (case (type, out, sql) of
        (Some t, Some obj0, Some q) \<Rightarrow>
          if \<not> db_type_valid type \<or> length args > DB_MAX_ARGS then (- 1, out, tx, s)
          else
            let obj = write_bytes obj0 0 (replicate (unat (ti_size t)) NUL) in
            (case db_lock busy_ms tries s of
               (rc, s1) \<Rightarrow>
                 if rc \<noteq> 0 then (- 1, Some obj, tx, s1)
                 else
                   (case prepare_statement api q args s1 of
                      (None, s2) \<Rightarrow> (- 1, Some obj, tx, db_unlock s2)
                    | (Some st, s2) \<Rightarrow>
                        (case g_db s2 of
                           None \<Rightarrow> (- 1, Some obj, tx, db_unlock s2)
                         | Some c \<Rightarrow>
                             (case sq_step api st c of
                                (code, st1, c1) \<Rightarrow>
                                  let s3 = s2\<lparr>g_db := Some c1\<rparr> in
                                  if code = SQLITE_ROW then
                                    (case row_to_struct to_double (row_of st1) t obj tx of
                                       (rc, obj1, tx1) \<Rightarrow>
                                         if rc = 0 then (1, Some obj1, tx1, db_unlock s3)
                                         else (- 1, Some obj1, tx1, mark_failed (db_unlock s3)))
                                  else if code \<noteq> SQLITE_DONE then (- 1, Some obj, tx, db_unlock (mark_failed (db_failure api s3)))
                                  else (0, Some obj, tx, db_unlock s3)))))
      | _ \<Rightarrow> (- 1, out, tx, s))"

text \<open>The loop of \<open>db_query_many\<close>: rows left to read and rows read; the results are the last code of
  \<open>sqlite3_step\<close> (None after a row that does not fit), the count, the memory, the texts and the connection.\<close>

primrec query_rows ::
  "('c, 's) Sqlite \<Rightarrow> ('s \<Rightarrow> Row) \<Rightarrow> (int \<Rightarrow> 64 word) \<Rightarrow> TypeInfo \<Rightarrow> nat \<Rightarrow> nat \<Rightarrow> int \<Rightarrow> 's \<Rightarrow> 'c \<Rightarrow> memory \<Rightarrow> Texts \<Rightarrow>
   int option \<times> nat \<times> memory \<times> Texts \<times> 'c" where
  "query_rows api row_of to_double t 0 count rc st c rows tx = (Some rc, count, rows, tx, c)"
| "query_rows api row_of to_double t (Suc n) count rc st c rows tx =
     (case sq_step api st c of
        (code, st1, c1) \<Rightarrow>
          if code \<noteq> SQLITE_ROW then (Some code, count, rows, tx, c1)
          else
            let at_row = count * unat (ti_size t) in
            (case row_to_struct to_double (row_of st1) t (drop at_row rows) tx of
               (bad, obj, tx1) \<Rightarrow>
                 let rows1 = take at_row rows @ obj in
                 if bad \<noteq> 0 then (None, count, rows1, tx1, c1)
                 else query_rows api row_of to_double t n (count + 1) code st1 c1 rows1 tx1))"

definition db_query_many ::
  "('c, 's) Sqlite \<Rightarrow> ('s \<Rightarrow> Row) \<Rightarrow> (int \<Rightarrow> 64 word) \<Rightarrow> nat \<Rightarrow> TryEvent list option \<Rightarrow> TypeInfo option \<Rightarrow> memory option \<Rightarrow>
   int \<Rightarrow> string option \<Rightarrow> SqlArg list \<Rightarrow> Texts \<Rightarrow> ('c, 'z) Session_scheme \<Rightarrow>
   int \<times> memory option \<times> Texts \<times> ('c, 'z) Session_scheme" where
  "db_query_many api row_of to_double busy_ms tries type rows mx sql args tx s =
     (case (type, rows, sql) of
        (Some t, Some mem, Some q) \<Rightarrow>
          if \<not> db_type_valid type \<or> length args > DB_MAX_ARGS \<or> mx \<le> 0 \<or> mx > SQLITE_MAX_ROWS then (- 1, rows, tx, s)
          else
            (case db_lock busy_ms tries s of
               (rc, s1) \<Rightarrow>
                 if rc \<noteq> 0 then (- 1, rows, tx, s1)
                 else
                   (case prepare_statement api q args s1 of
                      (None, s2) \<Rightarrow> (- 1, rows, tx, db_unlock s2)
                    | (Some st, s2) \<Rightarrow>
                        (case g_db s2 of
                           None \<Rightarrow> (- 1, rows, tx, db_unlock s2)
                         | Some c \<Rightarrow>
                             (case query_rows api row_of to_double t (nat mx) 0 SQLITE_ROW st c mem tx of
                                (code, count, mem1, tx1, c1) \<Rightarrow>
                                  let s3 = s2\<lparr>g_db := Some c1\<rparr> in
                                  (case code of
                                     None \<Rightarrow> (- 1, Some mem1, tx1, db_unlock (mark_failed s3))
                                   | Some rc \<Rightarrow>
                                       if rc \<noteq> SQLITE_DONE \<and> int count \<noteq> mx then
                                         (- 1, Some mem1, tx1, mark_failed (db_unlock (db_failure api s3)))
                                       else (int count, Some mem1, tx1, db_unlock s3))))))
      | _ \<Rightarrow> (- 1, rows, tx, s))"

section \<open>What a row stores\<close>

text \<open>A column, read back from the structure.\<close>

definition column_stored :: "(int \<Rightarrow> 64 word) \<Rightarrow> FieldInfo \<Rightarrow> Column \<Rightarrow> memory \<Rightarrow> (nat \<Rightarrow> string) \<Rightarrow> bool" where
  "column_stored to_double f col obj text_at \<longleftrightarrow>
     (let k = fi_offset (field_scalar f) in
      case col of
        Col_null \<Rightarrow> field_is_null f obj
      | Col_integer i \<Rightarrow> \<not> field_is_null f obj \<and>
          (case fi_kind f of
             FIELD_INT \<Rightarrow> read_int obj k = i
           | FIELD_LONG \<Rightarrow> read_long obj k = i
           | FIELD_BOOL \<Rightarrow> (if read_bool obj k then 1 else 0) = i
           | FIELD_DOUBLE \<Rightarrow> read_double obj k = to_double i
           | _ \<Rightarrow> False)
      | Col_float d \<Rightarrow> \<not> field_is_null f obj \<and> fi_kind f = FIELD_DOUBLE \<and> read_double obj k = d
      | Col_text t \<Rightarrow> \<not> field_is_null f obj \<and> fi_kind f = FIELD_STR \<and> t = Some (text_at (unat (read_str obj k)))
      | Col_blob \<Rightarrow> False)"

text \<open>What SQLite promises of an integer column.\<close>

definition row_ok :: "Row \<Rightarrow> bool" where
  "row_ok row \<longleftrightarrow> (\<forall>(n, col) \<in> set row. case col of Col_integer i \<Rightarrow> - (2 ^ 63) \<le> i \<and> i < 2 ^ 63 | _ \<Rightarrow> True)"

text \<open>The addresses still to come; that they are different is \<open>arena_blocks_safe\<close>.\<close>

definition addrs :: "Texts \<Rightarrow> nat list" where
  "addrs tx = List.map_filter id (tx_next tx)"

definition texts_ok :: "Texts \<Rightarrow> bool" where
  "texts_ok tx \<longleftrightarrow> distinct (addrs tx) \<and> (\<forall>p \<in> set (addrs tx). 0 < p \<and> p < 2 ^ 64)"

definition texts_step :: "Texts \<Rightarrow> Texts \<Rightarrow> bool" where
  "texts_step tx tx' \<longleftrightarrow> texts_ok tx' \<and> set (addrs tx') \<subseteq> set (addrs tx) \<and> (\<forall>p. p \<notin> set (addrs tx) \<longrightarrow> tx_at tx' p = tx_at tx p)"

lemma texts_step_refl: "texts_ok tx \<Longrightarrow> texts_step tx tx"
  by (simp add: texts_step_def)

lemma texts_step_trans:
  assumes "texts_step a b" "texts_step b c"
  shows "texts_step a c"
proof -
  have sub: "set (addrs b) \<subseteq> set (addrs a)" "set (addrs c) \<subseteq> set (addrs b)" and ok: "texts_ok c"
    and same: "\<forall>p. p \<notin> set (addrs a) \<longrightarrow> tx_at b p = tx_at a p" "\<forall>p. p \<notin> set (addrs b) \<longrightarrow> tx_at c p = tx_at b p"
    using assms by (simp_all add: texts_step_def)
  have "tx_at c p = tx_at a p" if "p \<notin> set (addrs a)" for p
    using same(1) [rule_format, OF that] same(2) [rule_format, of p] sub(1) that by fastforce
  then show ?thesis using sub ok by (simp add: texts_step_def)
qed

lemma arena_intern_step:
  assumes "arena_intern text tx = (r, tx')" "texts_ok tx"
  shows "texts_step tx tx'"
    "r = Some p \<Longrightarrow> tx_at tx' p = cstr text \<and> p \<notin> set (addrs tx') \<and> 0 < p \<and> p < 2 ^ 64"
proof -
  have "texts_step tx tx' \<and> (\<forall>p. r = Some p \<longrightarrow> tx_at tx' p = cstr text \<and> p \<notin> set (addrs tx') \<and> 0 < p \<and> p < 2 ^ 64)"
  proof (cases "length (cstr text) > RUNTIME_MAX_TEXT \<or> tx_next tx = []")
    case True
    then have "r = None" "tx' = tx" using assms(1) by (auto simp: arena_intern_def split: if_splits)
    then show ?thesis using assms(2) texts_step_refl by simp
  next
    case False
    then obtain e rest where e: "tx_next tx = e # rest" "\<not> length (cstr text) > RUNTIME_MAX_TEXT" by (cases "tx_next tx") auto
    show ?thesis
    proof (cases e)
      case None
      then have "r = None" "tx' = tx\<lparr>tx_next := rest\<rparr>" using assms(1) e by (simp_all add: arena_intern_def)
      moreover have "addrs tx = addrs (tx\<lparr>tx_next := rest\<rparr>)" using e(1) None by (simp add: addrs_def map_filter_simps)
      ultimately show ?thesis using assms(2) by (simp add: texts_step_def texts_ok_def)
    next
      case (Some q)
      then have r: "r = Some q" "tx' = tx\<lparr>tx_next := rest, tx_at := (tx_at tx)(q := cstr text)\<rparr>"
        using assms(1) e by (simp_all add: arena_intern_def)
      have a: "addrs tx = q # addrs tx'" using e(1) Some r(2) by (simp add: addrs_def map_filter_simps)
      have "texts_ok tx'" "0 < q" "q < 2 ^ 64" "q \<notin> set (addrs tx')" using assms(2) unfolding texts_ok_def a by simp_all
      moreover have "set (addrs tx') \<subseteq> set (addrs tx)" unfolding a by auto
      ultimately show ?thesis using r a by (simp add: texts_step_def)
    qed
  qed
  then show "texts_step tx tx'" "r = Some p \<Longrightarrow> tx_at tx' p = cstr text \<and> p \<notin> set (addrs tx') \<and> 0 < p \<and> p < 2 ^ 64"
    by blast+
qed

lemma slot_valid_ok: "field_slot_valid t f \<Longrightarrow> slot_ok f (unat (ti_size t))"
  by (auto simp: field_slot_valid_def slot_ok_def Let_def)

text \<open>A stored column survives as long as the bytes of its field and the text it points to do.\<close>

definition column_kept :: "(int \<Rightarrow> 64 word) \<Rightarrow> FieldInfo \<Rightarrow> Column \<Rightarrow> memory \<Rightarrow> Texts \<Rightarrow> bool" where
  "column_kept to_double f col obj tx \<longleftrightarrow>
     column_stored to_double f col obj (tx_at tx) \<and>
     (fi_kind f = FIELD_STR \<longrightarrow> unat (read_str obj (fi_offset f)) \<notin> set (addrs tx))"

lemma column_kept_agree:
  assumes "slot_ok f n" "n < 2 ^ 16" "column_kept to_double f col x tx"
    and "bytes_at x (unat (fi_offset f)) (field_storage_size f) = bytes_at y (unat (fi_offset f)) (field_storage_size f)"
    and "texts_step tx tx'"
  shows "column_kept to_double f col y tx'"
proof -
  note ag = field_reads_agree [OF assms(1,2,4)]
  have str: "fi_offset (field_scalar f) = fi_offset f" if "fi_kind f = FIELD_STR"
    using scalar_inside(5,6) [OF assms(1,2)] that by blast
  have "tx_at tx' (unat (read_str x (fi_offset f))) = tx_at tx (unat (read_str x (fi_offset f)))"
    "unat (read_str x (fi_offset f)) \<notin> set (addrs tx')" if "fi_kind f = FIELD_STR"
    using assms(3,5) that by (auto simp: column_kept_def texts_step_def)
  then show ?thesis
    using assms(3) ag str unfolding column_kept_def column_stored_def Let_def
    by (cases "fi_kind f"; cases col; simp)
qed

lemma read_field_found:
  "read_field_loop to_double f cols True obj tx = (0, obj', tx') \<Longrightarrow>
     obj' = obj \<and> tx' = tx \<and> (\<forall>(n, col) \<in> set cols. n = None \<or> n \<noteq> fi_name f)"
  by (induction to_double f cols True obj tx rule: read_field_loop.induct) (auto split: if_splits)

text \<open>Reading one column that is not null into its field.\<close>

lemma read_column_stored:
  assumes "slot_ok f n" "n < 2 ^ 16" "n \<le> length obj" "texts_ok tx" "col \<noteq> Col_null"
    and "case col of Col_integer i \<Rightarrow> - (2 ^ 63) \<le> i \<and> i < 2 ^ 63 | _ \<Rightarrow> True"
    and "read_column to_double (field_scalar f) col obj tx = (0, obj1, tx1)"
  shows "column_kept to_double f col (field_set_present f obj1) tx1" "texts_step tx tx1"
    "length (field_set_present f obj1) = length obj"
    "j + m \<le> unat (fi_offset f) \<or> unat (fi_offset f) + field_storage_size f \<le> j \<Longrightarrow>
       bytes_at (field_set_present f obj1) j m = bytes_at obj j m"
proof -
  let ?s = "field_scalar f" and ?o = "fi_offset (field_scalar f)" and ?k = "unat (fi_offset f)"
  note si = scalar_inside [OF assms(1,2)]
  have room: "unat ?o + scalar_size (fi_kind f) \<le> length obj" "?k + field_storage_size f \<le> length obj"
    using si(4) assms(1,3) by (auto simp: slot_ok_def)
  define stored where "stored x bs \<longleftrightarrow> x = write_bytes obj (unat ?o) bs \<and> length bs = scalar_size (fi_kind f)" for x bs
  obtain bs where bs: "stored obj1 bs"
    and val: "fi_kind f = FIELD_INT \<Longrightarrow> \<exists>i. col = Col_integer i \<and> read_int obj1 ?o = i"
      "fi_kind f = FIELD_LONG \<Longrightarrow> \<exists>i. col = Col_integer i \<and> read_long obj1 ?o = i"
      "fi_kind f = FIELD_BOOL \<Longrightarrow> \<exists>i. col = Col_integer i \<and> (if read_bool obj1 ?o then 1 else 0) = i"
      "fi_kind f = FIELD_DOUBLE \<Longrightarrow> \<exists>d. read_double obj1 ?o = d \<and> (col = Col_float d \<or> (\<exists>i. col = Col_integer i \<and> to_double i = d))"
      "fi_kind f = FIELD_STR \<Longrightarrow> \<exists>t p. col = Col_text (Some t) \<and> read_str obj1 ?o = of_nat p \<and> 0 < p \<and> p < 2 ^ 64 \<and> tx_at tx1 p = t \<and> p \<notin> set (addrs tx1)"
    and tx1: "texts_step tx tx1"
  proof (cases "fi_kind f")
    case FIELD_INT
    then obtain i where i: "col = Col_integer i" "- (2 ^ 31) \<le> i" "i < 2 ^ 31" "obj1 = write_int obj ?o i" "tx1 = tx"
      using assms(7) si(2) by (auto simp: read_column_def read_integer_column_def split: Column.splits if_splits)
    have r: "read_int obj1 ?o = i" unfolding i(4) by (rule read_written_int) (use room FIELD_INT i in \<open>simp_all add: scalar_size_def\<close>)
    show thesis
      by (rule that [of "le_bytes 4 (unat (word_of_int i :: 32 word))"])
        (use FIELD_INT i r assms(4) texts_step_refl in \<open>simp_all add: stored_def write_int_def scalar_size_def\<close>)
  next
    case FIELD_LONG
    then obtain i where i: "col = Col_integer i" "obj1 = write_long obj ?o i" "tx1 = tx"
      using assms(7) si(2) by (auto simp: read_column_def read_integer_column_def split: Column.splits if_splits)
    have r: "read_long obj1 ?o = i" unfolding i(2) by (rule read_written_long) (use room FIELD_LONG i assms(6) in \<open>simp_all add: scalar_size_def\<close>)
    show thesis
      by (rule that [of "le_bytes 8 (unat (word_of_int i :: 64 word))"])
        (use FIELD_LONG i r assms(4) texts_step_refl in \<open>simp_all add: stored_def write_long_def scalar_size_def\<close>)
  next
    case FIELD_BOOL
    then obtain i where i: "col = Col_integer i" "i = 0 \<or> i = 1" "obj1 = write_bool obj ?o (i \<noteq> 0)" "tx1 = tx"
      using assms(7) si(2) by (auto simp: read_column_def read_integer_column_def split: Column.splits if_splits)
    have r: "read_bool obj1 ?o = (i \<noteq> 0)" unfolding i(3) by (rule read_written_bool) (use room FIELD_BOOL in \<open>simp add: scalar_size_def\<close>)
    show thesis
      by (rule that [of "le_bytes 1 (if i \<noteq> 0 then 1 else 0)"])
        (use FIELD_BOOL i r assms(4) texts_step_refl in \<open>auto simp add: stored_def write_bool_def scalar_size_def\<close>)
  next
    case FIELD_DOUBLE
    then obtain d where d: "col = Col_float d \<or> (\<exists>i. col = Col_integer i \<and> to_double i = d)" "obj1 = write_double obj ?o d" "tx1 = tx"
      using assms(7) si(2) by (auto simp: read_column_def read_double_column_def split: Column.splits if_splits option.splits)
    have r: "read_double obj1 ?o = d" unfolding d(2) by (rule read_written_double) (use room FIELD_DOUBLE in \<open>simp add: scalar_size_def\<close>)
    show thesis
      by (rule that [of "le_bytes 8 (unat d)"])
        (use FIELD_DOUBLE d r assms(4) texts_step_refl in \<open>simp_all add: stored_def write_double_def scalar_size_def\<close>)
  next
    case FIELD_STR
    then obtain t p where t: "col = Col_text (Some t)" "NUL \<notin> set t" "arena_intern t tx = (Some p, tx1)" "obj1 = write_str obj ?o (of_nat p)"
      using assms(7) si(2) by (auto simp: read_column_def read_text_column_def split: Column.splits option.splits if_splits prod.splits)
    have r: "read_str obj1 ?o = of_nat p" unfolding t(4) by (rule read_written_str) (use room FIELD_STR in \<open>simp add: scalar_size_def\<close>)
    have "cstr t = t" using t(2) by (rule cstr_id)
    then have p: "tx_at tx1 p = t" "p \<notin> set (addrs tx1)" "0 < p" "p < 2 ^ 64" using arena_intern_step(2) [OF t(3) assms(4) refl] by simp_all
    show thesis
      by (rule that [of "le_bytes 8 (unat (of_nat p :: size_t))"])
        (use FIELD_STR t(1,4) r p arena_intern_step(1) [OF t(3) assms(4)] in \<open>auto simp add: stored_def write_str_def scalar_size_def\<close>)
  next
    case FIELD_OBJECT
    then show thesis using si(1) by simp
  qed
  have o1: "obj1 = write_bytes obj (unat ?o) bs" "length bs = scalar_size (fi_kind f)" using bs by (simp_all add: stored_def)
  have strk: "fi_kind f = FIELD_STR \<Longrightarrow> ?o = fi_offset f" using si(5,6) by blast
  have "read_str obj1 (fi_offset f) \<noteq> 0" if k: "fi_kind f = FIELD_STR"
  proof -
    obtain p where p: "read_str obj1 (fi_offset f) = of_nat p" "0 < p" "p < 2 ^ 64" using val(5) [OF k] strk [OF k] by auto
    then have "unat (read_str obj1 (fi_offset f)) = p" by (simp add: unat_of_nat)
    then show ?thesis using p(2) by auto
  qed
  note st = scalar_stored [OF assms(1-3) o1 this]
  show "length (field_set_present f obj1) = length obj" by (rule st(1))
  note nn = st(2) and reads = st(3-7)
  show "column_kept to_double f col (field_set_present f obj1) tx1"
  proof (cases "fi_kind f")
    case FIELD_STR
    then obtain t p where "col = Col_text (Some t)" "read_str obj1 ?o = of_nat p" "p < 2 ^ 64" "tx_at tx1 p = t" "p \<notin> set (addrs tx1)"
      using val(5) by blast
    then show ?thesis using FIELD_STR nn reads strk by (simp add: column_kept_def column_stored_def unat_of_nat)
  qed (use val nn reads si(1) in \<open>auto simp: column_kept_def column_stored_def\<close>)
  show "texts_step tx tx1" by (rule tx1)
  show "j + m \<le> ?k \<or> ?k + field_storage_size f \<le> j \<Longrightarrow>
      bytes_at (field_set_present f obj1) j m = bytes_at obj j m"
    by (rule st(8))
qed


text \<open>What reading a field does: the column is kept, nothing else changes.\<close>

definition field_stored ::
  "(int \<Rightarrow> 64 word) \<Rightarrow> FieldInfo \<Rightarrow> Column \<Rightarrow> memory \<Rightarrow> Texts \<Rightarrow> memory \<Rightarrow> Texts \<Rightarrow> bool" where
  "field_stored to_double f col obj tx obj' tx' \<longleftrightarrow>
     column_kept to_double f col obj' tx' \<and> texts_step tx tx' \<and> length obj' = length obj \<and>
     (\<forall>j m. j + m \<le> unat (fi_offset f) \<or> unat (fi_offset f) + field_storage_size f \<le> j \<longrightarrow> bytes_at obj' j m = bytes_at obj j m)"

definition column_for :: "Row \<Rightarrow> string option \<Rightarrow> Column \<Rightarrow> bool" where
  "column_for row name col \<longleftrightarrow>
     name \<noteq> None \<and> (\<exists>xs ys. row = xs @ (name, col) # ys \<and> (\<forall>(n, c) \<in> set xs \<union> set ys. n \<noteq> name))"

lemma column_for_Cons:
  "column_for row name col \<Longrightarrow> n \<noteq> name \<Longrightarrow> column_for ((n, c) # row) name col"
proof -
  assume a: "column_for row name col" and b: "n \<noteq> name"
  then obtain xs ys where "row = xs @ (name, col) # ys" "\<forall>(n, c) \<in> set xs \<union> set ys. n \<noteq> name" "name \<noteq> None"
    unfolding column_for_def by blast
  then show "column_for ((n, c) # row) name col"
    unfolding column_for_def using b by (intro conjI exI [of _ "(n, c) # xs"] exI [of _ ys]) auto
qed

lemma row_ok_tail: "row_ok (c # cols) \<Longrightarrow> row_ok cols"
  unfolding row_ok_def by (meson list.set_intros(2))

lemma row_ok_head:
  "row_ok ((n, col) # cols) \<Longrightarrow> case col of Col_integer i \<Rightarrow> - (2 ^ 63) \<le> i \<and> i < 2 ^ 63 | _ \<Rightarrow> True"
  unfolding row_ok_def by (drule bspec [OF _ list.set_intros(1)]) (simp only: prod.case)

lemma column_for_head:
  "name \<noteq> None \<Longrightarrow> \<forall>(n, c) \<in> set cols. n = None \<or> n \<noteq> name \<Longrightarrow> column_for ((name, col) # cols) name col"
  unfolding column_for_def by (intro conjI exI [of _ "[]"] exI [of _ cols]) auto

lemma read_field_loop_stored:
  assumes "slot_ok f n" "n < 2 ^ 16" "n \<le> length obj" "texts_ok tx" "row_ok cols"
    and "bytes_at obj (unat (fi_offset f)) (field_storage_size f) = replicate (field_storage_size f) NUL"
    and "read_field_loop to_double f cols False obj tx = (0, obj', tx')"
  shows "\<exists>col. column_for cols (fi_name f) col \<and> field_stored to_double f col obj tx obj' tx'"
  using assms(5,7)
proof (induction cols)
  case Nil
  then show ?case by simp
next
  case (Cons c cols)
  obtain name col where c: "c = (name, col)" by (cases c)
  consider (skip) "name = None \<or> name \<noteq> fi_name f" | (null) "name = fi_name f" "name \<noteq> None" "col = Col_null"
    | (col) "name = fi_name f" "name \<noteq> None" "col \<noteq> Col_null" by blast
  then show ?case
  proof cases
    case skip
    have "row_ok cols" using Cons.prems(1) by (rule row_ok_tail)
    moreover have "read_field_loop to_double f cols False obj tx = (0, obj', tx')" using Cons.prems(2) c skip by simp
    ultimately obtain col' where k: "column_for cols (fi_name f) col'" "field_stored to_double f col' obj tx obj' tx'"
      using Cons.IH by blast
    have "name \<noteq> fi_name f" using skip k(1) by (auto simp: column_for_def)
    then show ?thesis unfolding c using column_for_Cons [OF k(1)] k(2) by blast
  next
    case null
    then have rd: "read_field_loop to_double f cols True obj tx = (0, obj', tx')"
      and may: "fi_kind f = FIELD_STR \<or> has_flag (fi_flags f) FIELD_NULLABLE"
      using Cons.prems(2) c by (auto split: if_splits)
    have o: "obj' = obj" "tx' = tx" "\<forall>(n, col) \<in> set cols. n = None \<or> n \<noteq> fi_name f" using read_field_found [OF rd] by auto
    have "column_kept to_double f Col_null obj tx"
      using zero_field_null [OF assms(1,2,6) may] assms(4) by (auto simp: column_kept_def column_stored_def texts_ok_def Let_def)
    then have "field_stored to_double f col obj tx obj' tx'"
      using o(1,2) assms(4) null texts_step_refl by (simp add: field_stored_def)
    then show ?thesis unfolding c using column_for_head o(3) null by blast
  next
    case col
    obtain rc obj1 tx1 where r: "read_column to_double (field_scalar f) col obj tx = (rc, obj1, tx1)"
      by (metis prod_cases3)
    have r0: "rc = 0" and rd: "read_field_loop to_double f cols True (field_set_present f obj1) tx1 = (0, obj', tx')"
      using Cons.prems(2) c col r by (auto split: if_splits)
    have o: "obj' = field_set_present f obj1" "tx' = tx1" "\<forall>(n, col) \<in> set cols. n = None \<or> n \<noteq> fi_name f"
      using read_field_found [OF rd] by auto
    note i = row_ok_head [OF Cons.prems(1) [unfolded c]]
    note st = read_column_stored [OF assms(1-4) col(3) i r [unfolded r0]]
    have "field_stored to_double f col obj tx obj' tx'"
      unfolding field_stored_def o(1,2) using st by blast
    then show ?thesis unfolding c using column_for_head o(3) col(1,2) by blast
  qed
qed


text \<open>All fields of a row, for fields that lie apart.\<close>

definition apart :: "FieldInfo \<Rightarrow> FieldInfo \<Rightarrow> bool" where
  "apart f g \<longleftrightarrow>
     unat (fi_offset f) + field_storage_size f \<le> unat (fi_offset g) \<or> unat (fi_offset g) + field_storage_size g \<le> unat (fi_offset f)"

lemma row_fields_stored:
  assumes "row_fields to_double row t fs obj tx = (0, obj', tx')"
    and "sorted_wrt apart fs" "unat (ti_size t) \<le> length obj" "texts_ok tx" "row_ok row"
    and "\<forall>f \<in> set fs. bytes_at obj (unat (fi_offset f)) (field_storage_size f) = replicate (field_storage_size f) NUL"
  shows "(\<forall>f \<in> set fs. \<exists>col. column_for (take 64 row) (fi_name f) col \<and> column_kept to_double f col obj' tx') \<and>
    texts_step tx tx' \<and> length obj' = length obj \<and>
    (\<forall>j m. (\<forall>f \<in> set fs. j + m \<le> unat (fi_offset f) \<or> unat (fi_offset f) + field_storage_size f \<le> j) \<longrightarrow>
       bytes_at obj' j m = bytes_at obj j m)"
  using assms(1-4,6)
proof (induction fs arbitrary: obj tx)
  case Nil
  then show ?case by (simp add: texts_step_refl)
next
  case (Cons f fs)
  have sz: "unat (ti_size t) < 2 ^ 16" using unsigned_less [of "ti_size t", where 'a = nat] by simp
  obtain rc obj1 tx1 where r: "read_field to_double row f obj tx = (rc, obj1, tx1)" by (metis prod_cases3)
  have v: "field_slot_valid t f" and r0: "rc = 0" and rest: "row_fields to_double row t fs obj1 tx1 = (0, obj', tx')"
    using Cons.prems(1) r by (auto split: if_splits)
  note slot = slot_valid_ok [OF v]
  have rows: "row_ok (take 64 row)" using assms(5) unfolding row_ok_def by (meson in_set_takeD)
  have zf: "bytes_at obj (unat (fi_offset f)) (field_storage_size f) = replicate (field_storage_size f) NUL" using Cons.prems(5) by simp
  obtain col where col: "column_for (take 64 row) (fi_name f) col" "field_stored to_double f col obj tx obj1 tx1"
    using read_field_loop_stored [OF slot sz Cons.prems(3,4) rows zf r [unfolded r0 read_field_def]] by blast
  note st = col(2) [unfolded field_stored_def]
  have apart: "\<forall>g \<in> set fs. apart f g" "sorted_wrt apart fs" using Cons.prems(2) by simp_all
  have z1: "\<forall>g \<in> set fs. bytes_at obj1 (unat (fi_offset g)) (field_storage_size g) = replicate (field_storage_size g) NUL"
    using st apart(1) Cons.prems(5) unfolding apart_def by (metis list.set_intros(2))
  have ok1: "texts_ok tx1" using st by (simp add: texts_step_def)
  have len1: "unat (ti_size t) \<le> length obj1" using st Cons.prems(3) by simp
  note ih = Cons.IH [OF rest apart(2) len1 ok1 z1]
  have same: "bytes_at obj1 (unat (fi_offset f)) (field_storage_size f) = bytes_at obj' (unat (fi_offset f)) (field_storage_size f)"
    using ih apart(1) unfolding apart_def by metis
  have k1: "column_kept to_double f col obj1 tx1" and s0: "texts_step tx tx1" and s1: "texts_step tx1 tx'" using st ih by blast+
  note column_kept_agree [OF slot sz k1 same s1]
  then have "\<exists>col. column_for (take 64 row) (fi_name f) col \<and> column_kept to_double f col obj' tx'" using col(1) by blast
  moreover have "texts_step tx tx'" by (rule texts_step_trans [OF s0 s1])
  moreover have "length obj' = length obj" using st ih by simp
  moreover have "bytes_at obj' j m = bytes_at obj j m"
    if "\<forall>g \<in> set (f # fs). j + m \<le> unat (fi_offset g) \<or> unat (fi_offset g) + field_storage_size g \<le> j" for j m
  proof -
    have "bytes_at obj1 j m = bytes_at obj j m" using that st by (meson list.set_intros(1))
    then show ?thesis using that ih by simp
  qed
  ultimately show ?case using ih by simp
qed

lemma db_fields_apart:
  "db_fields_valid sz prior keys fs \<Longrightarrow> \<forall>g \<in> set prior. field_storage_size g = unat (fi_size g) \<Longrightarrow>
     sorted_wrt apart fs \<and> (\<forall>g \<in> set prior. \<forall>f \<in> set fs. apart g f) \<and>
     (\<forall>f \<in> set fs. field_storage_size f = unat (fi_size f) \<and> unat (fi_offset f) + field_storage_size f \<le> unat sz)"
proof (induction fs arbitrary: prior keys)
  case (Cons f fs)
  define key where "key = has_flag (fi_flags f) FIELD_PRIMARY_KEY"
  have f: "field_storage_size f = unat (fi_size f)" "unat (fi_offset f) + field_storage_size f \<le> unat sz"
    "\<forall>g \<in> set prior. \<not> spans_overlap f g" "db_fields_valid sz (prior @ [f]) (if key then keys + 1 else keys) fs"
    using Cons.prems(1) by (auto simp: Let_def list_all_iff key_def)
  have ih: "sorted_wrt apart fs" "\<forall>g \<in> set (prior @ [f]). \<forall>h \<in> set fs. apart g h"
    "\<forall>h \<in> set fs. field_storage_size h = unat (fi_size h) \<and> unat (fi_offset h) + field_storage_size h \<le> unat sz"
    using Cons.IH [OF f(4)] Cons.prems(2) f(1) by auto
  have "apart g f" if "g \<in> set prior" for g
    using f(1,3) Cons.prems(2) that unfolding apart_def spans_overlap_def by (metis linorder_not_less)
  then show ?case using ih f(1,2) by auto
qed simp

text \<open>Reading a row never touches a byte outside the structure, successful or not.\<close>

lemma read_column_beyond:
  assumes "slot_ok f n" "n < 2 ^ 16" "n \<le> length obj"
    and "read_column to_double (field_scalar f) col obj tx = (rc, obj1, tx1)"
  shows "kept_beyond n obj obj1"
proof -
  have w: "kept_beyond n obj (write_bytes obj (unat (fi_offset (field_scalar f))) bs)" if "length bs = scalar_size (fi_kind f)" for bs
    by (rule write_bytes_beyond) (use scalar_inside(4) [OF assms(1,2)] assms(1,3) that in \<open>simp_all add: slot_ok_def\<close>)
  show ?thesis
    using assms(4) w scalar_inside(2) [OF assms(1,2)]
    by (cases "fi_kind f")
      (auto simp: read_column_def read_text_column_def read_integer_column_def read_double_column_def scalar_size_def
        write_str_def write_int_def write_long_def write_bool_def write_double_def split: Column.splits if_splits option.splits prod.splits)
qed

lemma read_field_loop_beyond:
  assumes "slot_ok f n" "n < 2 ^ 16"
  shows "n \<le> length obj \<Longrightarrow> read_field_loop to_double f cols found obj tx = (rc, obj', tx') \<Longrightarrow> kept_beyond n obj obj'"
proof (induction cols arbitrary: found obj tx)
  case (Cons c cols)
  obtain name col where c: "c = (name, col)" by (cases c)
  obtain rc1 obj1 tx1 where r: "read_column to_double (field_scalar f) col obj tx = (rc1, obj1, tx1)" by (metis prod_cases3)
  have b: "kept_beyond n obj obj1" by (rule read_column_beyond [OF assms Cons.prems(1) r])
  then have b2: "kept_beyond n obj (field_set_present f obj1)"
    using kept_beyond_trans [OF b field_set_present_beyond [OF assms(1)]] Cons.prems(1) by (simp add: kept_beyond_def)
  have l2: "n \<le> length (field_set_present f obj1)" using b2 Cons.prems(1) by (simp add: kept_beyond_def)
  show ?case
    using Cons.prems(2) c r b kept_beyond_trans [OF b2 Cons.IH [OF l2]] Cons.IH [OF Cons.prems(1)] by (auto split: if_splits)
qed simp

lemma row_fields_beyond:
  "unat (ti_size t) \<le> length obj \<Longrightarrow> row_fields to_double row t fs obj tx = (rc, obj', tx') \<Longrightarrow> kept_beyond (unat (ti_size t)) obj obj'"
proof (induction fs arbitrary: obj tx)
  case (Cons f fs)
  have sz: "unat (ti_size t) < 2 ^ 16" using unsigned_less [of "ti_size t", where 'a = nat] by simp
  obtain rc1 obj1 tx1 where r: "read_field to_double row f obj tx = (rc1, obj1, tx1)" by (metis prod_cases3)
  show ?case
  proof (cases "field_slot_valid t f")
    case True
    have b: "kept_beyond (unat (ti_size t)) obj obj1"
      by (rule read_field_loop_beyond [OF slot_valid_ok [OF True] sz Cons.prems(1) r [unfolded read_field_def]])
    then have l: "unat (ti_size t) \<le> length obj1" using Cons.prems(1) by (simp add: kept_beyond_def)
    show ?thesis using Cons.prems(2) r True b kept_beyond_trans [OF b Cons.IH [OF l]] by (auto split: if_splits)
  next
    case False
    then show ?thesis using Cons.prems(2) by simp
  qed
qed simp

lemma row_to_struct_beyond:
  assumes "unat (ti_size t) \<le> length obj" "row_to_struct to_double row t obj tx = (rc, obj', tx')"
  shows "kept_beyond (unat (ti_size t)) obj obj'"
proof -
  let ?z = "write_bytes obj 0 (replicate (unat (ti_size t)) NUL)"
  have z: "kept_beyond (unat (ti_size t)) obj ?z" by (rule write_bytes_beyond) (use assms(1) in simp_all)
  then have l: "unat (ti_size t) \<le> length ?z" using assms(1) by (simp add: kept_beyond_def)
  show ?thesis
    using assms(2) kept_beyond_trans [OF z row_fields_beyond [OF l]]
    by (auto simp: row_to_struct_def split: option.splits if_splits)
qed

lemma row_to_struct_stored:
  assumes "db_type_valid (Some t)" "ti_fields t = Some fs" "unat (ti_size t) \<le> length obj" "texts_ok tx" "row_ok row"
    and "row_to_struct to_double row t obj tx = (0, obj', tx')"
  shows "\<forall>f \<in> set fs. \<exists>col. column_for (take 64 row) (fi_name f) col \<and> column_stored to_double f col obj' (tx_at tx')"
proof -
  let ?n = "unat (ti_size t)"
  let ?z = "write_bytes obj 0 (replicate ?n NUL)"
  have v: "db_fields_valid (ti_size t) [] 0 fs" "length fs \<le> 64" using assms(1,2) by (simp_all add: db_type_valid_def)
  note ap = db_fields_apart [OF v(1), simplified]
  have rf: "row_fields to_double row t fs ?z tx = (0, obj', tx')"
    using assms(2,6) v(2) by (simp add: row_to_struct_def split: if_splits)
  have "bytes_at ?z (unat (fi_offset f)) (field_storage_size f) = replicate (field_storage_size f) NUL" if "f \<in> set fs" for f
  proof -
    have "unat (fi_offset f) + field_storage_size f \<le> ?n" using ap that by blast
    then have "bytes_at ?z (unat (fi_offset f)) (field_storage_size f) =
        bytes_at (replicate ?n NUL) (unat (fi_offset f)) (field_storage_size f)"
      by (simp add: bytes_at_def write_bytes_def)
    also have "\<dots> = replicate (field_storage_size f) NUL"
      using \<open>unat (fi_offset f) + field_storage_size f \<le> ?n\<close> by (simp add: bytes_at_def min_def)
    finally show ?thesis .
  qed
  then have z: "\<forall>f \<in> set fs. bytes_at ?z (unat (fi_offset f)) (field_storage_size f) = replicate (field_storage_size f) NUL"
    by blast
  have l: "?n \<le> length ?z" using assms(3) by simp
  show ?thesis
    using row_fields_stored [OF rf conjunct1 [OF ap] l assms(4,5) z] by (auto simp: column_kept_def)
qed

text \<open>The rows of a query stay inside the array of the caller.\<close>

lemma query_rows_in_bounds:
  "(count + n) * unat (ti_size t) \<le> length rows \<Longrightarrow>
   query_rows api row_of to_double t n count rc st c rows tx = (code, count', rows', tx', c') \<Longrightarrow>
     count \<le> count' \<and> count' \<le> count + n \<and> kept_beyond ((count + n) * unat (ti_size t)) rows rows'"
proof (induction n arbitrary: count rc st c rows tx)
  case (Suc n)
  let ?sz = "unat (ti_size t)"
  obtain code1 st1 c1 where step: "sq_step api st c = (code1, st1, c1)" by (metis prod_cases3)
  obtain bad obj tx1 where r: "row_to_struct to_double (row_of st1) t (drop (count * ?sz) rows) tx = (bad, obj, tx1)" by (metis prod_cases3)
  let ?rows1 = "take (count * ?sz) rows @ obj"
  have room: "count * ?sz + ?sz + n * ?sz \<le> length rows" using Suc.prems(1) by (simp add: algebra_simps)
  have "kept_beyond ?sz (drop (count * ?sz) rows) obj" by (rule row_to_struct_beyond [OF _ r]) (use room in simp)
  then have "kept_beyond (count * ?sz + ?sz) rows ?rows1" by (rule kept_beyond_at) (use room in simp)
  then have b: "kept_beyond ((count + Suc n) * ?sz) rows ?rows1" by (rule kept_beyond_mono) (simp add: algebra_simps)
  then have l1: "(Suc count + n) * ?sz \<le> length ?rows1" using Suc.prems(1) by (simp add: kept_beyond_def)
  show ?case
  proof (cases "code1 = SQLITE_ROW \<and> bad = 0")
    case True
    then have "query_rows api row_of to_double t n (Suc count) SQLITE_ROW st1 c1 ?rows1 tx1 = (code, count', rows', tx', c')"
      using Suc.prems(2) step r by (simp add: Let_def)
    from Suc.IH [OF l1 this] show ?thesis using kept_beyond_trans [OF b] by simp
  next
    case False
    then show ?thesis using Suc.prems(2) step r b by (auto simp: Let_def split: if_splits)
  qed
qed simp

lemma db_query_many_safe:
  assumes "session_ok s" "nat mx * unat (ti_size t) \<le> length mem"
    and "db_query_many api row_of to_double busy_ms tries (Some t) (Some mem) mx sql args tx s = (n, out, tx', s')"
  shows "session_ok s' \<and> t_depth s' = t_depth s \<and> - 1 \<le> n \<and> n \<le> max (- 1) mx \<and>
    (\<exists>m. out = Some m \<and> kept_beyond (nat mx * unat (ti_size t)) mem m)"
proof (cases "sql = None \<or> \<not> db_type_valid (Some t) \<or> length args > DB_MAX_ARGS \<or> mx \<le> 0 \<or> mx > SQLITE_MAX_ROWS")
  case True
  then show ?thesis using assms(1,3) by (auto simp: db_query_many_def split: option.splits if_splits)
next
  case False
  then obtain q where q: "sql = Some q" "db_type_valid (Some t)" "\<not> length args > DB_MAX_ARGS" "\<not> mx \<le> 0" "\<not> mx > SQLITE_MAX_ROWS" by auto
  obtain rc1 s1 where l: "db_lock busy_ms tries s = (rc1, s1)" by fastforce
  note lo = db_lock_outcome [OF l assms(1)]
  show ?thesis
  proof (cases "rc1 = 0")
    case False
    then show ?thesis using assms(3) q l lo by (auto simp: db_query_many_def)
  next
    case True
    then have h: "held s1" "t_depth s1 = t_depth s" using lo by auto
    obtain st s2 where p: "prepare_statement api q args s1 = (st, s2)" by fastforce
    note pf = prepare_frame [OF p]
    have h2: "held s2" "t_depth s2 = t_depth s" using h pf by (simp_all add: held_def)
    show ?thesis
    proof (cases "st = None \<or> g_db s2 = None")
      case True
      then have "n = - 1 \<and> out = Some mem \<and> s' = db_unlock s2"
        using assms(3) q l p \<open>rc1 = 0\<close> by (auto simp: db_query_many_def split: option.splits)
      then show ?thesis using held_unlock [OF h2(1)] h2 q by (simp add: db_frame)
    next
      case False
      then obtain stm c where sc: "st = Some stm" "g_db s2 = Some c" by auto
      obtain code count mem1 tx1 c1 where run: "query_rows api row_of to_double t (nat mx) 0 SQLITE_ROW stm c mem tx = (code, count, mem1, tx1, c1)"
        by (metis prod_cases5)
      have b: "count \<le> nat mx" "kept_beyond (nat mx * unat (ti_size t)) mem mem1"
        using query_rows_in_bounds [OF _ run] assms(2) by simp_all
      let ?s3 = "s2\<lparr>g_db := Some c1\<rparr>"
      have h3: "held ?s3" "held (mark_failed ?s3)" "held (db_failure api ?s3)"
        using h2(1) by (simp_all add: held_def db_frame)
      have out: "out = Some mem1" "n = - 1 \<or> n = int count"
        "s' = db_unlock (mark_failed ?s3) \<or> s' = mark_failed (db_unlock (db_failure api ?s3)) \<or> s' = db_unlock ?s3"
        using assms(3) q l p \<open>rc1 = 0\<close> sc run by (auto simp: db_query_many_def Let_def split: option.splits if_splits)
      have ok: "session_ok (mark_failed x) = session_ok x" for x :: "('a, 'd) Session_scheme"
        by (simp add: session_ok_def db_frame)
      have "session_ok s' \<and> t_depth s' = t_depth s"
        using out(3) h3 [THEN held_unlock] h2(2) ok by (auto simp: db_frame)
      then show ?thesis using out(1,2) b q(4) by auto
    qed
  qed
qed


section \<open>The promises\<close>

text \<open>C14: A row becomes the structure it stands for. When \<open>row_to_struct\<close> succeeds on a type the database accepts,
  every field has exactly one column of its name among the first 64, and reading the field back from the bytes of
  the structure gives that column: a null for SQL NULL, the integer, the number, the truth value, the text that
  was copied to the arena. Fields do not disturb one another, and no byte beyond the structure changes.\<close>

theorem row_to_struct_correct:
  assumes "db_type_valid (Some t)" "ti_fields t = Some fs" "unat (ti_size t) \<le> length obj" "texts_ok tx" "row_ok row"
    and "row_to_struct to_double row t obj tx = (0, obj', tx')"
  shows "(\<forall>f \<in> set fs. \<exists>col. column_for (take 64 row) (fi_name f) col \<and> column_stored to_double f col obj' (tx_at tx')) \<and>
    length obj' = length obj \<and> drop (unat (ti_size t)) obj' = drop (unat (ti_size t)) obj"
  using row_to_struct_stored [OF assms] row_to_struct_beyond [OF assms(3,6)] by (simp add: kept_beyond_def)

definition demo_note :: FieldInfo where
  "demo_note = FieldInfo (Some ''note'') FIELD_STR 8 8 0 None None None no_rules"

definition demo_row_type :: TypeInfo where
  "demo_row_type = TypeInfo (Some ''Note'') 16 (Some
     [FieldInfo (Some ''id'') FIELD_INT 0 4 FIELD_PRIMARY_KEY None None None no_rules, demo_note])"

definition demo_texts :: Texts where
  "demo_texts = \<lparr>tx_next = [Some 64], tx_at = (\<lambda>p. [])\<rparr>"

definition demo_columns :: Row where
  "demo_columns = [(Some ''note'', Col_text (Some ''hi'')), (Some ''id'', Col_integer 7)]"

lemma demo_row_type_valid: "db_type_valid (Some demo_row_type)"
  by (simp add: db_type_valid_def demo_row_type_def demo_note_def is_safe_identifier_def ident_start_def ident_char_def is_upper_def
      is_lower_def byte_def field_storage_size_def has_flag_def spans_overlap_def Let_def)

lemmas demo_row_run = row_to_struct_def demo_row_type_def demo_note_def demo_columns_def demo_texts_def field_slot_valid_def
  field_storage_size_def has_flag_def Let_def read_field_def read_column_def read_integer_column_def read_text_column_def
  field_scalar_def arena_intern_def cstr_def

lemma demo_row_fits: "fst (row_to_struct (\<lambda>i. 0) demo_columns demo_row_type obj demo_texts) = 0"
  by (simp add: demo_row_run)

theorem row_to_struct_correct_witness:
  "\<exists>obj' tx'. row_to_struct (\<lambda>i. 0) demo_columns demo_row_type (replicate 20 (CHR ''x'')) demo_texts = (0, obj', tx') \<and>
     tx_at tx' (unat (read_str obj' 8)) = ''hi'' \<and> drop 16 obj' = ''xxxx''"
proof -
  obtain obj' tx' where r: "row_to_struct (\<lambda>i. 0) demo_columns demo_row_type (replicate 20 (CHR ''x'')) demo_texts = (0, obj', tx')"
    using demo_row_fits by (metis prod.collapse)
  have "texts_ok demo_texts" "row_ok demo_columns"
    by (simp_all add: demo_texts_def texts_ok_def addrs_def map_filter_simps demo_columns_def row_ok_def)
  moreover have "ti_fields demo_row_type = Some [FieldInfo (Some ''id'') FIELD_INT 0 4 FIELD_PRIMARY_KEY None None None no_rules, demo_note]"
    "unat (ti_size demo_row_type) = 16"
    by (simp_all add: demo_row_type_def)
  ultimately have c: "\<exists>col. column_for (take 64 demo_columns) (fi_name demo_note) col \<and> column_stored (\<lambda>i. 0) demo_note col obj' (tx_at tx')"
    "drop 16 obj' = drop 16 (replicate 20 (CHR ''x''))"
    using row_to_struct_correct [OF demo_row_type_valid _ _ _ _ r] by simp_all
  then obtain col where col: "column_for demo_columns (Some ''note'') col" "column_stored (\<lambda>i. 0) demo_note col obj' (tx_at tx')"
    by (auto simp: demo_note_def demo_columns_def)
  have "(Some ''note'', col) \<in> set demo_columns" using col(1) by (metis column_for_def in_set_conv_decomp)
  then have "col = Col_text (Some ''hi'')" by (simp add: demo_columns_def)
  then have "tx_at tx' (unat (read_str obj' 8)) = ''hi''"
    using col(2) by (simp add: column_stored_def demo_note_def field_scalar_def has_flag_def)
  then show ?thesis using r c(2) by (simp add: numeral_eq_Suc)
qed

text \<open>C16: A query never writes outside the array it was given. Whatever SQLite answers, \<open>db_query_many\<close> returns -1
  or a number of rows up to the maximum asked for, changes no byte beyond that many structures and keeps the
  length of the memory, and gives the connection lock back exactly when no transaction is open.\<close>

theorem db_query_many_in_bounds:
  assumes "session_ok s" "nat mx * unat (ti_size t) \<le> length mem"
    and "db_query_many api row_of to_double busy_ms tries (Some t) (Some mem) mx sql args tx s = (n, out, tx', s')"
  shows "- 1 \<le> n \<and> n \<le> max (- 1) mx \<and> session_ok s' \<and> t_depth s' = t_depth s \<and>
    (\<exists>m. out = Some m \<and> length m = length mem \<and> drop (nat mx * unat (ti_size t)) m = drop (nat mx * unat (ti_size t)) mem)"
  using db_query_many_safe [OF assms] unfolding kept_beyond_def by blast

definition demo_row_api :: "(bool \<times> nat, string) Sqlite" where
  "demo_row_api = demo_api\<lparr>sq_step := (\<lambda>st (tx, n). if n < 1 then (100, st, (tx, n + 1)) else (101, st, (tx, n)))\<rparr>"

lemma demo_query_rows:
  "\<exists>rows tx. query_rows demo_row_api (\<lambda>st. demo_columns) (\<lambda>i. 0) demo_row_type (nat 2) 0 SQLITE_ROW st (False, 0) mem demo_texts =
     (Some 101, 1, rows, tx, (False, 1))"
proof -
  obtain obj tx1 where "row_to_struct (\<lambda>i. 0) demo_columns demo_row_type mem demo_texts = (0, obj, tx1)"
    using demo_row_fits by (metis prod.collapse)
  then have "query_rows demo_row_api (\<lambda>st. demo_columns) (\<lambda>i. 0) demo_row_type (Suc (Suc 0)) 0 SQLITE_ROW st (False, 0) mem demo_texts =
      (Some 101, 1, obj, tx1, (False, 1))"
    by (simp add: demo_row_api_def Let_def)
  moreover have "nat 2 = Suc (Suc 0)" by simp
  ultimately show ?thesis by metis
qed

theorem db_query_many_in_bounds_witness:
  "\<exists>n m tx' s'. db_query_many demo_row_api (\<lambda>st. demo_columns) (\<lambda>i. 0) 0 (Some [Try_ok]) (Some demo_row_type)
       (Some (replicate 40 (CHR ''x''))) 2 (Some ''SELECT'') [] demo_texts demo_session = (n, Some m, tx', s') \<and>
     n = 1 \<and> length m = 40 \<and> \<not> db_locked s'"
proof -
  define r where "r = db_query_many demo_row_api (\<lambda>st. demo_columns) (\<lambda>i. 0) 0 (Some [Try_ok]) (Some demo_row_type)
       (Some (replicate 40 (CHR ''x''))) 2 (Some ''SELECT'') [] demo_texts demo_session"
  obtain n out tx' s' where d: "r = (n, out, tx', s')" by (metis prod_cases4)
  have "fst r = 1"
    using demo_query_rows [of "''SELECT''" "replicate 40 (CHR ''x'')"] unfolding r_def
    by (auto simp add: db_query_many_def demo_row_type_valid db_lock_def demo_session_def prepare_statement_def demo_row_api_def
        demo_api_def Let_def)
  moreover have "session_ok demo_session" "t_depth demo_session = 0" by (simp_all add: demo_session_def session_ok_def)
  moreover have "nat 2 * unat (ti_size demo_row_type) \<le> length (replicate 40 (CHR ''x''))" by (simp add: demo_row_type_def)
  ultimately have "session_ok s'" "t_depth s' = 0" "\<exists>m. out = Some m \<and> length m = 40"
    using db_query_many_in_bounds [OF _ _ d [unfolded r_def]] by (force)+
  then show ?thesis using d \<open>fst r = 1\<close> unfolding r_def by (auto simp: session_ok_def)
qed

end
