(* ===== verification/Json_Spans.thy ===== *)
theory Json_Spans
  imports Json_Keys
begin

text \<open>
  The spans of the tokens of a document: two tokens of one container lie one after the other in the text, a
  string with its closing quote. So a decoder that works in place on one value leaves the others alone.
\<close>

section \<open>Tokens end before the next one starts\<close>

abbreviation tok_from :: "JsonToken \<Rightarrow> nat" where "tok_from t \<equiv> nat (tk_start t)"
abbreviation tok_upto :: "JsonToken \<Rightarrow> nat" where "tok_upto t \<equiv> nat (tk_end t)"

definition ended :: "JsonToken \<Rightarrow> int \<Rightarrow> bool" where
  "ended t x \<longleftrightarrow> tk_end t \<le> x \<and> (tk_type t = JSON_STR \<longrightarrow> tk_end t < x)"

text \<open>A token is inside every token that was open when it was made; the others have ended.\<close>

definition order_inv :: "nat set \<Rightarrow> nat \<Rightarrow> JsonToken list \<Rightarrow> bool" where
  "order_inv opn pos toks \<longleftrightarrow>
     (\<forall>j<length toks. \<forall>i<j. int i \<le> tk_parent (toks ! j) \<or> (i \<notin> opn \<and> ended (toks ! i) (tk_start (toks ! j)))) \<and>
     (\<forall>i<length toks. i \<notin> opn \<longrightarrow> ended (toks ! i) (int pos))"

lemma order_later: "order_inv opn pos toks \<Longrightarrow> pos \<le> pos' \<Longrightarrow> order_inv opn pos' toks"
  unfolding order_inv_def ended_def by fastforce

lemma order_snoc:
  assumes "order_inv opn pos toks" "opn \<subseteq> {..<length toks}" "\<forall>i \<in> opn. int i \<le> tk_parent t" "int pos \<le> tk_start t" "pos \<le> pos'"
    and "opn' = opn \<and> ended t (int pos') \<or> opn' = insert (length toks) opn"
  shows "order_inv opn' pos' (toks @ [t])"
proof -
  let ?n = "length toks"
  have same: "i \<in> opn' \<longleftrightarrow> i \<in> opn" if "i < ?n" for i using assms(6) that by auto
  have "int i \<le> tk_parent ((toks @ [t]) ! j) \<or> (i \<notin> opn' \<and> ended ((toks @ [t]) ! i) (tk_start ((toks @ [t]) ! j)))"
    if "j < Suc ?n" "i < j" for i j
  proof (cases "j < ?n")
    case True
    then show ?thesis using assms(1) that same [of i] by (simp add: order_inv_def nth_append)
  next
    case False
    then have j: "j = ?n" "i < ?n" using that by simp_all
    show ?thesis
    proof (cases "i \<in> opn")
      case True
      then show ?thesis using assms(3) j by simp
    next
      case False
      then have "ended (toks ! i) (int pos)" using assms(1) j(2) by (simp add: order_inv_def)
      then have "ended (toks ! i) (tk_start t)" using assms(4) by (auto simp: ended_def)
      then show ?thesis using j False same [of i] by (simp add: nth_append)
    qed
  qed
  moreover have "ended ((toks @ [t]) ! i) (int pos')" if "i < Suc ?n" "i \<notin> opn'" for i
  proof (cases "i < ?n")
    case True
    then have "ended (toks ! i) (int pos)" using assms(1) that(2) same [of i] by (simp add: order_inv_def)
    then show ?thesis using True assms(5) by (auto simp: nth_append ended_def)
  next
    case False
    then have "i = ?n" using that(1) by simp
    then show ?thesis using assms(6) that(2) by auto
  qed
  ultimately show ?thesis by (simp add: order_inv_def)
qed

lemma order_close:
  assumes "order_inv opn pos toks" "f \<in> opn" "f < length toks" "container (toks ! f)"
  shows "order_inv (opn - {f}) (pos + 1) (toks[f := (toks ! f)\<lparr>tk_end := int (pos + 1)\<rparr>])"
proof -
  let ?ts = "toks[f := (toks ! f)\<lparr>tk_end := int (pos + 1)\<rparr>]"
  have nth: "tk_parent (?ts ! k) = tk_parent (toks ! k)" "tk_start (?ts ! k) = tk_start (toks ! k)" if "k < length toks" for k
    using that by (cases "k = f"; simp)+
  have "int i \<le> tk_parent (?ts ! j) \<or> (i \<notin> opn - {f} \<and> ended (?ts ! i) (tk_start (?ts ! j)))" if "j < length toks" "i < j" for i j
  proof (cases "i = f")
    case True
    then have "int i \<le> tk_parent (toks ! j)" using assms(1,2) that by (auto simp: order_inv_def)
    then show ?thesis using nth that by simp
  next
    case False
    then show ?thesis using assms(1) that nth [of j] by (auto simp: order_inv_def)
  qed
  moreover have "ended (?ts ! i) (int (pos + 1))" if "i < length toks" "i \<notin> opn - {f}" for i
  proof (cases "i = f")
    case True
    then show ?thesis using assms(3,4) by (auto simp: ended_def container_def)
  next
    case False
    then have "ended (toks ! i) (int pos)" using assms(1) that by (simp add: order_inv_def)
    then show ?thesis using False by (auto simp: ended_def)
  qed
  ultimately show ?thesis by (simp add: order_inv_def)
qed

abbreviation scan_order :: "Scan \<Rightarrow> bool" where
  "scan_order sc \<equiv> order_inv (open_tokens sc) (sc_at sc) (sc_toks sc)"

lemma token_string_order:
  assumes "token_string js (sc_at sc) mx p (sc_toks sc) = Some (pos, toks)" "scan_order sc"
    and "open_tokens sc \<subseteq> {..<length (sc_toks sc)}" "\<forall>i \<in> open_tokens sc. int i \<le> p"
  shows "order_inv (open_tokens sc) pos toks"
proof -
  obtain j where j: "string_end js (sc_at sc + 1) = Some j" "pos = j + 1"
      "toks = sc_toks sc @ [\<lparr>tk_type = JSON_STR, tk_start = int (sc_at sc + 1), tk_end = int j, tk_parent = p\<rparr>]"
    using assms(1) unfolding token_string_Some by blast
  show ?thesis unfolding j(3)
    by (rule order_snoc [OF assms(2,3)]) (use string_end_Some [OF j(1)] j(2) assms(4) in \<open>auto simp: ended_def\<close>)
qed

lemma scan_value_order:
  assumes "scan_value js mx p sc = Some sc'" "scan_order sc" "open_tokens sc \<subseteq> {..<length (sc_toks sc)}"
    and "\<forall>i \<in> open_tokens sc. int i \<le> p"
  shows "scan_order sc'"
proof -
  consider pos toks where "token_string js (sc_at sc) mx p (sc_toks sc) = Some (pos, toks)" "sc' = sc\<lparr>sc_at := pos, sc_toks := toks\<rparr>"
    | pos toks where "token_primitive js (sc_at sc) mx p (sc_toks sc) = Some (pos, toks)" "sc' = sc\<lparr>sc_at := pos, sc_toks := toks\<rparr>"
    | ty toks where "token_alloc mx ty (sc_at sc) p (sc_toks sc) = Some toks"
        "sc' = sc\<lparr>sc_toks := toks, sc_at := sc_at sc + 1, sc_stack := new_frame (length (sc_toks sc)) ty # sc_stack sc\<rparr>"
    using assms(1) by (auto simp: scan_value_def Let_def new_frame_fold split: if_splits option.splits)
  then show ?thesis
  proof cases
    case 1
    then show ?thesis using token_string_order [OF 1(1) assms(2-4)] by simp
  next
    case 2
    note t = token_primitive_Some [OF 2(1)]
    have "order_inv (open_tokens sc) pos toks"
      unfolding conjunct2 [OF conjunct2 [OF conjunct2 [OF t]]]
      by (rule order_snoc [OF assms(2,3)]) (use t assms(4) in \<open>auto simp: ended_def\<close>)
    then show ?thesis using 2(2) by simp
  next
    case 3
    have "toks = sc_toks sc @ [\<lparr>tk_type = ty, tk_start = int (sc_at sc), tk_end = - 1, tk_parent = p\<rparr>]"
      using 3(1) by (simp add: result_iff)
    moreover have "order_inv (insert (length (sc_toks sc)) (open_tokens sc)) (sc_at sc + 1)
        (sc_toks sc @ [\<lparr>tk_type = ty, tk_start = int (sc_at sc), tk_end = - 1, tk_parent = p\<rparr>])"
      by (rule order_snoc [OF assms(2,3)]) (use assms(4) in auto)
    ultimately show ?thesis using 3(2) by (simp add: new_frame_def)
  qed
qed

lemma close_container_order:
  assumes "scan_inv mx sc" "sc_stack sc = f # fs" "scan_order sc"
  shows "scan_order (close_container f sc)"
proof -
  have s: "tok_inv (open_tokens sc) (sc_at sc) (sc_toks sc)" "\<forall>g \<in> set fs. fr_token g < fr_token f"
      "fr_token f < length (sc_toks sc)"
    using assms by (auto simp: scan_inv_def)
  then have o: "open_tokens sc - {fr_token f} = fr_token ` set fs" using assms(2) by force
  have "fr_token f \<in> open_tokens sc" using assms(2) by simp
  moreover from this have "container (sc_toks sc ! fr_token f)" using s(1,3) by (simp add: tok_inv_def extent_ok_def)
  ultimately have "order_inv (open_tokens sc - {fr_token f}) (sc_at sc + 1)
      ((sc_toks sc)[fr_token f := (sc_toks sc ! fr_token f)\<lparr>tk_end := int (sc_at sc + 1)\<rparr>])"
    by (intro order_close [OF assms(3)]) (use s(3) in auto)
  then show ?thesis using assms(2) o by (auto simp: close_container_def Let_def)
qed

lemma scan_frame_order:
  assumes "scan_frame js mx sc = Some sc'" "scan_inv mx sc" "sc_stack sc = f # fs" "scan_order sc"
  shows "scan_order sc'"
proof -
  have sub: "open_tokens sc \<subseteq> {..<length (sc_toks sc)}" using assms(2) by (simp add: scan_inv_def)
  have top: "\<forall>i \<in> open_tokens sc. int i \<le> int (fr_token f)" using assms(2,3) by (auto simp: scan_inv_def)
  have v: "scan_order sc'" if "scan_value js mx (int (fr_token f)) (set_state st sc) = Some sc'" for st
    by (rule scan_value_order [OF that]) (use assms(4) sub top in simp_all)
  have c: "scan_order (close_container f sc)" by (rule close_container_order [OF assms(2-4)])
  have later: "scan_order ((set_state st sc)\<lparr>sc_at := Suc (sc_at sc)\<rparr>)" for st
    using order_later [OF assms(4)] by simp
  have k: "scan_order sc'" if key: "scan_object_key js mx f sc = Some sc'"
  proof -
    consider "sc' = close_container f sc"
      | pos toks where "token_string js (sc_at sc) mx (int (fr_token f)) (sc_toks sc) = Some (pos, toks)"
        "sc_toks sc' = toks" "sc_at sc' = pos" "open_tokens sc' = open_tokens sc"
      using key assms(3) by (auto simp: scan_object_key_def Let_def split: if_splits option.splits)
    then show ?thesis using c token_string_order [OF _ assms(4) sub top] by cases simp_all
  qed
  have a: "scan_order sc'" if "scan_array_element js mx f sc = Some sc'"
    using that c v by (auto simp: scan_array_element_def split: if_splits)
  have s: "scan_order sc'" if "scan_separator js f ch nxt sc = Some sc'" for ch nxt
    using that c later by (auto simp: scan_separator_def split: if_splits)
  show ?thesis
    using assms(1,3) v k a s later
    by (cases "fr_state f") (auto simp: scan_frame_def Let_def split: if_splits)
qed

lemma json_parse_order:
  assumes "json_parse js mx = Some toks"
  shows "\<forall>j<length toks. \<forall>i<j. int i \<le> tk_parent (toks ! j) \<or> ended (toks ! i) (tk_start (toks ! j))"
proof -
  obtain sc where sc: "json_loop js mx False scan_start = Some (True, sc)" "sc_stack sc = []" "toks = sc_toks sc"
    by (rule json_parse_Some [OF assms])
  define I where "I = (\<lambda>seen sc. parse_inv mx seen sc \<and> scan_order sc)"
  have "I True sc"
  proof (rule json_loop_invariant [OF sc(1)], goal_cases)
    case 1
    then show ?case using parse_inv_start by (simp add: I_def scan_start_def order_inv_def)
  next
    case (2 seen sc pos)
    then show ?case using order_later by (auto simp: I_def parse_inv_def scan_inv_at)
  next
    case (3 sc sc' d)
    then have "parse_inv mx False sc" "sc_toks sc = []" "scan_order sc" by (auto simp: I_def parse_inv_def)
    moreover have "scan_inv mx sc'"
      by (rule scan_value_inv [OF 3(3)]) (use calculation 3(2) in \<open>auto simp: parse_inv_def new_parent_def\<close>)
    moreover have "scan_order sc'" by (rule scan_value_order [OF 3(3)]) (use calculation 3(2) in auto)
    ultimately show ?case using scan_value_grows [OF 3(3)] by (auto simp: I_def parse_inv_def scan_inv_def)
  next
    case (4 seen sc sc')
    then obtain f fs where f: "sc_stack sc = f # fs" by (cases "sc_stack sc") auto
    have i: "scan_inv mx sc" "scan_order sc" "parse_inv mx seen sc" using 4(1) by (auto simp: I_def parse_inv_def)
    have "scan_inv mx sc'" "scan_order sc'" "sc_toks sc \<noteq> [] \<longrightarrow> sc_toks sc' \<noteq> []"
      using scan_frame_inv [OF 4(4) i(1) f] scan_frame_order [OF 4(4) i(1) f i(2)] scan_frame_toks [OF 4(4)] by blast+
    then show ?case using i(3) 4(2) by (auto simp: I_def parse_inv_def)
  qed
  then show ?thesis using sc(2,3) by (auto simp: I_def order_inv_def)
qed

lemma token_span:
  assumes "json_parse js mx = Some toks" "k < length toks"
  shows "0 \<le> tk_start (toks ! k)" "tk_start (toks ! k) \<le> tk_end (toks ! k)" "tok_upto (toks ! k) \<le> length js"
    "tk_parent (toks ! k) = int p \<Longrightarrow> tk_start (toks ! p) < tk_start (toks ! k) \<and> tk_end (toks ! k) < tk_end (toks ! p)"
proof -
  obtain sc where sc: "json_loop js mx False scan_start = Some (True, sc)" "sc_stack sc = []" "toks = sc_toks sc"
    by (rule json_parse_Some [OF assms(1)])
  have at: "sc_at sc \<le> length js"
    by (rule json_loop_invariant [OF sc(1), where I = "\<lambda>_ sc. sc_at sc \<le> length js"])
      (auto simp: scan_start_def dest: scan_value_progress scan_frame_progress)
  have "extent_ok {} (sc_at sc) toks k" "parent_ok {} toks k"
    using parse_inv_loop [OF sc(1)] sc(2,3) assms(2) by (auto simp: parse_inv_def scan_inv_def tok_inv_def)
  then show "0 \<le> tk_start (toks ! k)" "tk_start (toks ! k) \<le> tk_end (toks ! k)" "tok_upto (toks ! k) \<le> length js"
    "tk_parent (toks ! k) = int p \<Longrightarrow> tk_start (toks ! p) < tk_start (toks ! k) \<and> tk_end (toks ! k) < tk_end (toks ! p)"
    using at by (auto simp: extent_ok_def parent_ok_def)
qed

text \<open>Tokens of one container: one after the other.\<close>

lemma siblings_apart:
  assumes "json_parse js mx = Some toks" "i < j" "j < length toks" "tk_parent (toks ! i) = int p" "tk_parent (toks ! j) = int p"
  shows "ended (toks ! i) (tk_start (toks ! j))"
proof -
  have "int p < int i" using json_parse_below [OF assms(1)] assms(2-4) unfolding parents_below_def by (metis less_trans)
  then show ?thesis using json_parse_order [OF assms(1)] assms(2,3,5) by fastforce
qed


section \<open>What a token says depends on its span\<close>

definition same_at :: "string \<Rightarrow> string \<Rightarrow> nat \<Rightarrow> nat \<Rightarrow> bool" where
  "same_at x y a b \<longleftrightarrow> length x = length y \<and> (\<forall>i. a \<le> i \<and> i < b \<longrightarrow> x ! i = y ! i)"

lemma same_at_refl [simp]: "same_at x x a b"
  by (simp add: same_at_def)

lemma same_at_trans: "same_at x y a b \<Longrightarrow> same_at y z a b \<Longrightarrow> same_at x z a b"
  by (simp add: same_at_def)

lemma same_at_mono: "same_at x y a b \<Longrightarrow> a \<le> a' \<Longrightarrow> b' \<le> b \<Longrightarrow> same_at x y a' b'"
  by (simp add: same_at_def)

lemma same_at_take:
  assumes "same_at x y a b" "a \<le> i" "i + n \<le> b"
  shows "take n (drop i x) = take n (drop i y)"
  by (rule nth_equalityI) (use assms in \<open>auto simp: same_at_def\<close>)

lemma read_hex4_same:
  assumes "same_at x y a stop" "a \<le> pos"
  shows "read_hex4 x stop pos = read_hex4 y stop pos"
  using same_at_take [OF assms, of 4] by (auto simp: read_hex4_def)

lemma copy_loop_same:
  "same_at x y i stop \<Longrightarrow> copy_loop x b stop outsz i out = copy_loop y b stop outsz i out"
proof (induction x b stop outsz i out rule: copy_loop.induct)
  case (1 x b stop outsz i out)
  show ?case
  proof (cases "i < stop \<and> length out + 1 < outsz")
    case False
    then show ?thesis by (simp add: copy_loop.simps)
  next
    case run: True
    have nth: "x ! k = y ! k" if "i \<le> k" "k < stop" for k using "1.prems" that by (simp add: same_at_def)
    have hex: "read_hex4 x stop k = read_hex4 y stop k" if "i \<le> k" for k by (rule read_hex4_same [OF "1.prems" that])
    have sm: "same_at x y k stop" if "i \<le> k" for k using same_at_mono [OF "1.prems" that] by simp
    show ?thesis
    proof (cases "\<not> b \<or> x ! i \<noteq> BSLASH")
      case True
      have ih: "copy_loop x b stop outsz (i + 1) (out @ [x ! i]) = copy_loop y b stop outsz (i + 1) (out @ [x ! i])"
        by (rule "1.IH"(1)) (use run True sm in simp_all)
      show ?thesis
        unfolding copy_loop.simps [of x b stop outsz i out] copy_loop.simps [of y b stop outsz i out]
        using ih True run nth [of i] by auto
    next
      case bs: False
      show ?thesis
      proof (cases "i + 1 \<ge> stop")
        case True
        then show ?thesis using run bs nth [of i] by (simp add: copy_loop.simps)
      next
        case more: False
        have n1: "y ! (i + 1) = x ! (i + 1)" "y ! i = x ! i" using nth more run by auto
        show ?thesis
        proof (cases "escape_char (x ! (i + 1))")
          case (Some c)
          have ih: "copy_loop x b stop outsz (i + 2) (out @ [c]) = copy_loop y b stop outsz (i + 2) (out @ [c])"
            by (rule "1.IH"(4)) (use run bs more Some sm in simp_all)
          show ?thesis
            unfolding copy_loop.simps [of x b stop outsz i out] copy_loop.simps [of y b stop outsz i out] n1
            using run bs more Some ih by simp
        next
          case None
          show ?thesis
          proof (cases "x ! (i + 1) \<noteq> CHR ''u''")
            case True
            then show ?thesis
              unfolding copy_loop.simps [of x b stop outsz i out] copy_loop.simps [of y b stop outsz i out] n1
              using run bs more None by simp
          next
            case u: False
            show ?thesis
            proof (cases "read_hex4 x stop (i + 2)")
              case n: None
              then show ?thesis
                unfolding copy_loop.simps [of x b stop outsz i out] copy_loop.simps [of y b stop outsz i out] n1
                using run bs more None u hex [of "i + 2"] by simp
            next
              case f: (Some first)
              have fy: "read_hex4 y stop (i + 2) = Some first" using f hex [of "i + 2"] by simp
              let ?pair = "high_surrogate first \<and> stop - (i + 6) \<ge> 6 \<and> x ! (i + 6) = BSLASH \<and> x ! (i + 7) = CHR ''u''"
              have pair: "(high_surrogate first \<and> stop - (i + 6) \<ge> 6 \<and> y ! (i + 6) = BSLASH \<and> y ! (i + 7) = CHR ''u'') = ?pair"
                using nth [of "i + 6"] nth [of "i + 7"] by auto
              show ?thesis
              proof (cases ?pair)
                case True
                show ?thesis
                proof (cases "read_hex4 x stop (i + 8)")
                  case n: None
                  then show ?thesis
                    unfolding copy_loop.simps [of x b stop outsz i out] copy_loop.simps [of y b stop outsz i out] n1
                    using run bs more None u f fy n hex [of "i + 8"] pair True by simp
                next
                  case s: (Some second)
                  let ?o = "out @ utf8_encode (0x10000 + push_bit 10 (first - 0xD800) + (second - 0xDC00)) (outsz - length out - 1)"
                  have ih: "copy_loop x b stop outsz (i + 12) ?o = copy_loop y b stop outsz (i + 12) ?o"
                    by (rule "1.IH"(2)) (use run bs more None u f True s sm in simp_all)
                  show ?thesis
                    unfolding copy_loop.simps [of x b stop outsz i out] copy_loop.simps [of y b stop outsz i out] n1
                    using run bs more None u f fy s hex [of "i + 8"] pair True ih by simp
                qed
              next
                case False
                let ?o = "out @ utf8_encode first (outsz - length out - 1)"
                have ih: "copy_loop x b stop outsz (i + 6) ?o = copy_loop y b stop outsz (i + 6) ?o"
                  by (rule "1.IH"(3)) (use run bs more None u f False sm in simp_all)
                show ?thesis
                  unfolding copy_loop.simps [of x b stop outsz i out] copy_loop.simps [of y b stop outsz i out] n1
                  using run bs more None u f fy pair False ih by auto
              qed
            qed
          qed
        qed
      qed
    qed
  qed
qed

lemma json_copy_str_same:
  "same_at x y (tok_from t) (tok_upto t) \<Longrightarrow> json_copy_str x t n = json_copy_str y t n"
  by (auto simp: json_copy_str_def intro: copy_loop_same)

lemma token_text_same:
  assumes "same_at x y (tok_from t) (tok_upto t)"
  shows "token_text x t n = token_text y t n"
  using same_at_take [OF assms, of "tok_from t" "nat (tk_end t - tk_start t)"]
  by (auto simp: token_text_def Let_def nat_diff_distrib)


section \<open>The values of an object\<close>

lemma pick_nth: "i < length xs \<Longrightarrow> even i = b \<Longrightarrow> xs ! i \<in> set (pick b xs)"
proof (induction b xs arbitrary: i rule: pick.induct)
  case (2 b x xs)
  show ?case
  proof (cases i)
    case 0
    then show ?thesis using "2.prems" by simp
  next
    case (Suc j)
    then have j: "j < length xs" "even j = (\<not> b)" using "2.prems" by auto
    then have "xs ! j \<in> set (pick (\<not> b) xs)" using "2.IH" by (cases b) simp_all
    then show ?thesis using Suc by (cases b) auto
  qed
qed simp

lemma children_distinct: "distinct (children toks p)"
  by (simp add: children_def)

lemma parsed_object:
  assumes "json_parse js mx = Some toks" "p < length toks" "tk_type (toks ! p) = JSON_OBJ"
  shows "object_ok js toks p" "even (length (children toks p))"
  using json_parse_keys_inv [OF assms(1)] assms(2,3) by (auto simp: objects_inv_def)

text \<open>A child of an object is a key or the value right after a key, and not both.\<close>

lemma child_key_or_value:
  assumes "json_parse js mx = Some toks" "p < length toks" "tk_type (toks ! p) = JSON_OBJ" "c \<in> set (children toks p)"
  shows "c \<in> set (keys toks p) \<or> (\<exists>k \<in> set (keys toks p). c = k + 1)"
proof -
  note ok = parsed_object [OF assms(1-3)]
  obtain i where i: "i < length (children toks p)" "children toks p ! i = c" using assms(4) by (metis in_set_conv_nth)
  show ?thesis
  proof (cases "even i")
    case True
    then show ?thesis using pick_nth [of i "children toks p" True] i by (auto simp: keys_def)
  next
    case False
    then obtain m where m: "i = Suc (2 * m)" by (auto elim: oddE)
    then have "c = children toks p ! (2 * m) + 1" using ok(1) i by (auto simp: object_ok_def)
    moreover have "children toks p ! (2 * m) \<in> set (keys toks p)"
      using pick_nth [of "2 * m" "children toks p" True] i m by (simp add: keys_def)
    ultimately show ?thesis by blast
  qed
qed

lemma value_not_key:
  assumes "json_parse js mx = Some toks" "p < length toks" "tk_type (toks ! p) = JSON_OBJ" "k \<in> set (keys toks p)"
  shows "k + 1 \<notin> set (keys toks p)"
proof
  assume k1: "k + 1 \<in> set (keys toks p)"
  note ok = parsed_object [OF assms(1-3)]
  let ?c = "children toks p"
  obtain i where i: "even i" "i < length ?c" "?c ! i = k" using pick_even_index [of k True] assms(4) by (auto simp: keys_def)
  obtain j where j: "even j" "j < length ?c" "?c ! j = k + 1" using pick_even_index [of "k + 1" True] k1 by (auto simp: keys_def)
  obtain m where m: "i = 2 * m" using i(1) by (auto elim: evenE)
  then have "Suc i < length ?c" using i(1,2) ok(2) by (cases "length ?c = Suc i") auto
  then have "?c ! Suc i = k + 1" using ok(1) i(3) m by (auto simp: object_ok_def)
  then have "Suc i = j" using children_distinct j(2,3) \<open>Suc i < length ?c\<close> by (metis nth_eq_iff_index_eq)
  then show False using i(1) j(1) by auto
qed

lemma key_child: "k \<in> set (keys toks p) \<Longrightarrow> k \<in> set (children toks p)"
  using set_pick [of True "children toks p"] by (auto simp: keys_def)

text \<open>The end of a token with its closing quote.\<close>

abbreviation zone_end :: "JsonToken \<Rightarrow> nat" where
  "zone_end t \<equiv> tok_upto t + (if tk_type t = JSON_STR then 1 else 0)"

lemma children_apart:
  assumes "json_parse js mx = Some toks" "i \<in> set (children toks p)" "j \<in> set (children toks p)" "i \<noteq> j"
  shows "zone_end (toks ! i) \<le> tok_from (toks ! j) \<or> zone_end (toks ! j) \<le> tok_from (toks ! i)"
proof -
  have c: "i < length toks" "j < length toks" "tk_parent (toks ! i) = int p" "tk_parent (toks ! j) = int p"
    using assms(2,3) by (auto simp: children_def)
  have e: "zone_end (toks ! a) \<le> tok_from (toks ! b)"
    if "ended (toks ! a) (tk_start (toks ! b))" "a < length toks" for a b
  proof -
    have "0 \<le> tk_end (toks ! a)" using token_span(1,2) [OF assms(1) that(2)] by simp
    then show ?thesis using that(1) by (auto simp: ended_def)
  qed
  show ?thesis
  proof (cases "i < j")
    case True
    then show ?thesis using e [OF siblings_apart [OF assms(1) True c(2,3,4)] c(1)] by simp
  next
    case False
    then have "j < i" using assms(4) by simp
    then show ?thesis using e [OF siblings_apart [OF assms(1) _ c(1,4,3)] c(2)] by simp
  qed
qed


lemma child_inside:
  assumes "json_parse js mx = Some toks" "c \<in> set (children toks p)"
  shows "tok_from (toks ! p) \<le> tok_from (toks ! c)" "zone_end (toks ! c) \<le> tok_upto (toks ! p)"
    "0 \<le> tk_start (toks ! c)" "tk_start (toks ! c) \<le> tk_end (toks ! c)" "tok_upto (toks ! c) < length js" "c < length toks"
proof -
  have c: "c < length toks" "tk_parent (toks ! c) = int p" using assms(2) by (auto simp: children_def)
  have p: "p < length toks" using json_parse_below [OF assms(1)] c unfolding parents_below_def by (metis less_trans of_nat_less_iff)
  note sp = token_span [OF assms(1) c(1)] and pp = token_span(3) [OF assms(1) p]
  show "tok_from (toks ! p) \<le> tok_from (toks ! c)" "zone_end (toks ! c) \<le> tok_upto (toks ! p)" "tok_upto (toks ! c) < length js"
    using sp(1,2) sp(4) [OF c(2)] pp by auto
  show "0 \<le> tk_start (toks ! c)" "tk_start (toks ! c) \<le> tk_end (toks ! c)" "c < length toks" using sp c by simp_all
qed

lemma object_get_child:
  assumes "json_parse js mx = Some toks" "p < length toks" "tk_type (toks ! p) = JSON_OBJ" "json_object_get js' toks (int p) key = Some t"
  shows "\<exists>k. t = k + 1 \<and> k \<in> set (keys toks p) \<and> key_name js' toks k = key" "t \<in> set (children toks p)" "t \<notin> set (keys toks p)"
proof -
  have "length key < JSON_MAX_KEY_BYTES" using assms(4) by (auto simp: json_object_get_def split: if_splits)
  then obtain k where k: "t = k + 1" "k \<in> set (keys toks p)" "key_name js' toks k = key"
    using assms(4) json_object_get_find_in [OF assms(1-3), of key js'] by (auto simp: find_Some_iff)
  then show "\<exists>k. t = k + 1 \<and> k \<in> set (keys toks p) \<and> key_name js' toks k = key" by blast
  show "t \<in> set (children toks p)" using key_value [OF assms(1-3) k(2)] k(1) by (simp add: children_def)
  show "t \<notin> set (keys toks p)" using value_not_key [OF assms(1-3) k(2)] k(1) by simp
qed

text \<open>A text with the same keys has the same object.\<close>

lemma object_get_same:
  assumes "json_parse js mx = Some toks" "p < length toks" "tk_type (toks ! p) = JSON_OBJ"
    and "\<forall>k \<in> set (keys toks p). same_at js js' (tok_from (toks ! k)) (tok_upto (toks ! k))"
  shows "json_object_get js' toks (int p) key = json_object_get js toks (int p) key"
proof (cases "length key < JSON_MAX_KEY_BYTES")
  case True
  have "key_name js' toks k = key_name js toks k" if "k \<in> set (keys toks p)" for k
    using json_copy_str_same assms(4) that by (metis key_name_def)
  then have "List.find (\<lambda>k. key_name js' toks k = key) (keys toks p) = List.find (\<lambda>k. key_name js toks k = key) (keys toks p)"
    by (intro find_cong) simp_all
  then show ?thesis using json_object_get_find_in [OF assms(1-3) True] by simp
next
  case False
  then show ?thesis by (simp add: json_object_get_def)
qed

end
