(* ===== verification/Body.thy ===== *)
theory Body
  imports Object_Memory Json_Spans Validation
begin

text \<open>
  Request bodies: \<open>src/runtime/runtime_body.c\<close>, from a JSON text to the bytes of a structure. The text is
  changed in place: a string field points to its own characters in the text, where the decoded string is
  stored (the decoder never writes beyond what it has read, so decoding in place gives what decoding to
  another buffer gives). \<open>base\<close> is the address of the text, \<open>text_at\<close> the rest of the memory; \<open>strtod\<close>
  answers the bits of the number, the rest of the text and whether the range is exceeded.
\<close>

section \<open>The code: scalars\<close>

function string_has_no_nul_loop :: "string \<Rightarrow> nat \<Rightarrow> nat \<Rightarrow> bool" where
  "string_has_no_nul_loop js i stop =
     (if \<not> i < stop then True
      else if js ! i \<noteq> BSLASH then string_has_no_nul_loop js (i + 1) stop
      else if i + 1 \<ge> stop then False
      else if js ! (i + 1) = CHR ''u'' then
        if stop - (i + 1) < 5 then False
        else if js ! (i + 2) = CHR ''0'' \<and> js ! (i + 3) = CHR ''0'' \<and> js ! (i + 4) = CHR ''0'' \<and> js ! (i + 5) = CHR ''0''
        then False
        else string_has_no_nul_loop js (i + 6) stop
      else string_has_no_nul_loop js (i + 2) stop)"
  by pat_completeness auto
termination
  by (relation "measure (\<lambda>(js, i, stop). stop - i)") auto

declare string_has_no_nul_loop.simps [simp del]

definition string_has_no_nul :: "string \<Rightarrow> JsonToken \<Rightarrow> bool" where
  "string_has_no_nul js t = string_has_no_nul_loop js (nat (tk_start t)) (nat (tk_end t))"

definition unescape_in_place :: "string \<Rightarrow> JsonToken \<Rightarrow> int \<times> string" where
  "unescape_in_place js t =
     (if \<not> string_has_no_nul js t then (- 1, js)
      else (0, write_bytes js (nat (tk_start t)) (json_copy_str js t (nat (tk_end t - tk_start t) + 1) @ [NUL])))"

definition json_token_double_checked :: "(string \<Rightarrow> 64 word \<times> string \<times> bool) \<Rightarrow> string \<Rightarrow> JsonToken \<Rightarrow> 64 word option" where
  "json_token_double_checked strtod js t =
     (case token_text js t 128 of
        None \<Rightarrow> None
      | Some buf \<Rightarrow>
          (case strtod (cstr buf) of (v, rest, erange) \<Rightarrow>
             if erange \<or> rest = cstr buf \<or> rest \<noteq> [] \<or> \<not> isfinite v then None else Some v))"

definition token_null :: "string \<Rightarrow> JsonToken \<Rightarrow> bool" where
  "token_null js t \<longleftrightarrow> tk_type t = JSON_PRIM \<and> tk_end t - tk_start t = 4 \<and> take 4 (drop (nat (tk_start t)) js) = ''null''"

definition read_text_field :: "nat \<Rightarrow> FieldInfo \<Rightarrow> memory \<Rightarrow> string \<Rightarrow> JsonToken \<Rightarrow> int \<times> memory \<times> string" where
  "read_text_field base f obj js t =
     (if token_null js t \<and> \<not> has_flag (fi_flags f) FIELD_NOT_NULL then (0, write_str obj (fi_offset f) 0, js)
      else if tk_type t \<noteq> JSON_STR then (- 1, obj, js)
      else
        (case unescape_in_place js t of
           (rc, js1) \<Rightarrow>
             if rc \<noteq> 0 then (- 1, obj, js1)
             else (0, write_str obj (fi_offset f) (of_nat (base + nat (tk_start t))), js1)))"

definition read_int_field :: "FieldInfo \<Rightarrow> memory \<Rightarrow> string \<Rightarrow> JsonToken \<Rightarrow> int \<times> memory" where
  "read_int_field f obj js t =
     (if tk_type t \<noteq> JSON_PRIM then (- 1, obj)
      else
        (case json_token_long_checked js t of
           None \<Rightarrow> (- 1, obj)
         | Some v \<Rightarrow> if v > 2147483647 \<or> v < - 2147483648 then (- 1, obj) else (0, write_int obj (fi_offset f) v)))"

definition read_scalar ::
  "(string \<Rightarrow> 64 word \<times> string \<times> bool) \<Rightarrow> nat \<Rightarrow> FieldInfo \<Rightarrow> memory \<Rightarrow> string \<Rightarrow> JsonToken \<Rightarrow> int \<times> memory \<times> string" where
  "read_scalar strtod base f obj js t =
     (case fi_kind f of
        FIELD_STR \<Rightarrow> read_text_field base f obj js t
      | FIELD_INT \<Rightarrow> (case read_int_field f obj js t of (rc, obj1) \<Rightarrow> (rc, obj1, js))
      | FIELD_LONG \<Rightarrow>
          (case json_token_long_checked js t of
             None \<Rightarrow> (- 1, obj, js) | Some v \<Rightarrow> (0, write_long obj (fi_offset f) v, js))
      | FIELD_DOUBLE \<Rightarrow>
          (case json_token_double_checked strtod js t of
             None \<Rightarrow> (- 1, obj, js) | Some v \<Rightarrow> (0, write_double obj (fi_offset f) v, js))
      | FIELD_BOOL \<Rightarrow>
          (case json_token_bool_checked js t of
             None \<Rightarrow> (- 1, obj, js) | Some v \<Rightarrow> (0, write_bool obj (fi_offset f) v, js))
      | FIELD_OBJECT \<Rightarrow> (0, obj, js))"

section \<open>The code: objects\<close>

text \<open>The first loop of \<open>json_read_nested\<close>, over the tokens after the root: keys that name no field. A key that
  names a field, or no field, is skipped together with its value; one with an escaped NUL is not.\<close>

fun unknown_keys ::
  "string \<Rightarrow> JsonToken list \<Rightarrow> nat \<Rightarrow> string \<Rightarrow> FieldInfo list \<Rightarrow> nat list \<Rightarrow> bool \<Rightarrow> RequestState \<Rightarrow> bool \<times> RequestState" where
  "unknown_keys js toks r prefix fs [] failed st = (failed, st)"
| "unknown_keys js toks r prefix fs (k # ks) failed st =
     (if tk_parent (toks ! k) \<noteq> int r \<or> tk_type (toks ! k) \<noteq> JSON_STR
      then unknown_keys js toks r prefix fs ks failed st
      else if \<not> string_has_no_nul js (toks ! k) then
        unknown_keys js toks r prefix fs ks True
          (field_error_add prefix ''unknown_field'' ''field names must not contain NUL'' st)
      else if list_ex (\<lambda>f. fi_name f = Some (key_name js toks k)) fs
      then unknown_keys js toks r prefix fs (drop 1 ks) failed st
      else unknown_keys js toks r prefix fs (drop 1 ks) True
        (field_error_add (snprintf_s (PATH_CAP + JSON_MAX_KEY_BYTES) (join_path prefix (Some (key_name js toks k))))
          ''unknown_field'' ''field is not allowed'' st))"

text \<open>The memory a string of the structure points to: the text of the body or the rest.\<close>

definition text_in :: "(size_t \<Rightarrow> string) \<Rightarrow> nat \<Rightarrow> string \<Rightarrow> size_t \<Rightarrow> string" where
  "text_in text_at base js p =
     (if base \<le> unat p \<and> unat p < base + length js then cstr (drop (unat p - base) js) else text_at p)"

text \<open>What the reader is given besides the body: the memory, the formats of the C library and the address.\<close>

record Libc =
  lc_text_at :: "size_t \<Rightarrow> string"
  lc_fmt_ldouble :: "rat \<Rightarrow> string"
  lc_strtod :: "string \<Rightarrow> 64 word \<times> string \<times> bool"
  lc_base :: nat

definition read_value ::
  "Libc \<Rightarrow> FieldInfo \<Rightarrow> memory \<Rightarrow> string \<Rightarrow> JsonToken \<Rightarrow> bool \<Rightarrow> string \<Rightarrow> RequestState \<Rightarrow> int \<times> memory \<times> string \<times> RequestState" where
  "read_value lc f obj js t null path st =
     (case (if null then (0, write_bytes obj (unat (fi_offset f)) (replicate (unat (fi_size f)) NUL), js)
            else
              (case read_scalar (lc_strtod lc) (lc_base lc) (field_scalar f) obj js t of
                 (rc, obj1, js1) \<Rightarrow> (rc, if rc = 0 then field_set_present f obj1 else obj1, js1))) of
        (rc, obj1, js1) \<Rightarrow>
          if rc \<noteq> 0 then (rc, obj1, js1, field_error_add path ''type'' ''invalid value for field type'' st)
          else
            (case field_validate (text_in (lc_text_at lc) (lc_base lc) js1) (lc_fmt_ldouble lc) f obj1 path st of
               (rc1, st1) \<Rightarrow> (rc1, obj1, js1, st1)))"

text \<open>One round of the second loop up to the value: the loop is left, the field is passed over (with or without an
  error), or its value is the token of the result.\<close>

datatype Round = Leave | Pass bool RequestState | Value nat string bool RequestState

definition body_round ::
  "FieldInfo \<Rightarrow> string \<Rightarrow> JsonToken list \<Rightarrow> nat \<Rightarrow> string \<Rightarrow> nat \<Rightarrow> bool \<Rightarrow> RequestState \<Rightarrow> Round" where
  "body_round f js toks r prefix offset0 partial st =
     (let path = join_path prefix (fi_name f) in
      if length path \<ge> PATH_CAP then Leave
      else
        (case json_object_get js toks (int r) (str_of (fi_name f)) of
           None \<Rightarrow>
             if \<not> partial \<and> has_flag (fi_flags f) FIELD_NOT_NULL then
               Pass True (field_error_add path ''required'' ''field is required'' st)
             else Pass False st
         | Some t \<Rightarrow>
             if length (g_body_fields st) \<ge> JSON_MAX_TOKENS then Leave
             else
               let null = token_null js (toks ! t);
                   st1 = st\<lparr>g_body_fields := g_body_fields st @
                     [\<lparr>bf_path = path, bf_offset = offset0 + unat (fi_offset f), bf_field = f, bf_is_null = null\<rparr>]\<rparr>
               in if null \<and> (has_flag (fi_flags f) FIELD_NOT_NULL \<or>
                   (fi_kind f \<noteq> FIELD_STR \<and> \<not> has_flag (fi_flags f) FIELD_NULLABLE)) then
                    Pass True (field_error_add path ''not_null'' ''field does not accept null'' st1)
                  else if fi_kind f = FIELD_OBJECT \<and> tk_type (toks ! t) \<noteq> JSON_OBJ then
                    Pass True (field_error_add path ''type'' ''must be an object'' st1)
                  else Value t path null st1))"

type_synonym Result = "int \<times> memory \<times> string \<times> RequestState"

fun json_read_nested ::
  "Libc \<Rightarrow> JsonToken list \<Rightarrow> bool \<Rightarrow> TypeInfo \<Rightarrow> memory \<Rightarrow> string \<Rightarrow> nat \<Rightarrow> nat \<Rightarrow> string \<Rightarrow> nat \<Rightarrow> RequestState \<Rightarrow> Result"
  and json_read_fields ::
  "Libc \<Rightarrow> JsonToken list \<Rightarrow> bool \<Rightarrow> FieldInfo list \<Rightarrow> bool \<Rightarrow> memory \<Rightarrow> string \<Rightarrow> nat \<Rightarrow> nat \<Rightarrow> string \<Rightarrow> nat \<Rightarrow> RequestState \<Rightarrow> Result"
where
  "json_read_nested lc toks partial (TypeInfo name sz flds) obj js r depth prefix offset0 st =
     (if depth \<ge> NEST_DEPTH_MAX \<or> tk_type (toks ! r) \<noteq> JSON_OBJ then (- 1, obj, js, st)
      else
        (case flds of
           None \<Rightarrow> (0, obj, js, st)
         | Some fs \<Rightarrow>
             (case unknown_keys js toks r prefix fs [r + 1..<length toks] False st of
                (failed, st1) \<Rightarrow> json_read_fields lc toks partial fs failed obj js r depth prefix offset0 st1)))"
| "json_read_fields lc toks partial [] failed obj js r depth prefix offset0 st = (if failed then - 1 else 0, obj, js, st)"
| "json_read_fields lc toks partial (FieldInfo name kind offset fsz flags nested refs rkey rules # fs) failed obj js r depth prefix offset0 st =
     (case body_round (FieldInfo name kind offset fsz flags nested refs rkey rules) js toks r prefix offset0 partial st of
        Leave \<Rightarrow> (- 1, obj, js, st)
      | Pass bad st1 \<Rightarrow> json_read_fields lc toks partial fs (failed \<or> bad) obj js r depth prefix offset0 st1
      | Value t path null st1 \<Rightarrow>
          (case (if kind = FIELD_OBJECT then
                   (case nested of
                      None \<Rightarrow> (- 1, obj, js, st1)
                    | Some ty \<Rightarrow>
                        (case json_read_nested lc toks partial ty (drop (unat offset) obj) js t (depth + 1) path
                            (offset0 + unat offset) st1 of
                           (rc, part, js2, st2) \<Rightarrow> (rc, take (unat offset) obj @ part, js2, st2)))
                 else
                   read_value lc (FieldInfo name kind offset fsz flags nested refs rkey rules) obj js (toks ! t) null path st1) of
             (rc, obj2, js2, st2) \<Rightarrow>
               json_read_fields lc toks partial fs (failed \<or> rc \<noteq> 0) obj2 js2 r depth prefix offset0 st2))"

section \<open>The code: bodies and patches\<close>

definition json_read_mode ::
  "Libc \<Rightarrow> TypeInfo option \<Rightarrow> memory option \<Rightarrow> string option \<Rightarrow> bool \<Rightarrow> RequestState \<Rightarrow>
   int \<times> memory option \<times> string option \<times> RequestState" where
  "json_read_mode lc type obj json partial st0 =
     (let st = body_reset st0 in
      case (type, obj, json) of
        (Some t, Some ob, Some js) \<Rightarrow>
          if js = [] \<or> \<not> type_valid type then
            (- 1, obj, json, request_fail_code 400 ''invalid_json'' (Some ''expected a JSON object'') st)
          else
            (case json_parse js JSON_MAX_TOKENS of
               None \<Rightarrow> (- 1, obj, json, request_fail_code 400 ''invalid_json'' (Some ''expected a valid JSON object within parser limits'') st)
             | Some toks \<Rightarrow>
                 if tk_type (toks ! 0) \<noteq> JSON_OBJ then
                   (- 1, obj, json, request_fail_code 400 ''invalid_json'' (Some ''expected a valid JSON object within parser limits'') st)
                 else
                   (case json_read_nested lc toks partial t ob js 0 0 [] 0 st of
                      (rc, ob1, js1, st1) \<Rightarrow>
                        (case (if rc = 0 \<and> \<not> partial then
                                 (case validate_struct (text_in (lc_text_at lc) (lc_base lc) js1) (lc_fmt_ldouble lc) type (Some ob1) st1 of
                                    (rc1, bad, st2) \<Rightarrow> (rc1, st2))
                               else (rc, st1)) of
                           (rc1, st2) \<Rightarrow>
                             (rc1, Some ob1, Some js1,
                              if rc1 = 0 then st2\<lparr>g_body_type := type, g_body_partial := partial\<rparr> else st2\<lparr>g_body_fields := []\<rparr>))))
      | _ \<Rightarrow> (- 1, obj, json, request_fail_code 400 ''invalid_json'' (Some ''expected a JSON object'') st))"

definition json_read_struct ::
  "Libc \<Rightarrow> TypeInfo option \<Rightarrow> memory option \<Rightarrow> string option \<Rightarrow> RequestState \<Rightarrow>
   int \<times> memory option \<times> string option \<times> RequestState" where
  "json_read_struct lc type obj json st = json_read_mode lc type obj json False st"

fun patch_fields :: "TypeInfo \<Rightarrow> BodyField list \<Rightarrow> memory \<Rightarrow> memory \<Rightarrow> int \<times> memory" where
  "patch_fields t [] target changes = (0, target)"
| "patch_fields t (b # bs) target changes =
     (if fi_kind (bf_field b) = FIELD_OBJECT then patch_fields t bs target changes
      else if bf_offset b > unat (ti_size t) \<or> unat (fi_size (bf_field b)) > unat (ti_size t) - bf_offset b then (- 1, target)
      else
        patch_fields t bs (write_bytes target (bf_offset b) (bytes_at changes (bf_offset b) (unat (fi_size (bf_field b))))) changes)"

text \<open>The comparison of the two descriptors by address is one of values here.\<close>

definition patch_apply ::
  "Libc \<Rightarrow> TypeInfo \<Rightarrow> memory option \<Rightarrow> memory option \<Rightarrow> RequestState \<Rightarrow> int \<times> memory option \<times> RequestState" where
  "patch_apply lc type target changes st =
     (case (target, changes) of
        (Some tg, Some ch) \<Rightarrow>
          if \<not> g_body_partial st \<or> Some type \<noteq> g_body_type st \<or> request_failed st then (- 1, target, st)
          else
            (case patch_fields type (g_body_fields st) tg ch of
               (rc, tg1) \<Rightarrow>
                 if rc \<noteq> 0 then (- 1, Some tg1, st)
                 else
                   (case validate_struct (lc_text_at lc) (lc_fmt_ldouble lc) (Some type) (Some tg1) st of
                      (rc1, bad, st1) \<Rightarrow> (rc1, Some tg1, st1)))
      | _ \<Rightarrow> (- 1, target, st))"

end
