(* ===== verification/Body_Read.thy ===== *)
theory Body_Read
  imports Body
begin

text \<open>
  What reading a body does: the value of every field is the one its token has in the text as it arrived, although
  strings are decoded in place in that same text, field by field; nothing else in the text or the structure changes.
\<close>

section \<open>What a value says\<close>

lemma token_null_same:
  assumes "same_at x y (tok_from t) (tok_upto t)" "0 \<le> tk_start t"
  shows "token_null x t = token_null y t"
  using same_at_take [OF assms(1), of "tok_from t" 4] assms(2) by (auto simp: token_null_def)

lemma long_checked_same:
  "same_at x y (tok_from t) (tok_upto t) \<Longrightarrow> json_token_long_checked x t = json_token_long_checked y t"
  by (simp add: json_token_long_checked_def token_text_same)

lemma double_checked_same:
  "same_at x y (tok_from t) (tok_upto t) \<Longrightarrow> json_token_double_checked g x t = json_token_double_checked g y t"
  by (simp add: json_token_double_checked_def token_text_same)

lemma bool_checked_same:
  assumes "same_at x y (tok_from t) (tok_upto t)"
  shows "json_token_bool_checked x t = json_token_bool_checked y t"
proof (cases "tk_type t \<noteq> JSON_PRIM \<or> tk_start t < 0 \<or> tk_end t < tk_start t")
  case True
  then show ?thesis by (auto simp: json_token_bool_checked_def)
next
  case False
  then have "take (nat (tk_end t - tk_start t)) (drop (tok_from t) x) = take (nat (tk_end t - tk_start t)) (drop (tok_from t) y)"
    by (intro same_at_take [OF assms]) auto
  then show ?thesis using False by (simp add: json_token_bool_checked_def)
qed

lemma long_checked_range:
  assumes "json_token_long_checked js t = Some v"
  shows "- (2 ^ 63) \<le> v" "v < 2 ^ 63"
proof -
  obtain buf rest where "strtol10 buf = (v, rest, False)" "rest \<noteq> buf"
    using assms by (auto simp: json_token_long_checked_def split: option.splits prod.splits if_splits)
  then have "\<exists>z. clamp_long z = (v, False)"
    by (auto simp: strtol10_def Let_def split: if_splits prod.splits)
  then show "- (2 ^ 63) \<le> v" "v < 2 ^ 63" by (auto simp: clamp_long_def split: if_splits)
qed

definition value_read :: "Libc \<Rightarrow> FieldInfo \<Rightarrow> string \<Rightarrow> JsonToken \<Rightarrow> memory \<Rightarrow> string \<Rightarrow> bool" where
  "value_read lc f js0 t obj js \<longleftrightarrow>
     (let k = fi_offset (field_scalar f) in
      if token_null js0 t then field_is_null f obj
      else \<not> field_is_null f obj \<and>
        (case fi_kind f of
           FIELD_INT \<Rightarrow> json_token_long_checked js0 t = Some (read_int obj k)
         | FIELD_LONG \<Rightarrow> json_token_long_checked js0 t = Some (read_long obj k)
         | FIELD_DOUBLE \<Rightarrow> json_token_double_checked (lc_strtod lc) js0 t = Some (read_double obj k)
         | FIELD_BOOL \<Rightarrow> json_token_bool_checked js0 t = Some (read_bool obj k)
         | FIELD_STR \<Rightarrow> tk_type t = JSON_STR \<and>
             text_in (lc_text_at lc) (lc_base lc) js (read_str obj k) =
               cstr (json_copy_str js0 t (nat (tk_end t - tk_start t) + 1))
         | FIELD_OBJECT \<Rightarrow> False))"

text \<open>The body lies in the address space.\<close>

definition libc_ok :: "Libc \<Rightarrow> string \<Rightarrow> bool" where
  "libc_ok lc js \<longleftrightarrow> 0 < lc_base lc \<and> lc_base lc + length js < 2 ^ 64"

section \<open>One value\<close>

lemma unescape_in_place_frame:
  assumes "unescape_in_place js t = (rc, js')" "0 \<le> tk_start t" "tk_start t \<le> tk_end t" "tok_upto t < length js"
  shows "length js' = length js" "i < tok_from t \<or> tok_upto t < i \<Longrightarrow> js' ! i = js ! i"
    "rc = 0 \<Longrightarrow> take (length (json_copy_str js t (nat (tk_end t - tk_start t) + 1)) + 1) (drop (tok_from t) js') =
       json_copy_str js t (nat (tk_end t - tk_start t) + 1) @ [NUL]"
proof -
  let ?d = "json_copy_str js t (nat (tk_end t - tk_start t) + 1)"
  have l: "length ?d < nat (tk_end t - tk_start t) + 1" by (rule json_copy_str_length) simp
  then have fit: "tok_from t + length (?d @ [NUL]) \<le> length js" "tok_from t + length ?d \<le> tok_upto t" using assms(2-4) by auto
  consider "rc = - 1" "js' = js" | "rc = 0" "js' = write_bytes js (tok_from t) (?d @ [NUL])"
    using assms(1) by (auto simp: unescape_in_place_def split: if_splits)
  then show "length js' = length js" using fit by cases simp_all
  show "rc = 0 \<Longrightarrow> take (length ?d + 1) (drop (tok_from t) js') = ?d @ [NUL]"
    using bytes_at_written [OF fit(1)] assms(1) by (auto simp: unescape_in_place_def bytes_at_def split: if_splits)
  show "i < tok_from t \<or> tok_upto t < i \<Longrightarrow> js' ! i = js ! i"
  proof -
    assume i: "i < tok_from t \<or> tok_upto t < i"
    have "write_bytes js (tok_from t) (?d @ [NUL]) ! i = js ! i"
      using i fit by (auto simp: write_bytes_def nth_append min_def)
    then show ?thesis using assms(1) by (auto simp: unescape_in_place_def split: if_splits)
  qed
qed


lemma cstr_cut: "cstr (d @ NUL # r) = cstr d"
  by (induction d) (auto simp: cstr_def)

lemma cstr_prefix:
  assumes "take (length d + 1) x = d @ [NUL]"
  shows "cstr x = cstr d"
proof -
  have "x = d @ NUL # drop (length d + 1) x" using append_take_drop_id [of "length d + 1" x] unfolding assms by simp
  then show ?thesis using cstr_cut [of d "drop (length d + 1) x"] by metis
qed

definition scalar_read :: "Libc \<Rightarrow> FieldInfo \<Rightarrow> string \<Rightarrow> JsonToken \<Rightarrow> memory \<Rightarrow> string \<Rightarrow> bool" where
  "scalar_read lc f js t obj1 js1 \<longleftrightarrow>
     (let k = fi_offset (field_scalar f) in
      (fi_kind f \<noteq> FIELD_STR \<longrightarrow> js1 = js) \<and>
      (case fi_kind f of
         FIELD_INT \<Rightarrow> json_token_long_checked js t = Some (read_int obj1 k)
       | FIELD_LONG \<Rightarrow> json_token_long_checked js t = Some (read_long obj1 k)
       | FIELD_DOUBLE \<Rightarrow> json_token_double_checked (lc_strtod lc) js t = Some (read_double obj1 k)
       | FIELD_BOOL \<Rightarrow> json_token_bool_checked js t = Some (read_bool obj1 k)
       | FIELD_STR \<Rightarrow> tk_type t = JSON_STR \<and> read_str obj1 k = of_nat (lc_base lc + tok_from t) \<and> unescape_in_place js t = (0, js1)
       | FIELD_OBJECT \<Rightarrow> False))"

lemma read_scalar_stored:
  assumes "slot_ok f n" "n < 2 ^ 16" "n \<le> length obj" "\<not> token_null js t"
    and "read_scalar (lc_strtod lc) (lc_base lc) (field_scalar f) obj js t = (rc, obj1, js1)"
  shows "rc \<noteq> 0 \<and> obj1 = obj \<and> js1 = js \<or>
    rc = 0 \<and> (\<exists>bs. obj1 = write_bytes obj (unat (fi_offset (field_scalar f))) bs \<and> length bs = scalar_size (fi_kind f)) \<and>
      scalar_read lc f js t obj1 js1"
proof -
  let ?o = "fi_offset (field_scalar f)"
  note si = scalar_inside [OF assms(1,2)]
  have room: "unat ?o + scalar_size (fi_kind f) \<le> length obj" using si(4) assms(1,3) by (auto simp: slot_ok_def)
  show ?thesis
  proof (cases "fi_kind f")
    case FIELD_INT
    show ?thesis
    proof (cases "rc = 0")
      case True
      then obtain v where v: "json_token_long_checked js t = Some v" "- (2 ^ 31) \<le> v" "v < 2 ^ 31" "obj1 = write_int obj ?o v" "js1 = js"
        using assms(5) FIELD_INT si(2) by (auto simp: read_scalar_def read_int_field_def split: option.splits if_splits)
      have "read_int obj1 ?o = v" unfolding v(4) by (rule read_written_int) (use room FIELD_INT v in \<open>simp_all add: scalar_size_def\<close>)
      then show ?thesis using True v FIELD_INT by (auto simp: scalar_read_def write_int_def scalar_size_def)
    next
      case False
      then show ?thesis
        using assms(5) FIELD_INT si(2) by (auto simp: read_scalar_def read_int_field_def split: option.splits if_splits)
    qed
  next
    case FIELD_LONG
    show ?thesis
    proof (cases "json_token_long_checked js t")
      case None
      then show ?thesis using assms(5) FIELD_LONG si(2) by (auto simp: read_scalar_def)
    next
      case (Some v)
      then have v: "rc = 0" "obj1 = write_long obj ?o v" "js1 = js" using assms(5) FIELD_LONG si(2) by (auto simp: read_scalar_def)
      have "read_long obj1 ?o = v" unfolding v(2)
        by (rule read_written_long) (use room FIELD_LONG long_checked_range [OF Some] in \<open>simp_all add: scalar_size_def\<close>)
      then show ?thesis using Some v FIELD_LONG by (auto simp: scalar_read_def write_long_def scalar_size_def)
    qed
  next
    case FIELD_DOUBLE
    show ?thesis
    proof (cases "json_token_double_checked (lc_strtod lc) js t")
      case None
      then show ?thesis using assms(5) FIELD_DOUBLE si(2) by (auto simp: read_scalar_def)
    next
      case (Some v)
      then have v: "rc = 0" "obj1 = write_double obj ?o v" "js1 = js" using assms(5) FIELD_DOUBLE si(2) by (auto simp: read_scalar_def)
      have "read_double obj1 ?o = v" unfolding v(2)
        by (rule read_written_double) (use room FIELD_DOUBLE in \<open>simp add: scalar_size_def\<close>)
      then show ?thesis using Some v FIELD_DOUBLE by (auto simp: scalar_read_def write_double_def scalar_size_def)
    qed
  next
    case FIELD_BOOL
    show ?thesis
    proof (cases "json_token_bool_checked js t")
      case None
      then show ?thesis using assms(5) FIELD_BOOL si(2) by (auto simp: read_scalar_def)
    next
      case (Some v)
      then have v: "rc = 0" "obj1 = write_bool obj ?o v" "js1 = js" using assms(5) FIELD_BOOL si(2) by (auto simp: read_scalar_def)
      have "read_bool obj1 ?o = v" unfolding v(2)
        by (rule read_written_bool) (use room FIELD_BOOL in \<open>simp add: scalar_size_def\<close>)
      then show ?thesis using Some v FIELD_BOOL by (auto simp: scalar_read_def write_bool_def scalar_size_def)
    qed
  next
    case FIELD_STR
    show ?thesis
    proof (cases "rc = 0")
      case True
      then have v: "tk_type t = JSON_STR" "unescape_in_place js t = (0, js1)" "obj1 = write_str obj ?o (of_nat (lc_base lc + tok_from t))"
        using assms(4,5) FIELD_STR si(2)
        by (auto simp: read_scalar_def read_text_field_def split: if_splits prod.splits)
      have "read_str obj1 ?o = of_nat (lc_base lc + tok_from t)" unfolding v(3)
        by (rule read_written_str) (use room FIELD_STR in \<open>simp add: scalar_size_def\<close>)
      moreover have "\<exists>bs. obj1 = write_bytes obj (unat ?o) bs \<and> length bs = scalar_size (fi_kind f)"
        unfolding v(3) write_str_def using FIELD_STR by (auto simp: scalar_size_def)
      ultimately show ?thesis using True v(1,2) FIELD_STR by (simp add: scalar_read_def)
    next
      case False
      then show ?thesis
        using assms(4,5) FIELD_STR si(2)
        by (auto simp: read_scalar_def read_text_field_def unescape_in_place_def split: if_splits prod.splits)
    qed
  next
    case FIELD_OBJECT
    then show ?thesis using si(1) by simp
  qed
qed

definition value_stored :: "Libc \<Rightarrow> FieldInfo \<Rightarrow> string \<Rightarrow> JsonToken \<Rightarrow> memory \<Rightarrow> string \<Rightarrow> memory \<Rightarrow> string \<Rightarrow> int \<Rightarrow> bool" where
  "value_stored lc f js0 t obj js obj1 js1 rc \<longleftrightarrow>
     length obj1 = length obj \<and> length js1 = length js \<and>
     (\<forall>j m. j + m \<le> unat (fi_offset f) \<or> unat (fi_offset f) + field_storage_size f \<le> j \<longrightarrow> bytes_at obj1 j m = bytes_at obj j m) \<and>
     (\<forall>i. i < tok_from t \<or> zone_end t \<le> i \<longrightarrow> js1 ! i = js ! i) \<and>
     (rc = 0 \<longrightarrow> (\<forall>obj2 js2. bytes_at obj2 (unat (fi_offset f)) (field_storage_size f) = bytes_at obj1 (unat (fi_offset f)) (field_storage_size f) \<and>
       same_at js1 js2 (tok_from t) (zone_end t) \<longrightarrow> value_read lc f js0 t obj2 js2))"

lemma read_value_shape:
  assumes "read_value lc f obj js t null path st = (rc, obj1, js1, st1)"
  shows "null \<Longrightarrow> obj1 = write_bytes obj (unat (fi_offset f)) (replicate (unat (fi_size f)) NUL) \<and> js1 = js"
    "\<not> null \<Longrightarrow> \<exists>rc0 part. read_scalar (lc_strtod lc) (lc_base lc) (field_scalar f) obj js t = (rc0, part, js1) \<and>
       (if rc0 = 0 then obj1 = field_set_present f part else obj1 = part \<and> rc \<noteq> 0)"
proof -
  show "null \<Longrightarrow> obj1 = write_bytes obj (unat (fi_offset f)) (replicate (unat (fi_size f)) NUL) \<and> js1 = js"
    using assms by (auto simp: read_value_def split: prod.splits)
  show "\<not> null \<Longrightarrow> \<exists>rc0 part. read_scalar (lc_strtod lc) (lc_base lc) (field_scalar f) obj js t = (rc0, part, js1) \<and>
       (if rc0 = 0 then obj1 = field_set_present f part else obj1 = part \<and> rc \<noteq> 0)"
    using assms by (auto simp: read_value_def split: prod.splits if_splits)
qed

lemma body_address:
  assumes "libc_ok lc js" "k \<le> length js"
  shows "unat (of_nat (lc_base lc + k) :: size_t) = lc_base lc + k"
proof -
  have "lc_base lc + k < 2 ^ LENGTH(64)" using assms by (simp add: libc_ok_def)
  then show ?thesis unfolding unat_of_nat by (rule mod_less)
qed

text \<open>The text of a decoded string, found again through the pointer in the structure.\<close>

lemma text_in_decoded:
  assumes tok: "0 \<le> tk_start t" "tk_start t \<le> tk_end t" "tok_upto t < length js" and lc: "libc_ok lc js"
    and un: "unescape_in_place js t = (0, js1)" and str: "tk_type t = JSON_STR" and same: "same_at js1 js2 (tok_from t) (zone_end t)"
  shows "text_in ta (lc_base lc) js2 (of_nat (lc_base lc + tok_from t)) =
    cstr (json_copy_str js t (nat (tk_end t - tk_start t) + 1))"
proof -
  let ?d = "json_copy_str js t (nat (tk_end t - tk_start t) + 1)"
  note fr = unescape_in_place_frame [OF un tok]
  have l: "length ?d < nat (tk_end t - tk_start t) + 1" by (rule json_copy_str_length) simp
  have "take (length ?d + 1) (drop (tok_from t) js1) = take (length ?d + 1) (drop (tok_from t) js2)"
    by (rule same_at_take [OF same]) (use l str tok in auto)
  then have "cstr (drop (tok_from t) js2) = cstr ?d" using fr(3) by (intro cstr_prefix) simp
  moreover have "unat (of_nat (lc_base lc + tok_from t) :: size_t) = lc_base lc + tok_from t"
    by (rule body_address [OF lc]) (use tok in simp)
  moreover have "length js2 = length js" using same fr(1) by (simp add: same_at_def)
  moreover have "tok_from t < length js" using tok by simp
  ultimately show ?thesis by (simp add: text_in_def del: of_nat_add)
qed

lemma read_value_stored:
  assumes valid: "slot_ok f n" "n < 2 ^ 16" "n \<le> length obj" "unat (fi_size f) = field_storage_size f"
    and tok: "0 \<le> tk_start t" "tk_start t \<le> tk_end t" "tok_upto t < length js" "same_at js0 js (tok_from t) (tok_upto t)"
    and lc: "libc_ok lc js"
    and null: "token_null js t \<Longrightarrow> fi_kind f = FIELD_STR \<or> has_flag (fi_flags f) FIELD_NULLABLE"
    and run: "read_value lc f obj js t (token_null js t) path st = (rc, obj1, js1, st1)"
  shows "value_stored lc f js0 t obj js obj1 js1 rc"
proof (cases "token_null js t")
  case True
  let ?k = "unat (fi_offset f)"
  have o: "obj1 = write_bytes obj ?k (replicate (field_storage_size f) NUL)" "js1 = js"
    using read_value_shape(1) [OF run True] valid(4) by simp_all
  have room: "?k + length (replicate (field_storage_size f) NUL) \<le> length obj" using valid by (simp add: slot_ok_def)
  have z: "bytes_at obj1 ?k (field_storage_size f) = replicate (field_storage_size f) NUL"
    unfolding o(1) using bytes_at_written [OF room] by simp
  have n0: "token_null js0 t" using token_null_same [OF tok(4,1)] True by simp
  have "value_read lc f js0 t obj2 js2" if "bytes_at obj2 ?k (field_storage_size f) = bytes_at obj1 ?k (field_storage_size f)" for obj2 js2
    using zero_field_null(1) [OF valid(1,2) _ null [OF True], of obj2] that z n0 by (simp add: value_read_def)
  moreover have "length obj1 = length obj" unfolding o(1) using room by simp
  moreover have "bytes_at obj1 j m = bytes_at obj j m" if "j + m \<le> ?k \<or> ?k + field_storage_size f \<le> j" for j m
    unfolding o(1) by (rule bytes_at_elsewhere [OF room]) (use that in simp)
  ultimately show ?thesis using o(2) by (simp add: value_stored_def)
next
  case False
  let ?o = "fi_offset (field_scalar f)" and ?k = "unat (fi_offset f)"
  obtain rc0 part where r: "read_scalar (lc_strtod lc) (lc_base lc) (field_scalar f) obj js t = (rc0, part, js1)"
    and o: "if rc0 = 0 then obj1 = field_set_present f part else obj1 = part \<and> rc \<noteq> 0"
    using read_value_shape(2) [OF run False] by blast
  note sc = read_scalar_stored [OF valid(1-3) False r]
  show ?thesis
  proof (cases "rc0 = 0")
    case no: False
    then show ?thesis using sc o by (simp add: value_stored_def)
  next
    case yes: True
    then obtain bs where bs: "part = write_bytes obj (unat ?o) bs" "length bs = scalar_size (fi_kind f)"
      and rd: "scalar_read lc f js t part js1" using sc by blast
    have strk: "fi_kind f = FIELD_STR \<Longrightarrow> ?o = fi_offset f" using scalar_inside(5,6) [OF valid(1,2)] by blast
    have "read_str part (fi_offset f) \<noteq> 0" if k: "fi_kind f = FIELD_STR"
    proof -
      have "unat (read_str part (fi_offset f)) = lc_base lc + tok_from t"
        using rd k strk [OF k] body_address [OF lc, of "tok_from t"] tok(1-3) by (simp add: scalar_read_def del: of_nat_add)
      then show ?thesis using lc by (auto simp: libc_ok_def)
    qed
    note st = scalar_stored [OF valid(1-3) bs this]
    have obj1: "obj1 = field_set_present f part" using o yes by simp
    have n0: "\<not> token_null js0 t" using token_null_same [OF tok(4,1)] False by simp
    have un: "fi_kind f = FIELD_STR \<Longrightarrow> unescape_in_place js t = (0, js1) \<and> tk_type t = JSON_STR" using rd by (simp add: scalar_read_def)
    have js1: "fi_kind f \<noteq> FIELD_STR \<Longrightarrow> js1 = js" using rd by (auto simp: scalar_read_def Let_def)
    have frame: "length js1 = length js" "i < tok_from t \<or> zone_end t \<le> i \<Longrightarrow> js1 ! i = js ! i" for i
      using js1 un unescape_in_place_frame(1,2) [of js t 0 js1] tok(1-3) by (cases "fi_kind f = FIELD_STR"; force)+
    have "value_read lc f js0 t obj2 js2"
      if b: "bytes_at obj2 ?k (field_storage_size f) = bytes_at obj1 ?k (field_storage_size f)" and j: "same_at js1 js2 (tok_from t) (zone_end t)" for obj2 js2
    proof -
      note ag = field_reads_agree [OF valid(1,2) b]
      have nn: "\<not> field_is_null f obj2" using ag(1) st(2) obj1 by simp
      show ?thesis
      proof (cases "fi_kind f")
        case FIELD_STR
        have "text_in (lc_text_at lc) (lc_base lc) js2 (of_nat (lc_base lc + tok_from t)) =
            cstr (json_copy_str js0 t (nat (tk_end t - tk_start t) + 1))"
          using text_in_decoded [OF tok(1-3) lc _ _ j] un FIELD_STR json_copy_str_same [OF tok(4)] by simp
        moreover have "read_str obj2 ?o = of_nat (lc_base lc + tok_from t)"
          using ag(6) st(7) obj1 rd FIELD_STR strk by (simp add: scalar_read_def)
        ultimately show ?thesis using nn n0 FIELD_STR un by (simp add: value_read_def)
      qed (use ag st obj1 rd nn n0 long_checked_same [OF tok(4)] double_checked_same [OF tok(4)] bool_checked_same [OF tok(4)]
          in \<open>simp_all add: value_read_def scalar_read_def\<close>)
    qed
    then show ?thesis using st(1,8) frame obj1 by (simp add: value_stored_def)
  qed
qed


section \<open>The keys of an object are fields\<close>

lemma unknown_keys_failed: "fst (unknown_keys js toks r prefix fs ks True st)"
  by (induction js toks r prefix fs ks "True" st rule: unknown_keys.induct) auto

lemma unknown_keys_known:
  assumes obj: "json_parse js0 mx = Some toks" "r < length toks" "tk_type (toks ! r) = JSON_OBJ"
  shows "unknown_keys js toks r prefix fs [m..<length toks] failed st = (False, st1) \<Longrightarrow> \<forall>k \<in> set (keys toks r). k + 1 \<noteq> m \<Longrightarrow>
    \<not> failed \<and> st1 = st \<and> (\<forall>k \<in> set (keys toks r). m \<le> k \<longrightarrow> list_ex (\<lambda>f. fi_name f = Some (key_name js toks k)) fs)"
proof (induction "length toks - m" arbitrary: m failed rule: less_induct)
  case less
  have keys: "k < length toks" "tk_parent (toks ! k) = int r" "tk_type (toks ! k) = JSON_STR" if "k \<in> set (keys toks r)" for k
    using key_child [OF that] parsed_object(1) [OF obj] that by (auto simp: children_def object_ok_def key_token_def)
  show ?case
  proof (cases "m < length toks")
    case False
    then show ?thesis using less.prems(1) keys(1) by fastforce
  next
    case True
    then have u: "[m..<length toks] = m # [Suc m..<length toks]" by (simp add: upt_conv_Cons)
    have d: "drop 1 [Suc m..<length toks] = [m + 2..<length toks]" by simp
    show ?thesis
    proof (cases "tk_parent (toks ! m) \<noteq> int r \<or> tk_type (toks ! m) \<noteq> JSON_STR")
      case True
      then have nk: "m \<notin> set (keys toks r)" using keys(2,3) by blast
      have run: "unknown_keys js toks r prefix fs [Suc m..<length toks] failed st = (False, st1)"
        using less.prems(1) True unfolding u by simp
      have nv: "\<forall>k \<in> set (keys toks r). k + 1 \<noteq> Suc m" using nk by auto
      show ?thesis
        using less.hyps [OF _ run nv] \<open>m < length toks\<close> nk by (metis Suc_leI diff_less_mono2 lessI order_le_less)
    next
      case False
      then have "m \<in> set (children toks r)" using \<open>m < length toks\<close> by (simp add: children_def)
      then have mk: "m \<in> set (keys toks r)" using child_key_or_value [OF obj] less.prems(2) by metis
      then have nv: "m + 1 \<notin> set (keys toks r)" by (rule value_not_key [OF obj])
      then have nv2: "\<forall>k \<in> set (keys toks r). k + 1 \<noteq> m + 2" by auto
      have nonul: "string_has_no_nul js (toks ! m)" and known: "list_ex (\<lambda>f. fi_name f = Some (key_name js toks m)) fs"
        and run: "unknown_keys js toks r prefix fs [m + 2..<length toks] failed st = (False, st1)"
        using less.prems(1) False unknown_keys_failed [of js toks r prefix fs] unfolding u unknown_keys.simps d
        by (auto split: if_splits simp: prod_eq_iff)
      have "length toks - (m + 2) < length toks - m" using \<open>m < length toks\<close> by simp
      from less.hyps [OF this run nv2] have ih: "\<not> failed \<and> st1 = st"
        "\<forall>k \<in> set (keys toks r). m + 2 \<le> k \<longrightarrow> list_ex (\<lambda>f. fi_name f = Some (key_name js toks k)) fs" by blast+
      have "list_ex (\<lambda>f. fi_name f = Some (key_name js toks k)) fs" if "k \<in> set (keys toks r)" "m \<le> k" for k
      proof -
        have "k = m \<or> k = m + 1 \<or> m + 2 \<le> k" using that(2) by linarith
        then show ?thesis using known nv ih(2) that(1) by blast
      qed
      then show ?thesis using ih(1) by blast
    qed
  qed
qed


section \<open>What a structure says\<close>

text \<open>Every field present in the object has the value of its token, a field that is absent keeps its bytes (and
  was not required), and every key is a field; objects within objects the same.\<close>

fun type_read :: "Libc \<Rightarrow> bool \<Rightarrow> string \<Rightarrow> JsonToken list \<Rightarrow> TypeInfo \<Rightarrow> nat \<Rightarrow> memory \<Rightarrow> memory \<Rightarrow> string \<Rightarrow> bool"
  and fields_read :: "Libc \<Rightarrow> bool \<Rightarrow> string \<Rightarrow> JsonToken list \<Rightarrow> FieldInfo list \<Rightarrow> nat \<Rightarrow> memory \<Rightarrow> memory \<Rightarrow> string \<Rightarrow> bool" where
  "type_read lc partial js0 toks (TypeInfo name sz flds) r before after js \<longleftrightarrow>
     tk_type (toks ! r) = JSON_OBJ \<and>
     (case flds of
        None \<Rightarrow> False
      | Some fs \<Rightarrow>
          list_all (\<lambda>k. list_ex (\<lambda>f. fi_name f = Some (key_name js0 toks k)) fs) (keys toks r) \<and>
          fields_read lc partial js0 toks fs r before after js)"
| "fields_read lc partial js0 toks [] r before after js \<longleftrightarrow> True"
| "fields_read lc partial js0 toks (FieldInfo name kind offset fsz flags nested refs rkey rules # fs) r before after js \<longleftrightarrow>
     (case json_object_get js0 toks (int r) (str_of name) of
        None \<Rightarrow> (partial \<or> \<not> has_flag flags FIELD_NOT_NULL) \<and>
          bytes_at after (unat offset) (unat fsz) = bytes_at before (unat offset) (unat fsz)
      | Some t \<Rightarrow>
          if kind = FIELD_OBJECT then
            (case nested of
               None \<Rightarrow> False
             | Some ty \<Rightarrow> type_read lc partial js0 toks ty t (drop (unat offset) before) (drop (unat offset) after) js)
          else value_read lc (FieldInfo name kind offset fsz flags nested refs rkey rules) js0 (toks ! t) after js) \<and>
     fields_read lc partial js0 toks fs r before after js"

text \<open>A layout as the C compiler makes it: different names, fields apart.\<close>

definition fields_apart :: "FieldInfo \<Rightarrow> FieldInfo \<Rightarrow> bool" where
  "fields_apart f g \<longleftrightarrow>
     fi_name f \<noteq> fi_name g \<and>
     (unat (fi_offset f) + unat (fi_size f) \<le> unat (fi_offset g) \<or> unat (fi_offset g) + unat (fi_size g) \<le> unat (fi_offset f))"

fun layout_ok :: "TypeInfo \<Rightarrow> bool"
  and fields_layout :: "FieldInfo list \<Rightarrow> bool" where
  "layout_ok (TypeInfo name sz flds) = (case flds of None \<Rightarrow> True | Some fs \<Rightarrow> fields_layout fs)"
| "fields_layout [] = True"
| "fields_layout (FieldInfo name kind offset fsz flags nested refs rkey rules # fs) =
     ((case nested of None \<Rightarrow> True | Some t \<Rightarrow> layout_ok t) \<and>
      list_all (fields_apart (FieldInfo name kind offset fsz flags nested refs rkey rules)) fs \<and> fields_layout fs)"

abbreviation field_bytes :: "FieldInfo \<Rightarrow> memory \<Rightarrow> string" where
  "field_bytes f obj \<equiv> bytes_at obj (unat (fi_offset f)) (unat (fi_size f))"

abbreviation get_field :: "string \<Rightarrow> JsonToken list \<Rightarrow> nat \<Rightarrow> FieldInfo \<Rightarrow> nat option" where
  "get_field js toks r f \<equiv> json_object_get js toks (int r) (str_of (fi_name f))"

definition same_outside :: "FieldInfo list \<Rightarrow> memory \<Rightarrow> memory \<Rightarrow> bool" where
  "same_outside fs x y \<longleftrightarrow> length x = length y \<and>
     (\<forall>j m. (\<forall>f \<in> set fs. j + m \<le> unat (fi_offset f) \<or> unat (fi_offset f) + unat (fi_size f) \<le> j) \<longrightarrow> bytes_at x j m = bytes_at y j m)"

definition text_outside :: "string \<Rightarrow> JsonToken list \<Rightarrow> nat \<Rightarrow> FieldInfo list \<Rightarrow> string \<Rightarrow> string \<Rightarrow> bool" where
  "text_outside js0 toks r fs x y \<longleftrightarrow> length x = length y \<and>
     (\<forall>i. (\<forall>f \<in> set fs. \<forall>t. get_field js0 toks r f = Some t \<longrightarrow> i < tok_from (toks ! t) \<or> zone_end (toks ! t) \<le> i) \<longrightarrow> x ! i = y ! i)"

definition fields_done ::
  "Libc \<Rightarrow> bool \<Rightarrow> string \<Rightarrow> JsonToken list \<Rightarrow> nat \<Rightarrow> FieldInfo list \<Rightarrow> bool \<Rightarrow> memory \<Rightarrow> string \<Rightarrow> int \<Rightarrow> memory \<Rightarrow> string \<Rightarrow> bool" where
  "fields_done lc partial js0 toks r fs failed obj js rc obj' js' \<longleftrightarrow>
     same_outside fs obj' obj \<and> text_outside js0 toks r fs js' js \<and>
     (rc = 0 \<longrightarrow> \<not> failed \<and>
       (\<forall>before after js2. (\<forall>f \<in> set fs. field_bytes f before = field_bytes f obj \<and> field_bytes f after = field_bytes f obj' \<and>
            (\<forall>t. get_field js0 toks r f = Some t \<longrightarrow> same_at js' js2 (tok_from (toks ! t)) (zone_end (toks ! t)))) \<longrightarrow>
          fields_read lc partial js0 toks fs r before after js2))"

definition nested_done ::
  "Libc \<Rightarrow> bool \<Rightarrow> string \<Rightarrow> JsonToken list \<Rightarrow> nat \<Rightarrow> TypeInfo \<Rightarrow> memory \<Rightarrow> string \<Rightarrow> int \<Rightarrow> memory \<Rightarrow> string \<Rightarrow> bool" where
  "nested_done lc partial js0 toks r t obj js rc obj' js' \<longleftrightarrow>
     kept_beyond (unat (ti_size t)) obj obj' \<and> length js' = length js \<and>
     (\<forall>i. i < tok_from (toks ! r) \<or> tok_upto (toks ! r) \<le> i \<longrightarrow> js' ! i = js ! i) \<and>
     (rc = 0 \<longrightarrow>
       (\<forall>before after js2. take (unat (ti_size t)) before = take (unat (ti_size t)) obj \<and>
          take (unat (ti_size t)) after = take (unat (ti_size t)) obj' \<and>
          same_at js' js2 (tok_from (toks ! r)) (tok_upto (toks ! r)) \<longrightarrow> type_read lc partial js0 toks t r before after js2))"

text \<open>A field, then the others.\<close>

lemma fields_done_Cons:
  assumes obj: "json_parse js0 mx = Some toks" "r < length toks" "tk_type (toks ! r) = JSON_OBJ"
    and apart: "list_all (fields_apart f) fs" and names: "fi_name f \<noteq> None" "\<forall>g \<in> set fs. fi_name g \<noteq> None"
    and head: "fields_done lc partial js0 toks r [f] False obj js rc1 obj1 js1"
    and tail: "fields_done lc partial js0 toks r fs (failed \<or> rc1 \<noteq> 0) obj1 js1 rc obj' js'"
  shows "fields_done lc partial js0 toks r (f # fs) failed obj js rc obj' js'"
proof -
  have ne: "t \<noteq> u" if "get_field js0 toks r f = Some t" "g \<in> set fs" "get_field js0 toks r g = Some u" for t g u
  proof -
    have "str_of (fi_name f) \<noteq> str_of (fi_name g)"
      using apart that(2) names by (auto simp: list_all_iff fields_apart_def str_of_def split: option.splits)
    then show ?thesis using object_get_child(1) [OF obj that(1)] object_get_child(1) [OF obj that(3)] by auto
  qed
  have zones: "i < tok_from (toks ! u) \<or> zone_end (toks ! u) \<le> i"
    if "get_field js0 toks r f = Some t" "g \<in> set fs" "get_field js0 toks r g = Some u" "tok_from (toks ! t) \<le> i" "i < zone_end (toks ! t)" for t g u i
    using children_apart [OF obj(1) object_get_child(2) [OF obj that(1)] object_get_child(2) [OF obj that(3)] ne [OF that(1-3)]] that(4,5)
    by linarith
  have ap: "unat (fi_offset f) + unat (fi_size f) \<le> unat (fi_offset g) \<or> unat (fi_offset g) + unat (fi_size g) \<le> unat (fi_offset f)"
    if "g \<in> set fs" for g using apart that by (auto simp: list_all_iff fields_apart_def)
  have fb: "field_bytes f obj' = field_bytes f obj1"
    using tail ap unfolding fields_done_def same_outside_def by blast
  have gb: "field_bytes g obj1 = field_bytes g obj" if "g \<in> set fs" for g
    using head ap [OF that] unfolding fields_done_def same_outside_def by auto
  have hb: "j + m \<le> unat (fi_offset f) \<or> unat (fi_offset f) + unat (fi_size f) \<le> j \<Longrightarrow> bytes_at obj1 j m = bytes_at obj j m" for j m
    using head unfolding fields_done_def same_outside_def by auto
  have tb: "\<forall>g \<in> set fs. j + m \<le> unat (fi_offset g) \<or> unat (fi_offset g) + unat (fi_size g) \<le> j \<Longrightarrow>
      bytes_at obj' j m = bytes_at obj1 j m" for j m
    using tail unfolding fields_done_def same_outside_def by blast
  have so: "same_outside (f # fs) obj' obj"
    unfolding same_outside_def
  proof (intro conjI allI impI)
    show "length obj' = length obj" using head tail by (simp add: fields_done_def same_outside_def)
    fix j m
    assume "\<forall>g \<in> set (f # fs). j + m \<le> unat (fi_offset g) \<or> unat (fi_offset g) + unat (fi_size g) \<le> j"
    then have "bytes_at obj' j m = bytes_at obj1 j m" "bytes_at obj1 j m = bytes_at obj j m"
      by (intro tb hb; simp)+
    then show "bytes_at obj' j m = bytes_at obj j m" by simp
  qed
  have to: "text_outside js0 toks r (f # fs) js' js"
    unfolding text_outside_def
  proof (intro conjI allI impI)
    show "length js' = length js" using head tail by (simp add: fields_done_def text_outside_def)
    fix i
    assume "\<forall>g \<in> set (f # fs). \<forall>t. get_field js0 toks r g = Some t \<longrightarrow> i < tok_from (toks ! t) \<or> zone_end (toks ! t) \<le> i"
    then have "js' ! i = js1 ! i" "js1 ! i = js ! i"
      using head tail unfolding fields_done_def text_outside_def by simp_all
    then show "js' ! i = js ! i" by simp
  qed
  have "fields_read lc partial js0 toks (f # fs) r before after js2"
    if rc: "rc = 0" and b: "\<forall>g \<in> set (f # fs). field_bytes g before = field_bytes g obj \<and> field_bytes g after = field_bytes g obj' \<and>
        (\<forall>t. get_field js0 toks r g = Some t \<longrightarrow> same_at js' js2 (tok_from (toks ! t)) (zone_end (toks ! t)))" for before after js2
  proof -
    have rc1: "rc1 = 0" using tail rc by (simp add: fields_done_def)
    have "same_at js1 js2 (tok_from (toks ! t)) (zone_end (toks ! t))" if t: "get_field js0 toks r f = Some t" for t
    proof -
      have "same_at js1 js' (tok_from (toks ! t)) (zone_end (toks ! t))"
        using tail zones [OF t] unfolding fields_done_def text_outside_def same_at_def by metis
      then show ?thesis using b t by (auto intro: same_at_trans)
    qed
    then have "fields_read lc partial js0 toks [f] r before after js2"
      using head rc1 b fb unfolding fields_done_def by simp
    moreover have "fields_read lc partial js0 toks fs r before after js2"
      using tail rc b gb unfolding fields_done_def by simp
    ultimately show ?thesis by (cases f) simp
  qed
  then show ?thesis using so to tail unfolding fields_done_def by simp
qed


section \<open>One field\<close>

definition text_ready :: "string \<Rightarrow> JsonToken list \<Rightarrow> nat \<Rightarrow> FieldInfo list \<Rightarrow> string \<Rightarrow> bool" where
  "text_ready js0 toks r fs js \<longleftrightarrow> length js = length js0 \<and>
     (\<forall>k \<in> set (keys toks r). same_at js0 js (tok_from (toks ! k)) (tok_upto (toks ! k))) \<and>
     (\<forall>f \<in> set fs. \<forall>t. get_field js0 toks r f = Some t \<longrightarrow> same_at js0 js (tok_from (toks ! t)) (tok_upto (toks ! t)))"

lemma text_ready_start:
  assumes "json_parse js0 mx = Some toks" "r < length toks" "tk_type (toks ! r) = JSON_OBJ" "same_at js0 js (tok_from (toks ! r)) (tok_upto (toks ! r))"
  shows "text_ready js0 toks r fs js"
proof -
  have c: "same_at js0 js (tok_from (toks ! c)) (tok_upto (toks ! c))" if "c \<in> set (children toks r)" for c
    by (rule same_at_mono [OF assms(4)]) (use child_inside(1,2) [OF assms(1) that] in simp_all)
  have "same_at js0 js (tok_from (toks ! k)) (tok_upto (toks ! k))" if "k \<in> set (keys toks r)" for k using c that key_child by blast
  moreover have "same_at js0 js (tok_from (toks ! t)) (tok_upto (toks ! t))" if "get_field js0 toks r f = Some t" for f t
    using c object_get_child(2) [OF assms(1-3) that] by blast
  ultimately show ?thesis using assms(4) by (simp add: text_ready_def same_at_def)
qed

lemma text_ready_next:
  assumes obj: "json_parse js0 mx = Some toks" "r < length toks" "tk_type (toks ! r) = JSON_OBJ"
    and apart: "list_all (fields_apart f) fs" and names: "fi_name f \<noteq> None" "\<forall>g \<in> set fs. fi_name g \<noteq> None"
    and "text_ready js0 toks r (f # fs) js" "text_outside js0 toks r [f] js1 js"
  shows "text_ready js0 toks r fs js1"
proof -
  have keep: "same_at js0 js1 (tok_from (toks ! c)) (tok_upto (toks ! c))"
    if child: "c \<in> set (children toks r)" and same: "same_at js0 js (tok_from (toks ! c)) (tok_upto (toks ! c))"
      and differ: "\<forall>t. get_field js0 toks r f = Some t \<longrightarrow> c \<noteq> t" for c
  proof -
    have "i < tok_from (toks ! t) \<or> zone_end (toks ! t) \<le> i"
      if t: "get_field js0 toks r f = Some t" and i: "tok_from (toks ! c) \<le> i" "i < tok_upto (toks ! c)" for t i
    proof -
      have "c \<noteq> t" using differ t by blast
      then have "zone_end (toks ! c) \<le> tok_from (toks ! t) \<or> zone_end (toks ! t) \<le> tok_from (toks ! c)"
        by (rule children_apart [OF obj(1) child object_get_child(2) [OF obj t]])
      then show ?thesis using i by auto
    qed
    then have "js1 ! i = js ! i" if "tok_from (toks ! c) \<le> i" "i < tok_upto (toks ! c)" for i
      using assms(8) that unfolding text_outside_def by simp
    then show ?thesis using same assms(8) by (simp add: same_at_def text_outside_def)
  qed
  have ne: "t \<noteq> u" if "get_field js0 toks r f = Some t" "g \<in> set fs" "get_field js0 toks r g = Some u" for t g u
  proof -
    have "str_of (fi_name f) \<noteq> str_of (fi_name g)"
      using apart that(2) names by (auto simp: list_all_iff fields_apart_def str_of_def split: option.splits)
    then show ?thesis using object_get_child(1) [OF obj that(1)] object_get_child(1) [OF obj that(3)] by auto
  qed
  have "same_at js0 js1 (tok_from (toks ! k)) (tok_upto (toks ! k))" if "k \<in> set (keys toks r)" for k
    by (rule keep) (use that key_child assms(7) object_get_child(3) [OF obj] in \<open>auto simp: text_ready_def\<close>)
  moreover have "same_at js0 js1 (tok_from (toks ! u)) (tok_upto (toks ! u))" if "g \<in> set fs" "get_field js0 toks r g = Some u" for g u
    by (rule keep) (use that object_get_child(2) [OF obj that(2)] assms(7) ne in \<open>auto simp: text_ready_def\<close>)
  moreover have "length js1 = length js0" using assms(7,8) by (simp add: text_ready_def text_outside_def)
  ultimately show ?thesis by (simp add: text_ready_def)
qed

lemma get_field_ready:
  assumes obj: "json_parse js0 mx = Some toks" "r < length toks" "tk_type (toks ! r) = JSON_OBJ" and "text_ready js0 toks r fs js"
  shows "json_object_get js toks (int r) key = json_object_get js0 toks (int r) key"
  by (rule object_get_same [OF obj]) (use assms(4) in \<open>simp add: text_ready_def\<close>)

lemma field_passed:
  assumes obj: "json_parse js0 mx = Some toks" "r < length toks" "tk_type (toks ! r) = JSON_OBJ" and ready: "text_ready js0 toks r fs js"
    and round: "body_round f js toks r prefix offset0 partial st = Pass bad st1"
  shows "fields_done lc partial js0 toks r [f] False obj js (if bad then - 1 else 0) obj js"
proof (cases bad)
  case True
  then show ?thesis by (simp add: fields_done_def same_outside_def text_outside_def)
next
  case False
  then have "get_field js0 toks r f = None" "partial \<or> \<not> has_flag (fi_flags f) FIELD_NOT_NULL"
    using round get_field_ready [OF obj ready] by (auto simp: body_round_def Let_def split: if_splits option.splits)
  then show ?thesis using False by (cases f) (simp add: fields_done_def same_outside_def text_outside_def)
qed

lemma field_valued:
  assumes obj: "json_parse js0 mx = Some toks" "r < length toks" "tk_type (toks ! r) = JSON_OBJ" and ready: "text_ready js0 toks r (f # fs) js"
    and kind: "fi_kind f \<noteq> FIELD_OBJECT" and slot: "slot_ok f n" "n < 2 ^ 16" "n \<le> length ob" "unat (fi_size f) = field_storage_size f"
    and lc: "libc_ok lc js0"
    and round: "body_round f js toks r prefix offset0 partial st = Value t path null st1"
    and run: "read_value lc f ob js (toks ! t) null path st1 = (rc, ob1, js1, st2)"
  shows "fields_done lc partial js0 toks r [f] False ob js rc ob1 js1"
proof -
  have t: "get_field js0 toks r f = Some t" "null = token_null js (toks ! t)"
    "null \<Longrightarrow> fi_kind f = FIELD_STR \<or> has_flag (fi_flags f) FIELD_NULLABLE"
    using round get_field_ready [OF obj ready] by (auto simp: body_round_def Let_def split: if_splits option.splits)
  note ci = child_inside [OF obj(1) object_get_child(2) [OF obj t(1)]]
  have len: "length js = length js0" and sm: "same_at js0 js (tok_from (toks ! t)) (tok_upto (toks ! t))"
    using ready t(1) by (simp_all add: text_ready_def)
  have "libc_ok lc js" using lc len by (simp add: libc_ok_def)
  from read_value_stored [OF slot ci(3,4) _ sm this _ run [unfolded t(2)]] ci(5) len t(2,3)
  have vs: "value_stored lc f js0 (toks ! t) ob js ob1 js1 rc" by simp
  have fb: "field_bytes f x = bytes_at x (unat (fi_offset f)) (field_storage_size f)" for x using slot(4) by simp
  have "bytes_at ob1 j m = bytes_at ob j m" if "j + m \<le> unat (fi_offset f) \<or> unat (fi_offset f) + unat (fi_size f) \<le> j" for j m
    using vs that unfolding value_stored_def slot(4) by blast
  then have so: "same_outside [f] ob1 ob" using vs by (auto simp: same_outside_def value_stored_def)
  have to: "text_outside js0 toks r [f] js1 js" using vs t(1) unfolding value_stored_def text_outside_def by simp
  have "fields_read lc partial js0 toks [f] r before after js2"
    if "rc = 0" "field_bytes f after = field_bytes f ob1" "same_at js1 js2 (tok_from (toks ! t)) (zone_end (toks ! t))" for before after js2
  proof -
    have "value_read lc f js0 (toks ! t) after js2" using vs that unfolding value_stored_def fb by blast
    then show ?thesis using t(1) kind by (cases f) simp
  qed
  then show ?thesis using so to t(1) by (simp add: fields_done_def)
qed

lemma field_nested:
  assumes obj: "json_parse js0 mx = Some toks" "r < length toks" "tk_type (toks ! r) = JSON_OBJ" and ready: "text_ready js0 toks r (f # fs) js"
    and kind: "fi_kind f = FIELD_OBJECT" "fi_nested f = Some ty"
    and size: "unat (fi_size f) = unat (ti_size ty)" "unat (fi_offset f) + unat (fi_size f) \<le> length ob"
    and round: "body_round f js toks r prefix offset0 partial st = Value t path null st1"
    and nested: "nested_done lc partial js0 toks t ty (drop (unat (fi_offset f)) ob) js rc part js1"
  shows "fields_done lc partial js0 toks r [f] False ob js rc (take (unat (fi_offset f)) ob @ part) js1"
proof -
  let ?k = "unat (fi_offset f)" and ?n = "unat (ti_size ty)"
  have t: "get_field js0 toks r f = Some t" "tk_type (toks ! t) = JSON_OBJ"
    using round get_field_ready [OF obj ready] kind by (auto simp: body_round_def Let_def split: if_splits option.splits)
  have ob1: "length part = length ob - ?k" "drop ?n part = drop ?n (drop ?k ob)"
    using nested by (simp_all add: nested_done_def kept_beyond_def)
  have "bytes_at (take ?k ob @ part) j m = bytes_at ob j m" if "j + m \<le> ?k \<or> ?k + ?n \<le> j" for j m
    using that
  proof
    assume "j + m \<le> ?k"
    then show ?thesis using size by (simp add: bytes_at_def take_drop)
  next
    assume j: "?k + ?n \<le> j"
    then obtain d where d: "j = ?k + ?n + d" using le_Suc_ex by blast
    have lk: "length (take ?k ob) = ?k" using size by simp
    have "drop j (take ?k ob @ part) = drop d (drop ?n part)"
      unfolding d drop_append lk using lk by (simp add: add.commute add.left_commute)
    also have "\<dots> = drop j ob" unfolding ob1(2) using d by (simp add: add.commute add.left_commute)
    finally show ?thesis by (simp add: bytes_at_def)
  qed
  then have so: "same_outside [f] (take ?k ob @ part) ob" using ob1(1) size by (auto simp: same_outside_def)
  have to: "text_outside js0 toks r [f] js1 js" using nested t unfolding nested_done_def text_outside_def by simp
  have "fields_read lc partial js0 toks [f] r before after js2"
    if "rc = 0" "field_bytes f before = field_bytes f ob" "field_bytes f after = field_bytes f (take ?k ob @ part)"
      "same_at js1 js2 (tok_from (toks ! t)) (zone_end (toks ! t))" for before after js2
  proof -
    have "type_read lc partial js0 toks ty t (drop ?k before) (drop ?k after) js2"
      using nested that t(2) size unfolding nested_done_def bytes_at_def by (simp add: min_def)
    then show ?thesis using t(1) kind by (cases f) simp
  qed
  then show ?thesis using so to t(1) by (simp add: fields_done_def)
qed


section \<open>All fields, and objects within objects\<close>

lemma fields_valid_each:
  "fst (fields_valid sz fs depth remaining) \<Longrightarrow> g \<in> set fs \<Longrightarrow>
     fi_name g \<noteq> None \<and> 0 < unat (fi_size g) \<and> unat (fi_offset g) + unat (fi_size g) \<le> unat sz \<and>
     (fi_kind g \<noteq> FIELD_OBJECT \<longrightarrow> unat (fi_size g) = field_storage_size g)"
proof (induction fs arbitrary: remaining)
  case (Cons f fs)
  obtain name kind offset fsz flags nested refs rkey rules where f: "f = FieldInfo name kind offset fsz flags nested refs rkey rules" by (cases f)
  show ?case
  proof (cases "g = f")
    case True
    then show ?thesis
      using Cons.prems(1) f by (auto simp: Let_def is_safe_identifier_def split: prod.splits if_splits option.splits)
  next
    case False
    then have "g \<in> set fs" using Cons.prems(2) by simp
    moreover have "\<exists>rem. fst (fields_valid sz fs depth rem)"
      using Cons.prems(1) f by (auto simp: Let_def split: prod.splits if_splits)
    ultimately show ?thesis using Cons.IH by blast
  qed
qed simp

lemma nested_from_fields:
  assumes obj: "json_parse js0 mx = Some toks" "r < length toks" "tk_type (toks ! r) = JSON_OBJ"
    and valid: "fst (fields_valid sz fs depth remaining)" and size: "unat sz \<le> length ob"
    and ready: "text_ready js0 toks r fs js"
    and known: "\<not> failed \<Longrightarrow> \<forall>k \<in> set (keys toks r). list_ex (\<lambda>f. fi_name f = Some (key_name js toks k)) fs"
    and "fields_done lc partial js0 toks r fs failed ob js rc ob' js'"
  shows "nested_done lc partial js0 toks r (TypeInfo name sz (Some fs)) ob js rc ob' js'"
proof -
  have inside: "unat (fi_offset g) + unat (fi_size g) \<le> unat sz" if "g \<in> set fs" for g
    using fields_valid_each [OF valid that] by simp
  have so: "same_outside fs ob' ob" and to: "text_outside js0 toks r fs js' js" using assms(8) by (simp_all add: fields_done_def)
  have len: "length ob' = length ob" "length js' = length js" using so to by (simp_all add: same_outside_def text_outside_def)
  have "bytes_at ob' (unat sz) (length ob) = bytes_at ob (unat sz) (length ob)"
    using so inside unfolding same_outside_def by blast
  then have "kept_beyond (unat sz) ob ob'" using len by (simp add: kept_beyond_def bytes_at_def)
  moreover have "js' ! i = js ! i" if i: "i < tok_from (toks ! r) \<or> tok_upto (toks ! r) \<le> i" for i
  proof -
    have "i < tok_from (toks ! t) \<or> zone_end (toks ! t) \<le> i" if "get_field js0 toks r f = Some t" for f t
      using child_inside(1,2) [OF obj(1) object_get_child(2) [OF obj that]] i by linarith
    then show ?thesis using to unfolding text_outside_def by blast
  qed
  moreover have "type_read lc partial js0 toks (TypeInfo name sz (Some fs)) r before after js2"
    if rc: "rc = 0" and tk: "take (unat sz) before = take (unat sz) ob" "take (unat sz) after = take (unat sz) ob'"
      and sm: "same_at js' js2 (tok_from (toks ! r)) (tok_upto (toks ! r))" for before after js2
  proof -
    have fb: "field_bytes g x = field_bytes g y" if "take (unat sz) x = take (unat sz) y" "g \<in> set fs" for x y g
    proof -
      have "field_bytes g z = bytes_at (take (unat sz) z) (unat (fi_offset g)) (unat (fi_size g))" for z
        using inside [OF that(2)] by (simp add: bytes_at_def drop_take min_def)
      from this [of x] this [of y] show ?thesis using that(1) by metis
    qed
    have zone: "same_at js' js2 (tok_from (toks ! t)) (zone_end (toks ! t))" if "get_field js0 toks r f = Some t" for f t
      by (rule same_at_mono [OF sm]) (use child_inside(1,2) [OF obj(1) object_get_child(2) [OF obj that]] in simp_all)
    have "\<not> failed" "fields_read lc partial js0 toks fs r before after js2"
      using assms(8) rc fb [OF tk(1)] fb [OF tk(2)] zone unfolding fields_done_def by blast+
    moreover have "key_name js toks k = key_name js0 toks k" if "k \<in> set (keys toks r)" for k
      using json_copy_str_same ready that unfolding text_ready_def key_name_def by metis
    ultimately show ?thesis using known obj(3) by (auto simp: list_all_iff)
  qed
  ultimately show ?thesis using len unfolding nested_done_def TypeInfo.sel by blast
qed

lemma read_done:
  assumes parse: "json_parse js0 mx = Some toks" and lc: "libc_ok lc js0"
  shows "fst (type_valid_nested (Some t) depth remaining) \<Longrightarrow> layout_ok t \<Longrightarrow> r < length toks \<Longrightarrow>
      same_at js0 js (tok_from (toks ! r)) (tok_upto (toks ! r)) \<Longrightarrow> unat (ti_size t) \<le> length ob \<Longrightarrow>
      json_read_nested lc toks partial t ob js r depth prefix offset0 st = (rc, ob', js', st') \<Longrightarrow>
      nested_done lc partial js0 toks r t ob js rc ob' js'"
    "fst (fields_valid sz fs depth remaining) \<Longrightarrow> fields_layout fs \<Longrightarrow> r < length toks \<Longrightarrow> tk_type (toks ! r) = JSON_OBJ \<Longrightarrow>
      text_ready js0 toks r fs js \<Longrightarrow> unat sz \<le> length ob \<Longrightarrow>
      json_read_fields lc toks partial fs failed ob js r depth prefix offset0 st = (rc, ob', js', st') \<Longrightarrow>
      fields_done lc partial js0 toks r fs failed ob js rc ob' js'"
proof (induction t and fs arbitrary: depth remaining r js ob prefix offset0 st rc ob' js' st'
    and depth remaining r js ob prefix offset0 st rc ob' js' st' sz failed rule: layout_ok_fields_layout.induct)
  case (1 name sz flds)
  then obtain fs where fs: "flds = Some fs" "fst (fields_valid sz fs depth (remaining - 1))"
    by (auto split: option.splits if_splits)
  show ?case
  proof (cases "depth \<ge> NEST_DEPTH_MAX \<or> tk_type (toks ! r) \<noteq> JSON_OBJ")
    case True
    then have "rc = - 1" "ob' = ob" "js' = js" using "1.prems"(6) by auto
    then show ?thesis by (simp add: nested_done_def)
  next
    case False
    obtain failed st1 where u: "unknown_keys js toks r prefix fs [r + 1..<length toks] False st = (failed, st1)" by fastforce
    have ob: "json_parse js0 mx = Some toks" "r < length toks" "tk_type (toks ! r) = JSON_OBJ" using parse "1.prems"(3) False by simp_all
    have run: "json_read_fields lc toks partial fs failed ob js r depth prefix offset0 st1 = (rc, ob', js', st')"
      using "1.prems"(6) False fs(1) u by simp
    have ready: "text_ready js0 toks r fs js" by (rule text_ready_start [OF ob "1.prems"(4)])
    have known: "\<forall>k \<in> set (keys toks r). list_ex (\<lambda>f. fi_name f = Some (key_name js toks k)) fs" if "\<not> failed"
    proof -
      have above: "r < k" if "k \<in> set (keys toks r)" for k
        using children_above [OF json_parse_below [OF parse] key_child [OF that]] .
      then have "\<forall>k \<in> set (keys toks r). k + 1 \<noteq> r + 1" by fastforce
      with unknown_keys_known [OF ob, of js prefix fs "r + 1" False st st1] u that above show ?thesis by fastforce
    qed
    have "fields_done lc partial js0 toks r fs failed ob js rc ob' js'"
      by (rule "1.IH" [OF fs(1) fs(2) _ ob(2,3) ready _ run]) (use "1.prems"(2,5) fs(1) in simp_all)
    then show ?thesis unfolding fs(1)
      by (intro nested_from_fields [OF ob fs(2) _ ready known]) (use "1.prems"(5) in simp_all)
  qed
next
  case 2
  then show ?case by (auto simp: fields_done_def same_outside_def text_outside_def)
next
  case (3 name kind offset fsz flags nested refs rkey rules fs)
  let ?f = "FieldInfo name kind offset fsz flags nested refs rkey rules"
  let ?nv = "if kind = FIELD_OBJECT then type_valid_nested nested (depth + 1) remaining else (True, remaining)"
  have v: "fst ?nv" "fst (fields_valid sz fs depth (snd ?nv))"
    using "3.prems"(1) by (auto simp: Let_def split: prod.splits if_splits)
  have each: "fi_name g \<noteq> None \<and> 0 < unat (fi_size g) \<and> unat (fi_offset g) + unat (fi_size g) \<le> unat sz \<and>
      (fi_kind g \<noteq> FIELD_OBJECT \<longrightarrow> unat (fi_size g) = field_storage_size g)" if "g \<in> set (?f # fs)" for g
    using fields_valid_each [OF "3.prems"(1) that] .
  have ob: "json_parse js0 mx = Some toks" "r < length toks" "tk_type (toks ! r) = JSON_OBJ" using parse "3.prems"(3,4) by simp_all
  have apart: "list_all (fields_apart ?f) fs" and lay: "fields_layout fs" using "3.prems"(2) by simp_all
  have names: "fi_name ?f \<noteq> None" "\<forall>g \<in> set fs. fi_name g \<noteq> None" using each [of ?f] each by simp_all
  show ?case
  proof (cases "body_round ?f js toks r prefix offset0 partial st")
    case Leave
    then have "rc = - 1" "ob' = ob" "js' = js" using "3.prems"(7) by simp_all
    then show ?thesis by (simp add: fields_done_def same_outside_def text_outside_def)
  next
    case (Pass bad st1)
    have head: "fields_done lc partial js0 toks r [?f] False ob js (if bad then - 1 else 0) ob js"
      by (rule field_passed [OF ob "3.prems"(5) Pass])
    have run: "json_read_fields lc toks partial fs (failed \<or> bad) ob js r depth prefix offset0 st1 = (rc, ob', js', st')"
      using "3.prems"(7) Pass by simp
    have ready: "text_ready js0 toks r fs js" using "3.prems"(5) by (simp add: text_ready_def)
    have "fields_done lc partial js0 toks r fs (failed \<or> (if bad then - 1 else 0) \<noteq> (0::int)) ob js rc ob' js'"
      using "3.IH"(2) [OF v(2) lay ob(2,3) ready "3.prems"(6) run] by (cases bad) simp_all
    then show ?thesis by (rule fields_done_Cons [OF ob apart names head])
  next
    case (Value t path null st1)
    define step where "step = (if kind = FIELD_OBJECT then
        (case nested of None \<Rightarrow> (- 1, ob, js, st1)
         | Some ty \<Rightarrow>
             (case json_read_nested lc toks partial ty (drop (unat offset) ob) js t (depth + 1) path (offset0 + unat offset) st1 of
                (rc, part, js2, st2) \<Rightarrow> (rc, take (unat offset) ob @ part, js2, st2)))
        else read_value lc ?f ob js (toks ! t) null path st1)"
    obtain rc1 ob1 js1 st2 where s: "step = (rc1, ob1, js1, st2)" by (metis prod_cases4)
    have run: "json_read_fields lc toks partial fs (failed \<or> rc1 \<noteq> 0) ob1 js1 r depth prefix offset0 st2 = (rc, ob', js', st')"
      using "3.prems"(7) s unfolding step_def json_read_fields.simps Value by simp
    have head: "fields_done lc partial js0 toks r [?f] False ob js rc1 ob1 js1"
    proof (cases "kind = FIELD_OBJECT")
      case True
      then obtain ty where ty: "nested = Some ty" using v(1) by (cases nested) (auto split: if_splits)
      obtain part where n: "json_read_nested lc toks partial ty (drop (unat offset) ob) js t (depth + 1) path (offset0 + unat offset) st1 =
          (rc1, part, js1, st2)" "ob1 = take (unat offset) ob @ part"
        using s True ty unfolding step_def by (auto split: prod.splits)
      have t: "get_field js0 toks r ?f = Some t"
        using Value get_field_ready [OF ob "3.prems"(5)] by (auto simp: body_round_def Let_def split: if_splits option.splits)
      have sz: "unat fsz = unat (ti_size ty)" "unat offset + unat fsz \<le> length ob"
        using "3.prems"(1,6) True ty each [of ?f] by (auto simp: Let_def split: prod.splits if_splits)
      have sm: "same_at js0 js (tok_from (toks ! t)) (tok_upto (toks ! t))" using "3.prems"(5) t by (simp add: text_ready_def)
      have "t < length toks" using child_inside(6) [OF parse object_get_child(2) [OF ob t]] .
      then have "nested_done lc partial js0 toks t ty (drop (unat offset) ob) js rc1 part js1"
        by (intro "3.IH"(1) [OF ty _ _ _ sm _ n(1)]) (use v(1) True ty sz "3.prems"(2) in simp_all)
      then show ?thesis unfolding n(2)
        using field_nested [OF ob "3.prems"(5) _ _ _ _ Value, of ty ob lc rc1 part js1] True ty sz by simp
    next
      case False
      then have "read_value lc ?f ob js (toks ! t) null path st1 = (rc1, ob1, js1, st2)" using s by (simp add: step_def)
      moreover have "slot_ok ?f (unat sz)" "unat (fi_size ?f) = field_storage_size ?f" using each [of ?f] False by (simp_all add: slot_ok_def)
      moreover have "unat sz < 2 ^ 16" using unsigned_less [of sz, where 'a = nat] by simp
      ultimately show ?thesis
        using field_valued [OF ob "3.prems"(5) _ _ _ "3.prems"(6) _ lc Value] False by simp
    qed
    have "text_ready js0 toks r fs js1"
      by (rule text_ready_next [OF ob apart names "3.prems"(5)]) (use head in \<open>simp add: fields_done_def\<close>)
    moreover have "unat sz \<le> length ob1" using head "3.prems"(6) by (simp add: fields_done_def same_outside_def)
    ultimately have "fields_done lc partial js0 toks r fs (failed \<or> rc1 \<noteq> 0) ob1 js1 rc ob' js'"
      using "3.IH"(2) [OF v(2) lay ob(2,3) _ _ run] by simp
    then show ?thesis by (rule fields_done_Cons [OF ob apart names head])
  qed
qed


section \<open>The promises\<close>

lemma json_read_mode_done:
  assumes "type_valid (Some t)" "layout_ok t" "paths_fit t []" "libc_ok lc js" "unat (ti_size t) \<le> length ob"
    and run: "json_read_mode lc (Some t) (Some ob) (Some js) partial st = (rc, out, js', st')"
  shows "\<exists>ob1 js1. out = Some ob1 \<and> js' = Some js1 \<and> kept_beyond (unat (ti_size t)) ob ob1 \<and> length js1 = length js \<and>
    (rc = 0 \<longrightarrow> g_body_type st' = Some t \<and> g_body_partial st' = partial \<and>
       (\<exists>toks. json_parse js JSON_MAX_TOKENS = Some toks \<and> type_read lc partial js toks t 0 ob ob1 js1 \<and>
         (\<not> partial \<longrightarrow> (\<forall>(p, b, f) \<in> set (leaves t [] 0). field_ok (text_in (lc_text_at lc) (lc_base lc) js1) f (drop b ob1)))))"
proof -
  have tv: "fst (type_valid_nested (Some t) 0 RUNTIME_MAX_TYPES)" using assms(1) by (simp add: type_valid_def)
  show ?thesis
  proof (cases "js = [] \<or> json_parse js JSON_MAX_TOKENS = None \<or> tk_type (the (json_parse js JSON_MAX_TOKENS) ! 0) \<noteq> JSON_OBJ")
    case True
    then consider "js = []" | "js \<noteq> []" "json_parse js JSON_MAX_TOKENS = None"
      | toks where "js \<noteq> []" "json_parse js JSON_MAX_TOKENS = Some toks" "tk_type (toks ! 0) \<noteq> JSON_OBJ" by force
    then have "\<exists>s. json_read_mode lc (Some t) (Some ob) (Some js) partial st = (- 1, Some ob, Some js, s)"
      by cases (simp_all add: json_read_mode_def assms(1))
    then have "rc = - 1" "out = Some ob" "js' = Some js" using run by auto
    then show ?thesis by simp
  next
    case False
    then obtain toks where toks: "json_parse js JSON_MAX_TOKENS = Some toks" "tk_type (toks ! 0) = JSON_OBJ" by auto
    obtain rc1 ob1 js1 st1 where n: "json_read_nested lc toks partial t ob js 0 0 [] 0 (body_reset st) = (rc1, ob1, js1, st1)"
      by (metis prod_cases4)
    have "0 < length toks" using json_parse_Some [OF toks(1)] toks(1) parse_inv_loop by (metis length_greater_0_conv parse_inv_def)
    then have d: "nested_done lc partial js toks 0 t ob js rc1 ob1 js1"
      using read_done(1) [OF toks(1) assms(4) tv assms(2) _ _ assms(5) n] by simp
    obtain rc2 bad st2 where vs: "validate_struct (text_in (lc_text_at lc) (lc_base lc) js1) (lc_fmt_ldouble lc) (Some t) (Some ob1) st1 = (rc2, bad, st2)"
      by (metis prod_cases3)
    have res: "out = Some ob1" "js' = Some js1"
      "rc = (if rc1 = 0 \<and> \<not> partial then rc2 else rc1)" "rc = 0 \<Longrightarrow> g_body_type st' = Some t \<and> g_body_partial st' = partial"
      using run False assms(1) toks n vs by (auto simp: json_read_mode_def Let_def split: if_splits)
    have "rc = 0 \<Longrightarrow> rc1 = 0" using res(3) by (auto split: if_splits)
    then have "rc = 0 \<Longrightarrow> type_read lc partial js toks t 0 ob ob1 js1" using d by (simp add: nested_done_def)
    moreover have "\<forall>(p, b, f) \<in> set (leaves t [] 0). field_ok (text_in (lc_text_at lc) (lc_base lc) js1) f (drop b ob1)"
      if "rc = 0" "\<not> partial"
    proof -
      have "rc2 = 0" using that res(3) by (auto split: if_splits)
      then show ?thesis
        using validate_nested_verdict(1) [OF tv assms(3), of 0 "text_in (lc_text_at lc) (lc_base lc) js1" ob1 st1 "lc_fmt_ldouble lc" None] vs assms(1)
        by (auto simp: validate_struct_def verdict_def)
    qed
    ultimately show ?thesis using res d toks(1) by (auto simp: nested_done_def)
  qed
qed

text \<open>C9: A request body is read into the structure it describes. When \<open>json_read_mode\<close> accepts a body, the body is a
  JSON object, every key at any depth is a field, every field present has exactly the value of its token in the text
  that arrived (although strings are decoded in place in that text while reading), every field that is absent keeps
  its bytes and was not required, and, unless the body is a patch, every field satisfies its rules. Accepted or not,
  no byte beyond the structure changes and the text keeps its length.\<close>

theorem body_read_correct:
  assumes "type_valid (Some t)" "layout_ok t" "paths_fit t []" "libc_ok lc js" "unat (ti_size t) \<le> length ob"
    and "json_read_mode lc (Some t) (Some ob) (Some js) partial st = (rc, out, js', st')"
  shows "\<exists>ob1 js1. out = Some ob1 \<and> js' = Some js1 \<and> length ob1 = length ob \<and>
    drop (unat (ti_size t)) ob1 = drop (unat (ti_size t)) ob \<and> length js1 = length js \<and>
    (rc = 0 \<longrightarrow> (\<exists>toks. json_parse js JSON_MAX_TOKENS = Some toks \<and> type_read lc partial js toks t 0 ob ob1 js1 \<and>
       (\<not> partial \<longrightarrow> (\<forall>(p, b, f) \<in> set (leaves t [] 0). field_ok (text_in (lc_text_at lc) (lc_base lc) js1) f (drop b ob1)))))"
  using json_read_mode_done [OF assms] unfolding kept_beyond_def by blast

definition demo_libc :: Libc where
  "demo_libc = \<lparr>lc_text_at = (\<lambda>_. []), lc_fmt_ldouble = (\<lambda>_. []), lc_strtod = (\<lambda>s. (0, s, False)), lc_base = 64\<rparr>"

definition demo_body_type :: TypeInfo where
  "demo_body_type = TypeInfo (Some ''A'') 4 (Some [FieldInfo (Some ''a'') FIELD_INT 0 4 0 None None None no_rules])"

lemma demo_body_parse: "json_parse demo_json JSON_MAX_TOKENS = Some demo_tokens"
proof -
  have "json_loop demo_json JSON_MAX_TOKENS False scan_start =
      Some (True, \<lparr>sc_at = 7, sc_toks = demo_tokens, sc_stack = [], sc_done = True\<rparr>)" by code_simp
  moreover have "length demo_json = 7" by code_simp
  ultimately show ?thesis by (simp add: json_parse_def)
qed

lemma demo_body_valid: "type_valid (Some demo_body_type)"
  unfolding type_valid_def demo_body_type_def
  by (simp add: is_safe_identifier_def ident_start_def ident_char_def is_upper_def is_lower_def byte_def field_storage_size_def
      has_flag_def)

theorem body_read_correct_witness:
  "\<exists>ob1 js1 st'. json_read_mode demo_libc (Some demo_body_type) (Some (replicate 6 (CHR ''x''))) (Some demo_json) True no_failure =
     (0, Some ob1, js1, st') \<and> read_int ob1 0 = 7 \<and> drop 4 ob1 = ''xx''"
proof -
  obtain rc out js' st' where r: "json_read_mode demo_libc (Some demo_body_type) (Some (replicate 6 (CHR ''x''))) (Some demo_json) True no_failure =
      (rc, out, js', st')" by (metis prod_cases4)
  have "fst (json_read_nested demo_libc demo_tokens True demo_body_type (replicate 6 (CHR ''x'')) demo_json 0 0 [] 0 (body_reset no_failure)) = 0"
    by code_simp
  then have "rc = 0"
    using r demo_body_valid demo_body_parse by (auto simp: json_read_mode_def demo_json_def demo_tokens_def Let_def split: prod.splits)
  moreover have "layout_ok demo_body_type" "paths_fit demo_body_type []" "libc_ok demo_libc demo_json" "unat (ti_size demo_body_type) = 4"
    by (simp_all add: demo_body_type_def join_path_def str_of_def libc_ok_def demo_libc_def demo_json_def)
  moreover have "json_object_get demo_json demo_tokens 0 ''a'' = Some 2" by code_simp
  moreover have "json_token_long_checked demo_json (demo_tokens ! 2) = Some 7" by code_simp
  ultimately show ?thesis
    using body_read_correct [OF demo_body_valid _ _ _ _ r] r demo_body_parse
    by (auto simp: demo_body_type_def value_read_def field_scalar_def has_flag_def str_of_def demo_tokens_def token_null_def
        numeral_eq_Suc)
qed

section \<open>Patches\<close>

definition patched :: "BodyField list \<Rightarrow> nat \<Rightarrow> bool" where
  "patched bs i \<longleftrightarrow> (\<exists>b \<in> set bs. fi_kind (bf_field b) \<noteq> FIELD_OBJECT \<and> bf_offset b \<le> i \<and> i < bf_offset b + unat (fi_size (bf_field b)))"

lemma nth_write_bytes:
  "k + length bs \<le> length x \<Longrightarrow> i < length x \<Longrightarrow> write_bytes x k bs ! i = (if k \<le> i \<and> i < k + length bs then bs ! (i - k) else x ! i)"
  by (auto simp: write_bytes_def nth_append min_def)

lemma patch_fields_spec:
  assumes "unat (ti_size t) \<le> length tg" "unat (ti_size t) \<le> length ch" "patch_fields t bs tg ch = (rc, tg')"
  shows "kept_beyond (unat (ti_size t)) tg tg'"
    "rc = 0 \<Longrightarrow> i < length tg \<Longrightarrow> tg' ! i = (if patched bs i then ch ! i else tg ! i)"
proof -
  have "kept_beyond (unat (ti_size t)) tg tg' \<and> (rc = 0 \<longrightarrow> (\<forall>i<length tg. tg' ! i = (if patched bs i then ch ! i else tg ! i)))"
    using assms
  proof (induction bs arbitrary: tg)
    case Nil
    then show ?case by (simp add: patched_def)
  next
    case (Cons b bs)
    let ?sz = "unat (ti_size t)" and ?k = "bf_offset b" and ?n = "unat (fi_size (bf_field b))"
    show ?case
    proof (cases "fi_kind (bf_field b) = FIELD_OBJECT")
      case True
      then show ?thesis using Cons by (simp add: patched_def)
    next
      case leaf: False
      show ?thesis
      proof (cases "?k > ?sz \<or> ?n > ?sz - ?k")
        case True
        then show ?thesis using Cons.prems(3) leaf by auto
      next
        case False
        let ?bs = "bytes_at ch ?k ?n" and ?tg = "write_bytes tg ?k (bytes_at ch ?k ?n)"
        have room: "?k + ?n \<le> ?sz" using False by linarith
        then have l: "length ?bs = ?n" using Cons.prems(2) by (simp add: bytes_at_def)
        then have kb: "kept_beyond ?sz tg ?tg" using room Cons.prems(1) by (intro write_bytes_beyond) simp_all
        have "?sz \<le> length ?tg" using kb Cons.prems(1) by (simp add: kept_beyond_def)
        from Cons.IH [OF this Cons.prems(2)] Cons.prems(3) leaf False
        have ih: "kept_beyond ?sz ?tg tg'" "rc = 0 \<longrightarrow> (\<forall>i<length ?tg. tg' ! i = (if patched bs i then ch ! i else ?tg ! i))" by auto
        have nth: "?tg ! i = (if ?k \<le> i \<and> i < ?k + ?n then ch ! i else tg ! i)" if "i < length tg" for i
          using nth_write_bytes [of ?k ?bs tg i] l room Cons.prems(1,2) that by (auto simp: bytes_at_def)
        have len: "length ?tg = length tg" using kb by (simp add: kept_beyond_def)
        show ?thesis
          using kept_beyond_trans [OF kb ih(1)] ih(2) leaf nth unfolding len by (auto simp: patched_def)
      qed
    qed
  qed
  then show "kept_beyond (unat (ti_size t)) tg tg'"
    "rc = 0 \<Longrightarrow> i < length tg \<Longrightarrow> tg' ! i = (if patched bs i then ch ! i else tg ! i)" by blast+
qed



definition demo_patch :: RequestState where
  "demo_patch = no_failure\<lparr>g_body_fields := [\<lparr>bf_path = ''a'', bf_offset = 0,
     bf_field = FieldInfo (Some ''a'') FIELD_INT 0 4 0 None None None no_rules, bf_is_null = False\<rparr>],
     g_body_type := Some demo_body_type, g_body_partial := True\<rparr>"


end
