(* ===== verification/Search.thy ===== *)
theory Search
  imports Rows Ddl
begin

text \<open>
  Searching and paging: \<open>src/db/search.c\<close>, \<open>src/db/collection_db.c\<close> and the argument constructors of
  \<open>src/db/optional_args.c\<close>. The statement is built from the names of the type and of its fields, from fixed
  operators and from placeholders; the values travel as arguments. \<open>alloc\<close> is what the request arena
  answers for a size (none without an arena), as in \<open>request_alloc\<close>.
\<close>

section \<open>The code: arguments\<close>

definition SQL_NULL :: SqlArg where
  "SQL_NULL = \<lparr>sa_kind = None, sa_i = 0, sa_l = 0, sa_d = 0, sa_s = None\<rparr>"

definition sql_value_int :: "int \<Rightarrow> SqlArg" where
  "sql_value_int v = \<lparr>sa_kind = Some FIELD_INT, sa_i = v, sa_l = 0, sa_d = 0, sa_s = Some []\<rparr>"

definition sql_value_long :: "int \<Rightarrow> SqlArg" where
  "sql_value_long v = \<lparr>sa_kind = Some FIELD_LONG, sa_i = 0, sa_l = v, sa_d = 0, sa_s = Some []\<rparr>"

definition sql_value_double :: "64 word \<Rightarrow> SqlArg" where
  "sql_value_double v = \<lparr>sa_kind = Some FIELD_DOUBLE, sa_i = 0, sa_l = 0, sa_d = v, sa_s = Some []\<rparr>"

definition sql_value_bool :: "bool \<Rightarrow> SqlArg" where
  "sql_value_bool v = \<lparr>sa_kind = Some FIELD_BOOL, sa_i = (if v then 1 else 0), sa_l = 0, sa_d = 0, sa_s = Some []\<rparr>"

definition sql_value_text :: "string option \<Rightarrow> SqlArg" where
  "sql_value_text v = \<lparr>sa_kind = Some FIELD_STR, sa_i = 0, sa_l = 0, sa_d = 0, sa_s = v\<rparr>"

definition sql_option_int :: "int option \<Rightarrow> SqlArg" where
  "sql_option_int v = (case v of Some x \<Rightarrow> sql_value_int x | None \<Rightarrow> SQL_NULL)"

definition sql_option_long :: "int option \<Rightarrow> SqlArg" where
  "sql_option_long v = (case v of Some x \<Rightarrow> sql_value_long x | None \<Rightarrow> SQL_NULL)"

definition sql_option_double :: "64 word option \<Rightarrow> SqlArg" where
  "sql_option_double v = (case v of Some x \<Rightarrow> sql_value_double x | None \<Rightarrow> SQL_NULL)"

definition sql_option_bool :: "bool option \<Rightarrow> SqlArg" where
  "sql_option_bool v = (case v of Some x \<Rightarrow> sql_value_bool x | None \<Rightarrow> SQL_NULL)"

section \<open>The code: searching\<close>

abbreviation DB_FILTER_MAX :: int where "DB_FILTER_MAX \<equiv> 8"

record DbFilter =
  df_field :: "string option"
  df_op :: "string option"
  df_value :: SqlArg

record DbQuery =
  dq_filters :: "DbFilter list"
  dq_count :: int
  dq_order :: "string option"
  dq_descending :: bool
  dq_page :: int
  dq_size :: int

definition name_safe :: "string option \<Rightarrow> bool" where
  "name_safe name =
     (case name of
        None \<Rightarrow> False
      | Some [] \<Rightarrow> False
      | Some (c # r) \<Rightarrow> ident_start c \<and> list_all ident_char r \<and> length (c # r) < 64)"

definition find_field :: "TypeInfo \<Rightarrow> string option \<Rightarrow> FieldInfo option" where
  "find_field t name =
     (if \<not> name_safe name then None else List.find (\<lambda>f. fi_name f = name) (fields_of t))"

definition quoted_ident :: "string option \<Rightarrow> string" where
  "quoted_ident n = [DQUOTE] @ str_of n @ [DQUOTE]"

text \<open>The result is the longer text, or none when the buffer is too small.\<close>

definition append_sql :: "string \<Rightarrow> string \<Rightarrow> string option" where
  "append_sql sql new =
     (if length sql \<ge> DB_MAX_SQL then None
      else if length new \<ge> DB_MAX_SQL - length sql then None else Some (sql @ new))"

definition filter_valid :: "FieldInfo option \<Rightarrow> DbFilter \<Rightarrow> bool" where
  "filter_valid field flt =
     (case (field, df_op flt) of
        (Some f, Some op) \<Rightarrow>
          let v = df_value flt in
          if op = ''IS NULL'' \<or> op = ''IS NOT NULL'' then sa_kind v = None
          else
            let equal = (op = ''='' \<or> op = ''!=''); ordered = (op = ''<'' \<or> op = ''<='' \<or> op = ''>'' \<or> op = ''>='');
                like = (op = ''LIKE'');
                bool_literal = (fi_kind f = FIELD_BOOL \<and> sa_kind v = Some FIELD_INT \<and> (sa_i v = 0 \<or> sa_i v = 1))
            in if \<not> equal \<and> \<not> ordered \<and> \<not> like then False
               else if like \<and> fi_kind f \<noteq> FIELD_STR then False
               else if sa_kind v \<noteq> Some (fi_kind f) \<and> \<not> bool_literal then False
               else if fi_kind f = FIELD_DOUBLE \<and> \<not> isfinite (sa_d v) then False
               else if fi_kind f = FIELD_STR \<and> sa_s v = None then False
               else fi_kind f \<noteq> FIELD_OBJECT
      | _ \<Rightarrow> False)"

text \<open>The loop over the filters, with the text and the arguments so far; a refusal is a status and a message.\<close>

fun search_filters ::
  "TypeInfo \<Rightarrow> DbFilter list \<Rightarrow> bool \<Rightarrow> string \<Rightarrow> SqlArg list \<Rightarrow> (int \<times> string) + (string \<times> SqlArg list)" where
  "search_filters t [] first sql args = Inr (sql, args)"
| "search_filters t (f # fs) first sql args =
     (let field = find_field t (df_field f); null = (sa_kind (df_value f) = None) in
      if \<not> filter_valid field f then Inl (400, ''invalid filter field, operator or value type'')
      else
        (case append_sql sql
           ((if first then '' WHERE '' else '' AND '') @ quoted_ident (fi_name (the field)) @ '' '' @ str_of (df_op f) @
            (if null then [] else '' ?'')) of
           None \<Rightarrow> Inl (500, ''query exceeds SQL limit'')
         | Some sql1 \<Rightarrow> search_filters t fs False sql1 (if null then args else args @ [df_value f])))"

text \<open>What is sent to the database, or the refusal; the first refusal has no message.\<close>

definition search_statement ::
  "TypeInfo \<Rightarrow> DbQuery \<Rightarrow> FieldInfo \<Rightarrow> FieldInfo \<Rightarrow> int \<Rightarrow> (int \<times> string) option + (string \<times> SqlArg list)" where
  "search_statement t query key order sz =
     (case append_sql [] (''SELECT * FROM '' @ quoted_ident (ti_name t)) of
        None \<Rightarrow> Inl None
      | Some sql0 \<Rightarrow>
          (case search_filters t (take (nat (dq_count query)) (dq_filters query)) True sql0 [] of
             Inl e \<Rightarrow> Inl (Some e)
           | Inr (sql1, args) \<Rightarrow>
               (case append_sql sql1
                  ('' ORDER BY '' @ quoted_ident (fi_name order) @ '' '' @ (if dq_descending query then ''DESC'' else ''ASC'') @
                   '', '' @ quoted_ident (fi_name key) @ '' ASC LIMIT ? OFFSET ?'') of
                  None \<Rightarrow> Inl (Some (500, ''query exceeds SQL limit''))
                | Some sql2 \<Rightarrow> Inr (sql2, args @ [sql_value_int (sz + 1), sql_value_int (dq_page query * sz)]))))"

definition fail_in :: "int \<Rightarrow> string \<Rightarrow> ('c, 'z) Session_scheme \<Rightarrow> ('c, 'z) Session_scheme" where
  "fail_in status message s = s\<lparr>se_fail := request_fail status (Some message) (se_fail s)\<rparr>"

definition page_result :: "RowList \<Rightarrow> int \<Rightarrow> memory \<Rightarrow> int \<Rightarrow> RowList" where
  "page_result result sz items found =
     result\<lparr>rl_items := Some items, rl_count := (if found > sz then sz else found), rl_has_more := (found > sz)\<rparr>"

definition db_search ::
  "('c, 's) Sqlite \<Rightarrow> ('s \<Rightarrow> Row) \<Rightarrow> (int \<Rightarrow> 64 word) \<Rightarrow> nat \<Rightarrow> TryEvent list option \<Rightarrow> (nat \<Rightarrow> memory option) \<Rightarrow>
   TypeInfo option \<Rightarrow> DbQuery \<Rightarrow> Texts \<Rightarrow> ('c, 'z) Session_scheme \<Rightarrow> RowList \<times> Texts \<times> ('c, 'z) Session_scheme" where
  "db_search api row_of to_double busy_ms tries alloc type query tx s =
     (let sz = (if dq_size query = 0 then 20 else dq_size query);
          result = \<lparr>rl_type = type, rl_items = None, rl_count = 0, rl_page = dq_page query, rl_size = sz, rl_has_more = False\<rparr>;
          invalid = (result, tx, fail_in 400 ''invalid query or pagination'' s)
      in case type of
           None \<Rightarrow> invalid
         | Some t \<Rightarrow>
             if ti_fields t = None \<or> length (fields_of t) = 0 \<or> length (fields_of t) > 64 \<or> ti_size t = 0 \<or>
                \<not> name_safe (ti_name t) \<or> dq_count query < 0 \<or> dq_count query > DB_FILTER_MAX \<or> dq_page query < 0 \<or>
                sz < 1 \<or> sz > int PAGE_MAX \<or> dq_page query > int INT_MAX div sz
             then invalid
             else
               let key = List.find (\<lambda>f. has_flag (fi_flags f) FIELD_PRIMARY_KEY) (rev (fields_of t));
                   order = (if dq_order query \<noteq> None then find_field t (dq_order query) else key)
               in case (key, order) of
                    (Some k, Some ord) \<Rightarrow>
                      if \<not> name_safe (fi_name k) \<or> \<not> name_safe (fi_name ord)
                      then (result, tx, fail_in 400 ''unknown sort field'' s)
                      else
                        (case search_statement t query k ord sz of
                           Inl None \<Rightarrow> (result, tx, s)
                         | Inl (Some (status, message)) \<Rightarrow> (result, tx, fail_in status message s)
                         | Inr (sql, args) \<Rightarrow>
                             (case alloc (nat (sz + 1) * unat (ti_size t)) of
                                None \<Rightarrow> (result, tx, fail_in 500 ''request allocation failed'' s)
                              | Some block \<Rightarrow>
                                  (case db_query_many api row_of to_double busy_ms tries type (Some block) (sz + 1) (Some sql) args tx s of
                                     (found, items, tx1, s1) \<Rightarrow>
                                       if found < 0 then (result\<lparr>rl_items := items\<rparr>, tx1, fail_in 500 ''query failed'' s1)
                                       else (page_result result sz (the items) found, tx1, s1))))
                  | _ \<Rightarrow> (result, tx, fail_in 400 ''unknown sort field'' s))"

section \<open>The code: paging\<close>

definition page_sql :: "TypeInfo \<Rightarrow> string option \<Rightarrow> string option \<Rightarrow> string" where
  "page_sql t key flt =
     ''SELECT * FROM '' @ quoted_ident (ti_name t) @
     (if flt = None then [] else '' WHERE '' @ quoted_ident flt @ '' = ?'') @
     '' ORDER BY '' @ quoted_ident key @ '' LIMIT ? OFFSET ?''"

definition db_query_page ::
  "('c, 's) Sqlite \<Rightarrow> ('s \<Rightarrow> Row) \<Rightarrow> (int \<Rightarrow> 64 word) \<Rightarrow> nat \<Rightarrow> TryEvent list option \<Rightarrow> (nat \<Rightarrow> memory option) \<Rightarrow>
   TypeInfo option \<Rightarrow> string option \<Rightarrow> string option \<Rightarrow> int \<Rightarrow> int \<Rightarrow> int \<Rightarrow> Texts \<Rightarrow> ('c, 'z) Session_scheme \<Rightarrow>
   RowList \<times> Texts \<times> ('c, 'z) Session_scheme" where
  "db_query_page api row_of to_double busy_ms tries alloc type key flt i page sz tx s =
     (let result = \<lparr>rl_type = type, rl_items = None, rl_count = 0, rl_page = page, rl_size = sz, rl_has_more = False\<rparr> in
      if page < 0 \<or> sz < 1 \<or> sz > int PAGE_MAX \<or> page > int INT_MAX div sz
      then (result, tx, fail_in 400 ''page must be nonnegative; size must be 1..100'' s)
      else
        (case type of
           None \<Rightarrow> (result, tx, fail_in 500 ''invalid collection descriptor'' s)
         | Some t \<Rightarrow>
             if ti_size t = 0 \<or> \<not> name_safe (ti_name t) \<or> \<not> name_safe key \<or> (flt \<noteq> None \<and> \<not> name_safe flt)
             then (result, tx, fail_in 500 ''invalid collection descriptor'' s)
             else
               (case alloc (nat (sz + 1) * unat (ti_size t)) of
                  None \<Rightarrow> (result, tx, fail_in 500 ''request allocation failed'' s)
                | Some block \<Rightarrow>
                    if length (page_sql t key flt) \<ge> 512
                    then (result\<lparr>rl_items := Some block\<rparr>, tx, fail_in 500 ''collection SQL overflow'' s)
                    else
                      (case db_query_many api row_of to_double busy_ms tries type (Some block) (sz + 1) (Some (page_sql t key flt))
                         ((if flt = None then [] else [sql_value_int i]) @ [sql_value_int (sz + 1), sql_value_int (page * sz)]) tx s of
                         (found, items, tx1, s1) \<Rightarrow>
                           if found < 0 \<or> found > sz + 1
                           then (result\<lparr>rl_items := items\<rparr>, tx1, fail_in 500 ''collection query failed'' s1)
                           else (page_result result sz (the items) found, tx1, s1)))))"

section \<open>What a search sends\<close>

definition value_operators :: "string list" where
  "value_operators = [''='', ''!='', ''<'', ''<='', ''>'', ''>='', ''LIKE'']"

definition null_operators :: "string list" where
  "null_operators = [''IS NULL'', ''IS NOT NULL'']"

fun clauses_text :: "bool \<Rightarrow> (string option \<times> string) list \<Rightarrow> string" where
  "clauses_text first [] = []"
| "clauses_text first ((name, op) # cs) =
     (if first then '' WHERE '' else '' AND '') @ quoted_ident name @ '' '' @ op @
     (if op \<in> set null_operators then [] else '' ?'') @ clauses_text False cs"

definition search_text :: "string option \<Rightarrow> (string option \<times> string) list \<Rightarrow> string option \<Rightarrow> bool \<Rightarrow> string option \<Rightarrow> string" where
  "search_text table clauses order descending key =
     ''SELECT * FROM '' @ quoted_ident table @ clauses_text True clauses @
     '' ORDER BY '' @ quoted_ident order @ '' '' @ (if descending then ''DESC'' else ''ASC'') @ '', '' @ quoted_ident key @
     '' ASC LIMIT ? OFFSET ?''"

text \<open>A filter the type allows: a field of its own, a known operator, a value of the kind of the field.\<close>

definition filter_allowed :: "TypeInfo \<Rightarrow> DbFilter \<Rightarrow> bool" where
  "filter_allowed t f \<longleftrightarrow>
     (\<exists>g \<in> set (fields_of t). fi_name g = df_field f \<and> name_safe (df_field f) \<and>
        (\<exists>op. df_op f = Some op \<and>
          (if op \<in> set null_operators then sa_kind (df_value f) = None
           else op \<in> set value_operators \<and> (op = ''LIKE'' \<longrightarrow> fi_kind g = FIELD_STR) \<and>
             (sa_kind (df_value f) = Some (fi_kind g) \<or> fi_kind g = FIELD_BOOL \<and> sa_kind (df_value f) = Some FIELD_INT))))"

definition clause_of :: "DbFilter \<Rightarrow> string option \<times> string" where
  "clause_of f = (df_field f, str_of (df_op f))"

lemma guards_passed:
  "if N then A else if \<not> E \<and> \<not> O1 \<and> \<not> L then False else if L \<and> \<not> S then False else if \<not> K \<and> \<not> B then False else R \<Longrightarrow>
     \<not> N \<Longrightarrow> (E \<or> O1 \<or> L) \<and> (L \<longrightarrow> S) \<and> (K \<or> B)"
  by (simp split: if_splits)

lemma filter_valid_allowed:
  assumes "filter_valid (find_field t (df_field f)) f"
  shows "filter_allowed t f" "fi_name (the (find_field t (df_field f))) = df_field f"
    "sa_kind (df_value f) = None \<longleftrightarrow> str_of (df_op f) \<in> set null_operators"
proof -
  obtain g op where g: "find_field t (df_field f) = Some g" "df_op f = Some op"
    using assms by (auto simp: filter_valid_def split: option.splits)
  have n: "name_safe (df_field f)" "g \<in> set (fields_of t)" "fi_name g = df_field f"
    using g(1) by (auto simp: find_field_def find_Some_iff split: if_splits)
  have v: "filter_valid (Some g) f" using assms g(1) by simp
  show "fi_name (the (find_field t (df_field f))) = df_field f" using g(1) n(3) by simp
  have null: "op \<in> set null_operators \<longleftrightarrow> op = ''IS NULL'' \<or> op = ''IS NOT NULL''" by (simp add: null_operators_def)
  have vop: "op \<in> set value_operators \<longleftrightarrow> (op = ''='' \<or> op = ''!='') \<or> (op = ''<'' \<or> op = ''<='' \<or> op = ''>'' \<or> op = ''>='') \<or> op = ''LIKE''"
    by (simp add: value_operators_def)
  have k: "if op \<in> set null_operators then sa_kind (df_value f) = None
           else op \<in> set value_operators \<and> (op = ''LIKE'' \<longrightarrow> fi_kind g = FIELD_STR) \<and>
             (sa_kind (df_value f) = Some (fi_kind g) \<or> fi_kind g = FIELD_BOOL \<and> sa_kind (df_value f) = Some FIELD_INT)"
  proof (cases "op \<in> set null_operators")
    case True
    then show ?thesis using v g(2) null by (simp add: filter_valid_def Let_def)
  next
    case False
    note w = guards_passed [OF v [unfolded filter_valid_def g(2) Let_def prod.case option.case]]
    note w2 = w [OF False [unfolded null]]
    have "op \<in> set value_operators" unfolding vop by (rule conjunct1 [OF w2])
    moreover have "op = ''LIKE'' \<longrightarrow> fi_kind g = FIELD_STR" by (rule conjunct1 [OF conjunct2 [OF w2]])
    moreover have "sa_kind (df_value f) = Some (fi_kind g) \<or> fi_kind g = FIELD_BOOL \<and> sa_kind (df_value f) = Some FIELD_INT"
      using conjunct2 [OF conjunct2 [OF w2]] by (elim disjE conjE) simp_all
    ultimately show ?thesis using False by simp
  qed
  then show "sa_kind (df_value f) = None \<longleftrightarrow> str_of (df_op f) \<in> set null_operators"
    using g(2) by (auto simp: str_of_def split: if_splits)
  show "filter_allowed t f" unfolding filter_allowed_def using n g(2) k by blast
qed

lemma search_filters_text:
  "search_filters t fs first sql args = Inr (sql', args') \<Longrightarrow>
     list_all (filter_allowed t) fs \<and> sql' = sql @ clauses_text first (map clause_of fs) \<and>
     args' = args @ map df_value (filter (\<lambda>f. sa_kind (df_value f) \<noteq> None) fs)"
proof (induction fs arbitrary: first sql args)
  case (Cons f fs)
  then have v: "filter_valid (find_field t (df_field f)) f"
    by (auto simp: Let_def split: if_splits)
  note fa = filter_valid_allowed [OF v]
  let ?null = "sa_kind (df_value f) = None"
  let ?new = "(if first then '' WHERE '' else '' AND '') @ quoted_ident (df_field f) @ '' '' @ str_of (df_op f) @ (if ?null then [] else '' ?'')"
  have s1: "append_sql sql ?new = Some (sql @ ?new)"
    and rest: "search_filters t fs False (sql @ ?new) (if ?null then args else args @ [df_value f]) = Inr (sql', args')"
    using Cons.prems v unfolding search_filters.simps Let_def fa(2)
    by (auto split: option.splits simp: append_sql_def split: if_splits)
  show ?case using Cons.IH [OF rest] fa(1,3) by (auto simp: clause_of_def)
qed simp

lemma count_question:
  "name_safe n \<Longrightarrow> count_list (quoted_ident n) (CHR ''?'') = 0"
  "op \<in> set value_operators \<union> set null_operators \<Longrightarrow> count_list op (CHR ''?'') = 0"
proof -
  have "CHR ''?'' \<notin> set x" if "list_all ident_char x" for x
    using that by (auto simp: list_all_iff ident_char_def is_upper_def is_lower_def is_digit_def byte_def)
  moreover have "ident_start c \<Longrightarrow> c \<noteq> CHR ''?''" for c by (auto simp: ident_start_def is_upper_def is_lower_def byte_def)
  ultimately show "name_safe n \<Longrightarrow> count_list (quoted_ident n) (CHR ''?'') = 0"
    by (auto simp: name_safe_def quoted_ident_def str_of_def count_list_0_iff split: option.splits list.splits)
  show "op \<in> set value_operators \<union> set null_operators \<Longrightarrow> count_list op (CHR ''?'') = 0"
    by (auto simp: value_operators_def null_operators_def)
qed

lemma clauses_count:
  "list_all (filter_allowed t) fs \<Longrightarrow>
     count_list (clauses_text first (map clause_of fs)) (CHR ''?'') = length (filter (\<lambda>f. sa_kind (df_value f) \<noteq> None) fs)"
proof (induction fs arbitrary: first)
  case (Cons f fs)
  then obtain op where f: "name_safe (df_field f)" "df_op f = Some op"
      "if op \<in> set null_operators then sa_kind (df_value f) = None else op \<in> set value_operators \<and> sa_kind (df_value f) \<noteq> None"
    by (auto simp: filter_allowed_def split: if_splits)
  then have "count_list op (CHR ''?'') = 0" using count_question(2) [of op] by (auto split: if_splits)
  then show ?case
    using Cons.IH [of False] Cons.prems f count_question(1) [OF f(1)] by (auto simp: clause_of_def str_of_def)
qed simp

lemma search_statement_text:
  assumes "search_statement t query key order sz = Inr (sql, args)" "name_safe (ti_name t)" "name_safe (fi_name key)" "name_safe (fi_name order)"
  defines "fs \<equiv> take (nat (dq_count query)) (dq_filters query)"
  shows "list_all (filter_allowed t) fs"
    "sql = search_text (ti_name t) (map clause_of fs) (fi_name order) (dq_descending query) (fi_name key)"
    "args = map df_value (filter (\<lambda>f. sa_kind (df_value f) \<noteq> None) fs) @ [sql_value_int (sz + 1), sql_value_int (dq_page query * sz)]"
    "count_list sql (CHR ''?'') = length args" "length sql < DB_MAX_SQL"
proof -
  obtain sql1 args1 where a: "search_filters t fs True (''SELECT * FROM '' @ quoted_ident (ti_name t)) [] = Inr (sql1, args1)"
    and b: "append_sql sql1 ('' ORDER BY '' @ quoted_ident (fi_name order) @ '' '' @ (if dq_descending query then ''DESC'' else ''ASC'') @
                   '', '' @ quoted_ident (fi_name key) @ '' ASC LIMIT ? OFFSET ?'') = Some sql"
    and c: "args = args1 @ [sql_value_int (sz + 1), sql_value_int (dq_page query * sz)]"
    using assms(1) unfolding search_statement_def fs_def
    by (auto split: option.splits sum.splits prod.splits simp: append_sql_def split: if_splits)
  note t = search_filters_text [OF a]
  show al: "list_all (filter_allowed t) fs" using t by simp
  show sql: "sql = search_text (ti_name t) (map clause_of fs) (fi_name order) (dq_descending query) (fi_name key)"
    using b t by (auto simp: append_sql_def search_text_def split: if_splits)
  show args: "args = map df_value (filter (\<lambda>f. sa_kind (df_value f) \<noteq> None) fs) @ [sql_value_int (sz + 1), sql_value_int (dq_page query * sz)]"
    using c t by simp
  show "count_list sql (CHR ''?'') = length args"
    unfolding sql args search_text_def
    using clauses_count [OF al, of True] count_question(1) [OF assms(2)] count_question(1) [OF assms(3)] count_question(1) [OF assms(4)] by simp
  show "length sql < DB_MAX_SQL" using b by (auto simp: append_sql_def split: if_splits)
qed

section \<open>What a search returns\<close>

definition page_ok :: "TypeInfo option \<Rightarrow> RowList \<Rightarrow> bool" where
  "page_ok type result \<longleftrightarrow>
     0 \<le> rl_count result \<and> (rl_count result > 0 \<longrightarrow> rl_count result \<le> rl_size result) \<and>
     (rl_has_more result \<longrightarrow> rl_count result = rl_size result) \<and>
     (rl_count result > 0 \<longrightarrow> (\<exists>t m. type = Some t \<and> rl_items result = Some m \<and> length m = nat (rl_size result + 1) * unat (ti_size t)))"

lemma fail_in_ok: "session_ok (fail_in status message s) = session_ok s" "t_depth (fail_in status message s) = t_depth s"
  by (simp_all add: fail_in_def session_ok_def)

lemma query_page_ok:
  assumes "session_ok s" "length block = nat (sz + 1) * unat (ti_size t)" "1 \<le> sz"
    and "db_query_many api row_of to_double busy_ms tries (Some t) (Some block) (sz + 1) sql args tx s = (found, items, tx1, s1)"
    and "rl_count result = 0" "rl_size result = sz" "\<not> rl_has_more result"
  shows "session_ok s1" "t_depth s1 = t_depth s" "found \<le> sz + 1"
    "page_ok type (result\<lparr>rl_items := items\<rparr>)" "\<not> found < 0 \<Longrightarrow> page_ok (Some t) (page_result result sz (the items) found)"
proof -
  have d: "session_ok s1 \<and> t_depth s1 = t_depth s \<and> - 1 \<le> found \<and> found \<le> max (- 1) (sz + 1) \<and>
      (\<exists>m. items = Some m \<and> kept_beyond (nat (sz + 1) * unat (ti_size t)) block m)"
    by (rule db_query_many_safe [OF assms(1) _ assms(4)]) (simp add: assms(2))
  then obtain m where m: "items = Some m" "length m = nat (sz + 1) * unat (ti_size t)" using assms(2) by (auto simp: kept_beyond_def)
  show "session_ok s1" "t_depth s1 = t_depth s" "found \<le> sz + 1" using d assms(3) by auto
  show "page_ok type (result\<lparr>rl_items := items\<rparr>)" using assms(5,7) by (simp add: page_ok_def)
  show "\<not> found < 0 \<Longrightarrow> page_ok (Some t) (page_result result sz (the items) found)"
    using d assms(3,6) m by (auto simp: page_ok_def page_result_def)
qed

text \<open>A result a caller can rely on, with the session it leaves.\<close>

definition page_done :: "TypeInfo option \<Rightarrow> ('c, 'z) Session_scheme \<Rightarrow> RowList \<times> Texts \<times> ('c, 'z) Session_scheme \<Rightarrow> bool" where
  "page_done type s res \<longleftrightarrow>
     (case res of (result, tx', s') \<Rightarrow> session_ok s' \<and> t_depth s' = t_depth s \<and> page_ok type result)"

lemma db_search_ok:
  assumes "session_ok s" "\<forall>n b. alloc n = Some b \<longrightarrow> length b = n"
  shows "page_done type s (db_search api row_of to_double busy_ms tries alloc type query tx s)"
proof -
  define sz where "sz = (if dq_size query = 0 then 20 else dq_size query)"
  define r0 where "r0 = \<lparr>rl_type = type, rl_items = None, rl_count = 0, rl_page = dq_page query, rl_size = sz, rl_has_more = False\<rparr>"
  define q where "q block sql args =
    (case db_query_many api row_of to_double busy_ms tries type (Some block) (sz + 1) (Some sql) args tx s of
       (found, items, tx1, s1) \<Rightarrow>
         if found < 0 then (r0\<lparr>rl_items := items\<rparr>, tx1, fail_in 500 ''query failed'' s1)
         else (page_result r0 sz (the items) found, tx1, s1))" for block sql args
  have q: "page_done type s (q block sql args)"
    if "type = Some t" "alloc (nat (sz + 1) * unat (ti_size t)) = Some block" "\<not> sz < 1" for t block sql args
  proof -
    obtain found items tx1 s1 where m: "db_query_many api row_of to_double busy_ms tries type (Some block) (sz + 1) (Some sql) args tx s =
        (found, items, tx1, s1)" by (metis prod_cases4)
    have l: "length block = nat (sz + 1) * unat (ti_size t)" using assms(2) that(2) by blast
    have "1 \<le> sz" using that(3) by simp
    note p = query_page_ok [OF assms(1) l this m [unfolded that(1)], of r0]
    show ?thesis using m p that(1) by (auto simp: q_def page_done_def fail_in_ok r0_def)
  qed
  have e: "page_done type s (r0, tx, fail_in status message s)" "page_done type s (r0, tx, s)" for status message
    using assms(1) by (simp_all add: page_done_def fail_in_ok page_ok_def r0_def)
  show ?thesis
  proof (cases type)
    case None
    then show ?thesis using assms(1) by (simp add: db_search_def page_done_def fail_in_ok page_ok_def Let_def)
  next
    case (Some t)
    have leaf: "page_done type s (case alloc (nat (sz + 1) * unat (ti_size t)) of
        None \<Rightarrow> (r0, tx, fail_in 500 ''request allocation failed'' s) | Some block \<Rightarrow> q block sql args)" if "\<not> sz < 1" for sql args
      using q [OF Some _ that] e(1) by (cases "alloc (nat (sz + 1) * unat (ti_size t))") simp_all
    have sent: "page_done type s (case st of Inl None \<Rightarrow> (r0, tx, s) | Inl (Some (status, message)) \<Rightarrow> (r0, tx, fail_in status message s)
        | Inr (sql, args) \<Rightarrow> (case alloc (nat (sz + 1) * unat (ti_size t)) of
            None \<Rightarrow> (r0, tx, fail_in 500 ''request allocation failed'' s) | Some block \<Rightarrow> q block sql args))" if "\<not> sz < 1" for st
    proof (cases st)
      case (Inl r)
      then show ?thesis using e by (cases r) auto
    next
      case (Inr r)
      then show ?thesis using leaf [OF that] by (cases r) simp
    qed
    show ?thesis
      unfolding db_search_def Let_def sz_def [symmetric] Some option.case
      unfolding Some [symmetric] r0_def [symmetric] q_def [symmetric]
      by (simp only: e(1) sent option.case prod.case split: if_split option.split) (simp add: e sent)
  qed
qed

lemma db_query_page_ok:
  assumes "session_ok s" "\<forall>n b. alloc n = Some b \<longrightarrow> length b = n"
  shows "page_done type s (db_query_page api row_of to_double busy_ms tries alloc type key flt i page sz tx s)"
proof -
  define r0 where "r0 = \<lparr>rl_type = type, rl_items = None, rl_count = 0, rl_page = page, rl_size = sz, rl_has_more = False\<rparr>"
  define q where "q block sql args =
    (case db_query_many api row_of to_double busy_ms tries type (Some block) (sz + 1) (Some sql) args tx s of
       (found, items, tx1, s1) \<Rightarrow>
         if found < 0 \<or> found > sz + 1 then (r0\<lparr>rl_items := items\<rparr>, tx1, fail_in 500 ''collection query failed'' s1)
         else (page_result r0 sz (the items) found, tx1, s1))" for block sql args
  have q: "page_done type s (q block sql args)"
    if "type = Some t" "alloc (nat (sz + 1) * unat (ti_size t)) = Some block" "\<not> sz < 1" for t block sql args
  proof -
    obtain found items tx1 s1 where m: "db_query_many api row_of to_double busy_ms tries type (Some block) (sz + 1) (Some sql) args tx s =
        (found, items, tx1, s1)" by (metis prod_cases4)
    have l: "length block = nat (sz + 1) * unat (ti_size t)" using assms(2) that(2) by blast
    have "1 \<le> sz" using that(3) by simp
    note p = query_page_ok [OF assms(1) l this m [unfolded that(1)], of r0]
    show ?thesis using m p that(1) by (auto simp: q_def page_done_def fail_in_ok r0_def)
  qed
  have e: "page_done type s (r0, tx, fail_in status message s)" "page_done type s (r0\<lparr>rl_items := b\<rparr>, tx, fail_in status message s)" for status message b
    using assms(1) by (simp_all add: page_done_def fail_in_ok page_ok_def r0_def)
  show ?thesis
  proof (cases type)
    case None
    then show ?thesis using assms(1) by (simp add: db_query_page_def page_done_def fail_in_ok page_ok_def Let_def)
  next
    case (Some t)
    have leaf: "page_done type s (case alloc (nat (sz + 1) * unat (ti_size t)) of
        None \<Rightarrow> (r0, tx, fail_in 500 ''request allocation failed'' s)
      | Some block \<Rightarrow> if P then (r0\<lparr>rl_items := Some block\<rparr>, tx, fail_in 500 ''collection SQL overflow'' s) else q block sql args)"
      if "\<not> sz < 1" for P sql args
      using q [OF Some _ that] e by (cases "alloc (nat (sz + 1) * unat (ti_size t))") simp_all
    show ?thesis
      unfolding db_query_page_def Let_def Some option.case
      unfolding Some [symmetric] r0_def [symmetric] q_def [symmetric]
      by (simp add: e leaf)
  qed
qed

section \<open>The promises\<close>

text \<open>C15: A search cannot be turned into another statement. The text sent to the database is the one reference text for
  the names of the fields, the operators and the direction: every filter names a field of the type, with a known
  operator and a value of the kind of the field, every name is a plain identifier, there is exactly one placeholder
  per argument, and the values appear among the arguments only.\<close>

theorem search_statement_safe:
  assumes "search_statement t query key order sz = Inr (sql, args)"
    and "name_safe (ti_name t)" "name_safe (fi_name key)" "name_safe (fi_name order)"
  shows "(let fs = take (nat (dq_count query)) (dq_filters query) in
      list_all (filter_allowed t) fs \<and>
      sql = search_text (ti_name t) (map clause_of fs) (fi_name order) (dq_descending query) (fi_name key) \<and>
      args = map df_value (filter (\<lambda>f. sa_kind (df_value f) \<noteq> None) fs) @ [sql_value_int (sz + 1), sql_value_int (dq_page query * sz)]) \<and>
    count_list sql (CHR ''?'') = length args \<and> length sql < DB_MAX_SQL"
  using search_statement_text [OF assms] by (simp add: Let_def)

definition demo_query :: DbQuery where
  "demo_query = \<lparr>dq_filters = [\<lparr>df_field = Some ''id'', df_op = Some ''='', df_value = sql_value_int 5\<rparr>], dq_count = 1,
     dq_order = None, dq_descending = False, dq_page = 0, dq_size = 10\<rparr>"

definition demo_key :: FieldInfo where
  "demo_key = FieldInfo (Some ''id'') FIELD_INT 0 4 FIELD_PRIMARY_KEY None None None no_rules"

definition demo_search_type :: TypeInfo where
  "demo_search_type = TypeInfo (Some ''Note'') 4 (Some [demo_key])"

lemma demo_names: "name_safe (Some ''id'')" "name_safe (Some ''Note'')"
  by (simp_all add: name_safe_def ident_start_def ident_char_def is_upper_def is_lower_def byte_def)

theorem search_statement_safe_witness:
  "\<exists>sql args. search_statement demo_search_type demo_query demo_key demo_key 10 = Inr (sql, args) \<and>
     count_list sql (CHR ''?'') = 3 \<and> length args = 3"
proof -
  have "find_field demo_search_type (Some ''id'') = Some demo_key"
    using demo_names by (simp add: find_field_def demo_search_type_def demo_key_def fields_of_def)
  then obtain sql args where r: "search_statement demo_search_type demo_query demo_key demo_key 10 = Inr (sql, args)"
    by (simp add: search_statement_def demo_query_def filter_valid_def demo_key_def demo_search_type_def quoted_ident_def str_of_def
        append_sql_def sql_value_int_def Let_def)
  have n: "name_safe (ti_name demo_search_type)" "name_safe (fi_name demo_key)" using demo_names by (simp_all add: demo_search_type_def demo_key_def)
  note s = search_statement_safe [OF r n(1) n(2) n(2)]
  have "length args = 3" using s by (simp add: demo_query_def Let_def sql_value_int_def)
  then show ?thesis using s r by simp
qed



end
