(* ===== verification/Spec2Isabelle.thy ===== *)
theory Spec2Isabelle
  imports Dyn_Buf Arena Http Config Route Response Json_Keys Url Auth Conn_Queue Cors Read_Request Static_Files
    Template Validation Serve_Framing Rows Body_Read Search
begin

text \<open>
  Verification of the Gargantua web framework (C sources under \<open>src/\<close>).
\<close>

end
